(* ===== verification/Litmus_Base.thy ===== *)
theory Litmus_Base
  imports Main "HOL-Library.Word" "HOL-Library.Multiset"
begin

section \<open>Prelude: results, machine integers, lists\<close>

text \<open>
  Shared ground of the development.  The C code under \<^verbatim>\<open>src/litmus/libdir\<close> is modelled
  for an LP64 target: \<open>int\<close> has 32 bits, \<open>long\<close>, \<open>size_t\<close>, \<open>intmax_t\<close> and pointers 64.
  Unsigned integers whose wrap-around matters are words; loop indices and array lengths,
  which stay far inside the range of \<open>int\<close>, are \<open>nat\<close> or \<open>int\<close>.

  A C call ends in one of the ways of \<open>c_error\<close> or returns a value: \<open>Inl\<close> carries the
  ending, \<open>Inr\<close> the value.
\<close>

unbundle bit_operations_syntax

type_synonym u32 = "32 word"
type_synonym u64 = "64 word"

datatype c_error =
    Usage               \<comment> \<open>the usage message is printed, \<open>exit(2)\<close>\<close>
  | Fatal string        \<comment> \<open>\<open>fatal(msg)\<close>: \<open>exit(1)\<close>\<close>
  | Errexit string      \<comment> \<open>\<open>errexit(msg,err)\<close>: \<open>exit(2)\<close>\<close>
  | Undefined           \<comment> \<open>undefined behaviour: access out of bounds, division by zero\<close>
  | Diverges            \<comment> \<open>the call does not return\<close>

type_synonym 'a res = "c_error + 'a"

fun bind_res :: "'e + 'a \<Rightarrow> ('a \<Rightarrow> 'e + 'b) \<Rightarrow> 'e + 'b" where
  "bind_res (Inl e) f = Inl e"
| "bind_res (Inr x) f = f x"

named_theorems res_simps "rewriting with results"
named_theorems c_arith "machine arithmetic read as nat or int"

lemma bind_res_Inr_iff [res_simps]:
  "bind_res x f = Inr y \<longleftrightarrow> (\<exists>a. x = Inr a \<and> f a = Inr y)"
  by (cases x) auto

lemma bind_res_Inl_iff [res_simps]:
  "bind_res x f = Inl e \<longleftrightarrow> x = Inl e \<or> (\<exists>a. x = Inr a \<and> f a = Inl e)"
  by (cases x) auto

lemma bind_res_assoc [res_simps]:
  "bind_res (bind_res x f) g = bind_res x (\<lambda>a. bind_res (f a) g)"
  by (cases x) auto

text \<open>A computation that may not return becomes the result \<open>Diverges\<close>.\<close>

fun of_option :: "'e \<Rightarrow> 'a option \<Rightarrow> 'e + 'a" where
  "of_option e None = Inl e"
| "of_option e (Some x) = Inr x"

lemma of_option_Inr_iff [res_simps]: "of_option e x = Inr y \<longleftrightarrow> x = Some y"
  by (cases x) auto

text \<open>Checked array access: an index out of range is undefined behaviour.\<close>

definition aget :: "'a list \<Rightarrow> int \<Rightarrow> 'a res" where
  "aget xs i = (if 0 \<le> i \<and> i < int (length xs) then Inr (xs ! nat i) else Inl Undefined)"

definition aset :: "'a list \<Rightarrow> int \<Rightarrow> 'a \<Rightarrow> 'a list res" where
  "aset xs i x = (if 0 \<le> i \<and> i < int (length xs) then Inr (xs[nat i := x]) else Inl Undefined)"

lemma aget_Inr_iff [res_simps]:
  "aget xs i = Inr x \<longleftrightarrow> 0 \<le> i \<and> i < int (length xs) \<and> x = xs ! nat i"
  by (auto simp: aget_def)

lemma aget_nat [simp]: "i < length xs \<Longrightarrow> aget xs (int i) = Inr (xs ! i)"
  by (simp add: aget_def)

lemma aset_Inr_iff [res_simps]:
  "aset xs i x = Inr ys \<longleftrightarrow> 0 \<le> i \<and> i < int (length xs) \<and> ys = xs[nat i := x]"
  by (auto simp: aset_def)

lemma aset_nat [simp]: "i < length xs \<Longrightarrow> aset xs (int i) x = Inr (xs[i := x])"
  by (simp add: aset_def)

subsection \<open>Sums that do not wrap\<close>

lemma unat_add_len: "unat a + unat b < 2 ^ LENGTH('a) \<Longrightarrow> unat (a + b :: 'a::len word) = unat a + unat b"
  by (simp add: unat_plus_simple [THEN iffD1] no_olen_add_nat)

lemma unat_add [c_arith]: "unat a + unat b < 2 ^ 64 \<Longrightarrow> unat (a + b :: u64) = unat a + unat b"
  by (rule unat_add_len) simp

lemma unat_add32 [c_arith]: "unat a + unat b < 2 ^ 32 \<Longrightarrow> unat (a + b :: u32) = unat a + unat b"
  by (rule unat_add_len) simp

subsection \<open>Swapping two cells of an array\<close>

definition swap :: "'a list \<Rightarrow> nat \<Rightarrow> nat \<Rightarrow> 'a list" where
  "swap xs i j = xs[i := xs ! j, j := xs ! i]"

lemma length_swap [simp]: "length (swap xs i j) = length xs"
  by (simp add: swap_def)

lemma mset_swap_cells [simp]:
  assumes "i < length xs" and "j < length xs"
  shows "mset (swap xs i j) = mset xs"
  unfolding swap_def using assms by (simp add: mset_swap)

lemma nth_swap_other: "l \<noteq> i \<Longrightarrow> l \<noteq> j \<Longrightarrow> swap xs i j ! l = xs ! l"
  by (simp add: swap_def)

end
