(* ===== verification/Rand.thy ===== *)
theory Rand
  imports Litmus_Base
begin

section \<open>The pseudo random generator (\<^verbatim>\<open>_litmus_rand.c\<close>)\<close>

text \<open>
  A linear congruential generator modulo \<open>2^32\<close> whose output swaps the two half words.
  \<open>rand_k\<close> draws until the draw falls in a complete block of \<open>k\<close> consecutive values, so
  its loop has no bound in the code.  It is a \<open>partial_function\<close>, and the theory proves
  that it always returns: the generator visits all \<open>2^32\<close> states (the multiplier is 1 modulo
  4 and the increment is odd), hence also one whose output is accepted.
\<close>

unbundle bit_operations_syntax

type_synonym st_t = u32

definition lcg_a :: u32 where "lcg_a = 69069"

definition lcg_c :: u32 where "lcg_c = 25173"

definition r_max :: u32 where "r_max = 0xFFFFFFFF"

definition lcg_step :: "u32 \<Rightarrow> u32" where
  "lcg_step st = lcg_a * st + lcg_c"

definition swap_half :: "u32 \<Rightarrow> u32" where
  "swap_half r = (let low = r AND 0xffff; high = drop_bit 16 r in high OR push_bit 16 low)"

text \<open>The result and the state left in \<open>*st\<close>.\<close>

definition unlocked_rand :: "st_t \<Rightarrow> u32 \<times> st_t" where
  "unlocked_rand st = (let r = lcg_step st in (swap_half r, r))"

definition rand_bit :: "st_t \<Rightarrow> u32 \<times> st_t" where
  "rand_bit st = (let (r, st') = unlocked_rand st in (r AND 1, st'))"

text \<open>The exit test of the loop: \<open>v\<close> is the draw \<open>r\<close> modulo \<open>k\<close>.\<close>

definition rejected :: "u32 \<Rightarrow> u32 \<Rightarrow> bool" where
  "rejected k r \<longleftrightarrow> r - r mod k > r_max - k + 1"

partial_function (option) rand_loop :: "st_t \<Rightarrow> u32 \<Rightarrow> (u32 \<times> st_t) option" where
  "rand_loop st k =
     (if rejected k (fst (unlocked_rand st))
      then rand_loop (snd (unlocked_rand st)) k
      else Some (fst (unlocked_rand st) mod k, snd (unlocked_rand st)))"

text \<open>For \<open>k = 0\<close> the remainder is undefined: no result.\<close>

definition rand_k :: "st_t \<Rightarrow> u32 \<Rightarrow> (u32 \<times> st_t) option" where
  "rand_k st k = (if k = 0 then None else rand_loop st k)"

subsection \<open>The generator visits every state\<close>

text \<open>Geometric sums \<open>1 + a + \<dots> + a^(m-1)\<close> have exactly the 2-adic valuation of \<open>m\<close>.\<close>

fun gsum :: "nat \<Rightarrow> nat \<Rightarrow> nat" where
  "gsum a 0 = 0"
| "gsum a (Suc m) = 1 + a * gsum a m"

lemma gsum_add: "gsum a (m + n) = gsum a m + a ^ m * gsum a n"
  by (induction m) (auto simp: algebra_simps)

lemma gsum_double: "gsum a (2 * m) = gsum a m * (1 + a ^ m)"
proof -
  have "2 * m = m + m" by simp
  then show ?thesis by (simp only: gsum_add) (simp add: algebra_simps)
qed

lemma pow_mod4: "a mod 4 = 1 \<Longrightarrow> a ^ m mod 4 = (1::nat)"
  by (induction m) (simp_all add: mod_mult_eq [symmetric])

lemma one_plus_pow:
  assumes "a mod 4 = (1::nat)"
  obtains q where "1 + a ^ m = 2 * q" and "odd q"
proof -
  have "a ^ m mod 4 = 1" using assms by (rule pow_mod4)
  then have "1 + a ^ m = 2 * ((1 + a ^ m) div 2)" and "odd ((1 + a ^ m) div 2)"
    by presburger+
  then show ?thesis using that by blast
qed

lemma even_gsum_double: "a mod 4 = 1 \<Longrightarrow> even (gsum a (2 * m))"
  by (metis dvd_mult dvd_triv_left gsum_double one_plus_pow)

lemma pow2_dvd_gsum:
  assumes a: "a mod 4 = (1::nat)"
  shows "2 ^ j dvd gsum a m \<longleftrightarrow> 2 ^ j dvd m"
proof (induction j arbitrary: m)
  case 0
  show ?case by simp
next
  case (Suc j)
  show ?case
  proof (cases "even m")
    case True
    then obtain m' where m: "m = 2 * m'" by blast
    obtain q where q: "1 + a ^ m' = 2 * q" "odd q" using one_plus_pow [OF a] .
    have "gsum a m = 2 * (gsum a m' * q)"
      by (simp only: m gsum_double q mult.left_commute)
    then have "2 ^ Suc j dvd gsum a m \<longleftrightarrow> 2 ^ j dvd gsum a m' * q" by simp
    also have "\<dots> \<longleftrightarrow> 2 ^ j dvd gsum a m'"
      using q(2) by (simp add: coprime_dvd_mult_left_iff)
    also have "\<dots> \<longleftrightarrow> 2 ^ Suc j dvd m" by (simp add: Suc.IH m)
    finally show ?thesis .
  next
    case False
    then obtain m' where m: "m = Suc (2 * m')" by (metis oddE Suc_eq_plus1)
    have "odd (gsum a m)" using even_gsum_double [OF a, of m'] by (simp add: m)
    then have "\<not> 2 ^ Suc j dvd gsum a m" by (metis dvd_mult_left power_Suc)
    moreover have "\<not> 2 ^ Suc j dvd m" using False by (metis dvd_mult_left power_Suc)
    ultimately show ?thesis by blast
  qed
qed

text \<open>Closed form of the iterated step: the displacement is \<open>gsum a m\<close> times an odd word.\<close>

definition disp :: "u32 \<Rightarrow> u32" where "disp x = 69068 * x + lcg_c"

lemma lcg_iter: "(lcg_step ^^ m) x = x + of_nat (gsum 69069 m) * disp x"
proof (induction m)
  case 0
  show ?case by simp
next
  case (Suc m)
  have "(lcg_step ^^ Suc m) x = 69069 * (x + of_nat (gsum 69069 m) * disp x) + lcg_c"
    by (simp add: Suc.IH lcg_step_def lcg_a_def)
  also have "\<dots> = x + of_nat (gsum 69069 (Suc m)) * disp x"
    by (simp add: disp_def algebra_simps)
  finally show ?case .
qed

lemma even_unat_iff: "even (unat (w :: u32)) \<longleftrightarrow> even w"
  by (metis even_of_nat mult.right_neutral unsigned_1 word_arith_nat_mult)

lemma odd_disp: "odd (unat (disp x))"
  by (simp add: even_unat_iff disp_def lcg_c_def)

lemma coprime_disp: "coprime (2 ^ 32) (unat (disp x))"
  using odd_disp [of x] by (simp only: coprime_power_left_iff coprime_left_2_iff_odd) simp

lemma of_nat_word_eq_0_iff': "(of_nat n :: 32 word) = 0 \<longleftrightarrow> 2 ^ 32 dvd n"
  by (simp add: word_of_nat_eq_0_iff)

lemma lcg_iter_fixed: "(lcg_step ^^ m) x = x \<longleftrightarrow> 2 ^ 32 dvd m"
proof -
  have "(lcg_step ^^ m) x = x \<longleftrightarrow> of_nat (gsum 69069 m * unat (disp x)) = (0 :: u32)"
    by (simp add: lcg_iter)
  also have "\<dots> \<longleftrightarrow> 2 ^ 32 dvd gsum 69069 m * unat (disp x)"
    by (rule of_nat_word_eq_0_iff')
  also have "\<dots> \<longleftrightarrow> 2 ^ 32 dvd gsum 69069 m"
    by (rule coprime_dvd_mult_left_iff [OF coprime_disp])
  also have "\<dots> \<longleftrightarrow> 2 ^ 32 dvd m" by (rule pow2_dvd_gsum) simp
  finally show ?thesis .
qed

lemma lcg_orbit_inj: "inj_on (\<lambda>m. (lcg_step ^^ m) x) {..<2 ^ 32}"
proof (rule linorder_inj_onI')
  fix i j :: nat
  assume ij: "i < j" "i \<in> {..<2 ^ 32}" "j \<in> {..<2 ^ 32}"
  show "(lcg_step ^^ i) x \<noteq> (lcg_step ^^ j) x"
  proof
    assume "(lcg_step ^^ i) x = (lcg_step ^^ j) x"
    then have "(lcg_step ^^ (j - i)) ((lcg_step ^^ i) x) = (lcg_step ^^ i) x"
      using ij(1) by (metis funpow_add comp_apply le_add_diff_inverse2 less_imp_le)
    then have "2 ^ 32 dvd j - i" by (simp only: lcg_iter_fixed)
    then show False using ij by (auto dest: dvd_imp_le)
  qed
qed

lemma lcg_orbit_full: "(\<lambda>m. (lcg_step ^^ m) x) ` {..<2 ^ 32} = UNIV"
proof (rule card_subset_eq)
  show "card ((\<lambda>m. (lcg_step ^^ m) x) ` {..<2 ^ 32}) = card (UNIV :: u32 set)"
    by (simp only: card_image [OF lcg_orbit_inj] card_word card_lessThan) simp
qed auto


subsection \<open>Termination of \<^verbatim>\<open>rand_k\<close>\<close>

lemma swap_half_0 [simp]: "swap_half 0 = 0"
  by (simp add: swap_half_def)

lemma not_rejected_0: "k \<noteq> 0 \<Longrightarrow> \<not> rejected k 0"
  by (simp add: rejected_def)

lemma draw_zero: "\<exists>m. (lcg_step ^^ Suc m) st = 0"
proof -
  have "0 \<in> (\<lambda>m. (lcg_step ^^ m) (lcg_step st)) ` {..<2 ^ 32}"
    by (simp only: lcg_orbit_full UNIV_I)
  then obtain m where "(lcg_step ^^ m) (lcg_step st) = 0" by (simp only: image_iff) metis
  then have "(lcg_step ^^ Suc m) st = 0" by (simp only: funpow_Suc_right comp_apply)
  then show ?thesis ..
qed

lemma rand_loop_reaches:
  "\<not> rejected k (swap_half ((lcg_step ^^ Suc m) st)) \<Longrightarrow> \<exists>r. rand_loop st k = Some r"
proof (induction m arbitrary: st)
  case 0
  then show ?case by (subst rand_loop.simps) (simp add: unlocked_rand_def Let_def)
next
  case (Suc m)
  have "\<not> rejected k (swap_half ((lcg_step ^^ Suc m) (lcg_step st)))"
    using Suc.prems by (simp only: funpow_Suc_right [of "Suc m"] comp_apply not_False_eq_True)
  then have "\<exists>r. rand_loop (lcg_step st) k = Some r" by (rule Suc.IH)
  then show ?case by (subst rand_loop.simps) (auto simp: unlocked_rand_def Let_def)
qed

lemma rand_loop_returns: "k \<noteq> 0 \<Longrightarrow> \<exists>r. rand_loop st k = Some r"
  using draw_zero [of st] rand_loop_reaches not_rejected_0 by (metis swap_half_0)

lemma rand_loop_result:
  assumes "rand_loop st k = Some (v, st')"
  shows "\<exists>r. \<not> rejected k r \<and> v = r mod k"
proof (rule rand_loop.raw_induct
    [where P = "\<lambda>st k (v, st'). \<exists>r. \<not> rejected k r \<and> v = r mod k", OF _ assms, simplified])
  fix f st k r
  assume "\<And>st k r. f st k = Some r \<Longrightarrow> case r of (v, st') \<Rightarrow> \<exists>r. \<not> rejected k r \<and> v = r mod k"
    and "(if rejected k (fst (unlocked_rand st)) then f (snd (unlocked_rand st)) k
      else Some (fst (unlocked_rand st) mod k, snd (unlocked_rand st))) = Some r"
  then show "case r of (v, st') \<Rightarrow> \<exists>r. \<not> rejected k r \<and> v = r mod k"
    by (auto split: if_splits)
qed

lemma rand_k_returns: "k \<noteq> 0 \<Longrightarrow> \<exists>v st'. rand_k st k = Some (v, st') \<and> v < k"
proof -
  assume k: "k \<noteq> 0"
  obtain v st' where r: "rand_loop st k = Some (v, st')" using rand_loop_returns [OF k] by force
  obtain w where "v = w mod k" using rand_loop_result [OF r] by blast
  then have "v < k" using k by (simp add: word_mod_less_divisor word_gt_0)
  with r k show ?thesis by (simp add: rand_k_def)
qed

lemma rand_k_0 [simp]: "rand_k st 0 = None"
  by (simp add: rand_k_def)

subsection \<open>The draw is unbiased\<close>

text \<open>A draw is accepted exactly when its block of \<open>k\<close> values is complete.\<close>

lemma accepted_iff_block:
  assumes "k \<noteq> 0"
  shows "\<not> rejected k r \<longleftrightarrow> unat r div unat k < 2 ^ 32 div unat k"
proof -
  have k: "0 < unat k" "unat k < 2 ^ 32"
    using assms unsigned_less [of k] by (simp_all add: unat_gt_0)
  have "r mod k \<le> r" by (simp add: word_le_nat_alt unat_mod_distrib)
  then have "unat (r - r mod k) = unat r - unat r mod unat k"
    by (simp add: unat_sub unat_mod_distrib)
  then have lhs: "unat (r - r mod k) = unat k * (unat r div unat k)"
    by (simp add: minus_mod_eq_mult_div)
  have "r_max - k + 1 = 0 - k" by (simp add: r_max_def)
  moreover have "unat (0 - k) = 2 ^ 32 - unat k"
    using assms by (simp add: unat_sub_if' unat_eq_0 del: diff_0)
  ultimately have "unat (r_max - k + 1) = 2 ^ 32 - unat k" by (simp only:)
  then have "\<not> rejected k r \<longleftrightarrow> unat k * (unat r div unat k) \<le> 2 ^ 32 - unat k"
    by (simp add: rejected_def word_less_nat_alt lhs not_less)
  also have "\<dots> \<longleftrightarrow> unat k * Suc (unat r div unat k) \<le> 2 ^ 32"
    using k by auto
  also have "\<dots> \<longleftrightarrow> Suc (unat r div unat k) \<le> 2 ^ 32 div unat k"
    using k(1) by (simp only: less_eq_div_iff_mult_less_eq mult.commute)
  finally show ?thesis by (simp only: Suc_le_eq)
qed

lemma of_nat_div_word: "of_nat (unat r div unat k) = (r div k :: u32)"
  by (simp add: word_arith_nat_div)

lemma unbiased_blocks:
  assumes v: "v < k"
  shows "card {r. \<not> rejected k r \<and> r mod k = v} = 2 ^ 32 div unat k"
proof -
  let ?n = "2 ^ 32 div unat k :: nat"
  let ?f = "\<lambda>q. of_nat (q * unat k + unat v) :: u32"
  have k0: "k \<noteq> 0" and vk: "unat v < unat k"
    using v by (auto simp: word_less_nat_alt)
  have fit: "q * unat k + unat v < 2 ^ 32" if "q < ?n" for q
  proof -
    have "q * unat k + unat v < Suc q * unat k" using vk by simp
    also have "\<dots> \<le> ?n * unat k" using that by (intro mult_le_mono1) simp
    also have "\<dots> \<le> 2 ^ 32" by simp
    finally show ?thesis .
  qed
  have unat_f: "unat (?f q) = q * unat k + unat v" if "q < ?n" for q
    using fit [OF that] by (subst unsigned_of_nat) (simp add: take_bit_nat_eq_self)
  have "bij_betw ?f {..<?n} {r. \<not> rejected k r \<and> r mod k = v}"
  proof (rule bij_betw_byWitness [where f' = "\<lambda>r. unat r div unat k"])
    show "\<forall>q\<in>{..<?n}. unat (?f q) div unat k = q" using vk unat_f by auto
    show "\<forall>r\<in>{r. \<not> rejected k r \<and> r mod k = v}. ?f (unat r div unat k) = r"
      by (auto simp: unat_mod_distrib of_nat_div_word div_mult_mod_eq)
    show "?f ` {..<?n} \<subseteq> {r. \<not> rejected k r \<and> r mod k = v}"
    proof
      fix r assume "r \<in> ?f ` {..<?n}"
      then obtain q where q: "q < ?n" and r: "unat r = q * unat k + unat v"
        using unat_f by auto
      have "unat (r mod k) = unat v" using vk by (simp add: unat_mod_distrib r)
      then have "r mod k = v" by (simp only: word_unat_eq_iff)
      then show "r \<in> {r. \<not> rejected k r \<and> r mod k = v}"
        using q vk by (simp add: accepted_iff_block [OF k0] r)
    qed
    show "(\<lambda>r. unat r div unat k) ` {r. \<not> rejected k r \<and> r mod k = v} \<subseteq> {..<?n}"
      by (auto simp: accepted_iff_block [OF k0])
  qed
  then show ?thesis using bij_betw_same_card by fastforce
qed


text \<open>One step of the generator and the swap of the half words are bijections.\<close>

lemma lcg_step_inj: "inj lcg_step"
proof (rule injI)
  fix x y assume eq: "lcg_step x = lcg_step y"
  have id: "(lcg_step ^^ (2 ^ 32)) z = z" for z by (simp only: lcg_iter_fixed dvd_refl)
  have "(lcg_step ^^ Suc (2 ^ 32 - 1)) x = (lcg_step ^^ Suc (2 ^ 32 - 1)) y"
    by (simp only: funpow_Suc_right comp_apply eq)
  moreover have "Suc (2 ^ 32 - 1) = 2 ^ 32" by simp
  ultimately show "x = y" by (simp only: id)
qed

lemma mask16: "(r :: u32) AND 0xffff = take_bit 16 r"
  by (simp add: take_bit_eq_mask mask_numeral)

lemma bit_swap_half:
  "n < 32 \<Longrightarrow> bit (swap_half r) n \<longleftrightarrow> bit r (if n < 16 then n + 16 else n - 16)"
  unfolding swap_half_def Let_def mask16
  by (auto simp only: bit_or_iff bit_drop_bit_eq bit_push_bit_iff bit_take_bit_iff comp_apply
      add.commute possible_bit_word len_num1 len_bit0 dest: bit_imp_le_length split: if_splits)

lemma swap_half_involution: "swap_half (swap_half r) = r"
proof (rule bit_word_eqI)
  fix n assume "n < LENGTH(32)"
  then have n: "n < 32" by simp
  show "bit (swap_half (swap_half r)) n \<longleftrightarrow> bit r n"
  proof (cases "n < 16")
    case True
    then show ?thesis by (simp add: bit_swap_half)
  next
    case False
    then show ?thesis using n by (simp add: bit_swap_half less_diff_conv2)
  qed
qed

lemma bij_draw: "bij (\<lambda>st. fst (unlocked_rand st))"
proof -
  have "inj swap_half" by (metis injI swap_half_involution)
  then have "inj (\<lambda>st. swap_half (lcg_step st))"
    using inj_compose [OF _ lcg_step_inj, of swap_half] by (simp add: comp_def)
  then show ?thesis
    by (simp add: unlocked_rand_def Let_def bij_def finite_UNIV_inj_surj)
qed

subsection \<open>The contract of a source of bounded random numbers\<close>

text \<open>
  What the shuffles and the thread placement rely on: a draw below a non-zero bound returns,
  and returns a value below the bound.
\<close>

locale bounded_source =
  fixes rnd :: "'s \<Rightarrow> u32 \<Rightarrow> (u32 \<times> 's) option"
  assumes rnd_total: "k \<noteq> 0 \<Longrightarrow> \<exists>v s'. rnd s k = Some (v, s') \<and> v < k"
begin

lemma rnd_bound: "rnd s k = Some (v, s') \<Longrightarrow> k \<noteq> 0 \<Longrightarrow> v < k"
  using rnd_total [of k s] by auto

lemma rnd_nat:
  assumes "0 < n" and "n < 2 ^ 32"
  obtains v s' where "rnd s (of_nat n) = Some (v, s')" and "unat v < n"
proof -
  have n: "unat (of_nat n :: u32) = n"
    using assms(2) by (simp add: unsigned_of_nat take_bit_nat_eq_self)
  then have "(of_nat n :: u32) \<noteq> 0" using assms(1) by (metis less_numeral_extra(3) unsigned_0)
  from rnd_total [OF this, of s] n that show ?thesis by (auto simp: word_less_nat_alt)
qed

end

interpretation lcg: bounded_source rand_k
  by unfold_locales (rule rand_k_returns)

subsection \<open>Properties\<close>

text \<open>
  C28: a call \<open>rand_k(st,k)\<close> with a non-zero bound returns from every state, with a value
  strictly below the bound: the rejection loop always ends.
\<close>

theorem rand_k_total:
  assumes "k \<noteq> 0"
  shows "\<exists>v st'. rand_k st k = Some (v, st') \<and> v < k"
  using assms by (rule rand_k_returns)

theorem rand_k_total_witness:
  "\<exists>v st'. rand_k 17 3 = Some (v, st') \<and> v < 3"
  by (rule rand_k_total) simp

text \<open>
  The generator has full period: from any state, the \<open>2^32\<close> first iterates of the step are
  all the states, each once.
\<close>

theorem lcg_full_period:
  "bij_betw (\<lambda>m. (lcg_step ^^ m) st) {..<2 ^ 32} (UNIV :: st_t set)"
  unfolding bij_betw_def using lcg_orbit_inj lcg_orbit_full by blast

text \<open>
  C29: the draw of \<open>rand_k\<close> is unbiased: each value below \<open>k\<close> is the accepted outcome of the
  first draw for exactly the same number of generator states, \<open>2^32 div k\<close>.
\<close>

theorem rand_k_unbiased:
  assumes "v < k"
  shows "card {st. \<not> rejected k (fst (unlocked_rand st)) \<and> fst (unlocked_rand st) mod k = v}
    = 2 ^ 32 div unat k"
proof -
  let ?A = "{r. \<not> rejected k r \<and> r mod k = v}"
  have "card ((\<lambda>st. fst (unlocked_rand st)) -` ?A) = card ?A"
    using bij_draw by (intro card_vimage_inj) (auto simp: bij_def)
  then show ?thesis using unbiased_blocks [OF assms] by (simp add: vimage_def)
qed

theorem rand_k_unbiased_witness:
  "card {st. \<not> rejected 3 (fst (unlocked_rand st)) \<and> fst (unlocked_rand st) mod 3 = 2}
    = 1431655765"
  using rand_k_unbiased [of 2 3] by simp

end
