(* ===== verification/Perm.thy ===== *)
theory Perm
  imports Rand
begin

section \<open>Shuffles of arrays (\<^verbatim>\<open>_utils.c\<close>, \<^verbatim>\<open>_presi.c\<close>)\<close>

text \<open>
  The four copies of the forward Fisher-Yates loop in \<^verbatim>\<open>_utils.c\<close> (over integers, functions,
  one-place buffers and threads), the interval functions of \<^verbatim>\<open>_presi.c\<close> and the test
  \<open>check_shuffle\<close>.  All the shuffles run one loop, with two bounds: the range \<open>b\<close> of the
  random draw and the number \<open>m\<close> of exchanged positions.  \<open>None\<close> is an access out of
  bounds or a draw without result.
\<close>

function perm_from ::
  "('s \<Rightarrow> u32 \<Rightarrow> (u32 \<times> 's) option) \<Rightarrow> nat \<Rightarrow> nat \<Rightarrow> nat \<Rightarrow> 's \<Rightarrow> 'a list \<Rightarrow> ('a list \<times> 's) option"
where
  "perm_from rnd b m k st t =
     (if k < m then
        (case rnd st (of_nat (b - k)) of
           None \<Rightarrow> None
         | Some (v, st') \<Rightarrow>
             (let j = k + unat v in
              if k < length t \<and> j < length t then perm_from rnd b m (Suc k) st' (swap t k j)
              else None))
      else Some (t, st))"
  by pat_completeness auto
termination
  by (relation "measure (\<lambda>(rnd, b, m, k, st, t). m - k)") auto

declare perm_from.simps [simp del]

definition perm_prefix_ints :: "st_t \<Rightarrow> int list \<Rightarrow> nat \<Rightarrow> nat \<Rightarrow> (int list \<times> st_t) option" where
  "perm_prefix_ints st t m n = perm_from rand_k m m 0 st t"

definition perm_ints :: "st_t \<Rightarrow> int list \<Rightarrow> nat \<Rightarrow> (int list \<times> st_t) option" where
  "perm_ints st t n = perm_prefix_ints st t (n - 1) n"

definition perm_funs :: "st_t \<Rightarrow> 'f list \<Rightarrow> nat \<Rightarrow> ('f list \<times> st_t) option" where
  "perm_funs st f n = perm_from rand_k n (n - 1) 0 st f"

definition perm_ops :: "st_t \<Rightarrow> 'op list \<Rightarrow> nat \<Rightarrow> ('op list \<times> st_t) option" where
  "perm_ops st op n = perm_from rand_k n (n - 1) 0 st op"

definition perm_threads :: "st_t \<Rightarrow> 'th list \<Rightarrow> nat \<Rightarrow> ('th list \<times> st_t) option" where
  "perm_threads st th n = perm_from rand_k n (n - 1) 0 st th"

text \<open>
  \<open>interval_init\<close> writes \<open>0, 1, \<dots>, sz-1\<close>.  In \<open>interval_shuffle\<close> the size has type \<open>size_t\<close>, so
  \<open>sz-1\<close> wraps around for \<open>sz = 0\<close>.
\<close>

function interval_init_from :: "nat \<Rightarrow> nat \<Rightarrow> int list \<Rightarrow> int list option" where
  "interval_init_from k sz p =
     (if k < sz then
        (if k < length p then interval_init_from (Suc k) sz (p[k := int k]) else None)
      else Some p)"
  by pat_completeness auto
termination
  by (relation "measure (\<lambda>(k, sz, p). sz - k)") auto

declare interval_init_from.simps [simp del]

definition interval_init :: "int list \<Rightarrow> nat \<Rightarrow> int list option" where
  "interval_init p sz = interval_init_from 0 sz p"

definition interval_shuffle :: "st_t \<Rightarrow> int list \<Rightarrow> nat \<Rightarrow> (int list \<times> st_t) option" where
  "interval_shuffle seed p sz = perm_from rand_k sz (unat (of_nat sz - 1 :: u64)) 0 seed p"

text \<open>The comparison given to \<open>qsort\<close>.\<close>

definition int_cmp :: "int \<Rightarrow> int \<Rightarrow> int" where
  "int_cmp x y = (if x < y then -1 else if x > y then 1 else 0)"

text \<open>
  \<open>check_shuffle(t,min,sz)\<close>: the pointers are given in units of \<open>sizeof(int)\<close>; the difference of
  two pointers is cut to an \<open>int\<close>.  \<open>qsort\<close> with \<open>int_cmp\<close> sorts in ascending order
  (\<open>int_cmp_sort\<close> below).
\<close>

definition check_shuffle :: "int list \<Rightarrow> int \<Rightarrow> nat \<Rightarrow> int" where
  "check_shuffle t mn sz =
     (let idx = sort (map (\<lambda>p. signed_take_bit 31 (p - mn)) (take sz t))
      in if list_all (\<lambda>k. idx ! k = int k) [0..<sz] then 1 else 0)"

subsection \<open>The loop permutes, and always returns\<close>

context bounded_source
begin

lemma perm_from_total:
  assumes "m \<le> b" and "b \<le> length t" and "length t < 2 ^ 31"
  shows "\<exists>t' st'. perm_from rnd b m k st t = Some (t', st') \<and> mset t' = mset t \<and>
    (\<forall>i < length t. i < k \<or> b \<le> i \<longrightarrow> t' ! i = t ! i)"
  using assms
proof (induction "m - k" arbitrary: k st t)
  case 0
  then show ?case by (subst perm_from.simps) auto
next
  case (Suc d)
  then have km: "k < m" by simp
  then have range: "0 < b - k" "b - k < 2 ^ 32" using Suc.prems by auto
  obtain v st' where v: "rnd st (of_nat (b - k)) = Some (v, st')" "unat v < b - k"
    using rnd_nat [OF range, of st] by blast
  define t1 where "t1 = swap t k (k + unat v)"
  have j: "k < length t" "k + unat v < length t" using v(2) km Suc.prems by auto
  have t1: "length t1 = length t" "mset t1 = mset t" using j by (simp_all add: t1_def)
  have "d = m - Suc k" using Suc.hyps(2) by simp
  from Suc.hyps(1) [OF this, of t1 st'] Suc.prems t1(1)
  obtain t2 st2 where t2: "perm_from rnd b m (Suc k) st' t1 = Some (t2, st2)" "mset t2 = mset t1"
    and fix_t2: "\<forall>i < length t1. i < Suc k \<or> b \<le> i \<longrightarrow> t2 ! i = t1 ! i"
    by auto
  have "perm_from rnd b m k st t = Some (t2, st2)"
    using km j v(1) t2(1) by (subst perm_from.simps) (simp add: t1_def del: of_nat_diff)
  moreover have "t2 ! i = t ! i" if "i < length t" "i < k \<or> b \<le> i" for i
  proof -
    have "i \<noteq> k" "i \<noteq> k + unat v" using that(2) v(2) km Suc.prems by auto
    then have "t1 ! i = t ! i" by (simp add: t1_def nth_swap_other)
    moreover have "i < Suc k \<or> b \<le> i" using that(2) by auto
    ultimately show ?thesis using fix_t2 that(1) t1(1) by auto
  qed
  ultimately show ?case using t2(2) t1(2) by auto
qed

end

subsection \<open>Every permutation can be drawn\<close>

text \<open>A source that replays a list of draws.\<close>

fun replay :: "u32 list \<Rightarrow> u32 \<Rightarrow> (u32 \<times> u32 list) option" where
  "replay [] k = None"
| "replay (d # ds) k = (if d < k then Some (d, ds) else None)"

lemma mset_eq_agree_prefix:
  assumes "mset xs = mset ys" and "take k xs = take k ys"
  shows "mset (drop k xs) = mset (drop k ys)"
  using assms by (metis add_left_cancel append_take_drop_id mset_append)

lemma mset_eq_short: "mset xs = mset ys \<Longrightarrow> length xs \<le> Suc 0 \<Longrightarrow> xs = ys"
  by (cases xs) auto

lemma eq_of_prefix_mset:
  assumes m: "mset xs = mset ys" and k: "take k xs = take k ys" "length xs \<le> Suc k"
  shows "xs = ys"
proof -
  have "mset (drop k xs) = mset (drop k ys)" using m k(1) by (rule mset_eq_agree_prefix)
  then have "drop k xs = drop k ys" by (rule mset_eq_short) (use k(2) in simp)
  then show ?thesis using k(1) by (metis append_take_drop_id)
qed

lemma perm_from_complete:
  assumes "mset t = mset ys" and "take k t = take k ys" and "length t < 2 ^ 31" and "k \<le> length t"
  shows "\<exists>ds. perm_from replay (length t) (length t - 1) k ds t = Some (ys, [])"
  using assms
proof (induction "length t - 1 - k" arbitrary: k t)
  case 0
  then have "t = ys" by (intro eq_of_prefix_mset [OF "0.prems"(1,2)]) simp
  then have "perm_from replay (length t) (length t - 1) k [] t = Some (ys, [])"
    using "0.hyps" by (subst perm_from.simps) simp
  then show ?case ..
next
  case (Suc d)
  let ?n = "length t"
  have kn: "k < ?n - 1" "k < ?n" using Suc.hyps(2) by auto
  have "ys ! k \<in># mset (drop k ys)"
    using kn(2) Suc.prems(1) by (metis Cons_nth_drop_Suc list.set_intros(1) mset_eq_length set_mset_mset)
  then have "ys ! k \<in> set (drop k t)"
    using mset_eq_agree_prefix [OF Suc.prems(1,2)] by (metis set_mset_mset)
  then obtain l where l: "k + l < ?n" "t ! (k + l) = ys ! k"
    by (auto simp: in_set_conv_nth less_diff_conv add.commute)
  define t1 where "t1 = swap t k (k + l)"
  have t1: "length t1 = ?n" "mset t1 = mset ys" using l kn Suc.prems(1) by (simp_all add: t1_def)
  have "take (Suc k) t1 = take (Suc k) ys"
  proof (rule nth_equalityI)
    fix i assume "i < length (take (Suc k) t1)"
    then have i: "i \<le> k" using kn t1(1) by simp
    show "take (Suc k) t1 ! i = take (Suc k) ys ! i"
    proof (cases "i = k")
      case True
      then show ?thesis using l kn by (auto simp: t1_def swap_def nth_list_update)
    next
      case False
      then have "t ! i = ys ! i" using i Suc.prems(2) by (metis le_neq_implies_less nth_take)
      then show ?thesis using False i by (simp add: t1_def nth_swap_other)
    qed
  qed (metis t1 length_take mset_eq_length)
  moreover have "d = length t1 - 1 - Suc k" using Suc.hyps(2) t1(1) by simp
  ultimately obtain ds where ds: "perm_from replay ?n (?n - 1) (Suc k) ds t1 = Some (ys, [])"
    using Suc.hyps(1) [of t1 "Suc k"] Suc.prems(3) t1 kn by auto
  have lw: "unat (of_nat l :: u32) = l"
    using l(1) Suc.prems(3) by (simp add: unsigned_of_nat take_bit_nat_eq_self)
  have nk: "unat (of_nat (?n - k) :: u32) = ?n - k"
    using Suc.prems(3) by (simp add: unsigned_of_nat take_bit_nat_eq_self)
  have "replay (of_nat l # ds) (of_nat (?n - k)) = Some (of_nat l, ds)"
    using l(1) lw nk by (simp add: word_less_nat_alt)
  then have "perm_from replay ?n (?n - 1) k (of_nat l # ds) t = Some (ys, [])"
    using kn l(1) lw ds by (subst perm_from.simps) (simp add: t1_def del: of_nat_diff)
  then show ?case ..
qed

subsection \<open>Reading the shuffle test\<close>

lemma interval_init_from_total:
  assumes "length p = sz" and "k \<le> sz"
  shows "interval_init_from k sz p = Some (take k p @ map int [k..<sz])"
  using assms
proof (induction "sz - k" arbitrary: k p)
  case 0
  then show ?case by (subst interval_init_from.simps) auto
next
  case (Suc d)
  then have k: "k < sz" by simp
  have "interval_init_from (Suc k) sz (p[k := int k]) =
      Some (take (Suc k) (p[k := int k]) @ map int [Suc k..<sz])"
    using Suc.hyps(1) [of "Suc k" "p[k := int k]"] Suc.hyps(2) Suc.prems k by auto
  also have "take (Suc k) (p[k := int k]) = take k p @ [int k]"
    using k Suc.prems by (simp add: take_Suc_conv_app_nth)
  finally show ?case
    using k Suc.prems by (subst interval_init_from.simps) (simp add: upt_conv_Cons)
qed

lemma int_cmp_sort: "int_cmp x y \<le> 0 \<longleftrightarrow> x \<le> y"
  by (simp add: int_cmp_def)

lemma sort_eq_upt_iff:
  "sort xs = map int [0..<n] \<longleftrightarrow> mset xs = mset (map int [0..<n])"
proof
  assume "sort xs = map int [0..<n]"
  then show "mset xs = mset (map int [0..<n])" by (metis mset_sort)
next
  have "sorted (map int [0..<n])" by (simp add: sorted_map)
  moreover assume "mset xs = mset (map int [0..<n])"
  ultimately show "sort xs = map int [0..<n]"
    by (metis properties_for_sort)
qed

lemma check_shuffle_sorted:
  assumes "sz \<le> length t"
  shows "check_shuffle t mn sz = 1 \<longleftrightarrow>
    mset (map (\<lambda>p. signed_take_bit 31 (p - mn)) (take sz t)) = mset (map int [0..<sz])"
proof -
  define idx where "idx = sort (map (\<lambda>p. signed_take_bit 31 (p - mn)) (take sz t))"
  have "length idx = sz" using assms by (simp add: idx_def)
  then have "list_all (\<lambda>k. idx ! k = int k) [0..<sz] \<longleftrightarrow> idx = map int [0..<sz]"
    by (auto simp: list_all_iff list_eq_iff_nth_eq [of idx "map int [0..<sz]"])
  moreover have "check_shuffle t mn sz =
      (if list_all (\<lambda>k. idx ! k = int k) [0..<sz] then 1 else 0)"
    unfolding check_shuffle_def Let_def idx_def by (rule refl)
  ultimately have "check_shuffle t mn sz = 1 \<longleftrightarrow> idx = map int [0..<sz]" by simp
  then show ?thesis unfolding idx_def by (simp only: sort_eq_upt_iff)
qed

lemma signed_small: "- (2 ^ 31) \<le> (x :: int) \<Longrightarrow> x < 2 ^ 31 \<Longrightarrow> signed_take_bit 31 x = x"
  by (simp add: signed_take_bit_int_eq_self)

lemma image_shift_upt: "mset (map (\<lambda>p. p - mn) ps) = mset (map int [0..<n]) \<longleftrightarrow>
  mset ps = mset (map (\<lambda>k. mn + int k) [0..<n])"
proof
  assume "mset (map (\<lambda>p. p - mn) ps) = mset (map int [0..<n])"
  then have "image_mset (\<lambda>p. p + mn) (mset (map (\<lambda>p. p - mn) ps)) =
      image_mset (\<lambda>p. p + mn) (mset (map int [0..<n]))" by (rule arg_cong)
  then show "mset ps = mset (map (\<lambda>k. mn + int k) [0..<n])"
    by (simp add: multiset.map_comp comp_def add.commute)
next
  assume "mset ps = mset (map (\<lambda>k. mn + int k) [0..<n])"
  then have "image_mset (\<lambda>p. p - mn) (mset ps) =
      image_mset (\<lambda>p. p - mn) (mset (map (\<lambda>k. mn + int k) [0..<n]))" by (rule arg_cong)
  then show "mset (map (\<lambda>p. p - mn) ps) = mset (map int [0..<n])"
    by (simp add: multiset.map_comp comp_def)
qed

lemma check_shuffle_reads:
  assumes "sz \<le> length t" and "\<forall>p \<in> set (take sz t). mn - 2 ^ 31 \<le> p \<and> p < mn + 2 ^ 31"
  shows "check_shuffle t mn sz = 1 \<longleftrightarrow>
    mset (take sz t) = mset (map (\<lambda>k. mn + int k) [0..<sz])"
proof -
  have "map (\<lambda>p. signed_take_bit 31 (p - mn)) (take sz t) = map (\<lambda>p. p - mn) (take sz t)"
    by (rule map_cong [OF refl]) (use assms(2) in \<open>auto intro!: signed_small\<close>)
  then show ?thesis by (simp only: check_shuffle_sorted [OF assms(1)] image_shift_upt)
qed

lemma limit_pos: "0 < sz \<Longrightarrow> sz < 2 ^ 31 \<Longrightarrow> unat (of_nat sz - 1 :: u64) = sz - 1"
proof -
  assume sz: "0 < sz" "sz < 2 ^ 31"
  have u: "unat (of_nat sz :: u64) = sz" using sz(2) by (simp add: unsigned_of_nat take_bit_nat_eq_self)
  then have "(of_nat sz :: u64) \<noteq> 0" using sz(1) by (metis less_numeral_extra(3) unsigned_0)
  then show ?thesis using u by (metis unat_minus_one)
qed

subsection \<open>Properties\<close>

text \<open>
  \<open>perm_funs\<close> called on a whole array returns from every generator state, leaves the array
  a permutation of itself and reads or writes no cell outside of it.
\<close>

theorem perm_funs_permutes:
  assumes "length f < 2 ^ 31"
  shows "\<exists>f' st'. perm_funs st f (length f) = Some (f', st') \<and> mset f' = mset f"
  using lcg.perm_from_total [of "length f - 1" "length f" f 0 st] assms
  by (auto simp: perm_funs_def)

theorem perm_funs_permutes_witness:
  "\<exists>f' st'. perm_funs 5 [''P0'', ''P1'', ''P2''] 3 = Some (f', st') \<and>
    mset f' = {#''P0'', ''P1'', ''P2''#}"
  using perm_funs_permutes [of "[''P0'', ''P1'', ''P2'']" 5] by (simp add: numeral_3_eq_3)

text \<open>
  The loop of \<open>perm_funs\<close>, \<open>perm_ops\<close> and \<open>perm_threads\<close> can produce every permutation
  of the array: for each one there is a sequence of draws, all below their bounds, that leads
  to it and is used up exactly.
\<close>

theorem perm_loop_complete:
  assumes "mset ys = mset t" and "length t < 2 ^ 31"
  shows "\<exists>ds. perm_from replay (length t) (length t - 1) 0 ds t = Some (ys, [])"
  using perm_from_complete [of t ys 0] assms by simp

theorem perm_loop_complete_witness:
  "\<exists>ds. perm_from replay 3 2 0 ds [10, 20, 30 :: int] = Some ([30, 20, 10], [])"
proof -
  have "\<exists>ds. perm_from replay (length [10, 20, 30 :: int]) (length [10, 20, 30 :: int] - 1) 0 ds
      [10, 20, 30 :: int] = Some ([30, 20, 10], [])" by (rule perm_loop_complete) simp_all
  then show ?thesis by (simp add: numeral_3_eq_3 numeral_2_eq_2)
qed

text \<open>
  \<open>perm_ints\<close> also returns a permutation, but its last element never moves: it calls
  \<open>perm_prefix_ints\<close> with \<open>m = n-1\<close>, which draws positions below \<open>m\<close> only and ignores its
  last parameter.  It cannot reach every permutation, unlike its three siblings.
\<close>

theorem perm_ints_last_fixed:
  assumes "t \<noteq> []" and "length t < 2 ^ 31"
  shows "\<exists>t' st'. perm_ints st t (length t) = Some (t', st') \<and> mset t' = mset t \<and> last t' = last t"
proof -
  let ?n = "length t"
  obtain t' st' where t': "perm_ints st t ?n = Some (t', st')" "mset t' = mset t"
      "\<forall>i < ?n. i < 0 \<or> ?n - 1 \<le> i \<longrightarrow> t' ! i = t ! i"
    using lcg.perm_from_total [of "?n - 1" "?n - 1" t 0 st] assms
    by (auto simp: perm_ints_def perm_prefix_ints_def)
  have "length t' = ?n" using t'(2) by (rule mset_eq_length)
  then have "t' \<noteq> []" using assms(1) by auto
  then have "last t' = t' ! (?n - 1)" using \<open>length t' = ?n\<close> by (simp add: last_conv_nth)
  also have "\<dots> = last t" using t'(3) assms(1) by (simp add: last_conv_nth)
  finally have "last t' = last t" .
  then show ?thesis using t' by blast
qed

theorem perm_ints_last_fixed_witness:
  "\<exists>t' st'. perm_ints 5 [7, 8, 9] 3 = Some (t', st') \<and> mset t' = {#7, 8, 9#} \<and> last t' = 9"
  using perm_ints_last_fixed [of "[7, 8, 9]" 5] by (simp add: numeral_3_eq_3)

text \<open>
  \<open>check_shuffle(t,min,sz)\<close> answers 1 exactly when the \<open>sz\<close> pointers are the cells
  \<open>min, min+1, \<dots>, min+sz-1\<close> in some order, each once (for pointers at most \<open>2^31\<close> cells away,
  so that the cast to \<open>int\<close> loses nothing).
\<close>

theorem check_shuffle_iff_permutation:
  assumes "sz \<le> length t" and "\<forall>p \<in> set (take sz t). mn - 2 ^ 31 \<le> p \<and> p < mn + 2 ^ 31"
  shows "check_shuffle t mn sz = 1 \<longleftrightarrow>
    mset (take sz t) = mset (map (\<lambda>k. mn + int k) [0..<sz])"
  using assms by (rule check_shuffle_reads)

theorem check_shuffle_iff_permutation_witness:
  "check_shuffle [1002, 1000, 1001] 1000 3 = 1 \<longleftrightarrow> {#1002, 1000, 1001#} = {#1000, 1001, 1002 :: int#}"
  using check_shuffle_iff_permutation [of 3 "[1002, 1000, 1001]" 1000]
  by (simp add: numeral_3_eq_3)

text \<open>
  \<open>interval_init\<close> followed by \<open>interval_shuffle\<close>, as the harness does for its indirections,
  always returns a permutation of \<open>0 \<dots> sz-1\<close>, for any non-empty interval.
\<close>

theorem interval_shuffle_permutes:
  assumes "0 < sz" and "sz < 2 ^ 31" and "length p = sz"
  shows "\<exists>p0 p' st'. interval_init p sz = Some p0 \<and>
    interval_shuffle st p0 sz = Some (p', st') \<and> mset p' = mset (map int [0..<sz])"
proof -
  have p0: "interval_init p sz = Some (map int [0..<sz])"
    using interval_init_from_total [of p sz 0] assms(3) by (simp add: interval_init_def)
  have "\<exists>p' st'. perm_from rand_k sz (sz - 1) 0 st (map int [0..<sz]) = Some (p', st') \<and>
      mset p' = mset (map int [0..<sz])"
    using lcg.perm_from_total [of "sz - 1" sz "map int [0..<sz]" 0 st] assms by auto
  then show ?thesis using p0 limit_pos [OF assms(1,2)] by (simp add: interval_shuffle_def)
qed

theorem interval_shuffle_permutes_witness:
  "\<exists>p0 p' st'. interval_init [0, 0, 0, 0] 4 = Some p0 \<and>
    interval_shuffle 99 p0 4 = Some (p', st') \<and> mset p' = {#0, 1, 2, 3#}"
  using interval_shuffle_permutes [of 4 "[0, 0, 0, 0]" 99] by (simp add: upt_rec)

text \<open>With \<open>sz = 0\<close> the bound \<open>sz-1\<close> wraps around and the first draw divides by zero.\<close>

lemma interval_shuffle_empty: "interval_shuffle st p 0 = None"
  unfolding interval_shuffle_def by (subst perm_from.simps) (simp add: unat_gt_0)

end
