(* ===== verification/Counter.thy ===== *)
theory Counter
  imports Litmus_Base
begin

section \<open>The contract of an outcome histogram\<close>

text \<open>
  A litmus run accumulates outcomes: each outcome has a key (the observed values), a count and a
  flag that says whether it is interesting.  Two data structures of the library do
  it, the tree of \<^verbatim>\<open>_outs.c\<close>, whose counts have 64 bits, and the hash table of \<^verbatim>\<open>_hash.c\<close>, which
  the bare-metal harness includes after it has defined \<open>count_t\<close> as \<open>uint32_t\<close>.  This theory states what
  both promise and proves once what follows for a sequence of additions, whatever its order.
  \<open>Outs\<close> and \<open>Hash\<close> interpret it on the model of the code.

  \<open>add k c s t\<close> gives the new structure and whether the addition succeeded (the hash table may be
  full).  \<open>get t k\<close> is the count recorded for a key, \<open>total t\<close> the sum of all counts, and
  \<open>same k k'\<close> says that two keys count as the same outcome.  Counts are words of any length; \<open>bound\<close>
  is where the sums would wrap around.
\<close>

type_synonym ('k, 'c) outcome = "'k \<times> 'c word \<times> bool"

fun add_all :: "('k \<Rightarrow> 'c::len word \<Rightarrow> bool \<Rightarrow> 't \<Rightarrow> 't \<times> bool) \<Rightarrow> ('k, 'c) outcome list \<Rightarrow> 't \<Rightarrow> 't \<times> bool" where
  "add_all add [] t = (t, True)"
| "add_all add ((k, c, s) # xs) t =
     (let (t1, r1) = add k c s t; (t2, r2) = add_all add xs t1 in (t2, r1 \<and> r2))"

text \<open>The weight of a list of outcomes, of one key and in total.\<close>

fun weight_of :: "('k \<Rightarrow> 'k \<Rightarrow> bool) \<Rightarrow> 'k \<Rightarrow> ('k, 'c::len) outcome list \<Rightarrow> nat" where
  "weight_of same k [] = 0"
| "weight_of same k ((k', c, s) # xs) = (if same k k' then unat c else 0) + weight_of same k xs"

fun weight :: "('k, 'c::len) outcome list \<Rightarrow> nat" where
  "weight [] = 0"
| "weight ((k, c, s) # xs) = unat c + weight xs"

lemma weight_of_append [simp]:
  "weight_of same k (xs @ ys) = weight_of same k xs + weight_of same k ys"
  by (induction same k xs rule: weight_of.induct) auto

lemma weight_append [simp]: "weight (xs @ ys) = weight xs + weight ys"
  by (induction xs rule: weight.induct) auto

lemma weight_of_mset: "mset xs = mset ys \<Longrightarrow> weight_of same k xs = weight_of same k ys"
proof -
  have "weight_of same k xs = (\<Sum>(k', c, s) \<in># mset xs. if same k k' then unat c else 0)" for xs
    by (induction same k xs rule: weight_of.induct) auto
  then show "mset xs = mset ys \<Longrightarrow> weight_of same k xs = weight_of same k ys" by metis
qed

lemma weight_of_all: "weight_of (\<lambda>_ _. True) k xs = weight xs"
  by (induction xs rule: weight.induct) auto

locale outcome_counter =
  fixes empty :: 't
    and add :: "'k \<Rightarrow> 'c::len word \<Rightarrow> bool \<Rightarrow> 't \<Rightarrow> 't \<times> bool"
    and get :: "'t \<Rightarrow> 'k \<Rightarrow> nat"
    and total :: "'t \<Rightarrow> nat"
    and invar :: "'t \<Rightarrow> bool"
    and valid :: "'k \<Rightarrow> bool"
    and same :: "'k \<Rightarrow> 'k \<Rightarrow> bool"
    and bound :: nat
  assumes invar_empty: "invar empty"
    and total_empty: "total empty = 0"
    and get_empty: "get empty k = 0"
    and add_ok: "invar t \<Longrightarrow> valid k \<Longrightarrow> c \<noteq> 0 \<Longrightarrow> total t + unat c < bound \<Longrightarrow>
      add k c s t = (t', True) \<Longrightarrow>
      invar t' \<and> total t' = total t + unat c \<and>
      (\<forall>k'. valid k' \<longrightarrow> get t' k' = get t k' + (if same k' k then unat c else 0))"
    and add_full: "invar t \<Longrightarrow> valid k \<Longrightarrow> add k c s t = (t', False) \<Longrightarrow> t' = t"
begin

definition good :: "('k, 'c) outcome list \<Rightarrow> bool" where
  "good xs \<longleftrightarrow> (\<forall>(k, c, s) \<in> set xs. valid k \<and> c \<noteq> 0)"

lemma good_Cons [simp]: "good ((k, c, s) # xs) \<longleftrightarrow> valid k \<and> c \<noteq> 0 \<and> good xs"
  by (auto simp: good_def)

lemma add_all_ok:
  assumes "invar t" and "good xs" and "total t + weight xs < bound" and "add_all add xs t = (t', True)"
  shows "invar t' \<and> total t' = total t + weight xs \<and>
    (\<forall>k. valid k \<longrightarrow> get t' k = get t k + weight_of same k xs)"
  using assms
proof (induction xs arbitrary: t)
  case Nil
  then show ?case by simp
next
  case (Cons x xs)
  obtain k c s where x: "x = (k, c, s)" by (cases x)
  obtain t1 where t1: "add k c s t = (t1, True)" "add_all add xs t1 = (t', True)"
    using Cons.prems(4) by (auto simp: x Let_def split: prod.splits)
  have step: "invar t1 \<and> total t1 = total t + unat c \<and>
      (\<forall>k'. valid k' \<longrightarrow> get t1 k' = get t k' + (if same k' k then unat c else 0))"
    using Cons.prems x t1(1) by (intro add_ok) auto
  then have "invar t' \<and> total t' = total t1 + weight xs \<and>
      (\<forall>k. valid k \<longrightarrow> get t' k = get t1 k + weight_of same k xs)"
    using Cons.prems x t1(2) by (intro Cons.IH) auto
  with step x show ?case by auto
qed

text \<open>The order of the additions does not matter for any count.\<close>

lemma add_all_order:
  assumes "good xs" and "weight xs < bound" and "mset xs = mset ys"
    and "add_all add xs empty = (t1, True)" and "add_all add ys empty = (t2, True)" and "valid k"
  shows "get t1 k = get t2 k"
proof -
  have "good ys" using assms(1,3) by (metis good_def set_mset_mset)
  have w: "weight ys = weight xs"
    using weight_of_mset [OF assms(3), of "\<lambda>_ _. True" k] by (simp add: weight_of_all)
  have "get t1 k = get empty k + weight_of same k xs"
    using add_all_ok [OF invar_empty assms(1) _ assms(4)] assms(2,6) by (simp add: total_empty)
  moreover have "get t2 k = get empty k + weight_of same k ys"
    using add_all_ok [OF invar_empty \<open>good ys\<close> _ assms(5)] assms(2,6) w by (simp add: total_empty)
  ultimately show ?thesis using weight_of_mset [OF assms(3)] by simp
qed

end

end
