(* ===== verification/Outs.thy ===== *)
theory Outs
  imports Counter
begin

section \<open>The tree of outcomes (\<^verbatim>\<open>_outs.c\<close>)\<close>

text \<open>
  An outcome is an array of \<open>sz\<close> values of type \<open>intmax_t\<close>.  The tree keeps, at each level, a
  list of cells sorted by value (\<open>next\<close>) and under each cell the next level (\<open>down\<close>); index
  \<open>sz-1\<close> of the array is at the top and index 0 in the leaves, which hold the counts.  No cell is
  shared, so the in-place updates of the code are modelled by the tree they leave behind.
  Values are \<open>int\<close> (they are compared and copied only), counts are 64-bit words and wrap around.
\<close>

datatype outs =
    Null
  | Outs (key: int) (cnt: u64) (shown: bool) (nxt: outs) (down: outs)

definition alloc_outs :: "int \<Rightarrow> outs" where
  "alloc_outs k = Outs k 0 False Null Null"

text \<open>A fresh cell for value \<open>x\<close> is put before \<open>p\<close> when \<open>p\<close> is null or starts above \<open>x\<close>.\<close>

definition need_cell :: "outs \<Rightarrow> int \<Rightarrow> bool" where
  "need_cell p x \<longleftrightarrow> (case p of Null \<Rightarrow> True | Outs k _ _ _ _ \<Rightarrow> x < k)"

definition put_cell :: "outs \<Rightarrow> int \<Rightarrow> outs" where
  "put_cell p x =
     (if need_cell p x then
        (case alloc_outs x of Outs k c s _ d \<Rightarrow> Outs k c s p d | Null \<Rightarrow> Null)
      else p)"

lemma put_cell_simps:
  "put_cell Null x = Outs x 0 False Null Null"
  "put_cell (Outs k c s n d) x =
     (if x < k then Outs x 0 False (Outs k c s n d) Null else Outs k c s n d)"
  by (simp_all add: put_cell_def need_cell_def alloc_outs_def)

text \<open>
  The loop of \<open>loop_add_outcome_outs\<close>: at index \<open>i\<close> of the array \<open>k\<close>, walk to the right while the
  value is greater, go down when it is found, count in the leaf.
\<close>

function loop_add_outcome_outs :: "outs \<Rightarrow> int list \<Rightarrow> nat \<Rightarrow> u64 \<Rightarrow> bool \<Rightarrow> outs" where
  "loop_add_outcome_outs p k i c s =
     (case put_cell p (k ! i) of
        Null \<Rightarrow> Null
      | Outs pk pc ps pn pd \<Rightarrow>
          if k ! i > pk then Outs pk pc ps (loop_add_outcome_outs pn k i c s) pd
          else if i = 0 then Outs pk (pc + c) (s \<or> ps) pn pd
          else Outs pk pc ps pn (loop_add_outcome_outs pd k (i - 1) c s))"
  by pat_completeness auto
termination
proof (relation "measures [\<lambda>(p, k, i, c, s). i, \<lambda>(p, k, i, c, s). size p]", goal_cases)
  case (2 p k i c s pk pc ps pn pd)
  then show ?case by (cases p) (auto simp: put_cell_simps split: if_splits)
qed auto

declare loop_add_outcome_outs.simps [simp del]

definition add_outcome_outs :: "outs \<Rightarrow> int list \<Rightarrow> nat \<Rightarrow> u64 \<Rightarrow> bool \<Rightarrow> outs" where
  "add_outcome_outs p k sz c s = loop_add_outcome_outs p k (sz - 1) c s"

fun sum_outs :: "outs \<Rightarrow> u64" where
  "sum_outs Null = 0"
| "sum_outs (Outs k c s n d) = c + sum_outs d + sum_outs n"

fun finals_outs :: "outs \<Rightarrow> nat" where
  "finals_outs Null = 0"
| "finals_outs (Outs k c s n d) = (if c > 0 then 1 else 0) + finals_outs d + finals_outs n"

text \<open>
  \<open>dump_outs\<close> calls \<open>dout\<close> with the buffer; the model collects the arguments of the calls, and
  returns the final buffer with them.
\<close>

fun dump_outs :: "outs \<Rightarrow> int list \<Rightarrow> nat \<Rightarrow> (int list \<times> (int list \<times> u64 \<times> bool) list) res" where
  "dump_outs Null buff sz = Inr (buff, [])"
| "dump_outs (Outs k c s n d) buff sz =
     bind_res (aset buff (int sz - 1) k) (\<lambda>buff.
     bind_res (if c > 0 then Inr (buff, [(buff, c, s)])
               else if d \<noteq> Null then dump_outs d buff (sz - 1)
               else Inr (buff, [])) (\<lambda>(buff, ev).
     bind_res (dump_outs n buff sz) (\<lambda>(buff, ev'). Inr (buff, ev @ ev'))))"

text \<open>Merge \<open>p\<close> and \<open>q\<close> into \<open>p\<close>; the cells of \<open>q\<close> are read, never linked into \<open>p\<close>.\<close>

function do_merge_outs :: "outs \<Rightarrow> outs \<Rightarrow> outs" where
  "do_merge_outs p q =
     (case q of
        Null \<Rightarrow> p
      | Outs qk qc qs qn qd \<Rightarrow>
          (case put_cell p qk of
             Null \<Rightarrow> Null
           | Outs pk pc ps pn pd \<Rightarrow>
               if pk = qk then
                 Outs pk (pc + qc) (ps \<or> qs) (do_merge_outs pn qn) (do_merge_outs pd qd)
               else Outs pk pc ps (do_merge_outs pn q) pd))"
  by pat_completeness auto
termination
proof (relation "measure (\<lambda>(p, q). size p + size q)", goal_cases)
  case (2 p q qk qc qs qn qd pk pc ps pn pd)
  then show ?case by (cases p) (auto simp: put_cell_simps split: if_splits)
next
  case (3 p q qk qc qs qn qd pk pc ps pn pd)
  then show ?case by (cases p) (auto simp: put_cell_simps split: if_splits)
next
  case (4 p q qk qc qs qn qd pk pc ps pn pd)
  then show ?case by (cases p) (auto simp: put_cell_simps split: if_splits)
qed auto

declare do_merge_outs.simps [simp del]

definition merge_outs :: "outs \<Rightarrow> outs \<Rightarrow> nat \<Rightarrow> outs" where
  "merge_outs p q sz = do_merge_outs p q"

fun same_outs :: "outs \<Rightarrow> outs \<Rightarrow> bool" where
  "same_outs (Outs pk pc ps pn pd) (Outs qk qc qs qn qd) =
     (if pk \<noteq> qk \<or> pc \<noteq> qc \<or> ps \<noteq> qs then False
      else if \<not> same_outs pd qd then False
      else same_outs pn qn)"
| "same_outs p q = (p = q)"

subsection \<open>Equations by cases\<close>

lemma loop_add_Null:
  "loop_add_outcome_outs Null k 0 c s = Outs (k ! 0) c s Null Null"
  "loop_add_outcome_outs Null k (Suc i) c s =
     Outs (k ! Suc i) 0 False Null (loop_add_outcome_outs Null k i c s)"
  by (subst loop_add_outcome_outs.simps, simp add: put_cell_simps)+

lemma loop_add_0:
  "loop_add_outcome_outs (Outs pk pc ps pn pd) k 0 c s =
     (if k ! 0 < pk then Outs (k ! 0) c s (Outs pk pc ps pn pd) Null
      else if k ! 0 = pk then Outs pk (pc + c) (s \<or> ps) pn pd
      else Outs pk pc ps (loop_add_outcome_outs pn k 0 c s) pd)"
  by (subst loop_add_outcome_outs.simps) (simp add: put_cell_simps)

lemma loop_add_Suc:
  "loop_add_outcome_outs (Outs pk pc ps pn pd) k (Suc i) c s =
     (if k ! Suc i < pk then
        Outs (k ! Suc i) 0 False (Outs pk pc ps pn pd) (loop_add_outcome_outs Null k i c s)
      else if k ! Suc i = pk then Outs pk pc ps pn (loop_add_outcome_outs pd k i c s)
      else Outs pk pc ps (loop_add_outcome_outs pn k (Suc i) c s) pd)"
  by (subst loop_add_outcome_outs.simps) (simp add: put_cell_simps)

lemma do_merge_Null [simp]: "do_merge_outs p Null = p"
  by (subst do_merge_outs.simps) simp

lemma do_merge_Outs:
  "do_merge_outs Null (Outs qk qc qs qn qd) =
     Outs qk qc qs (do_merge_outs Null qn) (do_merge_outs Null qd)"
  "do_merge_outs (Outs pk pc ps pn pd) (Outs qk qc qs qn qd) =
     (if qk < pk then
        Outs qk qc qs (do_merge_outs (Outs pk pc ps pn pd) qn) (do_merge_outs Null qd)
      else if pk = qk then
        Outs pk (pc + qc) (ps \<or> qs) (do_merge_outs pn qn) (do_merge_outs pd qd)
      else Outs pk pc ps (do_merge_outs pn (Outs qk qc qs qn qd)) pd)"
  by (subst do_merge_outs.simps, simp add: put_cell_simps)+

lemmas outs_eqs = loop_add_Null loop_add_0 loop_add_Suc do_merge_Outs

subsection \<open>Shape, contents and counts\<close>

text \<open>\<open>above x t\<close>: the first cell of the level, hence every cell, has a value greater than \<open>x\<close>.\<close>

definition above :: "int \<Rightarrow> outs \<Rightarrow> bool" where
  "above x t \<longleftrightarrow> (case t of Null \<Rightarrow> True | Outs k _ _ _ _ \<Rightarrow> x < k)"

lemma above_simps [simp]: "above x Null" "above x (Outs k c s n d) \<longleftrightarrow> x < k"
  by (simp_all add: above_def)

text \<open>The shape of a tree whose top is at index \<open>i\<close> of the outcomes.\<close>

fun wf_outs :: "nat \<Rightarrow> outs \<Rightarrow> bool" where
  "wf_outs i Null = True"
| "wf_outs i (Outs k c s n d) =
     (above k n \<and> wf_outs i n \<and>
      (if i = 0 then d = Null else c = 0 \<and> \<not> s \<and> d \<noteq> Null \<and> wf_outs (i - 1) d))"

text \<open>No leaf has count zero.\<close>

fun counted :: "outs \<Rightarrow> bool" where
  "counted Null = True"
| "counted (Outs k c s n d) = ((d = Null \<longrightarrow> c \<noteq> 0) \<and> counted d \<and> counted n)"

text \<open>The entry of an outcome, given from its last component down to index 0.\<close>

fun entry_of :: "outs \<Rightarrow> int list \<Rightarrow> u64 \<times> bool" where
  "entry_of Null xs = (0, False)"
| "entry_of (Outs k c s n d) [] = (0, False)"
| "entry_of (Outs k c s n d) (x # xs) =
     (if x = k then (if xs = [] then (c, s) else entry_of d xs) else entry_of n (x # xs))"

fun path :: "int list \<Rightarrow> nat \<Rightarrow> int list" where
  "path k 0 = [k ! 0]"
| "path k (Suc i) = k ! Suc i # path k i"

definition plus_entry :: "u64 \<times> bool \<Rightarrow> u64 \<times> bool \<Rightarrow> u64 \<times> bool" where
  "plus_entry a b = (fst a + fst b, snd a \<or> snd b)"

lemma plus_entry_simps [simp]:
  "plus_entry (c, s) (c', s') = (c + c', s \<or> s')" "plus_entry a (0, False) = a"
  "plus_entry (0, False) a = a"
  by (simp_all add: plus_entry_def)

fun total_outs :: "outs \<Rightarrow> nat" where
  "total_outs Null = 0"
| "total_outs (Outs k c s n d) = unat c + total_outs d + total_outs n"

lemma length_path [simp]: "length (path k i) = Suc i"
  by (induction i) auto

lemma path_eq_rev: "i < length k \<Longrightarrow> path k i = rev (take (Suc i) k)"
  by (induction i) (auto simp: take_Suc_conv_app_nth hd_conv_nth)

lemma path_not_Nil [simp]: "path k i \<noteq> []"
  by (cases i) auto

lemma loop_add_not_Null [simp]: "loop_add_outcome_outs p k i c s \<noteq> Null"
  by (cases p; cases i) (auto simp: outs_eqs)

lemma entry_of_above:
  "above y t \<Longrightarrow> x \<le> y \<Longrightarrow> wf_outs i t \<Longrightarrow> entry_of t (x # xs) = (0, False)"
proof (induction t)
  case (Outs k c s n d)
  have "above y n" using Outs.prems by (cases n) auto
  then show ?case using Outs by auto
qed simp

lemma above_loop_add:
  "above x (loop_add_outcome_outs p k i c s) \<longleftrightarrow> above x p \<and> x < k ! i"
  by (cases p; cases i) (auto simp: outs_eqs)

lemma wf_loop_add: "wf_outs i p \<Longrightarrow> wf_outs i (loop_add_outcome_outs p k i c s)"
proof (induction i arbitrary: p)
  case 0
  then show ?case by (induction p) (auto simp: outs_eqs above_loop_add)
next
  case (Suc i)
  show ?case using Suc.prems
    by (induction p) (auto simp: outs_eqs above_loop_add Suc.IH)
qed

lemma entry_loop_add:
  assumes "wf_outs i p" and "length xs = Suc i"
  shows "entry_of (loop_add_outcome_outs p k i c s) xs =
    (if xs = path k i then plus_entry (entry_of p xs) (c, s) else entry_of p xs)"
  using assms
proof (induction i arbitrary: p xs)
  case 0
  then obtain x where xs: "xs = [x]" by (cases xs) auto
  show ?case using "0.prems"(1) unfolding xs
    by (induction p) (auto simp: outs_eqs entry_of_above [where i = 0])
next
  case (Suc i)
  then obtain x ys where xs: "xs = x # ys" "length ys = Suc i" by (cases xs) auto
  then have ys: "ys \<noteq> []" by auto
  show ?case using Suc.prems(1) unfolding xs(1)
    by (induction p)
      (auto simp: outs_eqs ys Suc.IH xs(2) entry_of_above [where i = "Suc i"])
qed

subsection \<open>Merging\<close>

lemma above_merge: "above x (do_merge_outs p q) \<longleftrightarrow> above x p \<and> above x q"
  by (cases p; cases q) (auto simp: outs_eqs)

lemma merge_eq_Null_iff [simp]: "do_merge_outs p q = Null \<longleftrightarrow> p = Null \<and> q = Null"
  by (cases p; cases q) (auto simp: outs_eqs)

text \<open>Induction along \<open>do_merge_outs\<close> with the three ways it goes.\<close>

lemma merge_induct [case_names Null Copy Before Same After]:
  assumes "\<And>p. P p Null"
    and "\<And>qk qc qs qn qd. P Null qn \<Longrightarrow> P Null qd \<Longrightarrow> P Null (Outs qk qc qs qn qd)"
    and "\<And>pk pc ps pn pd qk qc qs qn qd. qk < pk \<Longrightarrow> P (Outs pk pc ps pn pd) qn \<Longrightarrow> P Null qd \<Longrightarrow>
      P (Outs pk pc ps pn pd) (Outs qk qc qs qn qd)"
    and "\<And>pk pc ps pn pd qc qs qn qd. P pn qn \<Longrightarrow> P pd qd \<Longrightarrow>
      P (Outs pk pc ps pn pd) (Outs pk qc qs qn qd)"
    and "\<And>pk pc ps pn pd qk qc qs qn qd. pk < qk \<Longrightarrow> P pn (Outs qk qc qs qn qd) \<Longrightarrow>
      P (Outs pk pc ps pn pd) (Outs qk qc qs qn qd)"
  shows "P p q"
proof (induction "size p + size q" arbitrary: p q rule: less_induct)
  case less
  show ?case
  proof (cases q)
    case Null
    then show ?thesis using assms(1) by simp
  next
    case q: (Outs qk qc qs qn qd)
    show ?thesis
    proof (cases p)
      case Null
      then show ?thesis using q assms(2) less by auto
    next
      case p: (Outs pk pc ps pn pd)
      consider "qk < pk" | "qk = pk" | "pk < qk" by linarith
      then show ?thesis
      proof cases
        case 1
        have "P p qn" "P Null qd" by (rule less; simp add: p q)+
        then show ?thesis using 1 assms(3) by (simp add: p q)
      next
        case 2
        have "P pn qn" "P pd qd" by (rule less; simp add: p q)+
        then show ?thesis using 2 assms(4) by (simp add: p q)
      next
        case 3
        have "P pn q" by (rule less) (simp add: p q)
        then show ?thesis using 3 assms(5) by (simp add: p q)
      qed
    qed
  qed
qed

lemma wf_merge: "wf_outs i p \<Longrightarrow> wf_outs i q \<Longrightarrow> wf_outs i (do_merge_outs p q)"
proof (induction p q arbitrary: i rule: merge_induct)
  case (Copy qk qc qs qn qd)
  then show ?case by (auto simp: outs_eqs above_merge)
next
  case (Before pk pc ps pn pd qk qc qs qn qd)
  then show ?case by (auto simp: outs_eqs above_merge)
next
  case (Same pk pc ps pn pd qc qs qn qd)
  then show ?case by (auto simp: outs_eqs above_merge)
next
  case (After pk pc ps pn pd qk qc qs qn qd)
  then show ?case by (auto simp: outs_eqs above_merge)
qed simp

lemma merge_Null_left: "do_merge_outs Null q = q"
  by (induction q) (simp_all add: outs_eqs)

lemma entry_merge:
  "wf_outs i p \<Longrightarrow> wf_outs i q \<Longrightarrow> length xs = Suc i \<Longrightarrow>
   entry_of (do_merge_outs p q) xs = plus_entry (entry_of p xs) (entry_of q xs)"
proof (induction p q arbitrary: i xs rule: merge_induct)
  case (Null p)
  then show ?case by simp
next
  case (Copy qk qc qs qn qd)
  then show ?case by (simp add: merge_Null_left)
next
  case (Before pk pc ps pn pd qk qc qs qn qd)
  obtain x ys where xs: "xs = x # ys" using Before.prems(3) by (cases xs) auto
  have "above qk (Outs pk pc ps pn pd)" using Before.hyps by simp
  then have "entry_of (Outs pk pc ps pn pd) (qk # ys) = (0, False)"
    using Before.prems(1) by (rule entry_of_above [OF _ order_refl])
  then show ?case
    using Before.hyps Before.prems Before.IH(1) [of i xs]
    by (auto simp: xs outs_eqs merge_Null_left)
next
  case (Same pk pc ps pn pd qc qs qn qd)
  obtain x ys where xs: "xs = x # ys" using Same.prems(3) by (cases xs) auto
  show ?case
  proof (cases i)
    case 0
    then show ?thesis using Same by (auto simp: xs outs_eqs)
  next
    case (Suc j)
    then have "ys \<noteq> []" using Same.prems(3) xs by auto
    then show ?thesis using Same Suc by (auto simp: xs outs_eqs)
  qed
next
  case (After pk pc ps pn pd qk qc qs qn qd)
  obtain x ys where xs: "xs = x # ys" using After.prems(3) by (cases xs) auto
  have "above pk (Outs qk qc qs qn qd)" using After.hyps by simp
  then have "entry_of (Outs qk qc qs qn qd) (pk # ys) = (0, False)"
    using After.prems(2) by (rule entry_of_above [OF _ order_refl])
  then show ?case
    using After.hyps After.prems After.IH [of i xs] by (auto simp: xs outs_eqs)
qed

subsection \<open>Sums\<close>

lemma sum_total: "sum_outs t = of_nat (total_outs t)"
  by (induction t) (simp_all add: add.assoc)

lemma sum_loop_add: "sum_outs (loop_add_outcome_outs p k i c s) = sum_outs p + c"
proof (induction i arbitrary: p)
  case 0
  show ?case by (induction p) (auto simp: outs_eqs algebra_simps)
next
  case (Suc i)
  show ?case by (induction p) (auto simp: outs_eqs Suc algebra_simps)
qed

lemma sum_merge: "sum_outs (do_merge_outs p q) = sum_outs p + sum_outs q"
  by (induction p q rule: merge_induct) (auto simp: outs_eqs algebra_simps merge_Null_left)

text \<open>Without wrap-around the counts add up as natural numbers.\<close>

lemma total_loop_add:
  "total_outs p + unat c < 2 ^ 64 \<Longrightarrow>
   total_outs (loop_add_outcome_outs p k i c s) = total_outs p + unat c"
proof (induction i arbitrary: p)
  case 0
  then show ?case by (induction p) (auto simp: outs_eqs unat_add)
next
  case (Suc i)
  show ?case using Suc.prems by (induction p) (auto simp: outs_eqs Suc.IH)
qed

lemma total_merge:
  "total_outs p + total_outs q < 2 ^ 64 \<Longrightarrow>
   total_outs (do_merge_outs p q) = total_outs p + total_outs q"
  by (induction p q rule: merge_induct) (auto simp: outs_eqs unat_add merge_Null_left)

subsection \<open>The list of entries\<close>

fun entries :: "outs \<Rightarrow> (int list \<times> u64 \<times> bool) list" where
  "entries Null = []"
| "entries (Outs k c s n d) =
     (if d = Null then [([k], c, s)] else map (\<lambda>(xs, e). (k # xs, e)) (entries d)) @ entries n"

lemma length_entry: "wf_outs i t \<Longrightarrow> (xs, e) \<in> set (entries t) \<Longrightarrow> length xs = Suc i"
proof (induction t arbitrary: i xs)
  case (Outs k c s n d)
  then show ?case by (cases i) (auto split: if_splits)
qed simp

lemma hd_entry: "above x t \<Longrightarrow> wf_outs i t \<Longrightarrow> (xs, e) \<in> set (entries t) \<Longrightarrow> x < hd xs"
proof (induction t)
  case (Outs k c s n d)
  have "above x n" using Outs.prems by (cases n) auto
  then show ?case using Outs by (auto split: if_splits)
qed simp

definition lex_less :: "int list \<Rightarrow> int list \<Rightarrow> bool" where
  "lex_less xs ys \<longleftrightarrow> (xs, ys) \<in> lexord {(a, b). a < b}"

lemma lex_less_Cons [simp]:
  "lex_less (x # xs) (y # ys) \<longleftrightarrow> x < y \<or> x = y \<and> lex_less xs ys"
  by (auto simp: lex_less_def)

lemma sorted_entries: "wf_outs i t \<Longrightarrow> sorted_wrt lex_less (map fst (entries t))"
proof (induction t arbitrary: i)
  case (Outs k c s n d)
  have n: "sorted_wrt lex_less (map fst (entries n))" using Outs by auto
  have below: "lex_less (k # xs) ys" if "ys \<in> fst ` set (entries n)" for xs ys
  proof -
    obtain e where e: "(ys, e) \<in> set (entries n)" using \<open>ys \<in> _\<close> by force
    then have "length ys = Suc i" "k < hd ys"
      using Outs.prems length_entry [OF _ e, of i] hd_entry [OF _ _ e, of k i] by simp_all
    then show ?thesis by (cases ys) auto
  qed
  show ?case
  proof (cases "d = Null")
    case True
    then show ?thesis using n below by auto
  next
    case False
    then obtain j where "i = Suc j" "wf_outs j d" using Outs.prems by (cases i) auto
    then have "sorted_wrt lex_less (map fst (entries d))" using Outs.IH(2) by blast
    then have "sorted_wrt lex_less (map ((#) k) (map fst (entries d)))"
      by (simp only: sorted_wrt_map lex_less_Cons) simp
    moreover have "map fst (map (\<lambda>(xs, e). (k # xs, e)) (entries d)) = map ((#) k) (map fst (entries d))"
      by (simp add: case_prod_unfold)
    ultimately show ?thesis
      using False n below by (simp only: entries.simps if_False map_append sorted_wrt_append) auto
  qed
qed simp

lemma entry_of_entries:
  "wf_outs i t \<Longrightarrow> length xs = Suc i \<Longrightarrow>
   entry_of t xs = (case map_of (entries t) xs of None \<Rightarrow> (0, False) | Some e \<Rightarrow> e)"
proof (induction t arbitrary: i xs)
  case Null
  then show ?case by simp
next
  case (Outs k c s n d)
  obtain x ys where xs: "xs = x # ys" using Outs.prems(2) by (cases xs) auto
  have n: "entry_of n xs = (case map_of (entries n) xs of None \<Rightarrow> (0, False) | Some e \<Rightarrow> e)"
    using Outs by auto
  show ?case
  proof (cases i)
    case 0
    then have leaf: "d = Null" "ys = []" using Outs.prems xs by auto
    have "map_of (entries n) [k] = None"
      using Outs.prems(1) hd_entry [of k n i "[k]"] by (auto simp: map_of_eq_None_iff)
    then show ?thesis using n leaf xs by auto
  next
    case (Suc j)
    then have d: "d \<noteq> Null" "wf_outs j d" "length ys = Suc j" "ys \<noteq> []"
      using Outs.prems xs by auto
    have sub: "map_of (map (\<lambda>(zs, e). (k # zs, e)) es) (x # ys) = (if x = k then map_of es ys else None)"
      for es :: "(int list \<times> u64 \<times> bool) list"
      by (induction es) auto
    have "map_of (entries n) (k # ys) = None"
      using Outs.prems(1) hd_entry [of k n i "k # ys"] by (auto simp: map_of_eq_None_iff)
    then show ?thesis
      using n d xs Outs.IH(2) [OF d(2,3)] by (auto simp: map_add_def sub split: option.splits)
  qed
qed

lemma total_entries: "wf_outs i t \<Longrightarrow> total_outs t = (\<Sum>(xs, c, s) \<leftarrow> entries t. unat c)"
proof (induction t arbitrary: i)
  case (Outs k c s n d)
  have "(\<Sum>(xs, c, s) \<leftarrow> map (\<lambda>(zs, e). (k # zs, e)) es. unat c) = (\<Sum>(xs, c, s) \<leftarrow> es. unat c)"
    for es :: "(int list \<times> u64 \<times> bool) list" by (induction es) auto
  then show ?case using Outs by (cases i) auto
qed simp

lemma finals_entries:
  "wf_outs i t \<Longrightarrow> finals_outs t = length (filter (\<lambda>(xs, c, s). c \<noteq> 0) (entries t))"
proof (induction t arbitrary: i)
  case (Outs k c s n d)
  have "length (filter (\<lambda>(xs, c, s). c \<noteq> 0) (map (\<lambda>(zs, e). (k # zs, e)) es)) =
      length (filter (\<lambda>(xs, c, s). c \<noteq> 0) es)"
    for es :: "(int list \<times> u64 \<times> bool) list" by (induction es) auto
  then show ?case using Outs by (cases i) (auto simp: word_gt_0)
qed simp

text \<open>
  What \<open>dump_outs\<close> hands to \<open>dout\<close>: the buffer holds the path of the entry in its cells
  \<open>i \<dots> 0\<close>; the cells above \<open>i\<close> keep what they held.
\<close>

definition dump_event :: "nat \<Rightarrow> int list \<Rightarrow> int list \<times> u64 \<times> bool \<Rightarrow> int list \<times> u64 \<times> bool" where
  "dump_event sz buff e = (rev (fst e) @ drop sz buff, snd e)"

lemma dump_entries:
  assumes "wf_outs i t" and "counted t" and "Suc i \<le> length buff"
  shows "\<exists>b. dump_outs t buff (Suc i) = Inr (b, map (dump_event (Suc i) buff) (entries t)) \<and>
    length b = length buff \<and> drop (Suc i) b = drop (Suc i) buff"
  using assms
proof (induction t arbitrary: i buff)
  case Null
  then show ?case by simp
next
  case (Outs k c s n d)
  let ?b1 = "buff[i := k]"
  have b1: "length ?b1 = length buff" "drop (Suc i) ?b1 = drop (Suc i) buff"
      "drop i ?b1 = k # drop (Suc i) buff"
    using Outs.prems(3) by (simp_all add: Cons_nth_drop_Suc [symmetric])
  have here: "\<exists>b2. (if c > 0 then Inr (?b1, [(?b1, c, s)])
        else if d \<noteq> Null then dump_outs d ?b1 (Suc i - 1) else Inr (?b1, [])) =
      Inr (b2, map (dump_event (Suc i) buff)
        (if d = Null then [([k], c, s)] else map (\<lambda>(xs, e). (k # xs, e)) (entries d))) \<and>
      length b2 = length buff \<and> drop (Suc i) b2 = drop (Suc i) buff"
  proof (cases i)
    case 0
    then have "d = Null" "c > 0" using Outs.prems by (auto simp: word_gt_0)
    then show ?thesis using b1 0 Outs.prems(3) by (auto simp: dump_event_def)
  next
    case (Suc j)
    then have d: "wf_outs j d" "counted d" "d \<noteq> Null" "c = 0" using Outs.prems by auto
    obtain b where b: "dump_outs d ?b1 (Suc j) = Inr (b, map (dump_event (Suc j) ?b1) (entries d))"
        "length b = length ?b1" "drop (Suc j) b = drop (Suc j) ?b1"
      using Outs.IH(2) [OF d(1,2), of ?b1] Outs.prems(3) Suc b1(1) by auto
    have "dump_event (Suc j) ?b1 e = dump_event (Suc i) buff (k # fst e, snd e)" for e
      using b1(3) Suc by (simp add: dump_event_def)
    then have ev: "map (dump_event (Suc j) ?b1) (entries d) =
        map (dump_event (Suc i) buff) (map (\<lambda>(xs, e). (k # xs, e)) (entries d))"
      by (simp add: case_prod_unfold)
    have "drop (Suc i) b = drop (Suc i) buff"
      using b(3) b1(2) Suc by (metis Suc_n_not_le_n drop_Suc tl_drop nat_le_linear)
    then show ?thesis using b b1(1) d Suc ev by auto
  qed
  then obtain b2 where b2: "(if c > 0 then Inr (?b1, [(?b1, c, s)])
        else if d \<noteq> Null then dump_outs d ?b1 (Suc i - 1) else Inr (?b1, [])) =
      Inr (b2, map (dump_event (Suc i) buff)
        (if d = Null then [([k], c, s)] else map (\<lambda>(xs, e). (k # xs, e)) (entries d)))"
      "length b2 = length buff" "drop (Suc i) b2 = drop (Suc i) buff" by blast
  obtain b3 where b3: "dump_outs n b2 (Suc i) = Inr (b3, map (dump_event (Suc i) b2) (entries n))"
      "length b3 = length b2" "drop (Suc i) b3 = drop (Suc i) b2"
    using Outs.IH(1) [of i b2] Outs.prems b2 by auto
  have same: "dump_event (Suc i) b2 = dump_event (Suc i) buff"
    by (rule ext) (simp add: dump_event_def b2(3))
  have set: "aset buff (int (Suc i) - 1) k = Inr ?b1" using Outs.prems(3) by (simp add: aset_def)
  show ?case
    by (rule exI [of _ b3], unfold dump_outs.simps set bind_res.simps b2(1) prod.case b3(1))
      (simp add: b2 b3 same)
qed

subsection \<open>Trees with the same contents are equal\<close>

lemma same_outs_eq: "same_outs p q \<longleftrightarrow> p = q"
  by (induction p q rule: same_outs.induct) auto

lemma nonempty_entry:
  "wf_outs i t \<Longrightarrow> counted t \<Longrightarrow> t = Outs k c s n d \<Longrightarrow>
   \<exists>xs. length xs = i \<and> fst (entry_of t (k # xs)) \<noteq> 0"
proof (induction i arbitrary: t k c s n d)
  case 0
  then show ?case by auto
next
  case (Suc i)
  then have d: "wf_outs i d" "counted d" "d \<noteq> Null" by auto
  then obtain k' c' s' n' d' where d': "d = Outs k' c' s' n' d'" by (cases d) auto
  obtain xs where "length xs = i" "fst (entry_of d (k' # xs)) \<noteq> 0"
    using Suc.IH [OF d(1,2) d'] by blast
  then have "length (k' # xs) = Suc i \<and> fst (entry_of t (k # k' # xs)) \<noteq> 0"
    using Suc.prems(3) by simp
  then show ?case by blast
qed

lemma first_key_le:
  assumes "wf_outs i p" and "counted p" and "p = Outs k c s n d" and "wf_outs i q"
    and same: "\<And>xs. length xs = Suc i \<Longrightarrow> entry_of p xs = entry_of q xs"
  shows "\<not> above k q"
proof
  assume "above k q"
  obtain xs where xs: "length xs = i" "fst (entry_of p (k # xs)) \<noteq> 0"
    using nonempty_entry [OF assms(1-3)] by blast
  have "entry_of q (k # xs) = (0, False)"
    using \<open>above k q\<close> assms(4) by (rule entry_of_above [OF _ order_refl])
  then show False using xs same [of "k # xs"] by simp
qed

lemma outs_canonical:
  assumes "wf_outs i p" and "counted p" and "wf_outs i q" and "counted q"
    and "\<And>xs. length xs = Suc i \<Longrightarrow> entry_of p xs = entry_of q xs"
  shows "p = q"
  using assms
proof (induction p arbitrary: q i)
  case Null
  show ?case
  proof (cases q)
    case (Outs k c s n d)
    then have "\<not> above k Null" using Null.prems by (intro first_key_le [of i q k c s n d]) auto
    then show ?thesis by simp
  qed simp
next
  case (Outs k c s n d)
  let ?p = "Outs k c s n d"
  have "\<not> above k q" using Outs.prems by (intro first_key_le [of i ?p k c s n d]) auto
  then obtain k' c' s' n' d' where q: "q = Outs k' c' s' n' d'" "k' \<le> k" by (cases q) auto
  have "\<not> above k' ?p" using Outs.prems q(1) by (intro first_key_le [of i q k' c' s' n' d']) auto
  then have k: "k' = k" using q(2) by simp
  have an: "above k n" "above k n'" "wf_outs i n" "wf_outs i n'" using Outs.prems q k by auto
  have "n = n'"
  proof (rule Outs.IH(1) [of i])
    show "entry_of n xs = entry_of n' xs" if len: "length xs = Suc i" for xs
    proof -
      obtain x ys where xs: "xs = x # ys" using len by (cases xs) auto
      show ?thesis
      proof (cases "x = k")
        case True
        then show ?thesis using an xs by (simp add: entry_of_above [where y = k and i = i])
      next
        case False
        then show ?thesis using Outs.prems(5) [OF len] xs q k by simp
      qed
    qed
  qed (use Outs.prems q in auto)
  moreover have "c = c' \<and> s = s' \<and> d = d'"
  proof (cases i)
    case 0
    then show ?thesis using Outs.prems(1,3) Outs.prems(5) [of "[k]"] q k by auto
  next
    case (Suc j)
    have "d = d'"
    proof (rule Outs.IH(2) [of j])
      show "entry_of d xs = entry_of d' xs" if "length xs = Suc j" for xs
        using Outs.prems(5) [of "k # xs"] that q k Suc by (cases xs) auto
    qed (use Outs.prems q Suc in auto)
    then show ?thesis using Outs.prems q Suc by auto
  qed
  ultimately show ?case using q k by simp
qed

text \<open>A leaf holds at most the total, so counts below \<open>2^64\<close> in total never wrap to zero.\<close>

lemma counted_loop_add:
  assumes "wf_outs i p" "counted p" "c \<noteq> 0" "total_outs p + unat c < 2 ^ 64"
  shows "counted (loop_add_outcome_outs p k i c s)"
  using assms
proof (induction i arbitrary: p)
  case 0
  have "unat (pc + c) \<noteq> 0" if "unat pc + unat c < 2 ^ 64" for pc :: u64
    using that "0.prems"(3) by (simp add: unat_add unat_eq_0)
  then have "pc + c \<noteq> 0" if "unat pc + unat c < 2 ^ 64" for pc :: u64
    using that by (metis unsigned_0)
  then show ?case using 0 by (induction p) (auto simp: outs_eqs)
next
  case (Suc i)
  show ?case using Suc.prems
    by (induction p) (auto simp: outs_eqs Suc.IH)
qed

lemma counted_merge:
  "wf_outs i p \<Longrightarrow> wf_outs i q \<Longrightarrow> counted p \<Longrightarrow> counted q \<Longrightarrow>
   total_outs p + total_outs q < 2 ^ 64 \<Longrightarrow> counted (do_merge_outs p q)"
proof (induction p q arbitrary: i rule: merge_induct)
  case (Same pk pc ps pn pd qc qs qn qd)
  have "pc + qc \<noteq> 0" if "pc \<noteq> 0"
  proof -
    have "unat (pc + qc) = unat pc + unat qc" using Same.prems(5) by (intro unat_add) simp
    then show ?thesis using that by (metis add_is_0 unat_eq_0 unsigned_0)
  qed
  then show ?case using Same by (cases i) (auto simp: outs_eqs)
next
  case (Before pk pc ps pn pd qk qc qs qn qd)
  then show ?case by (auto simp: outs_eqs merge_Null_left)
next
  case (After pk pc ps pn pd qk qc qs qn qd)
  then show ?case by (auto simp: outs_eqs)
qed (auto simp: merge_Null_left)

subsection \<open>The tree as an outcome histogram\<close>

text \<open>An addition to the tree never fails.\<close>

definition tree_add :: "nat \<Rightarrow> int list \<Rightarrow> u64 \<Rightarrow> bool \<Rightarrow> outs \<Rightarrow> outs \<times> bool" where
  "tree_add sz k c s t = (add_outcome_outs t k sz c s, True)"

definition hist_outs :: "nat \<Rightarrow> outs \<Rightarrow> bool" where
  "hist_outs sz t \<longleftrightarrow> 0 < sz \<and> wf_outs (sz - 1) t \<and> counted t"

definition entry :: "outs \<Rightarrow> int list \<Rightarrow> u64 \<times> bool" where
  "entry t k = entry_of t (rev k)"

lemma path_rev: "length k = Suc i \<Longrightarrow> path k i = rev k"
  by (simp add: path_eq_rev)

lemma entry_le_total: "unat (fst (entry_of t xs)) \<le> total_outs t"
  by (induction t xs rule: entry_of.induct) auto

lemma hist_add:
  assumes "hist_outs sz t" and "c \<noteq> 0" and "total_outs t + unat c < 2 ^ 64"
  shows "hist_outs sz (add_outcome_outs t k sz c s)"
  using assms by (simp add: hist_outs_def add_outcome_outs_def wf_loop_add counted_loop_add)

lemma entry_add:
  assumes "hist_outs sz t" and "length k = sz" and "length k' = sz"
  shows "entry (add_outcome_outs t k sz c s) k' =
    (if k' = k then plus_entry (entry t k') (c, s) else entry t k')"
proof -
  obtain i where i: "sz = Suc i" using assms(1) by (cases sz) (auto simp: hist_outs_def)
  then show ?thesis using assms
    by (simp add: hist_outs_def entry_def add_outcome_outs_def entry_loop_add path_rev)
qed

lemma hist_canonical:
  assumes "hist_outs sz p" and "hist_outs sz q" and "\<And>k. length k = sz \<Longrightarrow> entry p k = entry q k"
  shows "p = q"
proof (rule outs_canonical [of "sz - 1"])
  show "entry_of p xs = entry_of q xs" if "length xs = Suc (sz - 1)" for xs
    using assms(3) [of "rev xs"] that assms(1) by (simp add: entry_def hist_outs_def)
qed (use assms in \<open>auto simp: hist_outs_def\<close>)

interpretation tree: outcome_counter Null "tree_add (Suc i)" "\<lambda>t k. unat (fst (entry t k))" total_outs
  "hist_outs (Suc i)" "\<lambda>k. length k = Suc i" "(=)" "2 ^ 64" for i
proof
  fix t :: outs and k :: "int list" and c s t'
  assume t: "hist_outs (Suc i) t" "length k = Suc i" "c \<noteq> 0" "total_outs t + unat c < 2 ^ 64"
    and "tree_add (Suc i) k c s t = (t', True)"
  then have t': "t' = add_outcome_outs t k (Suc i) c s" by (simp add: tree_add_def)
  have "unat (fst (entry t k)) + unat c < 2 ^ 64"
    using entry_le_total [of t "rev k"] t(4) unfolding entry_def by linarith
  then have "unat (fst (entry t k) + c) = unat (fst (entry t k)) + unat c" by (rule unat_add)
  moreover have "total_outs t' = total_outs t + unat c"
    using t(4) by (simp add: t' add_outcome_outs_def total_loop_add)
  ultimately show "hist_outs (Suc i) t' \<and> total_outs t' = total_outs t + unat c \<and>
      (\<forall>k'. length k' = Suc i \<longrightarrow>
        unat (fst (entry t' k')) = unat (fst (entry t k')) + (if k' = k then unat c else 0))"
    using t hist_add [OF t(1,3,4)] by (simp add: t' entry_add plus_entry_def)
qed (auto simp: hist_outs_def entry_def tree_add_def)

subsection \<open>Sequences of additions\<close>

lemma add_all_tree_Cons [simp]:
  "fst (add_all (tree_add sz) ((k, c, s) # xs) t) =
   fst (add_all (tree_add sz) xs (add_outcome_outs t k sz c s))"
  by (simp add: tree_add_def Let_def split: prod.splits)

lemma add_all_tree_True: "add_all (tree_add sz) xs t = (fst (add_all (tree_add sz) xs t), True)"
  by (induction xs arbitrary: t) (auto simp: tree_add_def Let_def split: prod.splits)

lemma hist_add_all:
  assumes "hist_outs (Suc i) t" and "tree.good i xs" and "total_outs t + weight xs < 2 ^ 64"
  shows "hist_outs (Suc i) (fst (add_all (tree_add (Suc i)) xs t))"
  using tree.add_all_ok [OF assms add_all_tree_True] by simp

lemma entry_add_all:
  assumes "hist_outs (Suc i) t" and "tree.good i xs" and "total_outs t + weight xs < 2 ^ 64"
    and "length k = Suc i"
  shows "entry (fst (add_all (tree_add (Suc i)) xs t)) k =
    (fst (entry t k) + of_nat (weight_of (=) k xs), snd (entry t k) \<or> (\<exists>c. (k, c, True) \<in> set xs))"
  using assms
proof (induction xs arbitrary: t)
  case Nil
  then show ?case by simp
next
  case (Cons x xs)
  obtain k1 c s where x: "x = (k1, c, s)" by (cases x)
  let ?t1 = "add_outcome_outs t k1 (Suc i) c s"
  have t1: "hist_outs (Suc i) ?t1" using Cons.prems by (auto simp: x intro!: hist_add)
  moreover have "total_outs ?t1 = total_outs t + unat c"
    using Cons.prems by (auto simp: x add_outcome_outs_def total_loop_add)
  ultimately have "entry (fst (add_all (tree_add (Suc i)) xs ?t1)) k =
      (fst (entry ?t1 k) + of_nat (weight_of (=) k xs), snd (entry ?t1 k) \<or> (\<exists>c. (k, c, True) \<in> set xs))"
    using Cons.prems by (intro Cons.IH) (auto simp: x)
  moreover have "entry ?t1 k = (if k = k1 then plus_entry (entry t k) (c, s) else entry t k)"
    using Cons.prems by (intro entry_add) (auto simp: x)
  ultimately show ?case by (auto simp: x plus_entry_def add.assoc simp del: add_all.simps)
qed

text \<open>The outcomes handed out by \<open>dump_outs\<close> with a buffer of exactly \<open>sz\<close> cells.\<close>

definition dumped :: "outs \<Rightarrow> (int list, 64) outcome list" where
  "dumped t = map (\<lambda>(xs, e). (rev xs, e)) (entries t)"

lemma sorted_wrt_distinct: "sorted_wrt R xs \<Longrightarrow> (\<And>x. \<not> R x x) \<Longrightarrow> distinct xs"
  by (induction xs) auto

lemma lex_less_irrefl [simp]: "\<not> lex_less xs xs"
  by (induction xs) (auto simp: lex_less_def)

lemma distinct_entries: "wf_outs i t \<Longrightarrow> distinct (map fst (entries t))"
  using sorted_wrt_distinct [OF sorted_entries] by simp

lemma distinct_dumped: "hist_outs sz t \<Longrightarrow> distinct (map fst (dumped t))"
  using distinct_entries [of "sz - 1" t]
  by (auto simp: hist_outs_def dumped_def case_prod_unfold distinct_map inj_on_def)

lemma map_of_dumped: "map_of (dumped t) k = map_of (entries t) (rev k)"
proof -
  have "map_of (map (\<lambda>(xs, e). (rev xs, e)) es) k = map_of es (rev k)"
    for es :: "(int list \<times> u64 \<times> bool) list" by (induction es) (auto simp: rev_swap)
  then show ?thesis by (simp add: dumped_def)
qed

lemma entry_dumped:
  assumes "hist_outs sz t" and "length k = sz"
  shows "entry t k = (case map_of (dumped t) k of None \<Rightarrow> (0, False) | Some e \<Rightarrow> e)"
  using assms entry_of_entries [of "sz - 1" t "rev k"]
  by (simp add: hist_outs_def entry_def map_of_dumped)

lemma weight_of_distinct:
  "distinct (map fst xs) \<Longrightarrow>
   weight_of (=) k xs = (case map_of xs k of None \<Rightarrow> 0 | Some e \<Rightarrow> unat (fst e))"
proof (induction xs)
  case (Cons x xs)
  obtain k' c s where x: "x = (k', c, s)" by (cases x)
  show ?case
  proof (cases "k = k'")
    case True
    then have "map_of xs k = None" using Cons.prems x by (auto simp: map_of_eq_None_iff)
    then show ?thesis using Cons x True by simp
  qed (use Cons x in auto)
qed simp

lemma flag_of_distinct:
  "distinct (map fst xs) \<Longrightarrow>
   (\<exists>c. (k, c, True) \<in> set xs) \<longleftrightarrow> (case map_of xs k of None \<Rightarrow> False | Some e \<Rightarrow> snd e)"
proof (induction xs)
  case (Cons x xs)
  obtain k' c s where x: "x = (k', c, s)" by (cases x)
  show ?case
  proof (cases "k = k'")
    case True
    then have "\<forall>c. (k, c, True) \<notin> set xs" using Cons.prems x by force
    then show ?thesis using x True by auto
  qed (use Cons x in auto)
qed simp

lemma dumped_good: "hist_outs (Suc i) t \<Longrightarrow> tree.good i (dumped t)"
proof -
  assume t: "hist_outs (Suc i) t"
  have nz: "c \<noteq> 0" if "(xs, c, s) \<in> set (entries u)" "counted u" for u xs c s
    using that by (induction u arbitrary: xs) (auto split: if_splits)
  show ?thesis using t nz length_entry [of i t]
    by (fastforce simp: tree.good_def dumped_def hist_outs_def)
qed

lemma weight_dumped: "hist_outs sz t \<Longrightarrow> weight (dumped t) = total_outs t"
proof -
  assume "hist_outs sz t"
  then have "total_outs t = (\<Sum>(xs, c, s) \<leftarrow> entries t. unat c)"
    by (intro total_entries [of "sz - 1"]) (simp add: hist_outs_def)
  moreover have "weight (map (\<lambda>(xs, e). (rev xs, e)) es) = (\<Sum>(xs, c, s) \<leftarrow> es. unat c)"
    for es :: "(int list \<times> u64 \<times> bool) list" by (induction es) auto
  ultimately show ?thesis by (simp add: dumped_def)
qed

text \<open>Merging is replaying the dump.\<close>

lemma hist_merge:
  assumes "hist_outs sz p" and "hist_outs sz q" and "total_outs p + total_outs q < 2 ^ 64"
  shows "hist_outs sz (merge_outs p q sz)"
  using assms by (auto simp: hist_outs_def merge_outs_def wf_merge intro!: counted_merge)

lemma entry_merge_outs:
  assumes "hist_outs sz p" and "hist_outs sz q" and "length k = sz"
  shows "entry (merge_outs p q sz) k = plus_entry (entry p k) (entry q k)"
  using assms by (simp add: hist_outs_def merge_outs_def entry_def entry_merge [of "sz - 1"])

lemma merge_is_replay:
  assumes "hist_outs (Suc i) p" and "hist_outs (Suc i) q" and "total_outs p + total_outs q < 2 ^ 64"
  shows "merge_outs p q (Suc i) = fst (add_all (tree_add (Suc i)) (dumped q) p)"
proof (rule hist_canonical [OF hist_merge [OF assms]])
  have w: "total_outs p + weight (dumped q) < 2 ^ 64"
    using assms(2,3) by (simp add: weight_dumped)
  show "hist_outs (Suc i) (fst (add_all (tree_add (Suc i)) (dumped q) p))"
    by (rule hist_add_all [OF assms(1) dumped_good [OF assms(2)] w])
  fix k :: "int list" assume k: "length k = Suc i"
  have flag: "(\<exists>c. (k, c, True) \<in> set (dumped q)) \<longleftrightarrow> snd (entry q k)"
    by (simp add: entry_dumped [OF assms(2) k] flag_of_distinct [OF distinct_dumped [OF assms(2)]]
        split: option.split)
  have "of_nat (weight_of (=) k (dumped q)) = fst (entry q k)"
    by (simp add: entry_dumped [OF assms(2) k] weight_of_distinct [OF distinct_dumped [OF assms(2)]]
        split: option.split)
  then show "entry (merge_outs p q (Suc i)) k =
      entry (fst (add_all (tree_add (Suc i)) (dumped q) p)) k"
    by (simp add: entry_merge_outs [OF assms(1,2) k] flag plus_entry_def
        entry_add_all [OF assms(1) dumped_good [OF assms(2)] w k])
qed

subsection \<open>Properties\<close>

text \<open>
  C2: \<open>add_outcome_outs\<close> keeps the tree a histogram (levels sorted, counts in the leaves only,
  none zero), adds the count to the entry of the outcome, ors the flag into it, and changes no
  other entry, as long as the counts sum up below \<open>2^64\<close>.
\<close>

theorem add_outcome_outs_correct:
  assumes "hist_outs sz p" and "length k = sz" and "c \<noteq> 0" and "total_outs p + unat c < 2 ^ 64"
  shows "hist_outs sz (add_outcome_outs p k sz c s) \<and>
    (\<forall>k'. length k' = sz \<longrightarrow> entry (add_outcome_outs p k sz c s) k' =
      (if k' = k then plus_entry (entry p k') (c, s) else entry p k'))"
  using hist_add [OF assms(1,3,4)] entry_add [OF assms(1,2)] by simp

theorem add_outcome_outs_correct_witness:
  "hist_outs 2 (add_outcome_outs (add_outcome_outs Null [3, 7] 2 5 False) [3, 8] 2 4 True) \<and>
   entry (add_outcome_outs (add_outcome_outs Null [3, 7] 2 5 False) [3, 8] 2 4 True) [3, 7] = (5, False)"
proof -
  let ?p = "add_outcome_outs Null [3, 7] 2 5 False"
  have p: "?p = Outs 7 0 False Null (Outs 3 5 False Null Null)"
    by (simp add: add_outcome_outs_def outs_eqs flip: One_nat_def)
      (simp add: outs_eqs One_nat_def)
  have "entry ?p [3, 7] = (5, False)" unfolding p by (simp add: entry_def)
  moreover have "hist_outs 2 ?p" unfolding p by (simp add: hist_outs_def)
  ultimately show ?thesis
    using add_outcome_outs_correct [of 2 ?p "[3, 8]" 4 True] unfolding p by simp
qed

text \<open>
  \<open>merge_outs\<close> keeps the tree a histogram and its entries are, outcome by outcome, the sum of
  the counts and the disjunction of the flags.
\<close>

theorem merge_outs_correct:
  assumes "hist_outs sz p" and "hist_outs sz q" and "total_outs p + total_outs q < 2 ^ 64"
  shows "hist_outs sz (merge_outs p q sz) \<and>
    (\<forall>k. length k = sz \<longrightarrow> entry (merge_outs p q sz) k = plus_entry (entry p k) (entry q k))"
  using hist_merge [OF assms] entry_merge_outs [OF assms(1,2)] by simp

theorem merge_outs_correct_witness:
  "hist_outs 1 (merge_outs (Outs 1 2 False Null Null) (Outs 0 4 True (Outs 1 3 True Null Null) Null) 1) \<and>
   entry (merge_outs (Outs 1 2 False Null Null) (Outs 0 4 True (Outs 1 3 True Null Null) Null) 1) [1] = (5, True)"
proof -
  let ?p = "Outs 1 2 False Null Null" and ?q = "Outs 0 4 True (Outs 1 3 True Null Null) Null"
  have "plus_entry (entry ?p [1]) (entry ?q [1]) = (5, True)" by (simp add: entry_def)
  moreover have "hist_outs 1 ?p" "hist_outs 1 ?q" by (simp_all add: hist_outs_def)
  ultimately show ?thesis using merge_outs_correct [of 1 ?p ?q] by simp
qed

text \<open>
  C1: \<open>merge_outs(p,q)\<close> builds exactly the tree obtained by adding to \<open>p\<close>, one by one with
  \<open>add_outcome_outs\<close>, the outcomes that \<open>dump_outs\<close> lists for \<open>q\<close>; from the empty tree, dumping
  and adding back rebuilds \<open>q\<close> itself.
\<close>

theorem merge_outs_replays_dump:
  assumes "hist_outs sz p" and "hist_outs sz q" and "total_outs p + total_outs q < 2 ^ 64"
  shows "merge_outs p q sz = fst (add_all (tree_add sz) (dumped q) p) \<and>
    fst (add_all (tree_add sz) (dumped q) Null) = q"
proof -
  obtain i where sz: "sz = Suc i" using assms(1) by (cases sz) (auto simp: hist_outs_def)
  have "hist_outs sz Null" by (simp add: hist_outs_def sz)
  then have "merge_outs Null q sz = fst (add_all (tree_add sz) (dumped q) Null)"
    using assms by (simp only: sz) (rule merge_is_replay, auto)
  then show ?thesis
    using merge_is_replay [of i p q] assms by (simp add: sz merge_outs_def merge_Null_left)
qed

theorem merge_outs_replays_dump_witness:
  "fst (add_all (tree_add 1) (dumped (Outs 4 9 True (Outs 6 1 False Null Null) Null)) Null) =
     Outs 4 9 True (Outs 6 1 False Null Null) Null"
  using merge_outs_replays_dump [of 1 Null "Outs 4 9 True (Outs 6 1 False Null Null) Null"]
  by (simp add: hist_outs_def)

text \<open>
  C35: \<open>dump_outs\<close> stays inside a buffer of \<open>sz\<close> cells and reports every outcome of the histogram
  once, with its count and flag, in strictly increasing order of the values read from the last
  cell of the outcome to the first.
\<close>

theorem dump_outs_complete_sorted:
  assumes "hist_outs sz t" and "length buff = sz"
  shows "\<exists>b. dump_outs t buff sz = Inr (b, dumped t) \<and>
    sorted_wrt (\<lambda>x y. lex_less (rev (fst x)) (rev (fst y))) (dumped t) \<and>
    (\<forall>k c s. length k = sz \<longrightarrow> (k, c, s) \<in> set (dumped t) \<longleftrightarrow> c \<noteq> 0 \<and> entry t k = (c, s))"
proof -
  obtain i where sz: "sz = Suc i" using assms(1) by (cases sz) (auto simp: hist_outs_def)
  have t: "wf_outs i t" "counted t" using assms(1) by (auto simp: hist_outs_def sz)
  have "map (dump_event (Suc i) buff) (entries t) = dumped t"
    using assms(2) by (simp add: dumped_def dump_event_def case_prod_unfold sz)
  then have "\<exists>b. dump_outs t buff sz = Inr (b, dumped t)"
    using dump_entries [OF t, of buff] assms(2) by (auto simp: sz)
  moreover have "sorted_wrt (\<lambda>x y. lex_less (rev (fst x)) (rev (fst y))) (dumped t)"
    using sorted_entries [OF t(1)] by (simp add: dumped_def sorted_wrt_map case_prod_unfold)
  moreover have "(k, c, s) \<in> set (dumped t) \<longleftrightarrow> c \<noteq> 0 \<and> entry t k = (c, s)" if "length k = sz" for k c s
  proof -
    have "c \<noteq> 0" if "(k, c, s) \<in> set (dumped t)"
      using dumped_good [of i t] assms(1) that by (auto simp: tree.good_def sz)
    moreover have "map_of (dumped t) k = Some (c, s) \<longleftrightarrow> (k, c, s) \<in> set (dumped t)"
      using distinct_dumped [OF assms(1)] by simp
    ultimately show ?thesis
      by (auto simp: entry_dumped [OF assms(1) that] split: option.splits)
  qed
  ultimately show ?thesis by blast
qed

theorem dump_outs_complete_sorted_witness:
  "\<exists>b. dump_outs (Outs 7 0 False Null (Outs 3 5 True (Outs 4 1 False Null Null) Null)) [0, 0] 2 =
    Inr (b, [([3, 7], 5, True), ([4, 7], 1, False)])"
  using dump_outs_complete_sorted
    [of 2 "Outs 7 0 False Null (Outs 3 5 True (Outs 4 1 False Null Null) Null)" "[0, 0]"]
  by (auto simp: hist_outs_def dumped_def)

text \<open>
  \<open>same_outs\<close> decides whether two histograms record the same thing: it answers true exactly
  when every outcome has the same count and the same flag in both.
\<close>

theorem same_outs_iff_same_entries:
  assumes "hist_outs sz p" and "hist_outs sz q"
  shows "same_outs p q \<longleftrightarrow> (\<forall>k. length k = sz \<longrightarrow> entry p k = entry q k)"
  using hist_canonical [OF assms] by (auto simp: same_outs_eq)

theorem same_outs_iff_same_entries_witness:
  "\<not> (\<forall>k. length k = 1 \<longrightarrow> entry (Outs 1 2 False Null Null) k = entry (Outs 1 2 True Null Null) k)"
  using same_outs_iff_same_entries [of 1 "Outs 1 2 False Null Null" "Outs 1 2 True Null Null"]
  by (simp add: hist_outs_def)

text \<open>
  The histogram of a run does not depend on the order in which its outcomes were observed:
  adding the same outcomes in any two orders gives the same tree.
\<close>

theorem add_outcomes_any_order:
  assumes "\<forall>(k, c, s) \<in> set xs. length k = sz \<and> c \<noteq> 0" and "0 < sz" and "weight xs < 2 ^ 64"
    and "mset xs = mset ys"
  shows "fst (add_all (tree_add sz) xs Null) = fst (add_all (tree_add sz) ys Null)"
proof -
  obtain i where sz: "sz = Suc i" using assms(2) by (cases sz) auto
  have good: "tree.good i xs" "tree.good i ys"
    using assms(1) mset_eq_setD [OF assms(4)] by (auto simp: tree.good_def sz)
  have w: "weight ys = weight xs"
    using weight_of_mset [OF assms(4), of "\<lambda>_ _. True"] by (simp add: weight_of_all)
  have empty: "hist_outs (Suc i) Null" by (simp add: hist_outs_def)
  show ?thesis unfolding sz
  proof (rule hist_canonical [OF hist_add_all [OF empty good(1)] hist_add_all [OF empty good(2)]])
    fix k :: "int list" assume "length k = Suc i"
    then show "entry (fst (add_all (tree_add (Suc i)) xs Null)) k =
        entry (fst (add_all (tree_add (Suc i)) ys Null)) k"
      using assms(3) w weight_of_mset [OF assms(4)] mset_eq_setD [OF assms(4)]
      by (simp add: entry_add_all [OF empty good(1)] entry_add_all [OF empty good(2)])
  qed (use assms(3) w in simp_all)
qed

theorem add_outcomes_any_order_witness:
  "fst (add_all (tree_add 1) [([1], 2, True), ([0], 1, False)] Null) =
   fst (add_all (tree_add 1) [([0], 1, False), ([1], 2, True)] Null)"
  by (rule add_outcomes_any_order) auto

text \<open>
  \<open>sum_outs\<close> is additive, modulo \<open>2^64\<close> and with no condition: one more outcome of count
  \<open>c\<close> adds \<open>c\<close>, and a merge adds the two sums.
\<close>

theorem sum_outs_additive:
  "sum_outs (add_outcome_outs p k sz c s) = sum_outs p + c \<and>
   sum_outs (merge_outs p q sz) = sum_outs p + sum_outs q"
  by (simp add: add_outcome_outs_def merge_outs_def sum_loop_add sum_merge)

text \<open>\<open>finals_outs\<close> is the number of distinct outcomes that \<open>dump_outs\<close> reports.\<close>

theorem finals_outs_counts_outcomes:
  assumes "hist_outs sz t"
  shows "finals_outs t = length (dumped t) \<and> distinct (map fst (dumped t))"
proof -
  obtain i where sz: "sz = Suc i" using assms by (cases sz) (auto simp: hist_outs_def)
  have "\<forall>(k, c, s) \<in> set (dumped t). c \<noteq> 0"
    using dumped_good [of i t] assms by (auto simp: tree.good_def sz)
  then have "filter (\<lambda>(xs, c, s). c \<noteq> 0) (entries t) = entries t"
    by (auto simp: dumped_def filter_id_conv)
  then show ?thesis
    using finals_entries [of i t] assms distinct_dumped [OF assms]
    by (simp add: hist_outs_def sz dumped_def)
qed

theorem finals_outs_counts_outcomes_witness:
  "finals_outs (Outs 4 9 True (Outs 6 1 False Null Null) Null) = 2"
  using finals_outs_counts_outcomes [of 1 "Outs 4 9 True (Outs 6 1 False Null Null) Null"]
  by (simp add: hist_outs_def dumped_def)

end
