(* ===== verification/Hash.thy ===== *)
theory Hash
  imports Counter
begin

section \<open>The hash table of outcomes (\<^verbatim>\<open>_hash.c\<close>)\<close>

text \<open>
  The pre-silicon harness accumulates outcomes in a table of \<open>HASHSZ\<close> entries with linear probing.
  A log (\<open>log_t\<close>, a struct the generator emits) is modelled by its memory image, a list of 32-bit
  words, since this file hashes and initialises it as such.  The comparison \<open>eq_log\<close> is emitted by
  the generator, so it is a parameter; what the table needs of it is \<open>log_eq_on\<close> below.
  Counts are words of 32 bits: the bare-metal harness, the only one that includes this file, defines
  \<open>count_t\<close> as \<open>uint32_t\<close>.
  \<open>HASHSZ\<close> is the length of the table.  The entries carry the parameters \<open>p\<close> of the \<open>STATS\<close>
  variant; the other variant is the instance \<open>unit\<close>.
\<close>

unbundle bit_operations_syntax

subsection \<open>Bob Jenkins' hashword\<close>

definition rot :: "u32 \<Rightarrow> nat \<Rightarrow> u32" where
  "rot x k = push_bit k x OR drop_bit (32 - k) x"

text \<open>
  The six lines of the macro \<open>mix\<close> are one operation with the roles of the three words rotated,
  and the seven of \<open>final\<close> another.
\<close>

definition mix_line :: "nat \<Rightarrow> u32 \<times> u32 \<times> u32 \<Rightarrow> u32 \<times> u32 \<times> u32" where
  "mix_line k = (\<lambda>(x, y, z). let x = x - z; x = x XOR rot z k; z = z + y in (x, y, z))"

definition mix :: "u32 \<times> u32 \<times> u32 \<Rightarrow> u32 \<times> u32 \<times> u32" where
  "mix = (\<lambda>(a, b, c).
     let (a, b, c) = mix_line 4 (a, b, c);
         (b, c, a) = mix_line 6 (b, c, a);
         (c, a, b) = mix_line 8 (c, a, b);
         (a, b, c) = mix_line 16 (a, b, c);
         (b, c, a) = mix_line 19 (b, c, a);
         (c, a, b) = mix_line 4 (c, a, b)
     in (a, b, c))"

definition final_line :: "nat \<Rightarrow> u32 \<Rightarrow> u32 \<Rightarrow> u32" where
  "final_line k x y = (let x = x XOR y in x - rot y k)"

definition final :: "u32 \<times> u32 \<times> u32 \<Rightarrow> u32 \<times> u32 \<times> u32" where
  "final = (\<lambda>(a, b, c).
     let c = final_line 14 c b;
         a = final_line 11 a c;
         b = final_line 25 b a;
         c = final_line 16 c b;
         a = final_line 4 a c;
         b = final_line 14 b a;
         c = final_line 24 c b
     in (a, b, c))"

text \<open>The loop while more than three words are left; the result is the state and the last words.\<close>

fun hash_blocks :: "u32 \<times> u32 \<times> u32 \<Rightarrow> u32 list \<Rightarrow> (u32 \<times> u32 \<times> u32) \<times> u32 list" where
  "hash_blocks (a, b, c) (x # y # z # w # k) = hash_blocks (mix (a + x, b + y, c + z)) (w # k)"
| "hash_blocks abc k = (abc, k)"

fun hash_tail :: "u32 \<times> u32 \<times> u32 \<Rightarrow> u32 list \<Rightarrow> u32 \<times> u32 \<times> u32" where
  "hash_tail (a, b, c) [x, y, z] = final (a + x, b + y, c + z)"
| "hash_tail (a, b, c) [x, y] = final (a + x, b + y, c)"
| "hash_tail (a, b, c) [x] = final (a + x, b, c)"
| "hash_tail (a, b, c) k = (a, b, c)"

definition hashword :: "u32 list \<Rightarrow> u32" where
  "hashword k =
     (let (abc, k) = hash_blocks (0xdeadbeef, 0xdeadbeef, 0xdeadbeef) k;
          (a, b, c) = hash_tail abc k
      in c)"

subsection \<open>The table\<close>

type_synonym log_t = "u32 list"

definition hash_log :: "log_t \<Rightarrow> u32" where
  "hash_log key = hashword key"

definition log_init :: "nat \<Rightarrow> log_t" where
  "log_init sz = replicate sz (- 1)"

record 'p entry_t =
  e_key :: log_t
  e_p :: 'p
  e_c :: u32
  e_ok :: bool

record 'p hash_t =
  nhash :: nat
  slots :: "'p entry_t list"

definition hash_init :: "nat \<Rightarrow> 'p hash_t \<Rightarrow> 'p hash_t" where
  "hash_init logsz t =
     t\<lparr>nhash := 0, slots := map (\<lambda>e. e\<lparr>e_c := 0, e_key := log_init logsz\<rparr>) (slots t)\<rparr>"

text \<open>The calls of \<open>pp_entry\<close> made by \<open>pp_hash\<close>, in order.\<close>

definition pp_hash :: "'p hash_t \<Rightarrow> 'p entry_t list" where
  "pp_hash t = filter (\<lambda>p. e_c p > 0) (slots t)"

function hash_add_loop ::
  "(log_t \<Rightarrow> log_t \<Rightarrow> bool) \<Rightarrow> 'p hash_t \<Rightarrow> log_t \<Rightarrow> 'p \<Rightarrow> u32 \<Rightarrow> bool \<Rightarrow> nat \<Rightarrow> nat \<Rightarrow> 'p hash_t \<times> bool"
where
  "hash_add_loop eq_log t key v c ok k h =
     (if k < length (slots t) then
        (let p = slots t ! h in
         if e_c p = 0 then
           (t\<lparr>slots := (slots t)[h := \<lparr>e_key = key, e_p = v, e_c = c, e_ok = ok\<rparr>],
              nhash := nhash t + 1\<rparr>, True)
         else if eq_log key (e_key p) then
           (t\<lparr>slots := (slots t)[h := p\<lparr>e_c := e_c p + c\<rparr>]\<rparr>, True)
         else hash_add_loop eq_log t key v c ok (k + 1) ((h + 1) mod length (slots t)))
      else (t, False))"
  by pat_completeness auto
termination
  by (relation "measure (\<lambda>(eq_log, t, key, v, c, ok, k, h). length (slots t) - k)") auto

declare hash_add_loop.simps [simp del]

definition hash_add ::
  "(log_t \<Rightarrow> log_t \<Rightarrow> bool) \<Rightarrow> 'p hash_t \<Rightarrow> log_t \<Rightarrow> 'p \<Rightarrow> u32 \<Rightarrow> bool \<Rightarrow> 'p hash_t \<times> bool" where
  "hash_add eq_log t key v c ok =
     (let h = unat (hash_log key) mod length (slots t)
      in hash_add_loop eq_log t key v c ok 0 h)"

fun hash_adds_loop ::
  "(log_t \<Rightarrow> log_t \<Rightarrow> bool) \<Rightarrow> 'p hash_t \<Rightarrow> 'p entry_t list \<Rightarrow> bool \<Rightarrow> 'p hash_t \<times> bool" where
  "hash_adds_loop eq_log t [] r = (t, r)"
| "hash_adds_loop eq_log t (p # ps) r =
     (if e_c p > 0 then
        (let (t', rloc) = hash_add eq_log t (e_key p) (e_p p) (e_c p) (e_ok p)
         in hash_adds_loop eq_log t' ps (r \<and> rloc))
      else hash_adds_loop eq_log t ps r)"

definition hash_adds :: "(log_t \<Rightarrow> log_t \<Rightarrow> bool) \<Rightarrow> 'p hash_t \<Rightarrow> 'p hash_t \<Rightarrow> 'p hash_t \<times> bool" where
  "hash_adds eq_log t f = hash_adds_loop eq_log t (slots f) True"

subsection \<open>The mixing steps lose nothing\<close>

text \<open>Each step of \<open>mix\<close> and \<open>final\<close> can be undone, so both are bijections of the state.\<close>

lemma xor_cancel [simp]: "(a XOR b) XOR b = (a :: u32)"
  by (simp add: xor.assoc)

definition unmix_line :: "nat \<Rightarrow> u32 \<times> u32 \<times> u32 \<Rightarrow> u32 \<times> u32 \<times> u32" where
  "unmix_line k = (\<lambda>(x, y, z). let z = z - y; x = x XOR rot z k; x = x + z in (x, y, z))"

lemma unmix_line [simp]: "unmix_line k (mix_line k s) = s"
  by (cases s) (simp add: mix_line_def unmix_line_def Let_def)

definition unmix :: "u32 \<times> u32 \<times> u32 \<Rightarrow> u32 \<times> u32 \<times> u32" where
  "unmix = (\<lambda>(a, b, c).
     let (c, a, b) = unmix_line 4 (c, a, b);
         (b, c, a) = unmix_line 19 (b, c, a);
         (a, b, c) = unmix_line 16 (a, b, c);
         (c, a, b) = unmix_line 8 (c, a, b);
         (b, c, a) = unmix_line 6 (b, c, a);
         (a, b, c) = unmix_line 4 (a, b, c)
     in (a, b, c))"

lemma unmix_line_eq: "mix_line k s = s' \<Longrightarrow> unmix_line k s' = s"
  by auto

lemma unmix_mix: "unmix (mix abc) = abc"
  by (auto simp: mix_def unmix_def Let_def unmix_line_eq split: prod.splits)

definition unfinal_line :: "nat \<Rightarrow> u32 \<Rightarrow> u32 \<Rightarrow> u32" where
  "unfinal_line k x y = (let x = x + rot y k in x XOR y)"

lemma unfinal_line [simp]: "unfinal_line k (final_line k x y) y = x"
  by (simp add: final_line_def unfinal_line_def Let_def)

definition unfinal :: "u32 \<times> u32 \<times> u32 \<Rightarrow> u32 \<times> u32 \<times> u32" where
  "unfinal = (\<lambda>(a, b, c).
     let c = unfinal_line 24 c b;
         b = unfinal_line 14 b a;
         a = unfinal_line 4 a c;
         c = unfinal_line 16 c b;
         b = unfinal_line 25 b a;
         a = unfinal_line 11 a c;
         c = unfinal_line 14 c b
     in (a, b, c))"

lemma unfinal_final: "unfinal (final abc) = abc"
  by (cases abc) (simp add: final_def unfinal_def Let_def)

lemma bij_of_left_inverse: "(\<And>x. g (f x) = x) \<Longrightarrow> bij (f :: u32 \<times> u32 \<times> u32 \<Rightarrow> u32 \<times> u32 \<times> u32)"
  by (metis bijI finite_UNIV_inj_surj finite_class.finite_UNIV injI)

text \<open>\<open>mix\<close> and \<open>final\<close> are bijections of the state: no information about the key is lost in a round.\<close>

theorem mix_final_bijective: "bij mix \<and> bij final"
  using bij_of_left_inverse [of unmix mix] bij_of_left_inverse [of unfinal final]
  by (simp add: unmix_mix unfinal_final)

subsection \<open>Probing\<close>

lemma length_slots_loop [simp]:
  "length (slots (fst (hash_add_loop eq_log t key v c ok k h))) = length (slots t)"
proof (induction eq_log t key v c ok k h rule: hash_add_loop.induct)
  case (1 eq_log t key v c ok k h)
  then show ?case by (subst hash_add_loop.simps) (auto simp: Let_def)
qed

lemma length_slots_add [simp]:
  "length (slots (fst (hash_add eq_log t key v c ok))) = length (slots t)"
  by (simp add: hash_add_def Let_def)

text \<open>
  Slots are numbered from the home of a key: \<open>probe t h d\<close> is the slot visited after \<open>d\<close> steps.
\<close>

definition probe :: "'p hash_t \<Rightarrow> nat \<Rightarrow> nat \<Rightarrow> nat" where
  "probe t h d = (h + d) mod length (slots t)"

definition home :: "'p hash_t \<Rightarrow> log_t \<Rightarrow> nat" where
  "home t key = unat (hash_log key) mod length (slots t)"

text \<open>The loop passes over slot \<open>i\<close>: it is taken, by another outcome.\<close>

definition passes :: "(log_t \<Rightarrow> log_t \<Rightarrow> bool) \<Rightarrow> 'p hash_t \<Rightarrow> log_t \<Rightarrow> nat \<Rightarrow> bool" where
  "passes eq_log t key i \<longleftrightarrow> e_c (slots t ! i) \<noteq> 0 \<and> \<not> eq_log key (e_key (slots t ! i))"

lemma probe_lt: "slots t \<noteq> [] \<Longrightarrow> probe t h d < length (slots t)"
  by (simp add: probe_def)

lemma loop_skip:
  assumes "d \<le> length (slots t)" and "h < length (slots t)"
    and "\<And>j. j < d \<Longrightarrow> passes eq_log t key (probe t h j)"
  shows "hash_add_loop eq_log t key v c ok 0 h = hash_add_loop eq_log t key v c ok d (probe t h d)"
  using assms(1,3)
proof (induction d)
  case 0
  then show ?case using assms(2) by (simp add: probe_def)
next
  case (Suc d)
  let ?i = "probe t h d"
  have "hash_add_loop eq_log t key v c ok d ?i =
      hash_add_loop eq_log t key v c ok (d + 1) ((?i + 1) mod length (slots t))"
    using Suc.prems(1) Suc.prems(2) [of d] by (subst hash_add_loop.simps) (simp add: passes_def)
  moreover have "(?i + 1) mod length (slots t) = probe t h (Suc d)"
    by (simp add: probe_def mod_Suc_eq)
  ultimately show ?case using Suc by simp
qed

definition store :: "'p hash_t \<Rightarrow> nat \<Rightarrow> log_t \<Rightarrow> 'p \<Rightarrow> u32 \<Rightarrow> bool \<Rightarrow> 'p hash_t" where
  "store t i key v c ok =
     (let p = slots t ! i in
      if e_c p = 0 then
        t\<lparr>slots := (slots t)[i := \<lparr>e_key = key, e_p = v, e_c = c, e_ok = ok\<rparr>], nhash := nhash t + 1\<rparr>
      else t\<lparr>slots := (slots t)[i := p\<lparr>e_c := e_c p + c\<rparr>]\<rparr>)"

lemma add_stores:
  assumes "d < length (slots t)" and "\<not> passes eq_log t key (probe t (home t key) d)"
    and "\<And>j. j < d \<Longrightarrow> passes eq_log t key (probe t (home t key) j)"
  shows "hash_add eq_log t key v c ok = (store t (probe t (home t key) d) key v c ok, True)"
proof -
  have "slots t \<noteq> []" using assms(1) by auto
  then have "home t key < length (slots t)" by (simp add: home_def)
  then have "hash_add eq_log t key v c ok =
      hash_add_loop eq_log t key v c ok d (probe t (home t key) d)"
    using loop_skip [of d t "home t key" eq_log key v c ok] assms(1,3)
    by (simp add: hash_add_def home_def)
  then show ?thesis using assms(1,2)
    by (subst (asm) hash_add_loop.simps) (auto simp: Let_def passes_def store_def)
qed

lemma add_fails:
  assumes "slots t \<noteq> []"
    and "\<And>j. j < length (slots t) \<Longrightarrow> passes eq_log t key (probe t (home t key) j)"
  shows "hash_add eq_log t key v c ok = (t, False)"
proof -
  have "home t key < length (slots t)" using assms(1) by (simp add: home_def)
  then have "hash_add eq_log t key v c ok =
      hash_add_loop eq_log t key v c ok (length (slots t)) (probe t (home t key) (length (slots t)))"
    using loop_skip [of "length (slots t)" t "home t key" eq_log key v c ok] assms(2)
    by (simp add: hash_add_def home_def)
  then show ?thesis by (subst (asm) hash_add_loop.simps) simp
qed

text \<open>Every slot is probed, from any home.\<close>

lemma probe_onto:
  assumes "i < length (slots t)" and "h < length (slots t)"
  shows "\<exists>d < length (slots t). i = probe t h d"
proof (cases "h \<le> i")
  case True
  then show ?thesis using assms by (intro exI [of _ "i - h"]) (auto simp: probe_def)
next
  case False
  then have "h + (i + length (slots t) - h) = i + length (slots t)" using assms by simp
  then have "probe t h (i + length (slots t) - h) = i" using assms by (simp add: probe_def)
  moreover have "i + length (slots t) - h < length (slots t)" using False assms by linarith
  ultimately show ?thesis by metis
qed

subsection \<open>The invariant of the table\<close>

text \<open>
  What the table needs of the comparison of logs: it is an equivalence on the logs \<open>L\<close> the threads produce.  Equal
  logs need not have the same hash: when logs hold tables of faults, their comparison ignores the order of the faults
  (it is an equivalence on tables without duplicates only, see \<open>Faults\<close>), but the hash does not.  An addition then finds
  the entry of an equal log or not, depending on where it starts; the counts of equal logs add up all the same, since
  the count of a log is the sum over all entries equal to it.
\<close>

definition log_eq_on :: "log_t set \<Rightarrow> (log_t \<Rightarrow> log_t \<Rightarrow> bool) \<Rightarrow> bool" where
  "log_eq_on L eq_log \<longleftrightarrow> reflp_on L eq_log \<and> symp_on L eq_log \<and> transp_on L eq_log"

text \<open>Where the comparison agrees with the hash, as it does without faults, every log has one entry.\<close>

definition log_eq_ok :: "log_t set \<Rightarrow> (log_t \<Rightarrow> log_t \<Rightarrow> bool) \<Rightarrow> bool" where
  "log_eq_ok L eq_log \<longleftrightarrow> log_eq_on L eq_log \<and> (\<forall>k \<in> L. \<forall>k' \<in> L. eq_log k k' \<longrightarrow> hash_log k = hash_log k')"

lemma log_eq_sym: "log_eq_on L eq_log \<Longrightarrow> k \<in> L \<Longrightarrow> k' \<in> L \<Longrightarrow> eq_log k k' \<longleftrightarrow> eq_log k' k"
  unfolding log_eq_on_def by (metis symp_onD)

lemma log_eq_trans: "log_eq_on L eq_log \<Longrightarrow> k \<in> L \<Longrightarrow> k' \<in> L \<Longrightarrow> k'' \<in> L \<Longrightarrow> eq_log k' k'' \<Longrightarrow> eq_log k k' \<longleftrightarrow> eq_log k k''"
  unfolding log_eq_on_def by (metis symp_onD transp_onD)

lemma log_eq_refl: "log_eq_on L eq_log \<Longrightarrow> k \<in> L \<Longrightarrow> eq_log k k"
  unfolding log_eq_on_def by (metis reflp_onD)

lemma log_eq_ok_on: "log_eq_ok L eq_log \<Longrightarrow> log_eq_on L eq_log"
  by (simp add: log_eq_ok_def)

definition used :: "'p hash_t \<Rightarrow> nat \<Rightarrow> bool" where
  "used t i \<longleftrightarrow> i < length (slots t) \<and> e_c (slots t ! i) \<noteq> 0"

text \<open>
  The invariant of the table: \<open>nhash\<close> counts the used slots, which hold logs.  The stronger one, for comparisons that
  agree with the hash: a used slot is reached from the home of its key through used slots, and no two used
  slots hold the same log.
\<close>

definition table_inv :: "log_t set \<Rightarrow> 'p hash_t \<Rightarrow> bool" where
  "table_inv L t \<longleftrightarrow> slots t \<noteq> [] \<and> nhash t = card {i. used t i} \<and> (\<forall>i. used t i \<longrightarrow> e_key (slots t ! i) \<in> L)"

definition reached :: "'p hash_t \<Rightarrow> nat \<Rightarrow> bool" where
  "reached t i \<longleftrightarrow> (\<exists>d < length (slots t). i = probe t (home t (e_key (slots t ! i))) d \<and>
     (\<forall>j < d. used t (probe t (home t (e_key (slots t ! i))) j)))"

definition hash_inv :: "log_t set \<Rightarrow> (log_t \<Rightarrow> log_t \<Rightarrow> bool) \<Rightarrow> 'p hash_t \<Rightarrow> bool" where
  "hash_inv L eq_log t \<longleftrightarrow> table_inv L t \<and>
     (\<forall>i. used t i \<longrightarrow> reached t i) \<and>
     (\<forall>i j. used t i \<longrightarrow> used t j \<longrightarrow> eq_log (e_key (slots t ! i)) (e_key (slots t ! j)) \<longrightarrow> i = j)"

text \<open>The count recorded for a log and the sum of all the counts.\<close>

definition count_of :: "(log_t \<Rightarrow> log_t \<Rightarrow> bool) \<Rightarrow> 'p hash_t \<Rightarrow> log_t \<Rightarrow> nat" where
  "count_of eq_log t key = (\<Sum>e \<leftarrow> slots t. if eq_log key (e_key e) then unat (e_c e) else 0)"

definition hash_total :: "'p hash_t \<Rightarrow> nat" where
  "hash_total t = (\<Sum>e \<leftarrow> slots t. unat (e_c e))"

lemma finite_used [simp]: "finite {i. used t i}"
  by (simp add: used_def)

lemma home_eq: "log_eq_ok L eq_log \<Longrightarrow> k \<in> L \<Longrightarrow> k' \<in> L \<Longrightarrow> eq_log k k' \<Longrightarrow> home t k = home t k'"
  by (simp add: home_def log_eq_ok_def)

lemma inv_ne: "table_inv L t \<Longrightarrow> slots t \<noteq> []"
  by (simp add: table_inv_def)

lemma inv_key: "table_inv L t \<Longrightarrow> used t i \<Longrightarrow> e_key (slots t ! i) \<in> L"
  by (simp add: table_inv_def)

lemma hash_inv_table: "hash_inv L eq_log t \<Longrightarrow> table_inv L t"
  by (simp add: hash_inv_def)

text \<open>If a log is in the table, its slot is found before any free slot.\<close>

lemma found_before_free:
  assumes "log_eq_ok L eq_log" and "hash_inv L eq_log t" and "key \<in> L" and "used t i" and "eq_log key (e_key (slots t ! i))"
    and "\<And>j. j < d \<Longrightarrow> passes eq_log t key (probe t (home t key) j)"
  shows "\<exists>d' \<ge> d. d' < length (slots t) \<and> i = probe t (home t key) d' \<and>
    (\<forall>j < d'. used t (probe t (home t key) j))"
proof -
  have "reached t i" using assms(2,4) by (simp add: hash_inv_def)
  then obtain d' where d': "d' < length (slots t)" "i = probe t (home t key) d'"
      "\<forall>j < d'. used t (probe t (home t key) j)"
    unfolding reached_def home_eq [OF assms(1,3) inv_key [OF hash_inv_table [OF assms(2)] assms(4)] assms(5), symmetric] by blast
  moreover have "\<not> d' < d" using assms(5,6) d'(2) by (metis passes_def)
  ultimately show ?thesis by (metis not_less)
qed

lemma sum_list_map_update:
  fixes f :: "'a \<Rightarrow> nat"
  assumes "i < length xs" and "f y = f (xs ! i) + n"
  shows "sum_list (map f (xs[i := y])) = sum_list (map f xs) + n"
  using assms by (induction xs arbitrary: i) (auto simp: nth_Cons' split: nat.split)

lemma sum_list_map_same:
  fixes f :: "'a \<Rightarrow> nat"
  shows "i < length xs \<Longrightarrow> f y = f (xs ! i) \<Longrightarrow> sum_list (map f (xs[i := y])) = sum_list (map f xs)"
  using sum_list_map_update [of i xs f y 0] by simp

lemma length_slots_store [simp]: "length (slots (store t i key v c ok)) = length (slots t)"
  by (simp add: store_def Let_def)

lemma probe_store [simp]: "probe (store t i key v c ok) = probe t"
  by (simp add: probe_def fun_eq_iff)

lemma home_store [simp]: "home (store t i key v c ok) = home t"
  by (simp add: home_def fun_eq_iff)

text \<open>The effect of writing a slot, for a free slot and for a used one.\<close>

lemma used_store:
  assumes "i < length (slots t)" and "c \<noteq> 0" and "unat (e_c (slots t ! i)) + unat c < 2 ^ 32"
  shows "used (store t i key v c ok) j \<longleftrightarrow> used t j \<or> j = i"
proof -
  have "e_c (slots t ! i) + c \<noteq> 0"
    using assms(2) unat_add32 [OF assms(3)] by (metis add_eq_0_iff_both_eq_0 unat_0 unat_eq_zero)
  then show ?thesis
    using assms(1,2) by (cases "i = j") (auto simp: store_def used_def Let_def)
qed

lemma key_store:
  assumes "i < length (slots t)"
  shows "e_key (slots (store t i key v c ok) ! j) =
    (if j = i \<and> e_c (slots t ! i) = 0 then key else e_key (slots t ! j))"
  using assms by (cases "i = j") (auto simp: store_def Let_def)

lemma nhash_store:
  "nhash (store t i key v c ok) = nhash t + (if e_c (slots t ! i) = 0 then 1 else 0)"
  by (simp add: store_def Let_def)

lemma count_store:
  assumes "log_eq_on L eq_log" and "i < length (slots t)" and "unat (e_c (slots t ! i)) + unat c < 2 ^ 32"
    and "e_c (slots t ! i) = 0 \<or> eq_log key (e_key (slots t ! i))"
    and "table_inv L t" and "key \<in> L" and "k \<in> L"
  shows "count_of eq_log (store t i key v c ok) k =
    count_of eq_log t k + (if eq_log k key then unat c else 0)"
proof (cases "e_c (slots t ! i) = 0")
  case True
  then show ?thesis using assms(2)
    unfolding count_of_def store_def Let_def by (auto intro!: sum_list_map_update sum_list_map_same)
next
  case False
  have "eq_log k (e_key (slots t ! i)) \<longleftrightarrow> eq_log k key"
    using False assms(2,4) log_eq_trans [OF assms(1,7,6) inv_key [OF assms(5)]] by (simp add: used_def)
  moreover have "unat (e_c (slots t ! i) + c) = unat (e_c (slots t ! i)) + unat c"
    using assms(3) by (rule unat_add32)
  ultimately show ?thesis using assms(2) False
    unfolding count_of_def store_def Let_def by (auto intro!: sum_list_map_update sum_list_map_same)
qed

lemma total_store:
  assumes "i < length (slots t)" and "unat (e_c (slots t ! i)) + unat c < 2 ^ 32"
  shows "hash_total (store t i key v c ok) = hash_total t + unat c"
proof -
  have "unat (e_c (slots t ! i) + c) = unat (e_c (slots t ! i)) + unat c"
    using assms(2) by (rule unat_add32)
  then show ?thesis using assms(1)
    by (auto simp: hash_total_def store_def Let_def intro!: sum_list_map_update)
qed

lemma count_le_total: "i < length (slots t) \<Longrightarrow> unat (e_c (slots t ! i)) \<le> hash_total t"
  unfolding hash_total_def by (rule member_le_sum_list) auto

text \<open>Adding either stores in the first slot not passed over, or fails.\<close>

lemma add_cases:
  assumes "slots t \<noteq> []"
  obtains (fails) "\<And>i. i < length (slots t) \<Longrightarrow> passes eq_log t key i"
      "hash_add eq_log t key v c ok = (t, False)"
  | (stores) d where "d < length (slots t)" "\<not> passes eq_log t key (probe t (home t key) d)"
      "\<And>j. j < d \<Longrightarrow> passes eq_log t key (probe t (home t key) j)"
      "hash_add eq_log t key v c ok = (store t (probe t (home t key) d) key v c ok, True)"
proof (cases "\<exists>d < length (slots t). \<not> passes eq_log t key (probe t (home t key) d)")
  case True
  then obtain d where d: "d < length (slots t)" "\<not> passes eq_log t key (probe t (home t key) d)"
      and least: "\<And>j. j < d \<Longrightarrow> j < length (slots t) \<Longrightarrow> passes eq_log t key (probe t (home t key) j)"
    using exists_least_iff [of "\<lambda>d. d < length (slots t) \<and> \<not> passes eq_log t key (probe t (home t key) d)"]
    by blast
  have skip: "passes eq_log t key (probe t (home t key) j)" if "j < d" for j
    using least that d(1) by simp
  show thesis by (rule stores [OF d skip add_stores [OF d skip]])
next
  case False
  have "home t key < length (slots t)" using assms by (simp add: home_def)
  then have "passes eq_log t key i" if "i < length (slots t)" for i
    using False probe_onto [OF that] by metis
  moreover have "hash_add eq_log t key v c ok = (t, False)"
    using False assms by (intro add_fails) auto
  ultimately show thesis by (rule fails)
qed

lemma passes_used: "passes eq_log t key i \<Longrightarrow> i < length (slots t) \<Longrightarrow> used t i"
  by (simp add: passes_def used_def)

text \<open>A store keeps the invariant, and the stronger one if the slot is the first not passed over.\<close>

lemma table_inv_store:
  assumes "table_inv L t" and "key \<in> L" and "i < length (slots t)" and "c \<noteq> 0" and "hash_total t + unat c < 2 ^ 32"
  shows "table_inv L (store t i key v c ok)"
proof -
  let ?t = "store t i key v c ok"
  have used: "used ?t j \<longleftrightarrow> used t j \<or> j = i" for j
    using assms(3-5) count_le_total [OF assms(3)] by (intro used_store) auto
  have "nhash ?t = card {j. used ?t j}"
  proof (cases "used t i")
    case True
    then have "{j. used ?t j} = {j. used t j}" using used by auto
    then show ?thesis using True assms(1) by (simp add: nhash_store table_inv_def used_def)
  next
    case False
    then have "{j. used ?t j} = insert i {j. used t j}" using used by auto
    then show ?thesis using False assms(1,3) by (simp add: nhash_store table_inv_def used_def)
  qed
  moreover have "slots ?t \<noteq> []" using assms(3) length_slots_store by (metis length_0_conv not_less_zero)
  moreover have "e_key (slots ?t ! j) \<in> L" if "used ?t j" for j
  proof (cases "j = i \<and> e_c (slots t ! i) = 0")
    case True
    then show ?thesis using assms(2,3) by (simp add: key_store)
  next
    case False
    then have "used t j" using that assms(3) unfolding used by (auto simp: used_def)
    then show ?thesis using False inv_key [OF assms(1)] assms(3) by (auto simp: key_store)
  qed
  ultimately show ?thesis unfolding table_inv_def by blast
qed

lemma hash_inv_store:
  assumes ok: "log_eq_ok L eq_log" and inv: "hash_inv L eq_log t" and k: "key \<in> L" and "d < length (slots t)"
    and stop: "\<not> passes eq_log t key (probe t (home t key) d)"
    and skip: "\<And>j. j < d \<Longrightarrow> passes eq_log t key (probe t (home t key) j)"
    and c: "c \<noteq> 0" "hash_total t + unat c < 2 ^ 32"
  shows "hash_inv L eq_log (store t (probe t (home t key) d) key v c ok)"
proof -
  let ?i = "probe t (home t key) d" and ?t = "store t (probe t (home t key) d) key v c ok"
  have tab: "table_inv L t" and ne: "slots t \<noteq> []" using inv by (simp_all add: hash_inv_def table_inv_def)
  have i: "?i < length (slots t)" by (rule probe_lt [OF ne])
  have used: "used ?t j \<longleftrightarrow> used t j \<or> j = ?i" for j
    using i c count_le_total [OF i] by (intro used_store) auto
  note key = key_store [OF i, of key v c ok]
  have absent: "\<not> eq_log key (e_key (slots t ! j))" if j: "used t j" "e_c (slots t ! ?i) = 0" for j
  proof
    assume "eq_log key (e_key (slots t ! j))"
    then obtain d' where "d' \<ge> d" "j = probe t (home t key) d'" "\<forall>l < d'. used t (probe t (home t key) l)"
      using found_before_free [where d = d, OF ok inv k j(1) _ skip] by blast
    then show False using j by (cases "d = d'") (auto simp: used_def)
  qed
  have sym: "eq_log (e_key (slots t ! j)) key \<Longrightarrow> eq_log key (e_key (slots t ! j))" if "used t j" for j
    using log_eq_sym [OF log_eq_ok_on [OF ok] k inv_key [OF tab that]] by simp
  have "table_inv L ?t" by (rule table_inv_store [OF tab k i c])
  moreover have "reached ?t j" if "used ?t j" for j
  proof (cases "used t j")
    case True
    then have "reached t j" using inv by (simp add: hash_inv_def)
    moreover have "e_key (slots ?t ! j) = e_key (slots t ! j)"
      using True by (auto simp: key used_def)
    ultimately show ?thesis by (auto simp: reached_def used)
  next
    case False
    then have "j = ?i" "e_c (slots t ! ?i) = 0" using that used i by (auto simp: used_def)
    then show ?thesis
      using assms(4) skip passes_used [of eq_log t key] probe_lt [OF ne]
      by (auto simp: reached_def key used intro!: exI [of _ d])
  qed
  moreover have "j = l" if "used ?t j" "used ?t l" "eq_log (e_key (slots ?t ! j)) (e_key (slots ?t ! l))" for j l
  proof -
    have one: "used t j \<Longrightarrow> used t l \<Longrightarrow> eq_log (e_key (slots t ! j)) (e_key (slots t ! l)) \<Longrightarrow> j = l"
      using inv by (simp add: hash_inv_def)
    show ?thesis
    proof (cases "e_c (slots t ! ?i) = 0")
      case True
      then have "\<not> used t ?i" by (simp add: used_def)
      then show ?thesis using that one absent [OF _ True] sym True by (auto simp: used key split: if_splits)
    next
      case False
      then have "used t ?i" using i by (simp add: used_def)
      then show ?thesis using that one False by (auto simp: used key)
    qed
  qed
  ultimately show ?thesis unfolding hash_inv_def by blast
qed

subsection \<open>Adding an outcome\<close>

lemma add_correct:
  assumes "log_eq_on L eq_log" and "table_inv L t" and "key \<in> L" and "c \<noteq> 0" and "hash_total t + unat c < 2 ^ 32"
    and "hash_add eq_log t key v c ok = (t', True)"
  shows "table_inv L t' \<and> hash_total t' = hash_total t + unat c \<and>
    (\<forall>k \<in> L. count_of eq_log t' k = count_of eq_log t k + (if eq_log k key then unat c else 0)) \<and>
    (log_eq_ok L eq_log \<and> hash_inv L eq_log t \<longrightarrow> hash_inv L eq_log t')"
proof (rule add_cases [OF inv_ne [OF assms(2)], where key = key and eq_log = eq_log and v = v and c = c and ok = ok])
  fix d
  let ?i = "probe t (home t key) d"
  assume d: "d < length (slots t)" and stop: "\<not> passes eq_log t key ?i"
    and skip: "\<And>j. j < d \<Longrightarrow> passes eq_log t key (probe t (home t key) j)"
    and "hash_add eq_log t key v c ok = (store t ?i key v c ok, True)"
  then have t': "t' = store t ?i key v c ok" using assms(6) by simp
  have i: "?i < length (slots t)" using assms(2) by (intro probe_lt inv_ne)
  have room: "unat (e_c (slots t ! ?i)) + unat c < 2 ^ 32" using count_le_total [OF i] assms(5) by simp
  have hit: "e_c (slots t ! ?i) = 0 \<or> eq_log key (e_key (slots t ! ?i))"
    using stop by (simp add: passes_def)
  show ?thesis
    using hash_inv_store [OF _ _ assms(3) d stop skip assms(4,5)] table_inv_store [OF assms(2,3) i assms(4,5)]
      count_store [OF assms(1) i room hit assms(2,3)] total_store [OF i room]
    unfolding t' by blast
qed (use assms(6) in simp)

lemma add_unchanged:
  assumes "slots t \<noteq> []" and "hash_add eq_log t key v c ok = (t', False)"
  shows "t' = t"
  by (rule add_cases [OF assms(1), of eq_log key v c ok]) (use assms(2) in auto)

text \<open>
  C11: Adding an outcome to a table that satisfies its invariant adds its count to the count of
  its log and of those equal to it, changes no other count, and keeps the invariant, unless it fails, as long as the sum of all the counts
  is below \<open>2 ^ 32\<close>.  The comparison need only be an equivalence on the logs \<open>L\<close>; where it also agrees with the
  hash, there stays one entry for each log.
\<close>

theorem hash_add_correct:
  assumes "log_eq_on L eq_log" and "table_inv L t" and "key \<in> L" and "c \<noteq> 0" and "hash_total t + unat c < 2 ^ 32"
    and "hash_add eq_log t key v c ok = (t', True)"
  shows "table_inv L t' \<and> hash_total t' = hash_total t + unat c \<and>
    (\<forall>k \<in> L. count_of eq_log t' k = count_of eq_log t k + (if eq_log k key then unat c else 0)) \<and>
    (log_eq_ok L eq_log \<and> hash_inv L eq_log t \<longrightarrow> hash_inv L eq_log t')"
  using assms by (rule add_correct)

text \<open>The table is full, resp. a log is absent, in terms of the slots.\<close>

lemma full_iff:
  assumes "table_inv L t"
  shows "nhash t = length (slots t) \<longleftrightarrow> (\<forall>i < length (slots t). used t i)"
proof -
  have sub: "{i. used t i} \<subseteq> {..< length (slots t)}" by (auto simp: used_def)
  have "nhash t = card {i. used t i}" using assms by (simp add: table_inv_def)
  moreover have "card {i. used t i} = length (slots t) \<longleftrightarrow> {i. used t i} = {..< length (slots t)}"
    using card_subset_eq [OF _ sub] card_lessThan by (metis finite_lessThan)
  moreover have "{i. used t i} = {..< length (slots t)} \<longleftrightarrow> (\<forall>i < length (slots t). used t i)"
    using sub by blast
  ultimately show ?thesis by simp
qed

lemma absent_iff: "count_of eq_log t key = 0 \<longleftrightarrow> (\<forall>i. used t i \<longrightarrow> \<not> eq_log key (e_key (slots t ! i)))"
proof -
  have "(\<Sum>e \<leftarrow> es. if eq_log key (e_key e) then unat (e_c e) else 0) = 0 \<longleftrightarrow>
      (\<forall>e \<in> set es. e_c e \<noteq> 0 \<longrightarrow> \<not> eq_log key (e_key e))" for es :: "'a entry_t list"
    by (induction es) (auto simp: unat_eq_zero)
  then show ?thesis unfolding count_of_def used_def all_set_conv_all_nth by blast
qed

text \<open>
  An addition fails exactly when the table is full of other logs (\<open>nhash\<close> has reached
  \<open>HASHSZ\<close> and the log has no entry), and then it changes nothing.
\<close>

theorem hash_add_fails_iff:
  assumes "table_inv L t"
  shows "hash_add eq_log t key v c ok =
    (if nhash t = length (slots t) \<and> count_of eq_log t key = 0 then (t, False)
     else (fst (hash_add eq_log t key v c ok), True))"
proof (rule add_cases [OF inv_ne [OF assms], where key = key and eq_log = eq_log and v = v and c = c and ok = ok])
  assume "\<And>i. i < length (slots t) \<Longrightarrow> passes eq_log t key i"
    and add: "hash_add eq_log t key v c ok = (t, False)"
  then have "nhash t = length (slots t)" "count_of eq_log t key = 0"
    unfolding full_iff [OF assms] absent_iff by (auto simp: passes_def used_def)
  then show ?thesis using add by simp
next
  fix d
  let ?i = "probe t (home t key) d"
  assume "\<not> passes eq_log t key ?i" and add: "hash_add eq_log t key v c ok = (store t ?i key v c ok, True)"
  moreover have "?i < length (slots t)" using assms by (intro probe_lt inv_ne)
  ultimately have "\<not> (nhash t = length (slots t) \<and> count_of eq_log t key = 0)"
    unfolding full_iff [OF assms] absent_iff by (auto simp: passes_def used_def)
  then show ?thesis using add by simp
qed

subsection \<open>The table is an outcome histogram\<close>

text \<open>
  Under the parameters \<open>p\<close> of an outcome the table keeps the first ones; they do not take part in
  the comparison.  The keys of the histogram are therefore pairs of a log and parameters.
\<close>

fun add_outcome :: "(log_t \<Rightarrow> log_t \<Rightarrow> bool) \<Rightarrow> log_t \<times> 'p \<Rightarrow> u32 \<Rightarrow> bool \<Rightarrow> 'p hash_t \<Rightarrow> 'p hash_t \<times> bool" where
  "add_outcome eq_log (key, v) c ok t = hash_add eq_log t key v c ok"

fun same_log :: "(log_t \<Rightarrow> log_t \<Rightarrow> bool) \<Rightarrow> log_t \<times> 'p \<Rightarrow> log_t \<times> 'p \<Rightarrow> bool" where
  "same_log eq_log (key, v) (key', v') \<longleftrightarrow> eq_log key key'"

lemma same_log_fst: "same_log eq_log k k' \<longleftrightarrow> eq_log (fst k) (fst k')"
  by (cases k; cases k') simp

lemma used_init [simp]: "\<not> used (hash_init logsz t) i"
  by (simp add: used_def hash_init_def)

lemma init_simps: "nhash (hash_init logsz t) = 0" "slots (hash_init logsz t) = [] \<longleftrightarrow> slots t = []"
  by (simp_all add: hash_init_def)

lemma table_inv_init: "slots t \<noteq> [] \<Longrightarrow> table_inv L (hash_init logsz t)"
  unfolding table_inv_def by (simp add: init_simps)

lemma hash_inv_init: "slots t \<noteq> [] \<Longrightarrow> hash_inv L eq_log (hash_init logsz t)"
  unfolding hash_inv_def by (simp add: table_inv_init)

lemma hash_total_init: "hash_total (hash_init logsz t) = 0"
  by (simp add: hash_total_def hash_init_def comp_def)

lemma count_init: "count_of eq_log (hash_init logsz t) k = 0"
  by (simp add: absent_iff)

locale log_equality =
  fixes L :: "log_t set" and eq_log :: "log_t \<Rightarrow> log_t \<Rightarrow> bool" and logsz :: nat and t0 :: "'p hash_t"
  assumes eq_log: "log_eq_on L eq_log" and t0: "slots t0 \<noteq> []"

sublocale log_equality \<subseteq> table: outcome_counter "hash_init logsz t0" "add_outcome eq_log"
  "\<lambda>t k. count_of eq_log t (fst k)" hash_total "table_inv L" "\<lambda>k. fst k \<in> L" "same_log eq_log" "2 ^ 32"
proof unfold_locales
  fix t t' :: "'p hash_t" and k :: "log_t \<times> 'p" and c ok
  assume a: "table_inv L t" "fst k \<in> L" "c \<noteq> 0" "hash_total t + unat c < 2 ^ 32" "add_outcome eq_log k c ok t = (t', True)"
  obtain key v where k: "k = (key, v)" by (cases k)
  have "hash_add eq_log t key v c ok = (t', True)" "key \<in> L" using a(2,5) by (simp_all add: k)
  from add_correct [OF eq_log a(1) this(2) a(3,4) this(1)]
  show "table_inv L t' \<and> hash_total t' = hash_total t + unat c \<and> (\<forall>k'. fst k' \<in> L \<longrightarrow>
    count_of eq_log t' (fst k') = count_of eq_log t (fst k') + (if same_log eq_log k' k then unat c else 0))"
    by (simp add: same_log_fst k)
next
  fix t t' :: "'p hash_t" and k :: "log_t \<times> 'p" and c ok
  assume "table_inv L t" "add_outcome eq_log k c ok t = (t', False)"
  then show "t' = t" by (cases k) (auto dest: add_unchanged inv_ne)
qed (use t0 in \<open>simp_all add: table_inv_init hash_total_init count_init\<close>)

text \<open>
  Logs without padding and without faults compare as their memory images; a log that is a table of faults, by its
  elements in any order.
\<close>

lemma log_eq_on_eq: "log_eq_on L (=)"
  by (simp add: log_eq_on_def reflp_on_def symp_on_def transp_on_def)

lemma log_eq_on_mset: "log_eq_on L (\<lambda>k k'. mset k = mset k')"
  by (simp add: log_eq_on_def reflp_on_def symp_on_def transp_on_def)

interpretation bitwise: log_equality L "(=)" logsz "\<lparr>nhash = n, slots = e # es\<rparr>" for L logsz n e es
  by unfold_locales (simp_all add: log_eq_on_eq)

interpretation unordered: log_equality L "\<lambda>k k'. mset k = mset k'" logsz "\<lparr>nhash = n, slots = e # es\<rparr>" for L logsz n e es
  by unfold_locales (simp_all add: log_eq_on_mset)

subsection \<open>Merging tables, printing\<close>

definition outcomes_of :: "'p entry_t list \<Rightarrow> (log_t \<times> 'p, 32) outcome list" where
  "outcomes_of es = map (\<lambda>e. ((e_key e, e_p e), e_c e, e_ok e)) es"

lemma hash_adds_loop_eq:
  "hash_adds_loop eq_log t es r =
    (let (t', r') = add_all (add_outcome eq_log) (outcomes_of (filter (\<lambda>e. e_c e > 0) es)) t in (t', r \<and> r'))"
  by (induction eq_log t es r rule: hash_adds_loop.induct)
    (auto simp: outcomes_of_def Let_def split: prod.splits)

lemma weight_outcomes_of: "weight (outcomes_of (filter (\<lambda>e. e_c e > 0) es)) = (\<Sum>e \<leftarrow> es. unat (e_c e))"
  by (induction es) (auto simp: outcomes_of_def word_gt_0)

lemma weight_of_outcomes_of:
  "weight_of (same_log eq_log) k (outcomes_of (filter (\<lambda>e. e_c e > 0) es)) =
    (\<Sum>e \<leftarrow> es. if eq_log (fst k) (e_key e) then unat (e_c e) else 0)"
  by (induction es) (auto simp: outcomes_of_def word_gt_0 same_log_fst)

text \<open>The logs of a table.\<close>

definition logs_in :: "log_t set \<Rightarrow> 'p hash_t \<Rightarrow> bool" where
  "logs_in L t \<longleftrightarrow> (\<forall>e \<in> set (slots t). e_c e \<noteq> 0 \<longrightarrow> e_key e \<in> L)"

context log_equality
begin

lemma adds_merge:
  fixes t t' f :: "'p hash_t"
  assumes "table_inv L t" and "logs_in L f" and "hash_total t + hash_total f < 2 ^ 32"
    and "hash_adds eq_log t f = (t', True)"
  shows "table_inv L t' \<and> hash_total t' = hash_total t + hash_total f \<and>
    (\<forall>k \<in> L. count_of eq_log t' k = count_of eq_log t k + count_of eq_log f k)"
proof -
  let ?xs = "outcomes_of (filter (\<lambda>e. e_c e > 0) (slots f))"
  have "add_all (add_outcome eq_log) ?xs t = (t', True)"
    using assms(4) by (auto simp: hash_adds_def hash_adds_loop_eq split: prod.splits)
  moreover have "weight ?xs = hash_total f" by (simp add: weight_outcomes_of hash_total_def)
  moreover have "table.good ?xs" using assms(2) by (auto simp: table.good_def outcomes_of_def word_gt_0 logs_in_def)
  ultimately have "table_inv L t' \<and> hash_total t' = hash_total t + hash_total f \<and>
    (\<forall>k. fst k \<in> L \<longrightarrow> count_of eq_log t' (fst k) = count_of eq_log t (fst k) + weight_of (same_log eq_log) k ?xs)"
    using table.add_all_ok [of t ?xs t'] assms(1,3) by simp
  then show ?thesis by (simp add: weight_of_outcomes_of count_of_def)
qed

end

lemma adds_correct:
  assumes "log_eq_on L eq_log" and "table_inv L t" and "logs_in L f" and "hash_total t + hash_total f < 2 ^ 32"
    and "hash_adds eq_log t f = (t', True)"
  shows "table_inv L t' \<and> hash_total t' = hash_total t + hash_total f \<and>
    (\<forall>k \<in> L. count_of eq_log t' k = count_of eq_log t k + count_of eq_log f k)"
  by (rule log_equality.adds_merge [OF log_equality.intro [OF assms(1) inv_ne [OF assms(2)]] assms(2-)])

text \<open>
  C12: \<open>hash_adds\<close> merges a table into another: when it returns 1, every log has the sum of the
  counts it has in the two tables, and no count is lost, as long as the sum of all of them is below \<open>2 ^ 32\<close>.
\<close>

theorem hash_adds_merges:
  assumes "log_eq_on L eq_log" and "table_inv L t" and "logs_in L f" and "hash_total t + hash_total f < 2 ^ 32"
    and "hash_adds eq_log t f = (t', True)"
  shows "table_inv L t' \<and> hash_total t' = hash_total t + hash_total f \<and>
    (\<forall>k \<in> L. count_of eq_log t' k = count_of eq_log t k + count_of eq_log f k)"
  using assms by (rule adds_correct)

lemma sorted_wrt_filter_cond:
  "sorted_wrt (\<lambda>x y. P x \<longrightarrow> P y \<longrightarrow> R x y) xs \<Longrightarrow> sorted_wrt R (filter P xs)"
  by (induction xs) auto

lemma inv_sorted:
  assumes "hash_inv L eq_log t"
  shows "sorted_wrt (\<lambda>e e'. e_c e > 0 \<longrightarrow> e_c e' > 0 \<longrightarrow> \<not> eq_log (e_key e) (e_key e')) (slots t)"
  unfolding sorted_wrt_iff_nth_less
proof (intro allI impI notI)
  fix i j
  assume "i < j" "j < length (slots t)" "e_c (slots t ! i) > 0" "e_c (slots t ! j) > 0"
    and eq: "eq_log (e_key (slots t ! i)) (e_key (slots t ! j))"
  then have "used t i" "used t j" by (auto simp: used_def)
  then have "i = j" using eq assms by (simp add: hash_inv_def)
  then show False using \<open>i < j\<close> by simp
qed

lemma pp_sum: "(\<Sum>e \<leftarrow> pp_hash t. unat (e_c e)) = hash_total t"
proof -
  have "(\<Sum>e \<leftarrow> filter (\<lambda>p. e_c p > 0) es. unat (e_c e)) = (\<Sum>e \<leftarrow> es. unat (e_c e))" for es :: "'a entry_t list"
    by (induction es) (auto simp: word_gt_0)
  then show ?thesis by (simp add: pp_hash_def hash_total_def)
qed

lemma count_none:
  "\<forall>e \<in> set es. e_c e > 0 \<longrightarrow> \<not> eq_log k (e_key e) \<Longrightarrow>
    (\<Sum>e \<leftarrow> es. if eq_log k (e_key e) then unat (e_c e) else 0) = 0"
  by (induction es) (auto simp: word_gt_0)

lemma count_one:
  assumes "log_eq_on L eq_log" and "e \<in> set es" and "e_c e > 0" and "\<forall>e \<in> set es. e_c e \<noteq> 0 \<longrightarrow> e_key e \<in> L"
    and "sorted_wrt (\<lambda>e e'. e_c e > 0 \<longrightarrow> e_c e' > 0 \<longrightarrow> \<not> eq_log (e_key e) (e_key e')) es"
  shows "(\<Sum>e' \<leftarrow> es. if eq_log (e_key e) (e_key e') then unat (e_c e') else 0) = unat (e_c e)"
  using assms(2,4,5)
proof (induction es)
  case (Cons x es)
  have e: "e_key e \<in> L" using Cons.prems(1,2) assms(3) by (auto simp: word_gt_0)
  show ?case
  proof (cases "e = x")
    case True
    then show ?thesis
      using Cons.prems assms(3) log_eq_refl [OF assms(1) e] by (simp add: count_none)
  next
    case False
    then have "e \<in> set es" using Cons.prems by simp
    moreover have "\<not> eq_log (e_key e) (e_key x)" if x: "e_c x \<noteq> 0"
    proof -
      have "\<not> eq_log (e_key x) (e_key e)" using Cons.prems(3) assms(3) x calculation by (auto simp: word_gt_0)
      moreover have "e_key x \<in> L" using Cons.prems(2) x by simp
      ultimately show ?thesis using log_eq_sym [OF assms(1) e] by blast
    qed
    ultimately show ?thesis using Cons by (cases "e_c x = 0") auto
  qed
qed simp

lemma table_inv_logs: "table_inv L t \<Longrightarrow> logs_in L t"
  unfolding table_inv_def logs_in_def used_def by (auto simp: in_set_conv_nth)

text \<open>
  \<open>pp_hash\<close> prints every recorded log once, with its count: as many entries as \<open>nhash\<close>
  says, no two of the same log, and the counts sum up to the total.
\<close>

theorem pp_hash_complete:
  assumes "log_eq_on L eq_log" and "hash_inv L eq_log t"
  shows "length (pp_hash t) = nhash t \<and>
    (\<Sum>e \<leftarrow> pp_hash t. unat (e_c e)) = hash_total t \<and>
    sorted_wrt (\<lambda>e e'. \<not> eq_log (e_key e) (e_key e')) (pp_hash t) \<and>
    (\<forall>e \<in> set (pp_hash t). unat (e_c e) = count_of eq_log t (e_key e))"
proof (intro conjI)
  show "length (pp_hash t) = nhash t"
    using assms(2) by (simp add: pp_hash_def hash_inv_def table_inv_def used_def length_filter_conv_card word_gt_0)
  show "sorted_wrt (\<lambda>e e'. \<not> eq_log (e_key e) (e_key e')) (pp_hash t)"
    unfolding pp_hash_def by (rule sorted_wrt_filter_cond [OF inv_sorted [OF assms(2)]])
  show "\<forall>e \<in> set (pp_hash t). unat (e_c e) = count_of eq_log t (e_key e)"
    using count_one [OF assms(1) _ _ _ inv_sorted [OF assms(2)]] table_inv_logs [OF hash_inv_table [OF assms(2)]]
    by (auto simp: pp_hash_def count_of_def logs_in_def)
qed (rule pp_sum)

subsection \<open>A table in use\<close>

text \<open>
  Three slots; the logs \<open>[7]\<close> and \<open>[8]\<close> have the same home, so the second one is in the next
  slot.  The witnesses of this theory use it.
\<close>

lemma Let_word: "Let (numeral v :: u32) f = f (numeral v)" "Let (- numeral v :: u32) f = f (- numeral v)"
  "Let (a, b) g = g (a, b)"
  by (simp_all add: Let_def)

lemmas hash_eval = hash_log_def hashword_def final_def final_line_def rot_def Let_word

lemma hash_7: "unat (hash_log [7]) mod 3 = 1" by (simp add: hash_eval)
lemma hash_8: "unat (hash_log [8]) mod 3 = 1" by (simp add: hash_eval)
lemma hash_87: "unat (hash_log [8, 7]) mod 3 = 1" by (simp add: hash_eval)
lemma hash_1: "unat (hash_log [1]) mod 3 = 1" by (simp add: hash_eval)
lemma hash_9: "unat (hash_log [9]) mod 3 = 0" by (simp add: hash_eval)

definition slot :: "u32 \<Rightarrow> u32 \<Rightarrow> unit entry_t" where
  "slot x c = \<lparr>e_key = [x], e_p = (), e_c = c, e_ok = True\<rparr>"

definition ex_free :: "unit hash_t" where
  "ex_free = \<lparr>nhash = 0, slots = [slot 0 0, slot 0 0, slot 0 0]\<rparr>"

definition ex_used :: "unit hash_t" where
  "ex_used = \<lparr>nhash = 2, slots = [slot 0 0, slot 7 3, slot 8 4]\<rparr>"

definition ex_full :: "unit hash_t" where
  "ex_full = \<lparr>nhash = 3, slots = [slot 9 5, slot 7 3, slot 8 4]\<rparr>"

lemma log_eq_ok_eq: "log_eq_ok L (=)"
  by (simp add: log_eq_ok_def log_eq_on_eq)

lemmas ex_defs = ex_free_def ex_used_def ex_full_def slot_def

lemmas ex_add = hash_add_def hash_add_loop.simps ex_defs Let_def hash_7 hash_8 hash_9

lemma ex_add_7: "hash_add (=) ex_free [7] () 3 True = (\<lparr>nhash = 1, slots = [slot 0 0, slot 7 3, slot 0 0]\<rparr>, True)"
  by (simp add: ex_add)

lemma ex_add_8: "hash_add (=) \<lparr>nhash = 1, slots = [slot 0 0, slot 7 3, slot 0 0]\<rparr> [8] () 4 True = (ex_used, True)"
  by (simp add: ex_add)

lemma ex_add_9: "hash_add (=) ex_used [9] () 5 True = (ex_full, True)"
  by (simp add: ex_add)

lemma ex_free_inv: "hash_inv UNIV (=) ex_free"
proof -
  have "\<not> used ex_free i" for i by (auto simp: used_def ex_defs nth_Cons')
  then show ?thesis by (simp add: hash_inv_def table_inv_def) (simp add: ex_free_def)
qed

lemma ex_inv: "hash_inv UNIV (=) ex_used \<and> hash_inv UNIV (=) ex_full"
proof -
  have step: "hash_inv UNIV (=) t'" if "hash_inv UNIV (=) t" "c \<noteq> 0" "hash_total t + unat c < 2 ^ 32"
    "hash_add (=) t key v c ok = (t', True)" for t t' :: "unit hash_t" and key v c ok
    using add_correct [OF log_eq_on_eq hash_inv_table [OF that(1)] UNIV_I that(2-4)] that(1) log_eq_ok_eq by blast
  have "hash_inv UNIV (=) (\<lparr>nhash = 1, slots = [slot 0 0, slot 7 3, slot 0 0]\<rparr>)"
    by (rule step [OF ex_free_inv _ _ ex_add_7]) (simp_all add: hash_total_def ex_defs)
  then have used: "hash_inv UNIV (=) ex_used"
    by (rule step [OF _ _ _ ex_add_8]) (simp_all add: hash_total_def ex_defs)
  then have "hash_inv UNIV (=) ex_full"
    by (rule step [OF _ _ _ ex_add_9]) (simp_all add: hash_total_def ex_defs)
  with used show ?thesis by simp
qed

theorem hash_add_correct_witness:
  "hash_inv UNIV (=) ex_full \<and> hash_total ex_full = 12 \<and> count_of (=) ex_full [9] = 5"
proof -
  have "table_inv UNIV ex_used" using ex_inv hash_inv_table by blast
  moreover have "hash_total ex_used + unat (5 :: u32) < 2 ^ 32" by (simp add: hash_total_def ex_used_def slot_def)
  ultimately show ?thesis
    using hash_add_correct [OF log_eq_on_eq _ UNIV_I _ _ ex_add_9] ex_inv log_eq_ok_eq [of UNIV]
    by (simp add: hash_total_def count_of_def ex_used_def slot_def)
qed

theorem hash_add_fails_iff_witness:
  "hash_add (=) ex_full [10] () 1 True = (ex_full, False)"
  using hash_add_fails_iff [OF hash_inv_table [OF conjunct2 [OF ex_inv]], of "(=)" "[10]" "()" 1 True]
  by (simp add: count_of_def ex_full_def slot_def)

text \<open>Tables of logs that compare in any order: the log \<open>[8, 7]\<close> has an entry of its own, and counts for \<open>[7, 8]\<close>.\<close>

definition slot2 :: "u32 list \<Rightarrow> u32 \<Rightarrow> unit entry_t" where
  "slot2 k c = \<lparr>e_key = k, e_p = (), e_c = c, e_ok = True\<rparr>"

definition ex_unordered :: "unit hash_t" where
  "ex_unordered = \<lparr>nhash = 2, slots = [slot2 [7, 8] 2, slot2 [8, 7] 3, slot2 [] 0]\<rparr>"

definition ex_other :: "unit hash_t" where
  "ex_other = \<lparr>nhash = 2, slots = [slot2 [8, 7] 10, slot2 [] 0, slot2 [1] 4]\<rparr>"

lemma ex_unordered_inv: "table_inv UNIV ex_unordered"
proof -
  have "{i. used ex_unordered i} = {0, 1}" by (auto simp: used_def ex_unordered_def slot2_def nth_Cons' split: if_splits)
  then show ?thesis by (simp add: table_inv_def) (simp add: ex_unordered_def)
qed

theorem hash_adds_merges_witness:
  "(\<exists>t. hash_adds (\<lambda>k k'. mset k = mset k') ex_unordered ex_other = (t, True) \<and> hash_total t = 19 \<and>
     count_of (\<lambda>k k'. mset k = mset k') t [7, 8] = 15 \<and> count_of (\<lambda>k k'. mset k = mset k') t [1] = 4)"
proof -
  let ?eq = "\<lambda>k k' :: log_t. mset k = mset k'"
  have "snd (hash_adds ?eq ex_unordered ex_other)"
    by (simp add: hash_adds_def hash_add_def hash_add_loop.simps ex_unordered_def ex_other_def slot2_def Let_def hash_87 hash_1)
  then obtain t where t: "hash_adds ?eq ex_unordered ex_other = (t, True)"
    by (cases "hash_adds ?eq ex_unordered ex_other") simp
  have "logs_in UNIV ex_other" by (simp add: logs_in_def)
  moreover have sums: "hash_total ex_unordered = 5" "hash_total ex_other = 14"
    by (simp_all add: hash_total_def ex_unordered_def ex_other_def slot2_def)
  moreover have "count_of ?eq ex_unordered [7, 8] = 5" "count_of ?eq ex_other [7, 8] = 10"
      "count_of ?eq ex_unordered [1] = 0" "count_of ?eq ex_other [1] = 4"
    by (simp_all add: count_of_def ex_unordered_def ex_other_def slot2_def)
  ultimately show ?thesis
    using hash_adds_merges [OF log_eq_on_mset ex_unordered_inv _ _ t] t by (intro exI [of _ t]) simp
qed

theorem pp_hash_complete_witness:
  "length (pp_hash ex_used) = 2 \<and> (\<Sum>e \<leftarrow> pp_hash ex_used. unat (e_c e)) = 7"
  using pp_hash_complete [OF log_eq_on_eq conjunct1 [OF ex_inv]]
  by (simp add: hash_total_def ex_used_def slot_def)
end
