(* ===== verification/Affinity.thy ===== *)
theory Affinity
  imports Rand
begin

section \<open>Allocation of threads to processors (\<^verbatim>\<open>_utils.c\<close>)\<close>

text \<open>
  Processor sets, the two core maps of an SMT machine, and \<open>custom_affinity\<close>, which gives every
  thread of every copy of the test a logical processor: threads of one colour go to one core,
  and threads related by \<open>diff\<close> to different cores, when possible.

  The size of a \<open>cpus_t\<close> is the length of its list.  Memory from \<open>malloc_check\<close> is not initialised:
  its contents are the argument \<open>fresh\<close>.  Arrays of processor numbers ended by a negative number
  (the colours, the pairs of \<open>diff\<close>) are lists of natural numbers, without the end mark.
\<close>

subsection \<open>Processor sets\<close>

record cpus_t =
  cpu :: "int list"

definition cpus_create :: "(nat \<Rightarrow> int) \<Rightarrow> nat \<Rightarrow> cpus_t" where
  "cpus_create fresh sz = \<lparr>cpu = map fresh [0..<sz]\<rparr>"

text \<open>The writes \<open>r->cpu[i++] = x\<close>, for the values \<open>x\<close> in order.\<close>

fun push_cells :: "int list \<Rightarrow> nat \<Rightarrow> int list \<Rightarrow> int list res" where
  "push_cells r i [] = Inr r"
| "push_cells r i (x # xs) = bind_res (aset r (int i) x) (\<lambda>r. push_cells r (Suc i) xs)"

text \<open>The reads \<open>t[k]\<close> for \<open>k = 0, \<dots>, sz-1\<close>.\<close>

fun read_cells :: "int list \<Rightarrow> nat list \<Rightarrow> int list res" where
  "read_cells t [] = Inr []"
| "read_cells t (k # ks) =
     bind_res (aget t (int k)) (\<lambda>x. bind_res (read_cells t ks) (\<lambda>xs. Inr (x # xs)))"

definition cpus_create_init :: "(nat \<Rightarrow> int) \<Rightarrow> nat \<Rightarrow> int list \<Rightarrow> cpus_t res" where
  "cpus_create_init fresh sz t =
     bind_res (read_cells t [0..<sz]) (\<lambda>xs.
     bind_res (push_cells (cpu (cpus_create fresh sz)) 0 xs) (\<lambda>r. Inr \<lparr>cpu = r\<rparr>))"

subsection \<open>Core maps\<close>

definition coremap_seq :: "(nat \<Rightarrow> int) \<Rightarrow> nat \<Rightarrow> nat \<Rightarrow> cpus_t res" where
  "coremap_seq fresh navail nways =
     (if nways = 0 then Inl Undefined
      else
        (let ncores = navail div nways
         in bind_res (push_cells (cpu (cpus_create fresh navail)) 0
                        (concat (map (\<lambda>c. map (\<lambda>k. int c) [0..<nways]) [0..<ncores])))
              (\<lambda>r. Inr \<lparr>cpu = r\<rparr>)))"

definition coremap_end :: "(nat \<Rightarrow> int) \<Rightarrow> nat \<Rightarrow> nat \<Rightarrow> cpus_t res" where
  "coremap_end fresh navail nways =
     (if nways = 0 then Inl Undefined
      else
        (let ncores = navail div nways
         in bind_res (push_cells (cpu (cpus_create fresh navail)) 0
                        (concat (map (\<lambda>k. map (\<lambda>c. int c) [0..<ncores]) [0..<nways])))
              (\<lambda>r. Inr \<lparr>cpu = r\<rparr>)))"

text \<open>\<open>b % a\<close> of C truncates: the remainder has the sign of \<open>b\<close>.\<close>

definition c_rem :: "int \<Rightarrow> int \<Rightarrow> int" where
  "c_rem b a = sgn b * (\<bar>b\<bar> mod \<bar>a\<bar>)"

function gcd_c :: "int \<Rightarrow> int \<Rightarrow> int" where
  "gcd_c a b = (if a = 0 then b else (let tmp = a; a = c_rem b a; b = tmp in gcd_c a b))"
  by pat_completeness auto
termination
  by (relation "measure (\<lambda>(a, b). nat \<bar>a\<bar>)") (auto simp: c_rem_def abs_mult abs_sgn_eq)

declare gcd_c.simps [simp del]

record mapcore_t =
  ncores :: nat
  core :: "cpus_t list"

definition get_ncores :: "cpus_t \<Rightarrow> int" where
  "get_ncores cm = foldl (\<lambda>r x. if x > r then x else r) 0 (cpu cm) + 1"

text \<open>\<open>get_core_procs\<close>: one loop counts the processors of core \<open>c\<close>, the other collects them.\<close>

fun count_core_procs :: "cpus_t \<Rightarrow> int \<Rightarrow> int list \<Rightarrow> nat \<Rightarrow> nat res" where
  "count_core_procs cm c [] sz = Inr sz"
| "count_core_procs cm c (p # ps) sz =
     bind_res (aget (cpu cm) p) (\<lambda>oc. count_core_procs cm c ps (if oc = c then sz + 1 else sz))"

fun fill_core_procs :: "cpus_t \<Rightarrow> int \<Rightarrow> int list \<Rightarrow> int list \<Rightarrow> nat \<Rightarrow> int list res" where
  "fill_core_procs cm c [] r i = Inr r"
| "fill_core_procs cm c (p # ps) r i =
     bind_res (aget (cpu cm) p) (\<lambda>oc.
       if oc = c then bind_res (aset r (int i) p) (\<lambda>r. fill_core_procs cm c ps r (i + 1))
       else fill_core_procs cm c ps r i)"

definition get_core_procs :: "(nat \<Rightarrow> int) \<Rightarrow> cpus_t \<Rightarrow> cpus_t \<Rightarrow> int \<Rightarrow> cpus_t res" where
  "get_core_procs fresh cm p c =
     bind_res (count_core_procs cm c (cpu p) 0) (\<lambda>sz.
     bind_res (fill_core_procs cm c (cpu p) (cpu (cpus_create fresh sz)) 0) (\<lambda>r. Inr \<lparr>cpu = r\<rparr>))"

fun core_loop :: "(nat \<Rightarrow> int) \<Rightarrow> cpus_t \<Rightarrow> cpus_t \<Rightarrow> nat list \<Rightarrow> cpus_t list res" where
  "core_loop fresh cm p [] = Inr []"
| "core_loop fresh cm p (c # cs) =
     bind_res (get_core_procs fresh cm p (int c)) (\<lambda>r.
     bind_res (core_loop fresh cm p cs) (\<lambda>rs. Inr (r # rs)))"

definition inverse_procs :: "(nat \<Rightarrow> int) \<Rightarrow> cpus_t \<Rightarrow> cpus_t \<Rightarrow> mapcore_t res" where
  "inverse_procs fresh cm p =
     (let ncores = nat (get_ncores cm)
      in bind_res (core_loop fresh cm p [0..<ncores]) (\<lambda>r. Inr \<lparr>ncores = ncores, core = r\<rparr>))"

definition get_node_sz :: "nat list \<Rightarrow> nat" where
  "get_node_sz p = length p"

fun get_n_from :: "nat \<Rightarrow> nat list list \<Rightarrow> nat" where
  "get_n_from r [] = r"
| "get_n_from r (p # ps) = get_n_from (r + get_node_sz p) ps"

definition get_n :: "nat list list \<Rightarrow> nat" where
  "get_n p = get_n_from 0 p"

subsection \<open>Choosing a core\<close>

fun ok_one_color_from :: "int list \<Rightarrow> int list \<Rightarrow> int list \<Rightarrow> nat \<Rightarrow> nat \<Rightarrow> int \<Rightarrow> nat list \<Rightarrow> bool res" where
  "ok_one_color_from cm d a n p c [] = Inr True"
| "ok_one_color_from cm d a n p c (k # ks) =
     bind_res (aget a (int k)) (\<lambda>op.
       if op \<ge> 0 then
         bind_res (aget d (int (n * p + k))) (\<lambda>x.
           if x \<noteq> 0 then
             bind_res (aget cm op) (\<lambda>oc.
               if oc = c then Inr False else ok_one_color_from cm d a n p c ks)
           else ok_one_color_from cm d a n p c ks)
       else ok_one_color_from cm d a n p c ks)"

definition ok_one_color :: "int list \<Rightarrow> int list \<Rightarrow> int list \<Rightarrow> nat \<Rightarrow> nat \<Rightarrow> int \<Rightarrow> bool res" where
  "ok_one_color cm d a n p c = ok_one_color_from cm d a n p c [0..<n]"

fun ok_color :: "int list \<Rightarrow> int list \<Rightarrow> int list \<Rightarrow> nat \<Rightarrow> nat list \<Rightarrow> int \<Rightarrow> bool res" where
  "ok_color cm d a n [] c = Inr True"
| "ok_color cm d a n (p # q) c =
     bind_res (ok_one_color cm d a n p c) (\<lambda>ok. if \<not> ok then Inr False else ok_color cm d a n q c)"

text \<open>\<open>prev >= 0 && rand_bit(st) ? prev : rand_k(st,mc->ncores)\<close>\<close>

definition first_core :: "int \<Rightarrow> st_t \<Rightarrow> mapcore_t \<Rightarrow> (int \<times> st_t) res" where
  "first_core prev st mc =
     (if prev \<ge> 0 then
        (let (b, st) = rand_bit st
         in if b \<noteq> 0 then Inr (prev, st)
            else bind_res (of_option Diverges (rand_k st (of_nat (ncores mc))))
                   (\<lambda>(v, st). Inr (int (unat v), st)))
      else bind_res (of_option Diverges (rand_k st (of_nat (ncores mc))))
             (\<lambda>(v, st). Inr (int (unat v), st)))"

text \<open>
  The loops over the cores start at \<open>k0\<close> and go round; a start that is no core makes the access
  \<open>mc->core[k0]\<close> out of bounds.  The distance to \<open>k0\<close> decreases.
\<close>

definition ahead :: "nat \<Rightarrow> nat \<Rightarrow> nat \<Rightarrow> nat" where
  "ahead nc k0 k = (if k0 \<le> k then nc + k0 - k else k0 - k)"

lemma ahead_next: "k0 < nc \<Longrightarrow> k < nc \<Longrightarrow> (k + 1) mod nc \<noteq> k0 \<Longrightarrow> ahead nc k0 ((k + 1) mod nc) < ahead nc k0 k"
  by (cases "k + 1 < nc") (auto simp: ahead_def dest: less_antisym)

function color_diff_loop ::
  "int list \<Rightarrow> mapcore_t \<Rightarrow> int list \<Rightarrow> int list \<Rightarrow> nat \<Rightarrow> nat list \<Rightarrow> nat \<Rightarrow> nat \<Rightarrow> nat \<Rightarrow> int res"
where
  "color_diff_loop cm mc d a n q sz k0 k =
     (if ncores mc \<le> k0 \<or> ncores mc \<le> k then Inl Undefined
      else
        bind_res (aget (core mc) (int k)) (\<lambda>p.
        bind_res (if length (cpu p) \<ge> sz then ok_color cm d a n q (int k) else Inr False) (\<lambda>ok.
          if ok then Inr (int k)
          else if (k + 1) mod ncores mc \<noteq> k0
            then color_diff_loop cm mc d a n q sz k0 ((k + 1) mod ncores mc)
          else Inr (-1))))"
  by pat_completeness auto
termination
  by (relation "measure (\<lambda>(cm, mc, d, a, n, q, sz, k0, k). ahead (ncores mc) k0 k)")
    (auto intro: ahead_next [simplified])

declare color_diff_loop.simps [simp del]

definition find_color_diff ::
  "int \<Rightarrow> st_t \<Rightarrow> int list \<Rightarrow> mapcore_t \<Rightarrow> int list \<Rightarrow> int list \<Rightarrow> nat \<Rightarrow> nat list \<Rightarrow> (int \<times> st_t) res"
where
  "find_color_diff prev st cm mc d a n q =
     (let sz = get_node_sz q
      in bind_res (first_core prev st mc) (\<lambda>(k0, st).
         bind_res (color_diff_loop cm mc d a n q sz (nat k0) (nat k0)) (\<lambda>c. Inr (c, st))))"

function one_proc_loop ::
  "int list \<Rightarrow> mapcore_t \<Rightarrow> int list \<Rightarrow> int list \<Rightarrow> nat \<Rightarrow> nat \<Rightarrow> int \<Rightarrow> nat \<Rightarrow> nat \<Rightarrow> int res"
where
  "one_proc_loop cm mc d a n p found k0 k =
     (if ncores mc \<le> k0 \<or> ncores mc \<le> k then Inl Undefined
      else
        bind_res (aget (core mc) (int k)) (\<lambda>pk.
        let found = (if length (cpu pk) > 0 \<and> found < 0 then int k else found)
        in bind_res (if length (cpu pk) > 0 then ok_one_color cm d a n p (int k) else Inr False) (\<lambda>ok.
          if ok then Inr (int k)
          else if (k + 1) mod ncores mc \<noteq> k0
            then one_proc_loop cm mc d a n p found k0 ((k + 1) mod ncores mc)
          else if found < 0 then Inl (Fatal ''Cannot allocate threads'')
          else Inr found)))"
  by pat_completeness auto
termination
  by (relation "measure (\<lambda>(cm, mc, d, a, n, p, found, k0, k). ahead (ncores mc) k0 k)")
    (auto intro: ahead_next [simplified])

declare one_proc_loop.simps [simp del]

definition find_one_proc ::
  "int \<Rightarrow> st_t \<Rightarrow> int list \<Rightarrow> mapcore_t \<Rightarrow> int list \<Rightarrow> int list \<Rightarrow> nat \<Rightarrow> nat \<Rightarrow> (int \<times> st_t) res"
where
  "find_one_proc prev st cm mc d a n p =
     bind_res (first_core prev st mc) (\<lambda>(k0, st).
     bind_res (one_proc_loop cm mc d a n p (-1) (nat k0) (nat k0)) (\<lambda>c. Inr (c, st)))"

subsection \<open>The allocation\<close>

text \<open>\<open>p->sz-- ; p->cpu[p->sz]\<close> with \<open>p = mc->core[c]\<close>\<close>

definition take_proc :: "mapcore_t \<Rightarrow> int \<Rightarrow> (int \<times> mapcore_t) res" where
  "take_proc mc c =
     bind_res (aget (core mc) c) (\<lambda>p.
       if cpu p = [] then Inl Undefined
       else Inr (last (cpu p), mc\<lparr>core := (core mc)[nat c := \<lparr>cpu = butlast (cpu p)\<rparr>]\<rparr>))"

fun take_color :: "mapcore_t \<Rightarrow> int \<Rightarrow> nat list \<Rightarrow> int list \<Rightarrow> (mapcore_t \<times> int list) res" where
  "take_color mc c [] a = Inr (mc, a)"
| "take_color mc c (q # qs) a =
     bind_res (take_proc mc c) (\<lambda>(x, mc).
     bind_res (aset a (int q) x) (\<lambda>a. take_color mc c qs a))"

fun take_ones ::
  "int list \<Rightarrow> int list \<Rightarrow> nat \<Rightarrow> int \<Rightarrow> st_t \<Rightarrow> mapcore_t \<Rightarrow> nat list \<Rightarrow> int list \<Rightarrow>
   (int \<times> st_t \<times> mapcore_t \<times> int list) res"
where
  "take_ones cm d n prev st mc [] a = Inr (prev, st, mc, a)"
| "take_ones cm d n prev st mc (q # qs) a =
     bind_res (find_one_proc prev st cm mc d a n q) (\<lambda>(c, st).
     bind_res (take_proc mc c) (\<lambda>(x, mc).
     bind_res (aset a (int q) x) (\<lambda>a. take_ones cm d n c st mc qs a)))"

fun alloc_colors ::
  "int list \<Rightarrow> int list \<Rightarrow> nat \<Rightarrow> int \<Rightarrow> st_t \<Rightarrow> mapcore_t \<Rightarrow> nat list list \<Rightarrow> int list \<Rightarrow>
   (st_t \<times> mapcore_t \<times> int list) res"
where
  "alloc_colors cm d n prev st mc [] a = Inr (st, mc, a)"
| "alloc_colors cm d n prev st mc (q # qs) a =
     bind_res (find_color_diff prev st cm mc d a n q) (\<lambda>(c, st).
       if c \<ge> 0 then
         bind_res (take_color mc c q a) (\<lambda>(mc, a). alloc_colors cm d n c st mc qs a)
       else
         bind_res (take_ones cm d n prev st mc q a) (\<lambda>(prev, st, mc, a).
           alloc_colors cm d n prev st mc qs a))"

fun alloc_copies ::
  "int list \<Rightarrow> int list \<Rightarrow> nat \<Rightarrow> nat list list \<Rightarrow> st_t \<Rightarrow> mapcore_t \<Rightarrow> nat \<Rightarrow> (int list \<times> st_t) res"
where
  "alloc_copies cm d n color st mc 0 = Inr ([], st)"
| "alloc_copies cm d n color st mc (Suc k) =
     bind_res (alloc_colors cm d n (-1) st mc color (replicate n (-1))) (\<lambda>(st, mc, a).
     bind_res (alloc_copies cm d n color st mc k) (\<lambda>(r, st). Inr (a @ r, st)))"

fun diff_matrix :: "nat \<Rightarrow> (nat \<times> nat) list \<Rightarrow> int list \<Rightarrow> int list res" where
  "diff_matrix n [] d = Inr d"
| "diff_matrix n ((x, y) # q) d =
     bind_res (aset d (int (n * y + x)) 1) (\<lambda>d.
     bind_res (aset d (int (n * x + y)) 1) (\<lambda>d. diff_matrix n q d))"

text \<open>
  The result is the first \<open>n_exe * n\<close> cells of the array \<open>r\<close> and the state of the generator.  The
  array that \<open>find_color_diff\<close> and \<open>find_one_proc\<close> read cores from is \<open>aff_cpus->cpu\<close>, as in the code.
\<close>

definition custom_affinity ::
  "(nat \<Rightarrow> int) \<Rightarrow> st_t \<Rightarrow> cpus_t \<Rightarrow> nat list list \<Rightarrow> (nat \<times> nat) list \<Rightarrow> cpus_t \<Rightarrow> nat \<Rightarrow>
   (int list \<times> st_t) res"
where
  "custom_affinity fresh st cm color diff aff_cpus n_exe =
     bind_res (inverse_procs fresh cm aff_cpus) (\<lambda>mc.
     let n = get_n color in
     bind_res (diff_matrix n diff (replicate (n * n) 0)) (\<lambda>d.
     alloc_copies (cpu aff_cpus) d n color st mc n_exe))"

subsection \<open>Core maps are what they say\<close>

lemma push_cells_eq:
  "i + length xs \<le> length r \<Longrightarrow> push_cells r i xs = Inr (take i r @ xs @ drop (i + length xs) r)"
proof (induction r i xs rule: push_cells.induct)
  case (2 r i x xs)
  then have "r[i := x] = take i r @ x # drop (Suc i) r" by (simp add: upd_conv_take_nth_drop)
  with 2 show ?case by (simp add: add.commute)
qed simp

lemma blocks:
  "length (concat (map (\<lambda>c. map (\<lambda>k. f c k) [0..<w]) [0..<m])) = m * w"
  "i < m * w \<Longrightarrow> concat (map (\<lambda>c. map (\<lambda>k. f c k) [0..<w]) [0..<m]) ! i = f (i div w) (i mod w)"
proof (induction m)
  case (Suc m)
  { case 1 then show ?case using Suc by simp }
  { case 2
    show ?case
    proof (cases "i < m * w")
      case True
      then show ?thesis using Suc by (simp add: nth_append)
    next
      case False
      then obtain j where "i = m * w + j" "j < w" using 2
        by (metis add.commute add_less_cancel_left le_Suc_ex mult_Suc not_less)
      then show ?thesis using Suc by (simp add: nth_append)
    qed }
qed simp_all

lemma coremap_seq_cells:
  assumes "0 < nways"
  shows "\<exists>r. coremap_seq fresh navail nways = Inr r \<and> length (cpu r) = navail \<and>
    (\<forall>i < navail. cpu r ! i = (if i < navail div nways * nways then int (i div nways) else fresh i))"
  using assms
  by (auto simp: coremap_seq_def Let_def cpus_create_def push_cells_eq blocks nth_append res_simps)

lemma coremap_end_cells:
  assumes "0 < nways"
  shows "\<exists>r. coremap_end fresh navail nways = Inr r \<and> length (cpu r) = navail \<and>
    (\<forall>i < navail. cpu r ! i =
      (if i < navail div nways * nways then int (i mod (navail div nways)) else fresh i))"
  using assms
  by (auto simp: coremap_end_def Let_def cpus_create_def push_cells_eq blocks nth_append res_simps mult.commute)

text \<open>
  The two SMT maps: with \<open>nways\<close> dividing \<open>navail\<close>, \<open>coremap_seq\<close> puts processor \<open>i\<close> on core
  \<open>i / nways\<close> and \<open>coremap_end\<close> on core \<open>i % (navail / nways)\<close>, so either way each core has \<open>nways\<close>
  processors; otherwise the last \<open>navail % nways\<close> cells keep what \<open>malloc\<close> gave.
\<close>

theorem coremaps_correct:
  assumes "0 < nways"
  shows "\<exists>r r'. coremap_seq fresh navail nways = Inr r \<and> coremap_end fresh navail nways = Inr r' \<and>
    length (cpu r) = navail \<and> length (cpu r') = navail \<and>
    (\<forall>i < navail. i < navail div nways * nways \<longrightarrow>
      cpu r ! i = int (i div nways) \<and> cpu r' ! i = int (i mod (navail div nways))) \<and>
    (\<forall>i < navail. navail div nways * nways \<le> i \<longrightarrow> cpu r ! i = fresh i \<and> cpu r' ! i = fresh i)"
  using coremap_seq_cells [OF assms, of fresh navail] coremap_end_cells [OF assms, of fresh navail]
  by (metis not_less)

theorem coremaps_correct_witness:
  "\<exists>r r'. coremap_seq (\<lambda>_. 99) 5 2 = Inr r \<and> coremap_end (\<lambda>_. 99) 5 2 = Inr r' \<and>
    cpu r = [0, 0, 1, 1, 99] \<and> cpu r' = [0, 1, 0, 1, 99]"
proof -
  have list5: "xs = [xs ! 0, xs ! 1, xs ! 2, xs ! 3, xs ! 4]" if "length xs = 5" for xs :: "int list"
    using that by (simp add: list_eq_iff_nth_eq less_Suc_eq numeral_nat)
  from coremaps_correct [of 2 "\<lambda>_. 99" 5] obtain r r' where
    "coremap_seq (\<lambda>_. 99) 5 2 = Inr r" "coremap_end (\<lambda>_. 99) 5 2 = Inr r'"
    and len: "length (cpu r) = 5" "length (cpu r') = 5"
    and "\<forall>i < 5. i < 4 \<longrightarrow> cpu r ! i = int (i div 2) \<and> cpu r' ! i = int (i mod 2)"
    and "\<forall>i < 5. 4 \<le> i \<longrightarrow> cpu r ! i = 99 \<and> cpu r' ! i = 99"
    by auto
  then show ?thesis using list5 [OF len(1)] list5 [OF len(2)] by simp
qed

lemma c_rem_nonneg: "0 \<le> a \<Longrightarrow> 0 \<le> b \<Longrightarrow> c_rem b a = b mod a"
  by (auto simp: c_rem_def sgn_if)

lemma gcd_c_nonneg: "0 \<le> a \<Longrightarrow> 0 \<le> b \<Longrightarrow> gcd_c a b = gcd a b"
proof (induction a b rule: gcd_c.induct)
  case (1 a b)
  show ?case
  proof (cases "a = 0")
    case True
    then show ?thesis using 1 by (subst gcd_c.simps) simp
  next
    case False
    then have "gcd_c (c_rem b a) a = gcd (b mod a) a"
      using 1 by (simp add: c_rem_nonneg)
    then show ?thesis using False by (subst gcd_c.simps) (metis gcd.commute gcd_red_int)
  qed
qed


text \<open>\<open>gcd\<close> computes the greatest common divisor of two non-negative integers.\<close>

theorem gcd_correct: "0 \<le> a \<Longrightarrow> 0 \<le> b \<Longrightarrow> gcd_c a b = gcd a b"
  by (rule gcd_c_nonneg)

theorem gcd_correct_witness: "gcd_c 12 18 = 6"
  using gcd_correct [of 12 18] by (simp add: gcd_non_0_int)

subsection \<open>Processors by core\<close>

definition core_of :: "cpus_t \<Rightarrow> int \<Rightarrow> int" where
  "core_of cm p = cpu cm ! nat p"

definition in_map :: "cpus_t \<Rightarrow> int \<Rightarrow> bool" where
  "in_map cm p \<longleftrightarrow> 0 \<le> p \<and> p < int (length (cpu cm))"

lemma aget_core: "in_map cm p \<Longrightarrow> aget (cpu cm) p = Inr (core_of cm p)"
  by (simp add: aget_def in_map_def core_of_def)

lemma count_core_procs_eq:
  "\<forall>p \<in> set ps. in_map cm p \<Longrightarrow>
    count_core_procs cm c ps sz = Inr (sz + length (filter (\<lambda>p. core_of cm p = c) ps))"
  by (induction cm c ps sz rule: count_core_procs.induct) (auto simp: aget_core)

lemma fill_core_procs_eq:
  "\<forall>p \<in> set ps. in_map cm p \<Longrightarrow>
    fill_core_procs cm c ps r i = push_cells r i (filter (\<lambda>p. core_of cm p = c) ps)"
  by (induction cm c ps r i rule: fill_core_procs.induct) (auto simp: aget_core)

lemma get_core_procs_eq:
  assumes "\<forall>p \<in> set (cpu ps). in_map cm p"
  shows "get_core_procs fresh cm ps c = Inr \<lparr>cpu = filter (\<lambda>p. core_of cm p = c) (cpu ps)\<rparr>"
  using assms
  by (simp add: get_core_procs_def count_core_procs_eq fill_core_procs_eq push_cells_eq cpus_create_def)

lemma core_loop_eq:
  assumes "\<forall>p \<in> set (cpu ps). in_map cm p"
  shows "core_loop fresh cm ps cs =
    Inr (map (\<lambda>c. \<lparr>cpu = filter (\<lambda>p. core_of cm p = int c) (cpu ps)\<rparr>) cs)"
  using assms by (induction cs) (auto simp: get_core_procs_eq)

lemma get_ncores_max: "get_ncores cm = Max (insert 0 (set (cpu cm))) + 1"
proof -
  have "foldl (\<lambda>r x. if x > r then x else r) m xs = Max (insert m (set xs))" for m :: int and xs
  proof (induction xs arbitrary: m)
    case (Cons x xs)
    show ?case by (cases "set xs = {}") (auto simp: Cons.IH max_def)
  qed simp
  then show ?thesis by (simp add: get_ncores_def)
qed

lemma core_bound: "in_map cm p \<Longrightarrow> core_of cm p < get_ncores cm"
  using Max_ge [of "insert 0 (set (cpu cm))" "core_of cm p"]
  by (auto simp: get_ncores_max in_map_def core_of_def)

lemma get_ncores_pos: "0 < get_ncores cm"
  using Max_ge [of "insert 0 (set (cpu cm))" 0] by (simp add: get_ncores_max)

lemma inverse_procs_eq:
  assumes "\<forall>p \<in> set (cpu ps). in_map cm p"
  shows "inverse_procs fresh cm ps = Inr \<lparr>ncores = nat (get_ncores cm),
    core = map (\<lambda>c. \<lparr>cpu = filter (\<lambda>p. core_of cm p = int c) (cpu ps)\<rparr>) [0..<nat (get_ncores cm)]\<rparr>"
  using assms by (simp add: inverse_procs_def core_loop_eq Let_def)

text \<open>All the processors still available, core by core.\<close>

definition procs :: "mapcore_t \<Rightarrow> int list" where
  "procs mc = concat (map cpu (core mc))"

lemma mset_filter_cores:
  assumes "\<forall>p \<in> set ps. 0 \<le> f p \<and> f p < int m"
  shows "mset (concat (map (\<lambda>c. filter (\<lambda>p. f p = int c) ps) [0..<m])) = mset ps"
  using assms
proof (induction ps)
  case (Cons p ps)
  obtain k where k: "f p = int k" "k < m" using Cons.prems by (metis list.set_intros(1) nat_less_iff nat_eq_iff)
  have "mset (concat (map (\<lambda>c. filter (\<lambda>x. f x = int c) (p # ps)) [0..<m])) =
      mset (concat (map (\<lambda>c. filter (\<lambda>x. f x = int c) ps) [0..<m])) +
      mset (concat (map (\<lambda>c. if c = k then [p] else []) [0..<m]))"
    by (induction m) (auto simp: k)
  moreover have "concat (map (\<lambda>c. if c = k then [p] else []) [0..<m]) = [p]"
    using k(2) by (induction m) (auto simp: less_Suc_eq)
  ultimately show ?case using Cons by simp
qed simp

lemma inverse_procs_sorted:
  assumes "\<forall>p \<in> set (cpu ps). in_map cm p" and "\<forall>c \<in> set (cpu cm). 0 \<le> c"
  shows "\<exists>mc. inverse_procs fresh cm ps = Inr mc \<and> length (core mc) = ncores mc \<and>
    (\<forall>c < ncores mc. cpu (core mc ! c) = filter (\<lambda>p. core_of cm p = int c) (cpu ps)) \<and>
    mset (procs mc) = mset (cpu ps)"
proof -
  have "\<forall>p \<in> set (cpu ps). 0 \<le> core_of cm p \<and> core_of cm p < int (nat (get_ncores cm))"
    using assms core_bound get_ncores_pos [of cm] by (auto simp: core_of_def in_map_def)
  from mset_filter_cores [OF this] show ?thesis
    by (simp add: inverse_procs_eq [OF assms(1)] procs_def comp_def)
qed

text \<open>
  \<open>inverse_procs\<close> sorts the allowed processors by core: every core gets exactly its allowed
  processors, in their order, and each processor is on one core.
\<close>

theorem inverse_procs_correct:
  assumes "\<forall>p \<in> set (cpu ps). in_map cm p" and "\<forall>c \<in> set (cpu cm). 0 \<le> c"
  shows "\<exists>mc. inverse_procs fresh cm ps = Inr mc \<and> length (core mc) = ncores mc \<and>
    (\<forall>c < ncores mc. cpu (core mc ! c) = filter (\<lambda>p. core_of cm p = int c) (cpu ps)) \<and>
    mset (procs mc) = mset (cpu ps)"
  using assms by (rule inverse_procs_sorted)

theorem inverse_procs_correct_witness:
  "\<exists>mc. inverse_procs (\<lambda>_. 7) \<lparr>cpu = [0, 0, 1, 1]\<rparr> \<lparr>cpu = [3, 0, 2]\<rparr> = Inr mc \<and>
    ncores mc = length (core mc) \<and> mset (procs mc) = mset [3, 0, 2]"
  using inverse_procs_correct [of "\<lparr>cpu = [3, 0, 2]\<rparr>" "\<lparr>cpu = [0, 0, 1, 1]\<rparr>" "\<lambda>_. 7"]
  by (auto simp: in_map_def)

subsection \<open>The search for a core\<close>

text \<open>What the two searches rely on: no array access is out of bounds.\<close>

definition accesses_ok :: "int list \<Rightarrow> int list \<Rightarrow> int list \<Rightarrow> nat \<Rightarrow> bool" where
  "accesses_ok cm d a n \<longleftrightarrow>
     length a = n \<and> length d = n * n \<and> (\<forall>op \<in> set a. op < int (length cm))"

text \<open>
  Thread \<open>p\<close> may go to core \<open>c\<close>: no thread already placed that must be apart from it has its
  processor on core \<open>c\<close>, as far as the array \<open>cm\<close> says.
\<close>

definition apart :: "int list \<Rightarrow> int list \<Rightarrow> int list \<Rightarrow> nat \<Rightarrow> int \<Rightarrow> nat \<Rightarrow> bool" where
  "apart cm d a n c p \<longleftrightarrow> (\<forall>k < n. 0 \<le> a ! k \<longrightarrow> d ! (n * p + k) \<noteq> 0 \<longrightarrow> cm ! nat (a ! k) \<noteq> c)"

lemma cell_bound: "p < n \<Longrightarrow> k < n \<Longrightarrow> n * p + k < n * (n :: nat)"
proof -
  assume "p < n" "k < n"
  then have "n * p + k < n * Suc p" by simp
  also have "\<dots> \<le> n * n" using \<open>p < n\<close> by (intro mult_le_mono2) simp
  finally show ?thesis .
qed

lemma ok_one_color_from_eq:
  assumes "accesses_ok cm d a n" and "p < n" and "set ks \<subseteq> {..<n}"
  shows "ok_one_color_from cm d a n p c ks =
    Inr (\<forall>k \<in> set ks. 0 \<le> a ! k \<longrightarrow> d ! (n * p + k) \<noteq> 0 \<longrightarrow> cm ! nat (a ! k) \<noteq> c)"
  using assms(3)
proof (induction ks)
  case (Cons k ks)
  have k: "k < n" "length a = n" "length d = n * n" "n * p + k < n * n"
    using Cons.prems assms(1,2) cell_bound by (auto simp: accesses_ok_def)
  then have "aget a (int k) = Inr (a ! k)" "aget d (int (n * p + k)) = Inr (d ! (n * p + k))"
    using aget_nat [of k a] aget_nat [of "n * p + k" d] by simp_all
  moreover have "aget cm (a ! k) = Inr (cm ! nat (a ! k))" if "0 \<le> a ! k"
    using that k assms(1) by (simp add: accesses_ok_def aget_def)
  ultimately show ?case using Cons by (auto simp del: of_nat_add of_nat_mult)
qed simp

lemma ok_one_color_eq:
  "accesses_ok cm d a n \<Longrightarrow> p < n \<Longrightarrow> ok_one_color cm d a n p c = Inr (apart cm d a n c p)"
  unfolding ok_one_color_def apart_def by (subst ok_one_color_from_eq) auto

lemma ok_color_eq:
  "accesses_ok cm d a n \<Longrightarrow> set q \<subseteq> {..<n} \<Longrightarrow>
    ok_color cm d a n q c = Inr (\<forall>p \<in> set q. apart cm d a n c p)"
  by (induction q) (auto simp: ok_one_color_eq)

text \<open>Going round the cores.\<close>

lemma ahead_start: "ahead nc k0 k0 = nc"
  by (simp add: ahead_def)

lemma ahead_le: "k < nc \<Longrightarrow> k0 < nc \<Longrightarrow> ahead nc k0 k \<le> nc"
  by (auto simp: ahead_def)

lemma ahead_cases:
  assumes "k0 < nc" and "k < nc" and "j < nc" and "ahead nc k0 j \<le> ahead nc k0 k"
  shows "j = k \<or> (k + 1) mod nc \<noteq> k0 \<and> ahead nc k0 j \<le> ahead nc k0 ((k + 1) mod nc)"
proof (cases "k + 1 = nc")
  case True
  then show ?thesis using assms by (auto simp: ahead_def split: if_splits)
next
  case False
  then have "(k + 1) mod nc = k + 1" using assms(2) by simp
  then show ?thesis using assms by (auto simp: ahead_def split: if_splits)
qed

definition search_inv :: "mapcore_t \<Rightarrow> bool" where
  "search_inv mc \<longleftrightarrow> ncores mc = length (core mc) \<and> core mc \<noteq> [] \<and> length (core mc) < 2 ^ 31"

definition fits :: "int list \<Rightarrow> mapcore_t \<Rightarrow> int list \<Rightarrow> int list \<Rightarrow> nat \<Rightarrow> nat list \<Rightarrow> nat \<Rightarrow> bool" where
  "fits cm mc d a n q k \<longleftrightarrow>
     length q \<le> length (cpu (core mc ! k)) \<and> (\<forall>p \<in> set q. apart cm d a n (int k) p)"

lemma color_diff_loop_spec:
  assumes "search_inv mc" and "accesses_ok cm d a n" and "set q \<subseteq> {..<n}" and "k0 < ncores mc"
    and "k < ncores mc"
  shows "\<exists>r. color_diff_loop cm mc d a n q (length q) k0 k = Inr r \<and>
    (r = -1 \<and> (\<forall>j < ncores mc. ahead (ncores mc) k0 j \<le> ahead (ncores mc) k0 k \<longrightarrow> \<not> fits cm mc d a n q j) \<or>
     (\<exists>j < ncores mc. r = int j \<and> fits cm mc d a n q j))"
  using assms(5)
proof (induction "ahead (ncores mc) k0 k" arbitrary: k rule: less_induct)
  case less
  let ?k = "(k + 1) mod ncores mc"
  have step: "color_diff_loop cm mc d a n q (length q) k0 k =
      (if fits cm mc d a n q k then Inr (int k)
       else if ?k \<noteq> k0 then color_diff_loop cm mc d a n q (length q) k0 ?k else Inr (-1))"
    using assms less.prems
    by (subst color_diff_loop.simps) (auto simp: ok_color_eq fits_def search_inv_def)
  have next_k: "?k < ncores mc" using less.prems by simp
  show ?case
  proof (cases "fits cm mc d a n q k \<or> ?k = k0")
    case True
    then show ?thesis using less.prems step ahead_cases [OF assms(4) less.prems] by auto
  next
    case False
    with less.hyps [OF ahead_next [OF assms(4) less.prems] next_k] show ?thesis
      using step ahead_cases [OF assms(4) less.prems] by auto
  qed
qed

lemma first_core_ok:
  assumes "search_inv mc" and "prev < int (ncores mc)"
  obtains k0 st' where "first_core prev st mc = Inr (int k0, st')" and "k0 < ncores mc"
proof (cases "prev \<ge> 0 \<and> fst (rand_bit st) \<noteq> 0")
  case True
  then show thesis using assms that [of "nat prev" "snd (rand_bit st)"]
    by (auto simp: first_core_def case_prod_unfold)
next
  case False
  have pos: "0 < ncores mc" and nc: "ncores mc < 2 ^ 32" using assms(1) by (simp_all add: search_inv_def)
  define st1 where "st1 = (if prev \<ge> 0 then snd (rand_bit st) else st)"
  obtain v st' where v: "rand_k st1 (of_nat (ncores mc)) = Some (v, st')" "unat v < ncores mc"
    using lcg.rnd_nat [OF pos nc] by metis
  then have "first_core prev st mc = Inr (int (unat v), st')"
    using False by (auto simp: first_core_def st1_def split: prod.splits)
  then show thesis using that v(2) by blast
qed

lemma find_color_diff_spec:
  assumes "search_inv mc" and "accesses_ok cm d a n" and "set q \<subseteq> {..<n}" and "prev < int (ncores mc)"
  shows "\<exists>r st'. find_color_diff prev st cm mc d a n q = Inr (r, st') \<and>
    (r = -1 \<and> (\<forall>j < ncores mc. \<not> fits cm mc d a n q j) \<or>
     (\<exists>j < ncores mc. r = int j \<and> fits cm mc d a n q j))"
proof -
  obtain k0 st' where k0: "first_core prev st mc = Inr (int k0, st')" "k0 < ncores mc"
    using first_core_ok [OF assms(1,4)] .
  obtain r where "color_diff_loop cm mc d a n q (length q) k0 k0 = Inr r"
    "r = -1 \<and> (\<forall>j < ncores mc. \<not> fits cm mc d a n q j) \<or>
     (\<exists>j < ncores mc. r = int j \<and> fits cm mc d a n q j)"
    using color_diff_loop_spec [OF assms(1-3) k0(2) k0(2)] ahead_le [OF _ k0(2)]
    unfolding ahead_start by blast
  then show ?thesis using k0 by (simp add: find_color_diff_def get_node_sz_def)
qed

text \<open>
  \<open>find_color_diff\<close> returns; its result is a core with room for the whole colour on which no
  thread of the colour meets a thread it must be apart from, or -1 when there is no such core.
\<close>

theorem find_color_diff_correct:
  assumes "search_inv mc" and "accesses_ok cm d a n" and "set q \<subseteq> {..<n}" and "prev < int (ncores mc)"
  shows "\<exists>r st'. find_color_diff prev st cm mc d a n q = Inr (r, st') \<and>
    (r = -1 \<and> (\<forall>j < ncores mc. \<not> fits cm mc d a n q j) \<or>
     (\<exists>j < ncores mc. r = int j \<and> fits cm mc d a n q j))"
  using assms by (rule find_color_diff_spec)

text \<open>The same search for one thread; \<open>found\<close> remembers the first core with a processor.\<close>

definition has_proc :: "mapcore_t \<Rightarrow> nat \<Rightarrow> bool" where
  "has_proc mc k \<longleftrightarrow> cpu (core mc ! k) \<noteq> []"

lemma one_proc_loop_spec:
  assumes "search_inv mc" and "accesses_ok cm d a n" and "p < n" and "k0 < ncores mc"
    and "k < ncores mc" and "found < 0 \<or> (\<exists>j < ncores mc. found = int j \<and> has_proc mc j)"
  shows "(\<exists>j < ncores mc. one_proc_loop cm mc d a n p found k0 k = Inr (int j) \<and> has_proc mc j \<and>
      (apart cm d a n (int j) p \<or>
        (\<forall>i < ncores mc. ahead (ncores mc) k0 i \<le> ahead (ncores mc) k0 k \<longrightarrow> has_proc mc i \<longrightarrow>
          \<not> apart cm d a n (int i) p))) \<or>
    one_proc_loop cm mc d a n p found k0 k = Inl (Fatal ''Cannot allocate threads'') \<and> found < 0 \<and>
      (\<forall>i < ncores mc. ahead (ncores mc) k0 i \<le> ahead (ncores mc) k0 k \<longrightarrow> \<not> has_proc mc i)"
  using assms(5,6)
proof (induction "ahead (ncores mc) k0 k" arbitrary: k found rule: less_induct)
  case less
  let ?k = "(k + 1) mod ncores mc"
  let ?found = "if has_proc mc k \<and> found < 0 then int k else found"
  have step: "one_proc_loop cm mc d a n p found k0 k =
      (if has_proc mc k \<and> apart cm d a n (int k) p then Inr (int k)
       else if ?k \<noteq> k0 then one_proc_loop cm mc d a n p ?found k0 ?k
       else if ?found < 0 then Inl (Fatal ''Cannot allocate threads'') else Inr ?found)"
    using assms less.prems
    by (subst one_proc_loop.simps) (auto simp: ok_one_color_eq has_proc_def search_inv_def)
  have next_k: "?k < ncores mc" using less.prems by simp
  have found: "?found < 0 \<or> (\<exists>j < ncores mc. ?found = int j \<and> has_proc mc j)"
    using less.prems by auto
  note arc = ahead_cases [OF assms(4) less.prems(1)]
  consider "has_proc mc k \<and> apart cm d a n (int k) p" | "?k = k0" "\<not> (has_proc mc k \<and> apart cm d a n (int k) p)"
    | "?k \<noteq> k0" "\<not> (has_proc mc k \<and> apart cm d a n (int k) p)" by blast
  then show ?case
  proof cases
    case 1
    then show ?thesis using step less.prems(1) by auto
  next
    case 2
    then have only: "i = k" if "i < ncores mc" "ahead (ncores mc) k0 i \<le> ahead (ncores mc) k0 k" for i
      using arc that by blast
    show ?thesis
    proof (cases "?found < 0")
      case True
      then have "found < 0" "\<not> has_proc mc k" by (auto split: if_splits)
      then show ?thesis using True step 2 only by auto
    next
      case False
      then obtain j where "j < ncores mc" "?found = int j" "has_proc mc j" using found by blast
      moreover have "one_proc_loop cm mc d a n p found k0 k = Inr ?found"
        using step 2 False by simp
      ultimately show ?thesis using 2(2) only by auto
    qed
  next
    case 3
    have loop: "one_proc_loop cm mc d a n p found k0 k = one_proc_loop cm mc d a n p ?found k0 ?k"
      using step 3 by simp
    have all: "P k \<Longrightarrow> \<forall>i < ncores mc. ahead (ncores mc) k0 i \<le> ahead (ncores mc) k0 ?k \<longrightarrow> P i \<Longrightarrow>
        \<forall>i < ncores mc. ahead (ncores mc) k0 i \<le> ahead (ncores mc) k0 k \<longrightarrow> P i" for P
      using arc by blast
    from less.hyps [OF ahead_next [OF assms(4) less.prems(1) 3(1)] next_k found]
    show ?thesis
    proof (elim disjE exE conjE)
      fix j
      assume "j < ncores mc" "one_proc_loop cm mc d a n p ?found k0 ?k = Inr (int j)" "has_proc mc j"
        "apart cm d a n (int j) p"
      then show ?thesis unfolding loop by blast
    next
      fix j
      assume j: "j < ncores mc" "one_proc_loop cm mc d a n p ?found k0 ?k = Inr (int j)" "has_proc mc j"
        "\<forall>i < ncores mc. ahead (ncores mc) k0 i \<le> ahead (ncores mc) k0 ?k \<longrightarrow>
          has_proc mc i \<longrightarrow> \<not> apart cm d a n (int i) p"
      have "\<forall>i < ncores mc. ahead (ncores mc) k0 i \<le> ahead (ncores mc) k0 k \<longrightarrow>
          has_proc mc i \<longrightarrow> \<not> apart cm d a n (int i) p"
        by (rule all [of "\<lambda>i. has_proc mc i \<longrightarrow> \<not> apart cm d a n (int i) p"]) (use 3(2) j(4) in blast)+
      then show ?thesis unfolding loop using j(1-3) by blast
    next
      assume "one_proc_loop cm mc d a n p ?found k0 ?k = Inl (Fatal ''Cannot allocate threads'')"
        "?found < 0" "\<forall>i < ncores mc. ahead (ncores mc) k0 i \<le> ahead (ncores mc) k0 ?k \<longrightarrow> \<not> has_proc mc i"
      moreover have "found < 0" "\<not> has_proc mc k" using calculation(2) by (auto split: if_splits)
      ultimately show ?thesis unfolding loop using all [of "\<lambda>i. \<not> has_proc mc i"] by blast
    qed
  qed
qed

lemma find_one_proc_spec:
  assumes "search_inv mc" and "accesses_ok cm d a n" and "p < n" and "prev < int (ncores mc)"
  shows "(\<exists>j < ncores mc. \<exists>st'. find_one_proc prev st cm mc d a n p = Inr (int j, st') \<and> has_proc mc j \<and>
      (apart cm d a n (int j) p \<or> (\<forall>i < ncores mc. has_proc mc i \<longrightarrow> \<not> apart cm d a n (int i) p))) \<or>
    find_one_proc prev st cm mc d a n p = Inl (Fatal ''Cannot allocate threads'') \<and>
      (\<forall>i < ncores mc. \<not> has_proc mc i)"
proof -
  obtain k0 st' where k0: "first_core prev st mc = Inr (int k0, st')" "k0 < ncores mc"
    using first_core_ok [OF assms(1,4)] .
  then have "find_one_proc prev st cm mc d a n p =
      bind_res (one_proc_loop cm mc d a n p (-1) k0 k0) (\<lambda>c. Inr (c, st'))"
    by (simp add: find_one_proc_def)
  then show ?thesis
    using one_proc_loop_spec [OF assms(1-3) k0(2) k0(2), of "-1"] ahead_le [OF _ k0(2)]
    unfolding ahead_start by auto
qed

text \<open>
  \<open>find_one_proc\<close> returns a core that still has a processor, one that keeps thread \<open>p\<close> apart
  from the others if there is any; it ends the program exactly when no processor is left.
\<close>

theorem find_one_proc_correct:
  assumes "search_inv mc" and "accesses_ok cm d a n" and "p < n" and "prev < int (ncores mc)"
  shows "(\<exists>j < ncores mc. \<exists>st'. find_one_proc prev st cm mc d a n p = Inr (int j, st') \<and> has_proc mc j \<and>
      (apart cm d a n (int j) p \<or> (\<forall>i < ncores mc. has_proc mc i \<longrightarrow> \<not> apart cm d a n (int i) p))) \<or>
    find_one_proc prev st cm mc d a n p = Inl (Fatal ''Cannot allocate threads'') \<and>
      (\<forall>i < ncores mc. \<not> has_proc mc i)"
  using assms by (rule find_one_proc_spec)

subsection \<open>The allocation gives distinct processors\<close>

lemma procs_update:
  assumes "j < length (core mc)" and "mset (cpu (core mc ! j)) = add_mset x (mset (cpu p))"
  shows "mset (procs mc) = add_mset x (mset (procs (mc\<lparr>core := (core mc)[j := p]\<rparr>)))"
proof -
  have "core mc = take j (core mc) @ core mc ! j # drop (Suc j) (core mc)"
    using assms(1) by (rule id_take_nth_drop)
  then have "mset (procs mc) = mset (concat (map cpu (take j (core mc)))) + mset (cpu (core mc ! j)) +
      mset (concat (map cpu (drop (Suc j) (core mc))))"
    unfolding procs_def by (metis concat.simps(2) concat_append list.simps(9) map_append mset_append union_assoc)
  then show ?thesis using assms by (simp add: procs_def upd_conv_take_nth_drop)
qed

lemma take_proc_ok:
  assumes "search_inv mc" and "j < ncores mc" and "has_proc mc j"
  obtains x p where "take_proc mc (int j) = Inr (x, mc\<lparr>core := (core mc)[j := p]\<rparr>)"
    and "cpu (core mc ! j) = cpu p @ [x]"
    and "search_inv (mc\<lparr>core := (core mc)[j := p]\<rparr>)"
    and "mset (procs mc) = add_mset x (mset (procs (mc\<lparr>core := (core mc)[j := p]\<rparr>)))"
proof -
  let ?c = "cpu (core mc ! j)"
  have j: "j < length (core mc)" using assms by (simp add: search_inv_def)
  have ne: "?c \<noteq> []" using assms(3) by (simp add: has_proc_def)
  then have split: "?c = butlast ?c @ [last ?c]" by simp
  then have "mset ?c = add_mset (last ?c) (mset (butlast ?c))"
    by (metis add_mset_add_single mset.simps(1,2) mset_append)
  with procs_update [OF j, of "last ?c" "\<lparr>cpu = butlast ?c\<rparr>"]
  show thesis using j ne assms(1) split
    by (intro that [of "last ?c" "\<lparr>cpu = butlast ?c\<rparr>"]) (simp_all add: take_proc_def search_inv_def)
qed

text \<open>
  The state inside one copy: the threads in \<open>ks\<close> have processors, the others not, and no processor
  of the initial stock \<open>ps\<close> is lost or given twice.
\<close>

definition placed :: "int list \<Rightarrow> nat \<Rightarrow> nat list \<Rightarrow> mapcore_t \<Rightarrow> int list \<Rightarrow> bool" where
  "placed ps n ks mc a \<longleftrightarrow> length a = n \<and> distinct ks \<and> set ks \<subseteq> {..<n} \<and>
     (\<forall>k < n. k \<notin> set ks \<longrightarrow> a ! k = -1) \<and> mset ps = mset (procs mc) + mset (map ((!) a) ks)"

lemma placed_accesses:
  assumes "placed ps n ks mc a" and "\<forall>x \<in> set ps. x < int (length cm)" and "length d = n * n"
  shows "accesses_ok cm d a n"
proof -
  have "a ! k < int (length cm)" if "k < n" for k
  proof (cases "k \<in> set ks")
    case True
    then have "a ! k \<in># mset (map ((!) a) ks)" by simp
    then have "a ! k \<in> set ps" using assms(1) unfolding placed_def
      by (metis set_mset_mset union_iff)
    then show ?thesis using assms(2) by blast
  qed (use assms(1) that in \<open>simp add: placed_def\<close>)
  then show ?thesis using assms by (auto simp: accesses_ok_def placed_def in_set_conv_nth)
qed

lemma place_one:
  assumes "placed ps n ks mc a" and "search_inv mc" and "j < ncores mc" and "has_proc mc j"
    and "q < n" and "q \<notin> set ks"
  obtains x mc' a' where "take_proc mc (int j) = Inr (x, mc')" and "aset a (int q) x = Inr a'"
    and "placed ps n (q # ks) mc' a'" and "search_inv mc'" and "ncores mc' = ncores mc"
    and "length (cpu (core mc ! j)) = Suc (length (cpu (core mc' ! j)))"
proof (rule take_proc_ok [OF assms(2-4)])
  fix x p
  let ?mc = "mc\<lparr>core := (core mc)[j := p]\<rparr>"
  assume x: "take_proc mc (int j) = Inr (x, ?mc)" "cpu (core mc ! j) = cpu p @ [x]" "search_inv ?mc"
    "mset (procs mc) = add_mset x (mset (procs ?mc))"
  have "map ((!) (a[q := x])) ks = map ((!) a) ks"
    using assms(6) by (auto intro!: nth_list_update_neq)
  then have "placed ps n (q # ks) ?mc (a[q := x])"
    using assms(1,5,6) x(4) by (auto simp: placed_def simp del: mset_map map_eq_conv)
  then show thesis using x assms by (intro that [of x ?mc "a[q := x]"]) (auto simp: placed_def search_inv_def)
qed


lemma take_color_ok:
  assumes "placed ps n ks mc a" and "search_inv mc" and "j < ncores mc"
    and "length q \<le> length (cpu (core mc ! j))"
    and "distinct q" and "set q \<subseteq> {..<n}" and "set q \<inter> set ks = {}"
  shows "\<exists>mc' a'. take_color mc (int j) q a = Inr (mc', a') \<and> placed ps n (rev q @ ks) mc' a' \<and>
    search_inv mc' \<and> ncores mc' = ncores mc"
  using assms
proof (induction q arbitrary: mc a ks)
  case (Cons p q)
  have "has_proc mc j" using Cons.prems(4) by (auto simp: has_proc_def)
  moreover have "p < n" "p \<notin> set ks" using Cons.prems by auto
  ultimately obtain x mc1 a1 where
    one: "take_proc mc (int j) = Inr (x, mc1)" "aset a (int p) x = Inr a1"
      "placed ps n (p # ks) mc1 a1" "search_inv mc1" "ncores mc1 = ncores mc"
      "length (cpu (core mc ! j)) = Suc (length (cpu (core mc1 ! j)))"
    using place_one [OF Cons.prems(1-3)] by metis
  have "\<exists>mc' a'. take_color mc1 (int j) q a1 = Inr (mc', a') \<and> placed ps n (rev q @ p # ks) mc' a' \<and>
      search_inv mc' \<and> ncores mc' = ncores mc1"
    using Cons.prems one by (intro Cons.IH) auto
  then show ?case using one by auto
qed simp

lemma placed_room:
  assumes "placed ps n ks mc a" and "length ks < length ps" and "search_inv mc"
  shows "\<exists>j < ncores mc. has_proc mc j"
proof -
  have "size (mset ps) = size (mset (procs mc)) + length ks"
    using assms(1) unfolding placed_def by (metis length_map size_mset size_union)
  then have "procs mc \<noteq> []" using assms(2) by (auto simp: procs_def)
  then show ?thesis using assms(3)
    by (auto simp: procs_def has_proc_def search_inv_def in_set_conv_nth)
qed

lemma take_ones_ok:
  assumes "placed ps n ks mc a" and "search_inv mc" and "prev < int (ncores mc)"
    and "\<forall>x \<in> set ps. x < int (length cm)" and "length d = n * n"
    and "length q + length ks \<le> length ps"
    and "distinct q" and "set q \<subseteq> {..<n}" and "set q \<inter> set ks = {}"
  shows "\<exists>prev' st' mc' a'. take_ones cm d n prev st mc q a = Inr (prev', st', mc', a') \<and>
    placed ps n (rev q @ ks) mc' a' \<and> search_inv mc' \<and> ncores mc' = ncores mc \<and> prev' < int (ncores mc)"
  using assms
proof (induction q arbitrary: mc a ks prev st)
  case (Cons p q)
  have p: "p < n" "p \<notin> set ks" using Cons.prems by auto
  have acc: "accesses_ok cm d a n" using placed_accesses [OF Cons.prems(1,4,5)] .
  have "\<exists>j < ncores mc. has_proc mc j"
    using Cons.prems(6) by (intro placed_room [OF Cons.prems(1) _ Cons.prems(2)]) simp
  then obtain j st' where j: "j < ncores mc" "find_one_proc prev st cm mc d a n p = Inr (int j, st')" "has_proc mc j"
    using find_one_proc_spec [OF Cons.prems(2) acc p(1) Cons.prems(3), of st] by blast
  obtain x mc1 a1 where
    one: "take_proc mc (int j) = Inr (x, mc1)" "aset a (int p) x = Inr a1"
      "placed ps n (p # ks) mc1 a1" "search_inv mc1" "ncores mc1 = ncores mc"
    using place_one [OF Cons.prems(1,2) j(1,3) p] by metis
  have "\<exists>prev' st'' mc' a'. take_ones cm d n (int j) st' mc1 q a1 = Inr (prev', st'', mc', a') \<and>
      placed ps n (rev q @ p # ks) mc' a' \<and> search_inv mc' \<and> ncores mc' = ncores mc1 \<and>
      prev' < int (ncores mc1)"
    using Cons.prems one j(1) by (intro Cons.IH) auto
  then show ?case using one j by auto
qed simp

lemma alloc_colors_ok:
  assumes "placed ps n ks mc a" and "search_inv mc" and "prev < int (ncores mc)"
    and "\<forall>x \<in> set ps. x < int (length cm)" and "length d = n * n"
    and "length (concat color) + length ks \<le> length ps"
    and "distinct (concat color)" and "set (concat color) \<subseteq> {..<n}" and "set (concat color) \<inter> set ks = {}"
  shows "\<exists>st' mc' a'. alloc_colors cm d n prev st mc color a = Inr (st', mc', a') \<and>
    placed ps n (rev (concat color) @ ks) mc' a' \<and> search_inv mc' \<and> ncores mc' = ncores mc"
  using assms
proof (induction color arbitrary: mc a ks prev st)
  case (Cons q color)
  have acc: "accesses_ok cm d a n" using placed_accesses [OF Cons.prems(1,4,5)] .
  have q: "distinct q" "set q \<subseteq> {..<n}" "set q \<inter> set ks = {}" using Cons.prems by auto
  obtain c st1 where c: "find_color_diff prev st cm mc d a n q = Inr (c, st1)"
    "c = -1 \<or> (\<exists>j < ncores mc. c = int j \<and> fits cm mc d a n q j)"
    using find_color_diff_spec [OF Cons.prems(2) acc q(2) Cons.prems(3), of st] by blast
  obtain prev1 st2 mc1 a1 where
    one: "alloc_colors cm d n prev st mc (q # color) a = alloc_colors cm d n prev1 st2 mc1 color a1"
      "placed ps n (rev q @ ks) mc1 a1" "search_inv mc1" "ncores mc1 = ncores mc" "prev1 < int (ncores mc)"
  proof (cases "c = -1")
    case True
    have "\<exists>prev' st' mc' a'. take_ones cm d n prev st1 mc q a = Inr (prev', st', mc', a') \<and>
      placed ps n (rev q @ ks) mc' a' \<and> search_inv mc' \<and> ncores mc' = ncores mc \<and> prev' < int (ncores mc)"
      using Cons.prems(6) q by (intro take_ones_ok [OF Cons.prems(1-5)]) auto
    then show thesis using True c(1) that by auto
  next
    case False
    then obtain j where j: "c = int j" "j < ncores mc" "length q \<le> length (cpu (core mc ! j))"
      using c(2) by (auto simp: fits_def)
    then show thesis
      using take_color_ok [OF Cons.prems(1,2) j(2,3) q] c(1) that by auto
  qed
  have "\<exists>st' mc' a'. alloc_colors cm d n prev1 st2 mc1 color a1 = Inr (st', mc', a') \<and>
      placed ps n (rev (concat color) @ rev q @ ks) mc' a' \<and> search_inv mc' \<and> ncores mc' = ncores mc1"
    using Cons.prems one by (intro Cons.IH) auto
  then show ?case using one by auto
qed auto


lemma alloc_copies_ok:
  assumes "search_inv mc" and "\<forall>x \<in> set (procs mc). x < int (length cm)" and "length d = n * n"
    and "mset (concat color) = mset [0..<n]" and "k * n \<le> length (procs mc)"
  shows "\<exists>r st'. alloc_copies cm d n color st mc k = Inr (r, st') \<and> length r = k * n \<and>
    mset r \<subseteq># mset (procs mc)"
  using assms(1,2,5)
proof (induction k arbitrary: st mc)
  case (Suc k)
  let ?ps = "procs mc" and ?ks = "rev (concat color)"
  have color: "distinct (concat color)" "set (concat color) = {..<n}" "length (concat color) = n"
    using assms(4) by (metis distinct_upt mset_eq_imp_distinct_iff)
      (metis assms(4) atLeast_upt set_mset_mset, metis assms(4) diff_zero length_upt size_mset)
  have start: "placed ?ps n [] mc (replicate n (-1))" by (simp add: placed_def)
  obtain st1 mc1 a1 where
    one: "alloc_colors cm d n (-1) st mc color (replicate n (-1)) = Inr (st1, mc1, a1)"
      "placed ?ps n ?ks mc1 a1" "search_inv mc1"
    using alloc_colors_ok [OF start Suc.prems(1) _ Suc.prems(2) assms(3), of "-1" color st] Suc.prems(3) color
    by auto
  have "mset (map ((!) a1) ?ks) = mset (map ((!) a1) [0..<n])"
    using assms(4) by (metis mset_map mset_rev)
  also have "\<dots> = mset a1" using one(2) by (metis map_nth placed_def)
  finally have ps: "mset ?ps = mset (procs mc1) + mset a1" using one(2) by (simp only: placed_def)
  then have size: "length ?ps = length (procs mc1) + n"
    using one(2) by (metis placed_def size_mset size_union)
  have "set (procs mc1) \<subseteq> set ?ps" using ps by (metis Un_upper1 set_mset_mset set_mset_union)
  then obtain r st' where r: "alloc_copies cm d n color st1 mc1 k = Inr (r, st')" "length r = k * n"
      "mset r \<subseteq># mset (procs mc1)"
    using Suc.IH [OF one(3), of st1] Suc.prems(2,3) size by auto
  then show ?case using one ps by (auto simp: placed_def add.commute)
qed simp

lemma diff_matrix_ok:
  "\<forall>(x, y) \<in> set q. x < n \<and> y < n \<Longrightarrow> length d = n * n \<Longrightarrow>
    \<exists>d'. diff_matrix n q d = Inr d' \<and> length d' = n * n"
proof (induction n q d rule: diff_matrix.induct)
  case (2 n x y q d)
  have "n * y + x < n * n" "n * x + y < n * n" using 2 by (auto intro: cell_bound)
  then have cells: "aset d (int (n * y + x)) 1 = Inr (d[n * y + x := 1])"
    "aset (d[n * y + x := 1]) (int (n * x + y)) 1 = Inr (d[n * y + x := 1, n * x + y := 1])"
    using 2(3) aset_nat by (metis length_list_update)+
  then show ?case using 2 by (simp del: of_nat_add of_nat_mult)
qed simp

lemma distinct_sub: "mset xs \<subseteq># mset ys \<Longrightarrow> distinct ys \<Longrightarrow> distinct xs"
proof -
  assume sub: "mset xs \<subseteq># mset ys" and "distinct ys"
  then have "count (mset xs) a \<le> 1" for a
    using mset_subset_eq_count [OF sub, of a] unfolding distinct_count_atmost_1
    by (metis One_nat_def le_Suc_eq)
  then show "distinct xs" unfolding distinct_count_atmost_1
    by (metis One_nat_def count_mset_0_iff le_Suc_eq le_zero_eq)
qed

lemma get_n_length: "get_n color = length (concat color)"
proof -
  have "get_n_from r ps = r + length (concat ps)" for r ps
    by (induction r ps rule: get_n_from.induct) (auto simp: get_node_sz_def)
  then show ?thesis by (simp add: get_n_def)
qed

text \<open>
  C16: \<open>custom_affinity\<close> gives every thread of every copy an allowed processor, and no processor
  to two threads: with enough processors it never ends the program and never accesses an array out
  of bounds, provided the numbers of the allowed processors are smaller than their count.
\<close>

theorem custom_affinity_allocates:
  assumes "\<forall>p \<in> set (cpu aff). in_map cm p \<and> p < int (length (cpu aff))"
    and "\<forall>c \<in> set (cpu cm). 0 \<le> c" and "get_ncores cm < 2 ^ 31"
    and "mset (concat color) = mset [0..<n]" and "\<forall>(x, y) \<in> set diff. x < n \<and> y < n"
    and "n_exe * n \<le> length (cpu aff)" and "distinct (cpu aff)"
  shows "\<exists>r st'. custom_affinity fresh st cm color diff aff n_exe = Inr (r, st') \<and>
    length r = n_exe * n \<and> distinct r \<and> set r \<subseteq> set (cpu aff)"
proof -
  obtain mc where mc: "inverse_procs fresh cm aff = Inr mc" "mset (procs mc) = mset (cpu aff)"
    using inverse_procs_sorted [of aff cm fresh] assms(1,2) by blast
  have inv: "search_inv mc"
    using mc(1) inverse_procs_eq [of aff cm fresh] assms(1,3) get_ncores_pos [of cm]
    by (auto simp: search_inv_def)
  have n: "get_n color = n" using assms(4) by (metis diff_zero get_n_length length_upt size_mset)
  obtain d where d: "diff_matrix n diff (replicate (n * n) 0) = Inr d" "length d = n * n"
    using diff_matrix_ok [OF assms(5)] by (metis length_replicate)
  have same: "set (procs mc) = set (cpu aff)" "length (procs mc) = length (cpu aff)"
    using mc(2) by (metis set_mset_mset, metis size_mset)
  obtain r st' where r: "alloc_copies (cpu aff) d n color st mc n_exe = Inr (r, st')" "length r = n_exe * n"
      "mset r \<subseteq># mset (cpu aff)"
    using alloc_copies_ok [OF inv _ d(2) assms(4), of "cpu aff" n_exe st] assms(1,6) mc(2) same by auto
  have "distinct r" using r(3) assms(7) by (rule distinct_sub)
  moreover have "set r \<subseteq> set (cpu aff)" using set_mset_mono [OF r(3)] by simp
  ultimately show ?thesis using mc(1) n d(1) r by (auto simp: custom_affinity_def Let_def)
qed

subsection \<open>A run\<close>

text \<open>Two cores with two processors each, two threads that must be apart.\<close>

definition ex_cm :: cpus_t where "ex_cm = \<lparr>cpu = [0, 0, 1, 1]\<rparr>"

definition ex_aff :: cpus_t where "ex_aff = \<lparr>cpu = [0, 1, 2, 3]\<rparr>"

definition ex_mc :: mapcore_t where
  "ex_mc = \<lparr>ncores = 2, core = [\<lparr>cpu = [0, 1]\<rparr>, \<lparr>cpu = [2, 3]\<rparr>]\<rparr>"

lemmas rand_eval = rejected_def unlocked_rand_def lcg_step_def lcg_a_def lcg_c_def swap_half_def
  r_max_def rand_bit_def Let_def

lemma ex_draws:
  "rand_k 0 2 = Some (0, 25173)" "rand_bit 25173 = (0, 1738699110)"
  "rand_k 1738699110 2 = Some (1, 2923257603)"
  unfolding rand_k_def by ((subst rand_loop.simps)?, simp add: rand_eval)+

lemma ex_inverse: "inverse_procs fresh ex_cm ex_aff = Inr ex_mc"
  by (simp add: inverse_procs_eq in_map_def get_ncores_def core_of_def upt_conv_Cons
      ex_cm_def ex_aff_def ex_mc_def)

lemmas search_eval = find_color_diff_def find_one_proc_def first_core_def color_diff_loop.simps
  one_proc_loop.simps ok_one_color_def take_proc_def get_node_sz_def upt_conv_Cons aget_def aset_def
  ex_draws ex_mc_def numeral_2_eq_2

lemma ex_alloc:
  "alloc_copies (cpu ex_aff) [0, 1, 1, 0] 2 [[0], [1]] 0 ex_mc 1 = Inr ([1, 0], 2923257603)"
  by (simp add: ex_aff_def search_eval)

lemma ex_alloc_cm:
  "alloc_copies (cpu ex_cm) [0, 1, 1, 0] 2 [[0], [1]] 0 ex_mc 1 = Inr ([1, 3], 2923257603)"
  by (simp add: ex_cm_def search_eval)

text \<open>
  The relation \<open>diff\<close> is not respected, even where it can be: \<open>custom_affinity\<close> hands the
  allowed processors \<open>aff_cpus->cpu\<close> to the searches, which read it as the map from processors to
  cores.  Here both threads get core 0; with \<open>cm->cpu\<close> the same draws give them core 0 and core 1.
\<close>

theorem custom_affinity_breaks_diff:
  "custom_affinity fresh 0 ex_cm [[0], [1]] [(0, 1)] ex_aff 1 = Inr ([1, 0], 2923257603) \<and>
   core_of ex_cm 1 = core_of ex_cm 0 \<and>
   alloc_copies (cpu ex_cm) [0, 1, 1, 0] 2 [[0], [1]] 0 ex_mc 1 = Inr ([1, 3], 2923257603) \<and>
   core_of ex_cm 1 \<noteq> core_of ex_cm 3"
proof -
  have "diff_matrix 2 [(0, 1)] (replicate 4 0) = Inr [0, 1, 1, 0]"
    by (simp add: aset_def numeral_eq_Suc)
  moreover have "get_n [[0], [1]] = 2" by (simp add: get_n_def get_node_sz_def)
  ultimately have "custom_affinity fresh 0 ex_cm [[0], [1]] [(0, 1)] ex_aff 1 = Inr ([1, 0], 2923257603)"
    using ex_alloc by (simp add: custom_affinity_def ex_inverse del: diff_matrix.simps alloc_copies.simps)
  then show ?thesis using ex_alloc_cm by (simp add: core_of_def ex_cm_def)
qed

theorem find_color_diff_correct_witness:
  "\<exists>r st'. find_color_diff (-1) 0 (cpu ex_cm) ex_mc [0, 1, 1, 0] [1, -1] 2 [1] = Inr (r, st') \<and>
    (r = -1 \<and> (\<forall>j < 2. \<not> fits (cpu ex_cm) ex_mc [0, 1, 1, 0] [1, -1] 2 [1] j) \<or>
     (\<exists>j < 2. r = int j \<and> fits (cpu ex_cm) ex_mc [0, 1, 1, 0] [1, -1] 2 [1] j))"
  using find_color_diff_correct [of ex_mc "cpu ex_cm" "[0, 1, 1, 0]" "[1, -1]" 2 "[1]" "-1" 0]
  by (simp add: search_inv_def accesses_ok_def ex_mc_def ex_cm_def)

theorem find_one_proc_correct_witness:
  "(\<exists>j < 2. \<exists>st'. find_one_proc (-1) 0 (cpu ex_cm) ex_mc [0, 1, 1, 0] [1, -1] 2 1 = Inr (int j, st') \<and>
      has_proc ex_mc j \<and> (apart (cpu ex_cm) [0, 1, 1, 0] [1, -1] 2 (int j) 1 \<or>
        (\<forall>i < 2. has_proc ex_mc i \<longrightarrow> \<not> apart (cpu ex_cm) [0, 1, 1, 0] [1, -1] 2 (int i) 1)))"
proof -
  have "has_proc ex_mc 0" "search_inv ex_mc" "ncores ex_mc = 2"
    by (simp_all add: has_proc_def search_inv_def ex_mc_def)
  moreover have "accesses_ok (cpu ex_cm) [0, 1, 1, 0] [1, -1] 2" by (simp add: accesses_ok_def ex_cm_def)
  ultimately show ?thesis
    using find_one_proc_correct [of ex_mc "cpu ex_cm" "[0, 1, 1, 0]" "[1, -1]" 2 1 "-1" 0]
    by (auto simp del: split_paired_Ex)
qed

theorem custom_affinity_allocates_witness:
  "\<exists>r st'. custom_affinity (\<lambda>_. 7) 5 ex_cm [[0, 1]] [] ex_aff 2 = Inr (r, st') \<and>
    length r = 4 \<and> distinct r \<and> set r \<subseteq> {0, 1, 2, 3}"
proof -
  have "mset (concat [[0, 1]]) = mset [0..<2]" by (simp add: numeral_2_eq_2)
  then show ?thesis
    using custom_affinity_allocates [of ex_aff ex_cm "[[0, 1]]" 2 "[]" 2 "\<lambda>_. 7" 5]
    by (simp add: in_map_def ex_aff_def ex_cm_def get_ncores_def)
qed

end
