(* ===== verification/Sense.thy ===== *)
theory Sense
  imports Litmus_Base
begin

section \<open>The sense-reversing barrier, abstractly\<close>

text \<open>
  All the \<^verbatim>\<open>_*/barrier.c\<close> files implement one algorithm on the struct \<open>sense_t\<close>: a thread reads
  the sense, decrements the counter atomically; the last one resets the counter and reverses the
  sense, the others spin until the sense differs from the one they read.  This theory states the
  algorithm as a step relation in which every access to the shared struct is one step, and proves
  what a barrier promises: no thread passes before all have arrived, and when all have arrived all
  pass.  \<open>Barriers\<close> has the code of the six architectures, instruction by instruction, and shows
  that each implements this relation.

  The memory is sequentially consistent here.  The code places a fence between any two of its shared
  accesses whose order matters.
\<close>

record sense_t =
  s_c :: u32
  s_sense :: u32
  s_n :: u32

definition barrier_init :: "nat \<Rightarrow> sense_t" where
  "barrier_init n = \<lparr>s_c = of_nat n, s_sense = 0, s_n = of_nat n\<rparr>"

text \<open>
  The local state of a thread, with the sense it read: outside; before the decrement; waiting; last
  one, before the counter is reset; last one, before the sense is reversed.
\<close>

datatype apc = Out | Dec u32 | Spin u32 | Reset u32 | Flip u32

text \<open>
  The numbers of barriers entered and left by each thread and the number of reversals are ghosts.
\<close>

record astate =
  mem :: sense_t
  pc :: "nat \<Rightarrow> apc"
  entered :: "nat \<Rightarrow> nat"
  left :: "nat \<Rightarrow> nat"
  rounds :: nat

definition ainit :: "nat \<Rightarrow> astate" where
  "ainit N = \<lparr>mem = barrier_init N, pc = \<lambda>_. Out, entered = \<lambda>_. 0, left = \<lambda>_. 0, rounds = 0\<rparr>"

definition move :: "nat \<Rightarrow> apc \<Rightarrow> astate \<Rightarrow> astate" where
  "move t p s = s\<lparr>pc := (pc s)(t := p)\<rparr>"

definition set_mem :: "sense_t \<Rightarrow> astate \<Rightarrow> astate" where
  "set_mem m s = s\<lparr>mem := m\<rparr>"

definition enter :: "nat \<Rightarrow> astate \<Rightarrow> astate" where
  "enter t s = s\<lparr>entered := (entered s)(t := entered s t + 1)\<rparr>"

definition leave :: "nat \<Rightarrow> astate \<Rightarrow> astate" where
  "leave t s = s\<lparr>left := (left s)(t := left s t + 1)\<rparr>"

lemmas updates = move_def set_mem_def enter_def leave_def

text \<open>
  The steps of thread \<open>t\<close>.  How the sense is reversed (\<open>flip\<close>) and how the last thread is
  recognised (\<open>islast\<close>) depend on the architecture.  \<open>arrive\<close> is the step that enters.
\<close>

inductive arrive :: "nat \<Rightarrow> nat \<Rightarrow> astate \<Rightarrow> astate \<Rightarrow> bool" for N where
  "t < N \<Longrightarrow> pc s t = Out \<Longrightarrow> arrive N t s (enter t (move t (Dec (s_sense (mem s))) s))"

inductive astep :: "(u32 \<Rightarrow> u32) \<Rightarrow> (u32 \<Rightarrow> bool) \<Rightarrow> nat \<Rightarrow> nat \<Rightarrow> astate \<Rightarrow> astate \<Rightarrow> bool"
  for flip islast N where
  decr: "t < N \<Longrightarrow> pc s t = Dec ms \<Longrightarrow> r = s_c (mem s) - 1 \<Longrightarrow>
    astep flip islast N t s (move t (if islast r then Reset ms else Spin ms) (set_mem ((mem s)\<lparr>s_c := r\<rparr>) s))"
| reset: "t < N \<Longrightarrow> pc s t = Reset ms \<Longrightarrow>
    astep flip islast N t s (move t (Flip ms) (set_mem ((mem s)\<lparr>s_c := s_n (mem s)\<rparr>) s))"
| reverse: "t < N \<Longrightarrow> pc s t = Flip ms \<Longrightarrow>
    astep flip islast N t s
      (leave t (move t Out (set_mem ((mem s)\<lparr>s_sense := flip ms\<rparr>) s))\<lparr>rounds := rounds s + 1\<rparr>)"
| pass: "t < N \<Longrightarrow> pc s t = Spin ms \<Longrightarrow> s_sense (mem s) \<noteq> ms \<Longrightarrow>
    astep flip islast N t s (leave t (move t Out s))"

inductive_cases astep_cases: "astep flip islast N t s s'"
inductive_cases arrive_cases: "arrive N t s s'"

definition any_step :: "(u32 \<Rightarrow> u32) \<Rightarrow> (u32 \<Rightarrow> bool) \<Rightarrow> nat \<Rightarrow> astate \<Rightarrow> astate \<Rightarrow> bool" where
  "any_step flip islast N s s' \<longleftrightarrow> (\<exists>t. arrive N t s s' \<or> astep flip islast N t s s')"

definition areach :: "(u32 \<Rightarrow> u32) \<Rightarrow> (u32 \<Rightarrow> bool) \<Rightarrow> nat \<Rightarrow> astate \<Rightarrow> bool" where
  "areach flip islast N s \<longleftrightarrow> (any_step flip islast N)\<^sup>*\<^sup>* (ainit N) s"

subsection \<open>The contract of the parameters\<close>

definition sense_ok :: "(u32 \<Rightarrow> u32) \<Rightarrow> (u32 \<Rightarrow> bool) \<Rightarrow> nat \<Rightarrow> bool" where
  "sense_ok flip islast N \<longleftrightarrow>
     flip 0 \<noteq> 0 \<and> flip (flip 0) = 0 \<and> (\<forall>r. unat r < 2 ^ 31 \<longrightarrow> islast r = (r = 0)) \<and> 0 < N \<and> N < 2 ^ 31"

locale sense_barrier =
  fixes flip :: "u32 \<Rightarrow> u32" and islast :: "u32 \<Rightarrow> bool" and N :: nat
  assumes flip_ne: "flip 0 \<noteq> 0" and flip_flip: "flip (flip 0) = 0"
    and last_iff: "unat r < 2 ^ 31 \<Longrightarrow> islast r \<longleftrightarrow> r = 0"
    and pos: "0 < N" and bound: "N < 2 ^ 31"

lemma sense_barrier_iff: "sense_barrier flip islast N \<longleftrightarrow> sense_ok flip islast N"
  by (auto simp: sense_barrier_def sense_ok_def)

text \<open>The number of threads is any from 1 to \<open>2^31 - 1\<close>.\<close>

definition nthreads :: "nat \<Rightarrow> nat" where "nthreads k = 1 + k mod (2 ^ 31 - 1)"

lemma nthreads_range: "0 < nthreads k \<and> nthreads k < 2 ^ 31"
proof -
  have "k mod (2 ^ 31 - 1) < 2 ^ 31 - 1" by (rule mod_less_divisor) simp
  then show ?thesis by (simp add: nthreads_def)
qed

lemma nthreads_any: "0 < N \<Longrightarrow> N < 2 ^ 31 \<Longrightarrow> nthreads (N - 1) = N"
  by (simp add: nthreads_def)

text \<open>The threads that have decremented the counter in the current round.\<close>

definition arrived :: "nat \<Rightarrow> astate \<Rightarrow> nat set" where
  "arrived N s = {t. t < N \<and> left s t = rounds s \<and> (\<forall>ms. pc s t \<noteq> Dec ms) \<and> pc s t \<noteq> Out}"

text \<open>When thread \<open>t\<close> is the last one, all the others wait for it.\<close>

definition alone :: "nat \<Rightarrow> astate \<Rightarrow> nat \<Rightarrow> bool" where
  "alone N s t \<longleftrightarrow> left s t = rounds s \<and>
     (\<forall>u < N. u \<noteq> t \<longrightarrow> left s u = rounds s \<and> pc s u = Spin (s_sense (mem s)))"

fun local_ok :: "(u32 \<Rightarrow> u32) \<Rightarrow> nat \<Rightarrow> astate \<Rightarrow> nat \<Rightarrow> apc \<Rightarrow> bool" where
  "local_ok flip N s t Out \<longleftrightarrow> left s t = rounds s"
| "local_ok flip N s t (Dec ms) \<longleftrightarrow> left s t = rounds s \<and> ms = s_sense (mem s)"
| "local_ok flip N s t (Spin ms) \<longleftrightarrow>
     left s t = rounds s \<and> ms = s_sense (mem s) \<or> left s t + 1 = rounds s \<and> ms \<noteq> s_sense (mem s)"
| "local_ok flip N s t (Reset ms) \<longleftrightarrow> alone N s t \<and> ms = s_sense (mem s) \<and> s_c (mem s) = 0"
| "local_ok flip N s t (Flip ms) \<longleftrightarrow> alone N s t \<and> ms = s_sense (mem s) \<and> s_c (mem s) = s_n (mem s)"

definition ainv :: "(u32 \<Rightarrow> u32) \<Rightarrow> nat \<Rightarrow> astate \<Rightarrow> bool" where
  "ainv flip N s \<longleftrightarrow>
     s_n (mem s) = of_nat N \<and> s_sense (mem s) \<in> {0, flip 0} \<and>
     (\<forall>t < N. local_ok flip N s t (pc s t)) \<and>
     (\<forall>t < N. entered s t = left s t + (if pc s t = Out then 0 else 1)) \<and>
     ((\<forall>t < N. \<forall>ms. pc s t \<noteq> Flip ms) \<longrightarrow> unat (s_c (mem s)) + card (arrived N s) = N) \<and>
     ((\<forall>t < N. \<forall>ms. pc s t \<noteq> Reset ms) \<longrightarrow> s_c (mem s) \<noteq> 0)"

lemma finite_arrived [simp]: "finite (arrived N s)"
  by (simp add: arrived_def)

lemma arrived_sub: "arrived N s \<subseteq> {..<N}"
  by (auto simp: arrived_def)


subsection \<open>The steps other than entering cannot go on for ever\<close>

fun work :: "apc \<Rightarrow> nat" where
  "work Out = 0"
| "work (Spin ms) = 1"
| "work (Flip ms) = 2"
| "work (Reset ms) = 3"
| "work (Dec ms) = 4"

definition potential :: "nat \<Rightarrow> astate \<Rightarrow> nat" where
  "potential N s = (\<Sum>t < N. work (pc s t))"

lemma potential_move:
  assumes "t < N" and "work p < work (pc s t)" and "pc s' = (pc s)(t := p)"
  shows "potential N s' < potential N s"
proof -
  have "(\<Sum>u < N. work (pc s' u)) < (\<Sum>u < N. work (pc s u))"
    using assms by (intro sum_strict_mono_ex1) (auto intro: bexI [of _ t])
  then show ?thesis by (simp add: potential_def)
qed

lemma astep_potential: "astep flip islast N t s s' \<Longrightarrow> potential N s' < potential N s"
proof (induction rule: astep.cases)
  case (decr t s ms r)
  then show ?case by (intro potential_move [where p = "pc s' t"]) (auto simp: updates)
qed (rule potential_move, auto simp: updates)+

lemma potential_le: "potential N s \<le> 4 * N"
proof -
  have "work p \<le> 4" for p by (cases p) auto
  then have "(\<Sum>t < N. work (pc s t)) \<le> of_nat (card {..<N}) * 4" by (intro sum_bounded_above) simp
  then show ?thesis by (simp add: potential_def mult.commute)
qed

lemma astep_bound: "((\<lambda>s s'. \<exists>t. astep flip islast N t s s') ^^ k) s s' \<Longrightarrow> k \<le> 4 * N"
proof -
  have "k + potential N s' \<le> potential N s"
    if "((\<lambda>s s'. \<exists>t. astep flip islast N t s s') ^^ k) s s'" for k s'
    using that
  proof (induction k arbitrary: s')
    case (Suc k)
    then obtain s1 t where "k + potential N s1 \<le> potential N s" "astep flip islast N t s1 s'" by auto
    then show ?case using astep_potential by fastforce
  qed simp
  then show "((\<lambda>s s'. \<exists>t. astep flip islast N t s s') ^^ k) s s' \<Longrightarrow> k \<le> 4 * N"
    using potential_le [of N s] by fastforce
qed

lemma astep_entered: "astep flip islast N t s s' \<Longrightarrow> entered s' = entered s"
  by (auto elim!: astep_cases simp: updates)

subsection \<open>The invariant holds\<close>

context sense_barrier
begin

lemma ainvD:
  assumes "ainv flip N s"
  shows "s_n (mem s) = of_nat N" "s_sense (mem s) \<in> {0, flip 0}"
    "t < N \<Longrightarrow> local_ok flip N s t (pc s t)"
    "t < N \<Longrightarrow> entered s t = left s t + (if pc s t = Out then 0 else 1)"
    "\<forall>t < N. \<forall>ms. pc s t \<noteq> Flip ms \<Longrightarrow> unat (s_c (mem s)) + card (arrived N s) = N"
    "\<forall>t < N. \<forall>ms. pc s t \<noteq> Reset ms \<Longrightarrow> s_c (mem s) \<noteq> 0"
  using assms by (auto simp: ainv_def)

lemma ainvI:
  assumes "s_n (mem s) = of_nat N" and "s_sense (mem s) \<in> {0, flip 0}"
    and "\<And>t. t < N \<Longrightarrow> local_ok flip N s t (pc s t)"
    and "\<And>t. t < N \<Longrightarrow> entered s t = left s t + (if pc s t = Out then 0 else 1)"
    and "\<forall>t < N. \<forall>ms. pc s t \<noteq> Flip ms \<Longrightarrow> unat (s_c (mem s)) + card (arrived N s) = N"
    and "\<forall>t < N. \<forall>ms. pc s t \<noteq> Reset ms \<Longrightarrow> s_c (mem s) \<noteq> 0"
  shows "ainv flip N s"
  using assms by (auto simp: ainv_def)

lemma ainv_init: "ainv flip N (ainit N)"
proof -
  have "unat (of_nat N :: u32) = N" using bound by (simp add: unat_of_nat take_bit_nat_eq_self)
  then show ?thesis using pos by (auto simp: ainv_def ainit_def barrier_init_def arrived_def)
qed

text \<open>No other thread is outside, or before its decrement, when one is alone.\<close>

lemma alone_others: "alone N s u \<Longrightarrow> t < N \<Longrightarrow> t \<noteq> u \<Longrightarrow> pc s t = Spin (s_sense (mem s)) \<and> left s t = rounds s"
  by (simp add: alone_def)

lemma local_alone:
  assumes "ainv flip N s" and "u < N" and "pc s u = Reset ms \<or> pc s u = Flip ms"
  shows "alone N s u"
  using ainvD(3) [OF assms(1,2)] assms(3) by auto

lemma ainv_arrive:
  assumes inv: "ainv flip N s" and "arrive N t s s'"
  shows "ainv flip N s'"
proof -
  from assms(2) have t: "t < N" "pc s t = Out" and s': "s' = enter t (move t (Dec (s_sense (mem s))) s)"
    by (auto elim: arrive_cases)
  have "left s t = rounds s" using ainvD(3) [OF inv t(1)] t(2) by simp
  have busy: "pc s u \<noteq> Reset ms" "pc s u \<noteq> Flip ms" if "u < N" for u ms
    using local_alone [OF inv that] alone_others [of s u t] t by (cases "u = t"; force)+
  have arr: "arrived N s' = arrived N s" by (auto simp: arrived_def s' t updates)
  show ?thesis
  proof (rule ainvI)
    fix u assume u: "u < N"
    show "local_ok flip N s' u (pc s' u)"
      using ainvD(3) [OF inv u] busy [OF u] \<open>left s t = rounds s\<close>
      by (cases "u = t"; cases "pc s u") (auto simp: s' updates)
    show "entered s' u = left s' u + (if pc s' u = Out then 0 else 1)"
      using ainvD(4) [OF inv u] t by (auto simp: s' updates)
  next
    show "unat (s_c (mem s')) + card (arrived N s') = N"
      using ainvD(5) [OF inv] busy by (simp add: arr) (simp add: s' updates)
    show "s_c (mem s') \<noteq> 0" using ainvD(6) [OF inv] busy by (simp add: s' updates)
  qed (use ainvD(1,2) [OF inv] in \<open>simp_all add: s' updates\<close>)
qed

lemma spinning: "ainv flip N s \<Longrightarrow> t < N \<Longrightarrow> t \<notin> arrived N s \<Longrightarrow> pc s t = Spin ms \<Longrightarrow> left s t + 1 = rounds s"
  using ainvD(3) [of s t] by (auto simp: arrived_def)

lemma ainv_decr:
  assumes inv: "ainv flip N s" and t: "t < N" "pc s t = Dec ms"
    and s': "s' = move t (if islast (s_c (mem s) - 1) then Reset ms else Spin ms)
      (set_mem ((mem s)\<lparr>s_c := s_c (mem s) - 1\<rparr>) s)"
  shows "ainv flip N s'"
proof -
  let ?r = "s_c (mem s) - 1"
  have tms: "left s t = rounds s" "ms = s_sense (mem s)" using ainvD(3) [OF inv t(1)] t(2) by simp_all
  have busy: "pc s u \<noteq> Reset ms" "pc s u \<noteq> Flip ms" if "u < N" for u ms
    using local_alone [OF inv that] alone_others [of s u t] t by (cases "u = t"; force)+
  have arr: "arrived N s' = insert t (arrived N s)" "t \<notin> arrived N s"
    using t tms by (auto simp: arrived_def s' updates)
  have count: "unat (s_c (mem s)) + card (arrived N s) = N" and "s_c (mem s) \<noteq> 0"
    using ainvD(5,6) [OF inv] busy by blast+
  then have r: "Suc (unat ?r) = unat (s_c (mem s))"
    by (simp add: unat_minus_one unat_gt_0)
  then have "unat ?r < 2 ^ 31" using count bound by simp
  then have last: "islast ?r \<longleftrightarrow> ?r = 0" by (rule last_iff)
  have full: "alone N s t" if "?r = 0"
  proof -
    have "card (arrived N s') = Suc (card (arrived N s))" using arr by simp
    moreover have "unat ?r = 0" unfolding that by simp
    ultimately have "card (arrived N s') = N" using count r by linarith
    then have all: "arrived N s' = {..<N}"
      using arrived_sub [of N s'] by (metis card_lessThan card_subset_eq finite_lessThan)
    have "left s u = rounds s \<and> pc s u = Spin (s_sense (mem s))" if u: "u < N" "u \<noteq> t" for u
    proof -
      have "u \<in> arrived N s" using all arr u by auto
      then show ?thesis using ainvD(3) [OF inv u(1)] busy [OF u(1)]
        by (cases "pc s u") (auto simp: arrived_def)
    qed
    then show ?thesis using tms by (simp add: alone_def)
  qed
  show ?thesis
  proof (rule ainvI)
    fix u assume u: "u < N"
    show "local_ok flip N s' u (pc s' u)"
    proof (cases "u = t")
      case True
      then show ?thesis using full tms last by (auto simp: s' updates alone_def)
    next
      case False
      then show ?thesis using ainvD(3) [OF inv u] busy [OF u] by (cases "pc s u") (auto simp: s' updates)
    qed
    show "entered s' u = left s' u + (if pc s' u = Out then 0 else 1)"
      using ainvD(4) [OF inv u] t by (auto simp: s' updates)
  next
    have "card (arrived N s') = Suc (card (arrived N s))" using arr by simp
    moreover have c': "s_c (mem s') = ?r" by (simp add: s' updates)
    ultimately show "unat (s_c (mem s')) + card (arrived N s') = N" unfolding c' using count r by linarith
    assume "\<forall>u < N. \<forall>ms. pc s' u \<noteq> Reset ms"
    then have "\<not> islast ?r" using t by (auto simp: s' updates)
    then show "s_c (mem s') \<noteq> 0" using last by (simp add: s' updates)
  qed (use ainvD(1,2) [OF inv] in \<open>simp_all add: s' updates\<close>)
qed

lemma ainv_reset:
  assumes inv: "ainv flip N s" and t: "t < N" "pc s t = Reset ms"
    and s': "s' = move t (Flip ms) (set_mem ((mem s)\<lparr>s_c := s_n (mem s)\<rparr>) s)"
  shows "ainv flip N s'"
proof -
  have al: "alone N s t" "ms = s_sense (mem s)" using ainvD(3) [OF inv t(1)] t(2) by simp_all
  have "unat (of_nat N :: u32) = N" using bound by (simp add: unat_of_nat take_bit_nat_eq_self)
  then have N: "(of_nat N :: u32) \<noteq> 0" using pos by auto
  show ?thesis
  proof (rule ainvI)
    fix u assume u: "u < N"
    show "local_ok flip N s' u (pc s' u)"
    proof (cases "u = t")
      case True
      then show ?thesis using al by (auto simp: s' updates alone_def)
    next
      case False
      then show ?thesis using alone_others [OF al(1) u] by (simp add: s' updates)
    qed
    show "entered s' u = left s' u + (if pc s' u = Out then 0 else 1)"
      using ainvD(4) [OF inv u] t by (auto simp: s' updates)
  next
    assume "\<forall>u < N. \<forall>ms. pc s' u \<noteq> Flip ms"
    then show "unat (s_c (mem s')) + card (arrived N s') = N" using t by (auto simp: s' updates)
  qed (use ainvD(1,2) [OF inv] N in \<open>simp_all add: s' updates\<close>)
qed

lemma flip_sense: "x \<in> {0, flip 0} \<Longrightarrow> flip x \<in> {0, flip 0} \<and> flip x \<noteq> x"
  using flip_ne flip_flip by auto

lemma ainv_reverse:
  assumes inv: "ainv flip N s" and t: "t < N" "pc s t = Flip ms"
    and s': "s' = leave t (move t Out (set_mem ((mem s)\<lparr>s_sense := flip ms\<rparr>) s))\<lparr>rounds := rounds s + 1\<rparr>"
  shows "ainv flip N s'"
proof -
  have al: "alone N s t" "ms = s_sense (mem s)" "s_c (mem s) = s_n (mem s)" "left s t = rounds s"
    using ainvD(3) [OF inv t(1)] t(2) by (simp_all add: alone_def)
  have N: "unat (of_nat N :: u32) = N" using bound by (simp add: unat_of_nat take_bit_nat_eq_self)
  have n: "s_n (mem s) = of_nat N" using ainvD(1) [OF inv] .
  have others: "left s u = rounds s" "pc s u = Spin (s_sense (mem s))" if "u < N" "u \<noteq> t" for u
    using alone_others [OF al(1) that] by auto
  have arr: "arrived N s' = {}" using others by (auto simp: arrived_def s' updates)
  have flip: "flip ms \<in> {0, flip 0}" "flip ms \<noteq> s_sense (mem s)"
    using flip_sense ainvD(2) [OF inv] al(2) by blast+
  show ?thesis
  proof (rule ainvI)
    fix u assume u: "u < N"
    show "local_ok flip N s' u (pc s' u)"
      using others [OF u] al(4) flip(2) by (cases "u = t") (auto simp: s' updates)
    show "entered s' u = left s' u + (if pc s' u = Out then 0 else 1)"
      using ainvD(4) [OF inv u] t by (auto simp: s' updates)
  next
    show "unat (s_c (mem s')) + card (arrived N s') = N" using n N al(3) by (simp add: arr) (simp add: s' updates)
    show "s_c (mem s') \<noteq> 0" using n N al(3) pos by (auto simp: s' updates)
  qed (use n flip(1) in \<open>simp_all add: s' updates\<close>)
qed

lemma ainv_pass:
  assumes inv: "ainv flip N s" and t: "t < N" "pc s t = Spin ms" "s_sense (mem s) \<noteq> ms"
    and s': "s' = leave t (move t Out s)"
  shows "ainv flip N s'"
proof -
  have tl: "left s t + 1 = rounds s" using ainvD(3) [OF inv t(1)] t(2,3) by auto
  have busy: "pc s u \<noteq> Reset ms" "pc s u \<noteq> Flip ms" if "u < N" for u ms
    using local_alone [OF inv that] alone_others [of s u t] t tl by (cases "u = t"; force)+
  have arr: "arrived N s' = arrived N s" using tl t by (auto simp: arrived_def s' updates)
  show ?thesis
  proof (rule ainvI)
    fix u assume u: "u < N"
    show "local_ok flip N s' u (pc s' u)"
      using ainvD(3) [OF inv u] busy [OF u] tl by (cases "u = t"; cases "pc s u") (auto simp: s' updates)
    show "entered s' u = left s' u + (if pc s' u = Out then 0 else 1)"
      using ainvD(4) [OF inv u] t by (auto simp: s' updates)
  next
    show "unat (s_c (mem s')) + card (arrived N s') = N"
      using ainvD(5) [OF inv] busy by (simp add: arr) (simp add: s' updates)
    show "s_c (mem s') \<noteq> 0" using ainvD(6) [OF inv] busy by (simp add: s' updates)
  qed (use ainvD(1,2) [OF inv] in \<open>simp_all add: s' updates\<close>)
qed

lemma ainv_step: "ainv flip N s \<Longrightarrow> any_step flip islast N s s' \<Longrightarrow> ainv flip N s'"
  unfolding any_step_def
  by (auto elim!: astep_cases dest: ainv_arrive intro: ainv_decr ainv_reset ainv_reverse ainv_pass)

lemma ainv_reach: "areach flip islast N s \<Longrightarrow> ainv flip N s"
  unfolding areach_def by (induction rule: rtranclp_induct) (auto intro: ainv_init ainv_step)

text \<open>No thread leaves a barrier that another one has not entered.\<close>

lemma inv_no_early:
  assumes "ainv flip N s" and "t < N" and "u < N"
  shows "left s t \<le> entered s u"
proof -
  have "left s t \<le> rounds s"
    using ainvD(3) [OF assms(1,2)] by (cases "pc s t") (auto simp: alone_def)
  moreover have "rounds s \<le> entered s u"
    using ainvD(3) [OF assms(1,3)] ainvD(4) [OF assms(1,3)] by (cases "pc s u") (auto simp: alone_def)
  ultimately show ?thesis by simp
qed

text \<open>The threads never all wait.\<close>

lemma inv_no_deadlock:
  assumes "ainv flip N s"
  obtains t where "t < N" "pc s t \<noteq> Spin (s_sense (mem s))"
proof (rule ccontr)
  assume "\<not> thesis"
  then have all: "\<forall>t < N. pc s t = Spin (s_sense (mem s))" using that by blast
  then have "arrived N s = {..<N}" using ainvD(3) [OF assms] by (auto simp: arrived_def)
  moreover have "unat (s_c (mem s)) + card (arrived N s) = N" "s_c (mem s) \<noteq> 0"
    using ainvD(5,6) [OF assms] all by auto
  ultimately show False by (simp add: unat_eq_zero)
qed

text \<open>
  When all threads have entered the same number of barriers, some thread can make a step other than
  entering, until all have left.
\<close>

lemma progress:
  assumes inv: "ainv flip N s" and m: "\<forall>t < N. entered s t = m" and t: "t < N" "left s t \<noteq> m"
  shows "\<exists>u s'. astep flip islast N u s s'"
proof (rule ccontr)
  assume stuck: "\<nexists>u s'. astep flip islast N u s s'"
  have waits: "pc s u = Out \<or> pc s u = Spin (s_sense (mem s))" if "u < N" for u
    using stuck that astep.intros [where N = N and flip = flip and islast = islast and s = s]
    by (cases "pc s u") metis+
  have "pc s t \<noteq> Out" using ainvD(4) [OF inv t(1)] m t by auto
  then have "pc s t = Spin (s_sense (mem s))" using waits t(1) by blast
  then have "left s t = rounds s" "m = rounds s + 1"
    using ainvD(3,4) [OF inv t(1)] m t(1) by auto
  then have "pc s u = Spin (s_sense (mem s))" if "u < N" for u
    using waits [OF that] ainvD(3,4) [OF inv that] m that by auto
  then show False using inv_no_deadlock [OF inv] by metis
qed

lemma completes:
  assumes "ainv flip N s" and "\<forall>t < N. entered s t = m"
  shows "\<exists>s'. (\<lambda>s s'. \<exists>t. astep flip islast N t s s')\<^sup>*\<^sup>* s s' \<and>
    (\<forall>t < N. left s' t = m \<and> entered s' t = m \<and> pc s' t = Out)"
  using assms
proof (induction "potential N s" arbitrary: s rule: less_induct)
  case less
  show ?case
  proof (cases "\<forall>t < N. left s t = m")
    case True
    then have "pc s t = Out" if "t < N" for t
      using ainvD(4) [OF less.prems(1) that] less.prems(2) that by (auto split: if_splits)
    then show ?thesis using True less.prems(2) by blast
  next
    case False
    then obtain u s1 where s1: "astep flip islast N u s s1"
      using progress [OF less.prems] by blast
    have "ainv flip N s1" using less.prems(1) s1 ainv_step by (auto simp: any_step_def)
    moreover have "\<forall>t < N. entered s1 t = m" using less.prems(2) astep_entered [OF s1] by simp
    ultimately obtain s' where "(\<lambda>s s'. \<exists>t. astep flip islast N t s s')\<^sup>*\<^sup>* s1 s'"
        "\<forall>t < N. left s' t = m \<and> entered s' t = m \<and> pc s' t = Out"
      using less.hyps [OF astep_potential [OF s1]] by blast
    moreover have "(\<lambda>s s'. \<exists>t. astep flip islast N t s s') s s1" using s1 by blast
    ultimately show ?thesis
      using converse_rtranclp_into_rtranclp [of "\<lambda>s s'. \<exists>t. astep flip islast N t s s'" s s1 s'] by blast
  qed
qed

end

text \<open>
  Safety of the barrier: in every reachable state, the number of barriers left by a thread does
  not exceed the number entered by any thread, and \<open>entered\<close> is at most one ahead.
\<close>

theorem barrier_safe:
  assumes "sense_ok flip islast N" and "areach flip islast N s" and "t < N" and "u < N"
  shows "left s t \<le> entered s u \<and> entered s u \<le> left s u + 1"
proof -
  have loc: "sense_barrier flip islast N" using assms(1) by (simp add: sense_barrier_iff)
  have inv: "ainv flip N s" using assms(2) by (rule sense_barrier.ainv_reach [OF loc])
  show ?thesis
    using sense_barrier.inv_no_early [OF loc inv assms(3,4)] sense_barrier.ainvD(4) [OF loc inv assms(4)]
    by simp
qed

text \<open>
  The barrier opens: once all threads have entered it, the steps that remain (at most
  \<open>4 N\<close> in any order) take all of them out, and no thread is stuck on the way.
\<close>

theorem barrier_opens:
  assumes "sense_ok flip islast N" and "areach flip islast N s" and "\<forall>t < N. entered s t = m"
  shows "(\<exists>s'. (\<lambda>s s'. \<exists>t. astep flip islast N t s s')\<^sup>*\<^sup>* s s' \<and>
      (\<forall>t < N. left s' t = m \<and> entered s' t = m \<and> pc s' t = Out)) \<and>
    (\<forall>k s'. ((\<lambda>s s'. \<exists>t. astep flip islast N t s s') ^^ k) s s' \<longrightarrow> k \<le> 4 * N) \<and>
    ((\<exists>t < N. left s t \<noteq> m) \<longrightarrow> (\<exists>u s'. astep flip islast N u s s'))"
proof -
  have loc: "sense_barrier flip islast N" using assms(1) by (simp add: sense_barrier_iff)
  have inv: "ainv flip N s" using assms(2) by (rule sense_barrier.ainv_reach [OF loc])
  show ?thesis
    using sense_barrier.completes [OF loc inv assms(3)] sense_barrier.progress [OF loc inv assms(3)]
      astep_bound [where s = s and N = N] by blast
qed

text \<open>Two threads, both in their first barrier.\<close>

definition ex_both :: astate where
  "ex_both = enter 1 (move 1 (Dec 0) (enter 0 (move 0 (Dec 0) (ainit 2))))"

lemma ex_sense_ok: "sense_ok (\<lambda>s. 1 - s) (\<lambda>r. r = 0) 2"
  by (simp add: sense_ok_def)

lemma ex_both_reach: "areach flip islast 2 ex_both"
proof -
  let ?s1 = "enter 0 (move 0 (Dec 0) (ainit 2))"
  have "arrive 2 0 (ainit 2) ?s1"
    using arrive.intros [of 0 2 "ainit 2"] by (simp add: ainit_def barrier_init_def)
  moreover have "arrive 2 1 ?s1 ex_both"
    using arrive.intros [of 1 2 ?s1] by (simp add: ainit_def barrier_init_def ex_both_def updates)
  ultimately have "any_step flip islast 2 (ainit 2) ?s1" "any_step flip islast 2 ?s1 ex_both"
    by (auto simp: any_step_def)
  then show ?thesis unfolding areach_def by (meson rtranclp.rtrancl_into_rtrancl rtranclp.rtrancl_refl)
qed

theorem barrier_safe_witness: "left ex_both 0 \<le> entered ex_both 1 \<and> entered ex_both 1 \<le> left ex_both 1 + 1"
  using barrier_safe [OF ex_sense_ok ex_both_reach, of 0 1] by simp

theorem barrier_opens_witness:
  "\<exists>s'. (\<lambda>s s'. \<exists>t. astep (\<lambda>s. 1 - s) (\<lambda>r. r = 0) 2 t s s')\<^sup>*\<^sup>* ex_both s' \<and>
    left s' 0 = 1 \<and> left s' 1 = 1"
proof -
  have "\<forall>t < 2. entered ex_both t = 1"
    by (auto simp: ex_both_def ainit_def updates less_2_cases_iff)
  from barrier_opens [OF ex_sense_ok ex_both_reach this] show ?thesis by force
qed

end
