(* ===== verification/Barriers.thy ===== *)
theory Barriers
  imports Sense
begin

section \<open>The barriers of the architectures (\<^verbatim>\<open>_*/barrier.c\<close>)\<close>

text \<open>
  The six \<open>barrier_wait\<close> functions, instruction by instruction, on a small machine whose
  instructions are those the inline assembly uses.  A thread that calls \<open>barrier_wait\<close> runs the list
  of instructions of its architecture from index 0 to the end; branch targets are indices.  The
  threads interleave, each instruction is one step.  Load-linked sets a reservation, which is lost
  when another thread writes the counter; a store-conditional may also fail for no reason (the
  argument \<open>ok\<close>).  Fences do nothing, since the memory is sequentially consistent.

  Each program implements the abstract barrier of \<open>Sense\<close>: \<open>barrier_code\<close> is the interface, the
  annotation of a thread says where it is in the abstract barrier.
\<close>

subsection \<open>The machine\<close>

datatype reg = R1 | R2 | R3 | Ms | Np

datatype fld = FC | FS | FN

datatype status = InReg reg u32 u32 | InFlag

datatype cond = Always | Eq | Ne | Le | Zero reg | NonZero reg | Same reg reg

datatype instr =
    Mbar
  | Ld reg fld
  | St reg fld
  | LdX reg fld
  | StX status reg fld
  | Xadd reg fld
  | AddFetch reg fld u32
  | AddI reg reg u32
  | SubF reg u32
  | MovI reg u32
  | SubR reg reg reg
  | NotR reg reg
  | CmpI reg u32
  | CmpR reg reg
  | CmpM reg fld
  | SetE reg
  | Branch cond nat

record tstate =
  ip :: nat
  regs :: "reg \<Rightarrow> u32"
  flag_eq :: bool
  flag_le :: bool

fun get_fld :: "fld \<Rightarrow> sense_t \<Rightarrow> u32" where
  "get_fld FC m = s_c m"
| "get_fld FS m = s_sense m"
| "get_fld FN m = s_n m"

fun put_fld :: "fld \<Rightarrow> u32 \<Rightarrow> sense_t \<Rightarrow> sense_t" where
  "put_fld FC x m = m\<lparr>s_c := x\<rparr>"
| "put_fld FS x m = m\<lparr>s_sense := x\<rparr>"
| "put_fld FN x m = m\<lparr>s_n := x\<rparr>"

definition setr :: "reg \<Rightarrow> u32 \<Rightarrow> tstate \<Rightarrow> tstate" where
  "setr r x ts = ts\<lparr>regs := (regs ts)(r := x)\<rparr>"

definition advance :: "tstate \<Rightarrow> tstate" where
  "advance ts = ts\<lparr>ip := ip ts + 1\<rparr>"

definition set_flags :: "u32 \<Rightarrow> u32 \<Rightarrow> tstate \<Rightarrow> tstate" where
  "set_flags x y ts = ts\<lparr>flag_eq := x = y, flag_le := x <=s y\<rparr>"

fun set_status :: "status \<Rightarrow> bool \<Rightarrow> tstate \<Rightarrow> tstate" where
  "set_status (InReg r good bad) ok ts = setr r (if ok then good else bad) ts"
| "set_status InFlag ok ts = ts\<lparr>flag_eq := ok\<rparr>"

fun holds :: "cond \<Rightarrow> tstate \<Rightarrow> bool" where
  "holds Always ts = True"
| "holds Eq ts = flag_eq ts"
| "holds Ne ts = (\<not> flag_eq ts)"
| "holds Le ts = flag_le ts"
| "holds (Zero r) ts = (regs ts r = 0)"
| "holds (NonZero r) ts = (regs ts r \<noteq> 0)"
| "holds (Same r r') ts = (regs ts r = regs ts r')"

text \<open>
  One instruction: the new local state, the new memory and whether the thread has a reservation
  afterwards.
\<close>

fun exec :: "bool \<Rightarrow> instr \<Rightarrow> tstate \<times> sense_t \<times> bool \<Rightarrow> tstate \<times> sense_t \<times> bool" where
  "exec ok Mbar (ts, m, rv) = (advance ts, m, rv)"
| "exec ok (Ld r f) (ts, m, rv) = (advance (setr r (get_fld f m) ts), m, rv)"
| "exec ok (St r f) (ts, m, rv) = (advance ts, put_fld f (regs ts r) m, False)"
| "exec ok (LdX r f) (ts, m, rv) = (advance (setr r (get_fld f m) ts), m, True)"
| "exec ok (StX st r f) (ts, m, rv) =
     (if ok \<and> rv then (advance (set_status st True ts), put_fld f (regs ts r) m, False)
      else (advance (set_status st False ts), m, False))"
| "exec ok (Xadd r f) (ts, m, rv) =
     (advance (setr r (get_fld f m) ts), put_fld f (get_fld f m + regs ts r) m, False)"
| "exec ok (AddFetch r f x) (ts, m, rv) =
     (advance (setr r (get_fld f m + x) ts), put_fld f (get_fld f m + x) m, False)"
| "exec ok (AddI r r' x) (ts, m, rv) = (advance (setr r (regs ts r' + x) ts), m, rv)"
| "exec ok (SubF r x) (ts, m, rv) =
     (advance (setr r (regs ts r - x) (set_flags (regs ts r) x ts)), m, rv)"
| "exec ok (MovI r x) (ts, m, rv) = (advance (setr r x ts), m, rv)"
| "exec ok (SubR r r1 r2) (ts, m, rv) = (advance (setr r (regs ts r1 - regs ts r2) ts), m, rv)"
| "exec ok (NotR r r') (ts, m, rv) = (advance (setr r (NOT (regs ts r')) ts), m, rv)"
| "exec ok (CmpI r x) (ts, m, rv) = (advance (set_flags (regs ts r) x ts), m, rv)"
| "exec ok (CmpR r r') (ts, m, rv) = (advance (set_flags (regs ts r) (regs ts r') ts), m, rv)"
| "exec ok (CmpM r f) (ts, m, rv) = (advance (set_flags (get_fld f m) (regs ts r) ts), m, rv)"
| "exec ok (SetE r) (ts, m, rv) =
     (advance (setr r (regs ts r AND NOT 0xff OR (if flag_eq ts then 1 else 0)) ts), m, rv)"
| "exec ok (Branch b l) (ts, m, rv) = ((if holds b ts then ts\<lparr>ip := l\<rparr> else advance ts), m, rv)"

text \<open>The threads of the test: \<open>calls\<close> counts the calls of \<open>barrier_wait\<close> (a ghost).\<close>

record cstate =
  cmem :: sense_t
  threads :: "nat \<Rightarrow> tstate"
  resv :: "nat \<Rightarrow> bool"
  calls :: "nat \<Rightarrow> nat"

definition cinit :: "instr list \<Rightarrow> nat \<Rightarrow> (nat \<Rightarrow> tstate) \<Rightarrow> cstate" where
  "cinit prog N ts = \<lparr>cmem = barrier_init N, threads = \<lambda>t. ts t\<lparr>ip := length prog\<rparr>,
     resv = \<lambda>_. False, calls = \<lambda>_. 0\<rparr>"

definition run_instr :: "instr list \<Rightarrow> bool \<Rightarrow> nat \<Rightarrow> cstate \<Rightarrow> cstate" where
  "run_instr prog ok t s =
     (let (ts, m, rv) = exec ok (prog ! ip (threads s t)) (threads s t, cmem s, resv s t)
      in s\<lparr>cmem := m, threads := (threads s)(t := ts),
           resv := (\<lambda>u. if u = t then rv else resv s u \<and> s_c m = s_c (cmem s))\<rparr>)"

inductive cstep :: "instr list \<Rightarrow> nat \<Rightarrow> cstate \<Rightarrow> cstate \<Rightarrow> bool" for prog N where
  call: "t < N \<Longrightarrow> ip (threads s t) = length prog \<Longrightarrow> ip ts = 0 \<Longrightarrow>
    cstep prog N s (s\<lparr>threads := (threads s)(t := ts), calls := (calls s)(t := calls s t + 1)\<rparr>)"
| instr: "t < N \<Longrightarrow> ip (threads s t) < length prog \<Longrightarrow> cstep prog N s (run_instr prog ok t s)"

inductive_cases cstep_cases: "cstep prog N s s'"

definition creach :: "instr list \<Rightarrow> nat \<Rightarrow> cstate \<Rightarrow> bool" where
  "creach prog N s \<longleftrightarrow> (\<exists>ts. (cstep prog N)\<^sup>*\<^sup>* (cinit prog N ts) s)"

text \<open>The calls of \<open>barrier_wait\<close> that have returned.\<close>

definition returned :: "instr list \<Rightarrow> cstate \<Rightarrow> nat \<Rightarrow> nat" where
  "returned prog s t = (if ip (threads s t) = length prog then calls s t else calls s t - 1)"

subsection \<open>What a program must do to implement the barrier\<close>

datatype ann = Before | During apc | After

text \<open>One instruction against the steps of \<open>Sense\<close>: from annotation and memory to the same.\<close>

fun phase_step :: "(u32 \<Rightarrow> u32) \<Rightarrow> (u32 \<Rightarrow> bool) \<Rightarrow> ann \<Rightarrow> sense_t \<Rightarrow> ann \<Rightarrow> sense_t \<Rightarrow> bool" where
  "phase_step flip islast Before m a' m' \<longleftrightarrow>
     m' = m \<and> (a' = Before \<or> a' = During (Dec (s_sense m)))"
| "phase_step flip islast (During (Dec ms)) m a' m' \<longleftrightarrow>
     m' = m \<and> a' = During (Dec ms) \<or>
     m' = m\<lparr>s_c := s_c m - 1\<rparr> \<and> a' = During (if islast (s_c m - 1) then Reset ms else Spin ms)"
| "phase_step flip islast (During (Spin ms)) m a' m' \<longleftrightarrow>
     m' = m \<and> (a' = During (Spin ms) \<or> a' = After \<and> s_sense m \<noteq> ms)"
| "phase_step flip islast (During (Reset ms)) m a' m' \<longleftrightarrow>
     m' = m \<and> a' = During (Reset ms) \<or> m' = m\<lparr>s_c := s_n m\<rparr> \<and> a' = During (Flip ms)"
| "phase_step flip islast (During (Flip ms)) m a' m' \<longleftrightarrow>
     m' = m \<and> a' = During (Flip ms) \<or> m' = m\<lparr>s_sense := flip ms\<rparr> \<and> a' = After"
| "phase_step flip islast (During Out) m a' m' \<longleftrightarrow> False"
| "phase_step flip islast After m a' m' \<longleftrightarrow> m' = m \<and> a' = After"

locale barrier_code = sense_barrier +
  fixes prog :: "instr list"
    and ann :: "tstate \<Rightarrow> ann"
    and good :: "tstate \<Rightarrow> sense_t \<Rightarrow> bool \<Rightarrow> bool"
  assumes start: "ip ts = 0 \<Longrightarrow> ann ts = Before \<and> good ts m rv"
    and finish: "ip ts = length prog \<Longrightarrow> ann ts = After \<and> good ts m rv"
    and instr_ok: "ip ts < length prog \<Longrightarrow> good ts m rv \<Longrightarrow>
      exec ok (prog ! ip ts) (ts, m, rv) = (ts', m', rv') \<Longrightarrow>
      phase_step flip islast (ann ts) m (ann ts') m' \<and> good ts' m' rv' \<and> ip ts' \<le> length prog"
    and frame: "good ts m rv \<Longrightarrow> s_n m' = s_n m \<Longrightarrow>
      good ts m' (rv \<and> s_c m' = s_c m)"
begin

fun linked :: "ann \<Rightarrow> astate \<Rightarrow> nat \<Rightarrow> nat \<Rightarrow> bool" where
  "linked Before a t k \<longleftrightarrow> pc a t = Out \<and> entered a t + 1 = k \<and> left a t + 1 = k"
| "linked (During p) a t k \<longleftrightarrow> p \<noteq> Out \<and> pc a t = p \<and> entered a t = k \<and> left a t + 1 = k"
| "linked After a t k \<longleftrightarrow> pc a t = Out \<and> entered a t = k \<and> left a t = k"

definition sim :: "cstate \<Rightarrow> astate \<Rightarrow> bool" where
  "sim s a \<longleftrightarrow> cmem s = mem a \<and> (\<forall>t < N. linked (ann (threads s t)) a t (calls s t) \<and>
     good (threads s t) (cmem s) (resv s t) \<and> ip (threads s t) \<le> length prog)"

lemma phase_simulated:
  assumes "t < N" and "linked x a t k" and "phase_step flip islast x (mem a) x' m'"
  shows "\<exists>a'. (any_step flip islast N)\<^sup>*\<^sup>* a a' \<and> mem a' = m' \<and> linked x' a' t k \<and>
    (\<forall>u. u \<noteq> t \<longrightarrow> pc a' u = pc a u \<and> entered a' u = entered a u \<and> left a' u = left a u)"
proof -
  have stay: ?thesis if "x' = x" "m' = mem a" using that assms(2) by blast
  have one: ?thesis if "any_step flip islast N a a'" "mem a' = m'" "linked x' a' t k"
      "\<forall>u. u \<noteq> t \<longrightarrow> pc a' u = pc a u \<and> entered a' u = entered a u \<and> left a' u = left a u" for a'
    using that by blast
  have abstract: ?thesis if "astep flip islast N t a a'" "mem a' = m'" "linked x' a' t k"
      "\<forall>u. u \<noteq> t \<longrightarrow> pc a' u = pc a u \<and> entered a' u = entered a u \<and> left a' u = left a u" for a'
    using that one by (auto simp: any_step_def)
  show ?thesis
  proof (cases "x' = x \<and> m' = mem a")
    case False
    note moves = this
    show ?thesis
    proof (cases x)
      case Before
      have "arrive N t a (enter t (move t (Dec (s_sense (mem a))) a))"
        using assms Before by (intro arrive.intros) auto
      then show ?thesis using assms Before moves
        by (intro one [of "enter t (move t (Dec (s_sense (mem a))) a)"]) (auto simp: any_step_def updates)
    next
      case (During p)
      then have pc: "pc a t = p" using assms(2) by simp
      show ?thesis
      proof (cases p)
        case (Dec ms)
        show ?thesis
          using astep.decr [OF assms(1) pc [unfolded Dec] refl, of flip islast]
          by (rule abstract) (use assms During Dec moves in \<open>auto simp: updates\<close>)
      next
        case (Spin ms)
        have ne: "s_sense (mem a) \<noteq> ms" using assms(3) During Spin moves by auto
        show ?thesis
          using astep.pass [OF assms(1) pc [unfolded Spin] ne, of flip islast]
          by (rule abstract) (use assms During Spin moves in \<open>auto simp: updates\<close>)
      next
        case (Reset ms)
        show ?thesis
          using astep.reset [OF assms(1) pc [unfolded Reset], of flip islast]
          by (rule abstract) (use assms During Reset moves in \<open>auto simp: updates\<close>)
      next
        case (Flip ms)
        show ?thesis
          using astep.reverse [OF assms(1) pc [unfolded Flip], of flip islast]
          by (rule abstract) (use assms During Flip moves in \<open>auto simp: updates\<close>)
      qed (use assms During in simp)
    next
      case After
      then show ?thesis using assms moves by auto
    qed
  qed (use stay in blast)
qed

lemma phase_n: "phase_step flip islast x m x' m' \<Longrightarrow> s_n m' = s_n m"
  by (cases "(flip, islast, x, m, x', m')" rule: phase_step.cases) auto

lemma linked_other:
  "linked x a t k \<Longrightarrow> pc a' t = pc a t \<Longrightarrow> entered a' t = entered a t \<Longrightarrow> left a' t = left a t \<Longrightarrow> linked x a' t k"
  by (cases "(x, a, t, k)" rule: linked.cases) auto

lemma sim_step:
  assumes "sim s a" and "cstep prog N s s'"
  shows "\<exists>a'. (any_step flip islast N)\<^sup>*\<^sup>* a a' \<and> sim s' a'"
  using assms(2)
proof cases
  case (call t ts)
  have "ann (threads s t) = After" "ann ts = Before \<and> (\<forall>m rv. good ts m rv)"
    using finish [OF call(3)] start [OF call(4)] by auto
  then have "sim s' a" using assms(1) call unfolding sim_def by auto
  then show ?thesis by blast
next
  case (instr t ok)
  obtain ts m rv where ex: "exec ok (prog ! ip (threads s t)) (threads s t, cmem s, resv s t) = (ts, m, rv)"
    by (cases "exec ok (prog ! ip (threads s t)) (threads s t, cmem s, resv s t)") auto
  have mem: "cmem s = mem a" and local: "\<And>u. u < N \<Longrightarrow> linked (ann (threads s u)) a u (calls s u) \<and>
      good (threads s u) (cmem s) (resv s u) \<and> ip (threads s u) \<le> length prog"
    using assms(1) by (auto simp: sim_def)
  have ok: "phase_step flip islast (ann (threads s t)) (mem a) (ann ts) m" "good ts m rv" "ip ts \<le> length prog"
    using instr_ok [OF instr(3) _ ex] local [OF instr(2)] mem by auto
  obtain a' where a': "(any_step flip islast N)\<^sup>*\<^sup>* a a'" "mem a' = m" "linked (ann ts) a' t (calls s t)"
      "\<And>u. u \<noteq> t \<Longrightarrow> pc a' u = pc a u \<and> entered a' u = entered a u \<and> left a' u = left a u"
    using phase_simulated [OF instr(2) _ ok(1)] local [OF instr(2)] by metis
  have s': "cmem s' = m" "threads s' = (threads s)(t := ts)" "calls s' = calls s"
      "resv s' = (\<lambda>u. if u = t then rv else resv s u \<and> s_c m = s_c (cmem s))"
    using ex by (simp_all add: instr(1) run_instr_def)
  have "linked (ann (threads s' u)) a' u (calls s' u) \<and> good (threads s' u) (cmem s') (resv s' u) \<and>
      ip (threads s' u) \<le> length prog" if "u < N" for u
  proof (cases "u = t")
    case True
    then show ?thesis using a'(3) ok by (simp add: s')
  next
    case False
    have "good (threads s u) m (resv s u \<and> s_c m = s_c (cmem s))"
      using local [OF that] phase_n [OF ok(1)] mem by (intro frame) auto
    then show ?thesis using False local [OF that] a'(4) by (auto simp: s' intro: linked_other)
  qed
  then have "sim s' a'" by (simp add: sim_def a'(2) s'(1))
  then show ?thesis using a'(1) by blast
qed

lemma sim_init: "sim (cinit prog N ts) (ainit N)"
  using finish by (simp add: sim_def cinit_def ainit_def)

lemma implements:
  assumes "creach prog N s"
  shows "\<exists>a. areach flip islast N a \<and> sim s a"
proof -
  obtain ts where "(cstep prog N)\<^sup>*\<^sup>* (cinit prog N ts) s" using assms by (auto simp: creach_def)
  then show ?thesis
  proof (induction rule: rtranclp_induct)
    case base
    then show ?case using sim_init by (auto simp: areach_def)
  next
    case (step s s')
    then obtain a where "areach flip islast N a" "sim s a" by blast
    moreover obtain a' where "(any_step flip islast N)\<^sup>*\<^sup>* a a'" "sim s' a'"
      using sim_step [OF calculation(2) step(2)] by blast
    ultimately show ?case unfolding areach_def by (meson rtranclp_trans)
  qed
qed

lemma refines:
  assumes "creach prog N s"
  shows "\<exists>a. areach flip islast N a \<and> mem a = cmem s \<and>
    (\<forall>t < N. returned prog s t \<le> left a t \<and> entered a t \<le> calls s t)"
proof -
  obtain a where a: "areach flip islast N a" "sim s a" using implements [OF assms(1)] by blast
  have linked: "linked (ann (threads s v)) a v (calls s v)" if "v < N" for v
    using a(2) that by (simp add: sim_def)
  have "ip (threads s t) = length prog \<Longrightarrow> ann (threads s t) = After" for t using finish by blast
  then have "returned prog s t \<le> left a t \<and> entered a t \<le> calls s t" if "t < N" for t
    using linked [OF that] unfolding returned_def by (cases "ann (threads s t)") auto
  then show ?thesis using a by (auto simp: sim_def)
qed

lemma no_early_return:
  assumes "creach prog N s" and "t < N" and "u < N"
  shows "returned prog s t \<le> calls s u"
proof -
  obtain a where a: "areach flip islast N a" "returned prog s t \<le> left a t" "entered a u \<le> calls s u"
    using refines [OF assms(1)] assms(2,3) by blast
  then show ?thesis using inv_no_early [OF ainv_reach [OF a(1)] assms(2,3)] by linarith
qed

end

subsection \<open>Annotations of programs\<close>

text \<open>
  The place of each instruction in the abstract barrier.  \<open>SStat b x\<close>: after a store-conditional that
  failed if \<open>b\<close> holds, otherwise the counter is \<open>R1 - x\<close>; \<open>STest x\<close>: the counter was set to
  \<open>R1 - x\<close>, the test is to come; \<open>SCond b\<close>: last one if \<open>b\<close> holds; \<open>SCheck b\<close>: the thread stays in
  the loop if \<open>b\<close> holds; \<open>SRev\<close>: the reversed sense is in \<open>Ms\<close>.
\<close>

datatype stage =
  SBefore | SDec | SStat cond u32 | STest u32 | SCond cond | SSpin | SCheck cond
| SReset | SFlip | SRev | SAfter

fun stage_ann :: "(u32 \<Rightarrow> u32) \<Rightarrow> (u32 \<Rightarrow> bool) \<Rightarrow> stage \<Rightarrow> tstate \<Rightarrow> ann" where
  "stage_ann flip islast SBefore ts = Before"
| "stage_ann flip islast SDec ts = During (Dec (regs ts Ms))"
| "stage_ann flip islast (SStat b x) ts = During
     (if holds b ts then Dec (regs ts Ms)
      else if islast (regs ts R1 - x) then Reset (regs ts Ms) else Spin (regs ts Ms))"
| "stage_ann flip islast (STest x) ts = During
     (if islast (regs ts R1 - x) then Reset (regs ts Ms) else Spin (regs ts Ms))"
| "stage_ann flip islast (SCond b) ts = During
     (if holds b ts then Reset (regs ts Ms) else Spin (regs ts Ms))"
| "stage_ann flip islast SSpin ts = During (Spin (regs ts Ms))"
| "stage_ann flip islast (SCheck b) ts = (if holds b ts then During (Spin (regs ts Ms)) else After)"
| "stage_ann flip islast SReset ts = During (Reset (regs ts Ms))"
| "stage_ann flip islast SFlip ts = During (Flip (regs ts Ms))"
| "stage_ann flip islast SRev ts = During (Flip (flip (regs ts Ms)))"
| "stage_ann flip islast SAfter ts = After"

text \<open>What is known of the registers before an instruction.\<close>

datatype known =
  Linked reg u32    \<comment> \<open>if the reservation holds, the register is the counter minus a constant\<close>
| IsN reg           \<comment> \<open>the register is the number of threads\<close>
| IsVal reg u32
| Reversed          \<comment> \<open>\<open>R1\<close> is the reversed sense\<close>
| ZeroFlag          \<comment> \<open>the flag says whether \<open>Ms\<close> is zero\<close>

fun known_ok :: "(u32 \<Rightarrow> u32) \<Rightarrow> tstate \<Rightarrow> sense_t \<Rightarrow> bool \<Rightarrow> known \<Rightarrow> bool" where
  "known_ok flip ts m rv (Linked r x) \<longleftrightarrow> (rv \<longrightarrow> regs ts r = s_c m - x)"
| "known_ok flip ts m rv (IsN r) \<longleftrightarrow> regs ts r = s_n m"
| "known_ok flip ts m rv (IsVal r x) \<longleftrightarrow> regs ts r = x"
| "known_ok flip ts m rv Reversed \<longleftrightarrow> regs ts R1 = flip (regs ts Ms)"
| "known_ok flip ts m rv ZeroFlag \<longleftrightarrow> flag_eq ts = (regs ts Ms = 0)"

type_synonym notes_t = "(stage \<times> known list) list"

definition ann_of :: "(u32 \<Rightarrow> u32) \<Rightarrow> (u32 \<Rightarrow> bool) \<Rightarrow> notes_t \<Rightarrow> tstate \<Rightarrow> ann" where
  "ann_of flip islast anns ts = stage_ann flip islast (fst (anns ! ip ts)) ts"

definition good_of :: "(u32 \<Rightarrow> u32) \<Rightarrow> notes_t \<Rightarrow> tstate \<Rightarrow> sense_t \<Rightarrow> bool \<Rightarrow> bool" where
  "good_of flip anns ts m rv \<longleftrightarrow> (\<forall>k \<in> set (snd (anns ! ip ts)). known_ok flip ts m rv k)"

text \<open>One instruction respects the annotations.\<close>

definition instr_checked ::
  "(u32 \<Rightarrow> u32) \<Rightarrow> (u32 \<Rightarrow> bool) \<Rightarrow> instr list \<Rightarrow> notes_t \<Rightarrow> nat \<Rightarrow> bool" where
  "instr_checked flip islast prog anns i \<longleftrightarrow>
     (\<forall>ts m rv ok. ip ts = i \<longrightarrow> good_of flip anns ts m rv \<longrightarrow>
       (case exec ok (prog ! i) (ts, m, rv) of (ts', m', rv') \<Rightarrow>
          phase_step flip islast (ann_of flip islast anns ts) m (ann_of flip islast anns ts') m' \<and>
          good_of flip anns ts' m' rv' \<and> ip ts' \<le> length prog))"

lemma code_from_notes:
  assumes "sense_ok flip islast N"
    and "anns ! 0 = (SBefore, [])" and "anns ! length prog = (SAfter, [])"
    and "\<And>i. i < length prog \<Longrightarrow> instr_checked flip islast prog anns i"
  shows "barrier_code flip islast N prog (ann_of flip islast anns) (good_of flip anns)"
proof (intro barrier_code.intro barrier_code_axioms.intro)
  show "sense_barrier flip islast N" using assms(1) by (simp add: sense_barrier_iff)
  fix ts ts' m m' rv rv' ok
  show "ip ts = 0 \<Longrightarrow> ann_of flip islast anns ts = Before \<and> good_of flip anns ts m rv"
    using assms(2) by (simp add: ann_of_def good_of_def)
  show "ip ts = length prog \<Longrightarrow> ann_of flip islast anns ts = After \<and> good_of flip anns ts m rv"
    using assms(3) by (simp add: ann_of_def good_of_def)
  show "good_of flip anns ts m' (rv \<and> s_c m' = s_c m)"
    if "good_of flip anns ts m rv" "s_n m' = s_n m"
  proof -
    have "known_ok flip ts m' (rv \<and> s_c m' = s_c m) k" if "known_ok flip ts m rv k" for k
      using that \<open>s_n m' = s_n m\<close> by (cases k) auto
    then show ?thesis using that(1) by (auto simp: good_of_def)
  qed
  show "phase_step flip islast (ann_of flip islast anns ts) m (ann_of flip islast anns ts') m' \<and>
      good_of flip anns ts' m' rv' \<and> ip ts' \<le> length prog"
    if "ip ts < length prog" "good_of flip anns ts m rv" "exec ok (prog ! ip ts) (ts, m, rv) = (ts', m', rv')"
    using assms(4) [OF that(1), unfolded instr_checked_def, rule_format, OF refl that(2), of ok] that(3)
    by simp
qed

subsection \<open>The programs\<close>

text \<open>\<open>barrier_wait\<close> of \<^verbatim>\<open>_aarch64/barrier.c\<close>; labels 0, 1, 2, 3 are the indices 2, 9, 13, 20.\<close>

definition aarch64_wait :: "instr list" where
  "aarch64_wait =
    [Ld Ms FS, Mbar,
     LdX R1 FC, AddI R1 R1 (-1), StX (InReg R3 0 1) R1 FC, Branch (NonZero R3) 2,
     CmpI R1 0, Branch Le 13, Mbar,
     Ld R1 FS, CmpR R1 Ms, Branch Eq 9, Branch Always 20,
     Mbar, Ld R1 FN, St R1 FC, MovI R3 1, Mbar, SubR Ms R3 Ms, St Ms FS,
     Mbar]"

definition aarch64_flip :: "u32 \<Rightarrow> u32" where "aarch64_flip ms = 1 - ms"

definition aarch64_last :: "u32 \<Rightarrow> bool" where "aarch64_last r \<longleftrightarrow> r <=s 0"

definition aarch64_notes :: notes_t where
  "aarch64_notes =
    [(SBefore, []), (SDec, []),
     (SDec, []), (SDec, [Linked R1 0]), (SDec, [Linked R1 1]), (SStat (NonZero R3) 0, []),
     (STest 0, []), (SCond Le, []), (SSpin, []),
     (SSpin, []), (SCheck (Same R1 Ms), []), (SCheck Eq, []), (SAfter, []),
     (SReset, []), (SReset, []), (SReset, [IsN R1]), (SFlip, []), (SFlip, [IsVal R3 1]),
       (SFlip, [IsVal R3 1]), (SRev, []),
     (SAfter, []), (SAfter, [])]"

lemma below_21:
  assumes "k < 21"
  obtains "k = 0" | "k = 1" | "k = 2" | "k = 3" | "k = 4" | "k = 5" | "k = 6" | "k = 7" | "k = 8"
    | "k = 9" | "k = 10" | "k = 11" | "k = 12" | "k = 13" | "k = 14" | "k = 15" | "k = 16" | "k = 17"
    | "k = 18" | "k = 19" | "k = (20 :: nat)"
proof -
  have "k \<in> {0, 1, 2, 3, 4, 5, 6, 7, 8, 9, 10, 11, 12, 13, 14, 15, 16, 17, 18, 19, 20}"
    using assms by (simp, presburger)
  then show thesis using that unfolding insert_iff empty_iff by (elim disjE) blast+
qed

lemmas machine = advance_def setr_def set_flags_def

lemma sint_small: "unat (r :: u32) < 2 ^ 31 \<Longrightarrow> sint r = uint r"
proof -
  assume "unat r < 2 ^ 31"
  then have "int (unat r) < int (2 ^ 31)" by (simp only: of_nat_less_iff)
  then have "uint r < 2 ^ 31" by simp
  moreover have "- (2 ^ 31) \<le> uint r" by (rule order_trans [of _ 0]) simp_all
  ultimately have "signed_take_bit 31 (uint r) = uint r" by (intro signed_take_bit_int_eq_self)
  then show ?thesis by (simp add: sint_uint)
qed

lemma sle_zero_iff: "unat (r :: u32) < 2 ^ 31 \<Longrightarrow> r <=s 0 \<longleftrightarrow> r = 0"
  by (metis order_antisym sint_0 sint_small uint_0_iff uint_ge_0 unsigned_0 word_sle_eq)

lemmas check = instr_checked_def ann_of_def good_of_def machine

lemma aarch64_checked:
  assumes "i < length aarch64_wait"
  shows "instr_checked aarch64_flip aarch64_last aarch64_wait aarch64_notes i"
proof -
  have "i < 21" using assms by (simp add: aarch64_wait_def)
  then show ?thesis
    by (cases rule: below_21) (simp_all add: check aarch64_wait_def aarch64_notes_def aarch64_flip_def aarch64_last_def)
qed

text \<open>\<open>barrier_wait\<close> of \<^verbatim>\<open>_arm/barrier.c\<close>; labels 0, 1, 2 are the indices 3, 17, 20.\<close>

definition arm_wait :: "instr list" where
  "arm_wait =
    [Ld Ms FS, Ld Np FN, Mbar,
     LdX R1 FC, AddI R1 R1 (-1), StX (InReg R3 0 1) R1 FC, CmpI R3 0, Branch Ne 3,
     CmpI R1 0, Branch Ne 17,
     Mbar, St Np FC, Mbar, NotR R1 Ms, St R1 FS, Mbar, Branch Always 20,
     Ld R1 FS, CmpR R1 Ms, Branch Eq 17,
     Mbar]"

definition arm_flip :: "u32 \<Rightarrow> u32" where "arm_flip ms = NOT ms"

definition zero_last :: "u32 \<Rightarrow> bool" where "zero_last r \<longleftrightarrow> r = 0"

definition arm_notes :: notes_t where
  "arm_notes =
    [(SBefore, []), (SDec, []), (SDec, [IsN Np]),
     (SDec, [IsN Np]), (SDec, [IsN Np, Linked R1 0]), (SDec, [IsN Np, Linked R1 1]),
       (SStat (NonZero R3) 0, [IsN Np]), (SStat Ne 0, [IsN Np]),
     (STest 0, [IsN Np]), (SCond Eq, [IsN Np]),
     (SReset, [IsN Np]), (SReset, [IsN Np]), (SFlip, []), (SFlip, []), (SFlip, [Reversed]), (SAfter, []),
       (SAfter, []),
     (SSpin, []), (SCheck (Same R1 Ms), []), (SCheck Eq, []),
     (SAfter, []), (SAfter, [])]"

lemma arm_checked:
  assumes "i < length arm_wait"
  shows "instr_checked arm_flip zero_last arm_wait arm_notes i"
proof -
  have "i < 21" using assms by (simp add: arm_wait_def)
  then show ?thesis
    by (cases rule: below_21) (simp_all add: check arm_wait_def arm_notes_def arm_flip_def zero_last_def)
qed

text \<open>\<open>barrier_wait\<close> of \<^verbatim>\<open>_ppc/barrier.c\<close>; labels 0, 1, 2 are the indices 3, 15, 19.\<close>

definition ppc_wait :: "instr list" where
  "ppc_wait =
    [Ld Ms FS, Ld Np FN, Mbar,
     LdX R1 FC, AddI R1 R1 (-1), StX InFlag R1 FC, Branch Ne 3,
     CmpI R1 0, Branch Ne 15,
     Mbar, St Np FC, Mbar, NotR R1 Ms, St R1 FS, Branch Always 19,
     Mbar, Ld R1 FS, CmpR R1 Ms, Branch Eq 15,
     Mbar]"

definition ppc_notes :: notes_t where
  "ppc_notes =
    [(SBefore, []), (SDec, []), (SDec, [IsN Np]),
     (SDec, [IsN Np]), (SDec, [IsN Np, Linked R1 0]), (SDec, [IsN Np, Linked R1 1]), (SStat Ne 0, [IsN Np]),
     (STest 0, [IsN Np]), (SCond Eq, [IsN Np]),
     (SReset, [IsN Np]), (SReset, [IsN Np]), (SFlip, []), (SFlip, []), (SFlip, [Reversed]), (SAfter, []),
     (SSpin, []), (SSpin, []), (SCheck (Same R1 Ms), []), (SCheck Eq, []),
     (SAfter, []), (SAfter, [])]"

lemma ppc_checked:
  assumes "i < length ppc_wait"
  shows "instr_checked arm_flip zero_last ppc_wait ppc_notes i"
proof -
  have "i < 21" using assms by (simp add: ppc_wait_def)
  then show ?thesis
    by (cases rule: below_21) (use assms in \<open>simp_all add: check ppc_wait_def ppc_notes_def arm_flip_def zero_last_def\<close>)
qed

text \<open>\<open>barrier_wait\<close> of \<^verbatim>\<open>_mips/barrier.c\<close>; labels 0, 1, 2 are the indices 3, 16, 18.\<close>

definition mips_wait :: "instr list" where
  "mips_wait =
    [Ld Ms FS, Ld Np FN, Mbar,
     LdX R1 FC, AddI R2 R1 (-1), StX (InReg R2 1 0) R2 FC, Branch (Zero R2) 3,
     AddI R1 R1 (-1), Mbar, Branch (NonZero R1) 16,
     St Np FC, Mbar, MovI R1 1, SubR Ms R1 Ms, St Ms FS, Branch Always 18,
     Ld R1 FS, Branch (Same R1 Ms) 16,
     Mbar]"

definition mips_notes :: notes_t where
  "mips_notes =
    [(SBefore, []), (SDec, []), (SDec, [IsN Np]),
     (SDec, [IsN Np]), (SDec, [IsN Np, Linked R1 0]), (SDec, [IsN Np, Linked R1 0, Linked R2 1]),
       (SStat (Zero R2) 1, [IsN Np]),
     (STest 1, [IsN Np]), (STest 0, [IsN Np]), (STest 0, [IsN Np]),
     (SReset, [IsN Np]), (SFlip, []), (SFlip, []), (SFlip, [IsVal R1 1]), (SRev, []), (SAfter, []),
     (SSpin, []), (SCheck (Same R1 Ms), []),
     (SAfter, []), (SAfter, [])]"

lemma mips_checked:
  assumes "i < length mips_wait"
  shows "instr_checked aarch64_flip zero_last mips_wait mips_notes i"
proof -
  have "i < 21" using assms by (simp add: mips_wait_def)
  then show ?thesis
    by (cases rule: below_21) (use assms in \<open>simp_all add: check mips_wait_def mips_notes_def aarch64_flip_def zero_last_def\<close>)
qed

text \<open>\<open>barrier_wait\<close> of \<^verbatim>\<open>_x86/barrier.c\<close>; labels 0, 1, 2 are the indices 8, 5, 15.\<close>

definition x86_wait :: "instr list" where
  "x86_wait =
    [Ld Ms FS,
     MovI R1 (-1), Xadd R1 FC, SubF R1 1, Branch Eq 8,
     CmpM Ms FS, Branch Eq 5, Branch Always 15,
     Ld R1 FN, St R1 FC, MovI R1 0, CmpI Ms 0, SetE R1, St R1 FS, Mbar]"

definition x86_flip :: "u32 \<Rightarrow> u32" where "x86_flip ms = (if ms = 0 then 1 else 0)"

definition x86_notes :: notes_t where
  "x86_notes =
    [(SBefore, []),
     (SDec, []), (SDec, [IsVal R1 (-1)]), (STest 1, []), (SCond Eq, []),
     (SSpin, []), (SCheck Eq, []), (SAfter, []),
     (SReset, []), (SReset, [IsN R1]), (SFlip, []), (SFlip, [IsVal R1 0]), (SFlip, [IsVal R1 0, ZeroFlag]),
       (SFlip, [Reversed]), (SAfter, []), (SAfter, [])]"

lemma x86_checked:
  assumes "i < length x86_wait"
  shows "instr_checked x86_flip zero_last x86_wait x86_notes i"
proof -
  have "i < 21" using assms by (simp add: x86_wait_def)
  then show ?thesis
    by (cases rule: below_21) (use assms in \<open>simp_all add: check x86_wait_def x86_notes_def x86_flip_def zero_last_def\<close>)
qed

text \<open>
  \<open>barrier_wait\<close> of \<^verbatim>\<open>_riscv/barrier.c\<close>, which is C: the test \<open>rem == 0\<close> is index 5, the loop
  starts at 13 and the last \<open>mbar\<close> is 15.
\<close>

definition riscv_wait :: "instr list" where
  "riscv_wait =
    [Mbar, Ld Ms FS, Mbar, AddFetch R1 FC (-1), Mbar, Branch (NonZero R1) 13,
     Ld R1 FN, St R1 FC, Mbar, MovI R2 1, SubR R1 R2 Ms, St R1 FS, Branch Always 15,
     Ld R1 FS, Branch (Same R1 Ms) 13,
     Mbar]"

definition riscv_notes :: notes_t where
  "riscv_notes =
    [(SBefore, []), (SBefore, []), (SDec, []), (SDec, []), (STest 0, []), (STest 0, []),
     (SReset, []), (SReset, [IsN R1]), (SFlip, []), (SFlip, []), (SFlip, [IsVal R2 1]), (SFlip, [Reversed]),
       (SAfter, []),
     (SSpin, []), (SCheck (Same R1 Ms), []),
     (SAfter, []), (SAfter, [])]"

lemma riscv_checked:
  assumes "i < length riscv_wait"
  shows "instr_checked aarch64_flip zero_last riscv_wait riscv_notes i"
proof -
  have "i < 21" using assms by (simp add: riscv_wait_def)
  then show ?thesis
    by (cases rule: below_21) (use assms in \<open>simp_all add: check riscv_wait_def riscv_notes_def aarch64_flip_def zero_last_def\<close>)
qed

subsection \<open>Each architecture implements the barrier\<close>

lemma all_sense_ok:
  assumes "0 < N \<and> N < 2 ^ 31"
  shows "sense_ok aarch64_flip aarch64_last N" "sense_ok aarch64_flip zero_last N"
    "sense_ok arm_flip zero_last N" "sense_ok x86_flip zero_last N"
  using assms
  by (simp_all add: sense_ok_def aarch64_flip_def aarch64_last_def sle_zero_iff zero_last_def arm_flip_def x86_flip_def)

interpretation aarch64: barrier_code aarch64_flip aarch64_last "nthreads k" aarch64_wait
  "ann_of aarch64_flip aarch64_last aarch64_notes" "good_of aarch64_flip aarch64_notes" for k
  by (rule code_from_notes [OF all_sense_ok(1) [OF nthreads_range] _ _ aarch64_checked])
    (simp_all add: aarch64_notes_def aarch64_wait_def)

interpretation arm: barrier_code arm_flip zero_last "nthreads k" arm_wait
  "ann_of arm_flip zero_last arm_notes" "good_of arm_flip arm_notes" for k
  by (rule code_from_notes [OF all_sense_ok(3) [OF nthreads_range] _ _ arm_checked])
    (simp_all add: arm_notes_def arm_wait_def)

interpretation ppc: barrier_code arm_flip zero_last "nthreads k" ppc_wait
  "ann_of arm_flip zero_last ppc_notes" "good_of arm_flip ppc_notes" for k
  by (rule code_from_notes [OF all_sense_ok(3) [OF nthreads_range] _ _ ppc_checked])
    (simp_all add: ppc_notes_def ppc_wait_def)

interpretation mips: barrier_code aarch64_flip zero_last "nthreads k" mips_wait
  "ann_of aarch64_flip zero_last mips_notes" "good_of aarch64_flip mips_notes" for k
  by (rule code_from_notes [OF all_sense_ok(2) [OF nthreads_range] _ _ mips_checked])
    (simp_all add: mips_notes_def mips_wait_def)

interpretation x86: barrier_code x86_flip zero_last "nthreads k" x86_wait
  "ann_of x86_flip zero_last x86_notes" "good_of x86_flip x86_notes" for k
  by (rule code_from_notes [OF all_sense_ok(4) [OF nthreads_range] _ _ x86_checked])
    (simp_all add: x86_notes_def x86_wait_def)

interpretation riscv: barrier_code aarch64_flip zero_last "nthreads k" riscv_wait
  "ann_of aarch64_flip zero_last riscv_notes" "good_of aarch64_flip riscv_notes" for k
  by (rule code_from_notes [OF all_sense_ok(2) [OF nthreads_range] _ _ riscv_checked])
    (simp_all add: riscv_notes_def riscv_wait_def)

text \<open>
  C5: on the six architectures, with any number of threads and any interleaving, no call of
  \<open>barrier_wait\<close> returns before every thread has made as many calls.
\<close>

theorem barrier_wait_safe:
  assumes "0 < N" and "N < 2 ^ 31" and "t < N" and "u < N"
    and "prog \<in> {aarch64_wait, arm_wait, ppc_wait, mips_wait, x86_wait, riscv_wait}"
    and "creach prog N s"
  shows "returned prog s t \<le> calls s u"
  using assms(3-6) nthreads_any [OF assms(1,2)]
    aarch64.no_early_return [of "N - 1" s t u] arm.no_early_return [of "N - 1" s t u]
    ppc.no_early_return [of "N - 1" s t u] mips.no_early_return [of "N - 1" s t u]
    x86.no_early_return [of "N - 1" s t u] riscv.no_early_return [of "N - 1" s t u]
  by auto

text \<open>
  C6: each program refines the abstract barrier: every reachable state of the machine corresponds to
  a reachable state of \<open>Sense\<close> with the same memory, where a thread has left at least the barriers
  its calls have returned from, and entered at most those it has called.
\<close>

theorem barrier_wait_refines:
  assumes "0 < N" and "N < 2 ^ 31"
    and "(prog, flip, islast) \<in> {(aarch64_wait, aarch64_flip, aarch64_last), (arm_wait, arm_flip, zero_last),
      (ppc_wait, arm_flip, zero_last), (mips_wait, aarch64_flip, zero_last), (x86_wait, x86_flip, zero_last),
      (riscv_wait, aarch64_flip, zero_last)}"
    and "creach prog N s"
  shows "\<exists>a. areach flip islast N a \<and> mem a = cmem s \<and>
    (\<forall>t < N. returned prog s t \<le> left a t \<and> entered a t \<le> calls s t)"
  using assms(3,4) nthreads_any [OF assms(1,2)]
    aarch64.refines [of "N - 1" s] arm.refines [of "N - 1" s] ppc.refines [of "N - 1" s]
    mips.refines [of "N - 1" s] x86.refines [of "N - 1" s] riscv.refines [of "N - 1" s]
  by auto

text \<open>One thread, one call: the last thread, alone.\<close>

fun run_thread :: "instr list \<Rightarrow> nat \<Rightarrow> nat \<Rightarrow> cstate \<Rightarrow> cstate option" where
  "run_thread prog t 0 s = Some s"
| "run_thread prog t (Suc k) s =
     (if ip (threads s t) < length prog then run_thread prog t k (run_instr prog True t s) else None)"

lemma run_thread_reach:
  "t < N \<Longrightarrow> creach prog N s \<Longrightarrow> run_thread prog t k s = Some s' \<Longrightarrow> creach prog N s'"
proof (induction prog t k s rule: run_thread.induct)
  case (2 prog t k s)
  then have "ip (threads s t) < length prog" by (simp split: if_splits)
  then have "cstep prog N s (run_instr prog True t s)" using 2(2) by (intro cstep.instr)
  then have "creach prog N (run_instr prog True t s)"
    using 2(3) unfolding creach_def by (meson rtranclp.rtrancl_into_rtrancl)
  then show ?case using 2 by (simp split: if_splits)
qed simp

definition ex_thread :: tstate where
  "ex_thread = \<lparr>ip = 0, regs = \<lambda>_. 0, flag_eq = False, flag_le = False\<rparr>"

definition ex_called :: cstate where
  "ex_called = (let s = cinit riscv_wait 1 (\<lambda>_. ex_thread)
     in s\<lparr>threads := (threads s)(0 := ex_thread), calls := (calls s)(0 := calls s 0 + 1)\<rparr>)"

lemma ex_called_reach: "creach riscv_wait 1 ex_called"
proof -
  have "cstep riscv_wait 1 (cinit riscv_wait 1 (\<lambda>_. ex_thread)) ex_called"
    unfolding ex_called_def Let_def by (rule cstep.call) (simp_all add: cinit_def ex_thread_def)
  then show ?thesis unfolding creach_def by blast
qed

definition ex_returned :: cstate where
  "ex_returned = the (run_thread riscv_wait 0 14 ex_called)"

lemma ex_run: "run_thread riscv_wait 0 14 ex_called = Some ex_returned \<and> returned riscv_wait ex_returned 0 = 1 \<and>
    calls ex_returned 0 = 1 \<and> cmem ex_returned = \<lparr>s_c = 1, s_sense = 1, s_n = 1\<rparr>"
  by (simp add: ex_returned_def ex_called_def cinit_def barrier_init_def riscv_wait_def ex_thread_def
      numeral_eq_Suc run_instr_def machine returned_def)

theorem barrier_wait_safe_witness:
  "returned riscv_wait ex_returned 0 = 1 \<and> returned riscv_wait ex_returned 0 \<le> calls ex_returned 0"
  using barrier_wait_safe [of 1 0 0 riscv_wait ex_returned]
    run_thread_reach [OF _ ex_called_reach, of 0 14 ex_returned] ex_run by simp

theorem barrier_wait_refines_witness:
  "\<exists>a. areach aarch64_flip zero_last 1 a \<and> mem a = \<lparr>s_c = 1, s_sense = 1, s_n = 1\<rparr> \<and>
    1 \<le> left a 0 \<and> entered a 0 \<le> 1"
  using barrier_wait_refines [of 1 riscv_wait aarch64_flip zero_last ex_returned]
    run_thread_reach [OF _ ex_called_reach, of 0 14 ex_returned] ex_run by auto

end
