(* ===== verification/BarrierLive.thy ===== *)
theory BarrierLive
  imports Barriers
begin

section \<open>The calls of \<open>barrier_wait\<close> return\<close>

text \<open>
  Liveness of the six programs of \<open>Barriers\<close>, at the level of their instructions: the spinning loops
  and the retries of the store-conditionals are executed, not abstracted.  \<open>run_sched\<close> runs the
  threads on an infinite schedule, one instruction at a time; a thread whose call has returned does
  nothing.  \<open>live_code\<close> is what a program promises in addition to \<open>barrier_code\<close>: an instruction of a
  thread that is not waiting for the sense brings it nearer to the next place of the abstract barrier.
\<close>

subsection \<open>Schedules\<close>

definition sched_step :: "instr list \<Rightarrow> bool \<Rightarrow> nat \<Rightarrow> cstate \<Rightarrow> cstate" where
  "sched_step prog ok t s = (if ip (threads s t) < length prog then run_instr prog ok t s else s)"

fun run_sched :: "instr list \<Rightarrow> (nat \<Rightarrow> nat) \<Rightarrow> (nat \<Rightarrow> bool) \<Rightarrow> cstate \<Rightarrow> nat \<Rightarrow> cstate" where
  "run_sched prog who ok s 0 = s"
| "run_sched prog who ok s (Suc k) = sched_step prog (ok k) (who k) (run_sched prog who ok s k)"

text \<open>
  Every thread runs again and again, and the store-conditionals fail without reason finitely often only.
\<close>

definition fair :: "nat \<Rightarrow> (nat \<Rightarrow> nat) \<Rightarrow> (nat \<Rightarrow> bool) \<Rightarrow> bool" where
  "fair N who ok \<longleftrightarrow> (\<forall>k. who k < N) \<and> (\<forall>t < N. \<forall>k. \<exists>j \<ge> k. who j = t) \<and> (\<exists>k. \<forall>j \<ge> k. ok j)"

subsection \<open>What a program promises\<close>

fun place :: "ann \<Rightarrow> nat" where
  "place After = 0"
| "place (During p) = 1 + work p"
| "place Before = 6"

lemma phase_place:
  "phase_step flip islast x m x' m' \<Longrightarrow> place x' < place x \<or> x' = x \<and> m' = m"
  by (cases "(flip, islast, x, m, x', m')" rule: phase_step.cases) (auto split: if_splits)

locale live_code = barrier_code +
  fixes rank :: "tstate \<Rightarrow> bool \<Rightarrow> nat"
  assumes nearer: "ip ts < length prog \<Longrightarrow> good ts m rv \<Longrightarrow> ann ts \<noteq> During (Spin (s_sense m)) \<Longrightarrow>
      exec True (prog ! ip ts) (ts, m, rv) = (ts', m', rv') \<Longrightarrow>
      place (ann ts') < place (ann ts) \<or> rank ts' rv' < rank ts rv"
begin

definition total :: "cstate \<Rightarrow> nat" where
  "total s = (\<Sum>t < N. place (ann (threads s t)))"

text \<open>The facts that a step of the schedule keeps.\<close>

definition inside :: "nat \<Rightarrow> cstate \<Rightarrow> bool" where
  "inside m s \<longleftrightarrow> (\<exists>a. areach flip islast N a \<and> sim s a) \<and> (\<forall>t < N. calls s t = m)"

lemma sched_inside:
  assumes "inside m s" and "t < N"
  shows "inside m (sched_step prog ok t s)"
proof (cases "ip (threads s t) < length prog")
  case True
  then have step: "cstep prog N s (run_instr prog ok t s)" using assms(2) by (rule cstep.instr [rotated])
  obtain a where a: "areach flip islast N a" "sim s a" using assms(1) by (auto simp: inside_def)
  obtain a' where "(any_step flip islast N)\<^sup>*\<^sup>* a a'" "sim (run_instr prog ok t s) a'"
    using sim_step [OF a(2) step] by blast
  then have "areach flip islast N a' \<and> sim (run_instr prog ok t s) a'"
    using a(1) unfolding areach_def by (meson rtranclp_trans)
  moreover have "calls (run_instr prog ok t s) = calls s" by (simp add: run_instr_def split: prod.splits)
  ultimately show ?thesis using assms(1) True by (auto simp: inside_def sched_step_def)
qed (use assms in \<open>simp add: sched_step_def\<close>)

lemma inside_good:
  assumes "inside m s" and "t < N"
  shows "good (threads s t) (cmem s) (resv s t) \<and> ip (threads s t) \<le> length prog"
  using assms by (auto simp: inside_def sim_def)

text \<open>A step moves its thread on in the abstract barrier, or changes nothing for the others.\<close>

lemma sched_quiet:
  assumes "inside m s" and "t < N" and s': "s' = sched_step prog ok t s"
  shows "place (ann (threads s' t)) < place (ann (threads s t)) \<and> (\<forall>u. u \<noteq> t \<longrightarrow> threads s' u = threads s u) \<or>
    cmem s' = cmem s \<and> ann (threads s' t) = ann (threads s t) \<and>
    (\<forall>u. u \<noteq> t \<longrightarrow> threads s' u = threads s u \<and> resv s' u = resv s u)"
proof (cases "ip (threads s t) < length prog")
  case True
  obtain ts m1 rv where ex: "exec ok (prog ! ip (threads s t)) (threads s t, cmem s, resv s t) = (ts, m1, rv)"
    by (cases "exec ok (prog ! ip (threads s t)) (threads s t, cmem s, resv s t)") auto
  have "phase_step flip islast (ann (threads s t)) (cmem s) (ann ts) m1"
    using instr_ok [OF True _ ex] inside_good [OF assms(1,2)] by blast
  from phase_place [OF this] show ?thesis using True ex by (auto simp: s' sched_step_def run_instr_def)
qed (simp add: s' sched_step_def)

lemma sched_total:
  assumes "inside m s" and "t < N" and "s' = sched_step prog ok t s"
  shows "total s' \<le> total s" and "total s' = total s \<Longrightarrow>
    cmem s' = cmem s \<and> (\<forall>u < N. ann (threads s' u) = ann (threads s u)) \<and>
    (\<forall>u. u \<noteq> t \<longrightarrow> threads s' u = threads s u \<and> resv s' u = resv s u)"
proof -
  have le: "place (ann (threads s' u)) \<le> place (ann (threads s u))" for u
    using sched_quiet [OF assms] by (cases "u = t") auto
  then show "total s' \<le> total s" unfolding total_def by (intro sum_mono)
  have "total s' < total s" if "place (ann (threads s' t)) < place (ann (threads s t))"
    unfolding total_def using that le assms(2) by (intro sum_strict_mono_ex1) auto
  then show "cmem s' = cmem s \<and> (\<forall>u < N. ann (threads s' u) = ann (threads s u)) \<and>
    (\<forall>u. u \<noteq> t \<longrightarrow> threads s' u = threads s u \<and> resv s' u = resv s u)" if "total s' = total s"
    using sched_quiet [OF assms] that by (metis less_irrefl)
qed

lemma sched_rank:
  assumes "inside m s" and "t < N" and s': "s' = sched_step prog True t s"
    and "ip (threads s t) < length prog" and "ann (threads s t) \<noteq> During (Spin (s_sense (cmem s)))"
    and "ann (threads s' t) = ann (threads s t)"
  shows "rank (threads s' t) (resv s' t) < rank (threads s t) (resv s t)"
proof -
  obtain ts m1 rv where ex: "exec True (prog ! ip (threads s t)) (threads s t, cmem s, resv s t) = (ts, m1, rv)"
    by (cases "exec True (prog ! ip (threads s t)) (threads s t, cmem s, resv s t)") auto
  have "place (ann ts) < place (ann (threads s t)) \<or> rank ts rv < rank (threads s t) (resv s t)"
    using nearer [OF assms(4) _ assms(5) ex] inside_good [OF assms(1,2)] by blast
  then show ?thesis using assms(4,6) ex by (auto simp: s' sched_step_def run_instr_def)
qed

subsection \<open>A fair run\<close>

lemma run_inside: "inside m s \<Longrightarrow> fair N who ok \<Longrightarrow> inside m (run_sched prog who ok s k)"
  by (induction k) (simp_all add: sched_inside fair_def)

text \<open>From some point on, the memory and the places of the threads are constant.\<close>

definition settled :: "(nat \<Rightarrow> nat) \<Rightarrow> (nat \<Rightarrow> bool) \<Rightarrow> cstate \<Rightarrow> nat \<Rightarrow> bool" where
  "settled who ok s K \<longleftrightarrow> (\<forall>k \<ge> K. ok k \<and>
     (let r = run_sched prog who ok s k; r' = run_sched prog who ok s (Suc k)
      in cmem r' = cmem r \<and> (\<forall>u < N. ann (threads r' u) = ann (threads r u)) \<and>
         (\<forall>u. u \<noteq> who k \<longrightarrow> threads r' u = threads r u \<and> resv r' u = resv r u)))"

lemma settledD:
  assumes "settled who ok s K" and "k \<ge> K"
  shows "ok k" "cmem (run_sched prog who ok s (Suc k)) = cmem (run_sched prog who ok s k)"
    "u < N \<Longrightarrow> ann (threads (run_sched prog who ok s (Suc k)) u) = ann (threads (run_sched prog who ok s k) u)"
    "u \<noteq> who k \<Longrightarrow> threads (run_sched prog who ok s (Suc k)) u = threads (run_sched prog who ok s k) u"
    "u \<noteq> who k \<Longrightarrow> resv (run_sched prog who ok s (Suc k)) u = resv (run_sched prog who ok s k) u"
  using assms by (simp_all add: settled_def Let_def del: run_sched.simps)

lemma fair_settles:
  assumes "inside m s" and fair: "fair N who ok"
  shows "\<exists>K. settled who ok s K"
proof -
  let ?r = "run_sched prog who ok s"
  have who: "who k < N" for k using fair by (simp add: fair_def)
  note step = sched_total [OF run_inside [OF assms] who refl]
  obtain K0 where ok: "\<And>j. j \<ge> K0 \<Longrightarrow> ok j" using fair by (auto simp: fair_def)
  have down: "total (?r (Suc k)) \<le> total (?r k)" for k using step(1) by simp
  obtain K where K: "K \<ge> K0" "\<And>k. k \<ge> K0 \<Longrightarrow> total (?r K) \<le> total (?r k)"
    using ex_has_least_nat [of "\<lambda>k. k \<ge> K0" K0 "\<lambda>k. total (?r k)"] by auto
  have "total (?r (Suc k)) = total (?r k)" if "k \<ge> K" for k
  proof -
    have "total (?r k) \<le> total (?r K)" using that down by (induction k rule: dec_induct) (auto intro: order_trans)
    then show ?thesis using down [of k] K(2) [of "Suc k"] K(1) that by simp
  qed
  then have "settled who ok s K" using step(2) K(1) ok by (auto simp: settled_def)
  then show ?thesis by blast
qed

lemma settled_stable:
  assumes "settled who ok s K" and "k \<ge> K"
  shows "cmem (run_sched prog who ok s k) = cmem (run_sched prog who ok s K) \<and>
    (\<forall>u < N. ann (threads (run_sched prog who ok s k) u) = ann (threads (run_sched prog who ok s K) u))"
  using assms(2)
  by (induction k rule: dec_induct) (use settledD(2,3) [OF assms(1)] in \<open>auto simp del: run_sched.simps\<close>)

lemma settled_stays:
  assumes "settled who ok s K" and "ip (threads (run_sched prog who ok s j) t) = length prog" and "j \<ge> K" and "k \<ge> j"
  shows "ip (threads (run_sched prog who ok s k) t) = length prog"
  using assms(4)
proof (induction k rule: dec_induct)
  case (step k)
  then show ?case using settledD(4) [OF assms(1), of k t] assms(3)
    by (cases "who k = t") (simp_all add: sched_step_def)
qed (rule assms(2))

text \<open>A thread is left alone until its next turn.\<close>

lemma settled_turn:
  assumes "settled who ok s K" and "fair N who ok" and "t < N" and "k \<ge> K"
  shows "\<exists>j \<ge> k. who j = t \<and> threads (run_sched prog who ok s j) t = threads (run_sched prog who ok s k) t \<and>
    resv (run_sched prog who ok s j) t = resv (run_sched prog who ok s k) t"
proof -
  have "\<exists>j. j \<ge> k \<and> who j = t" using assms(2,3) unfolding fair_def by blast
  then obtain j where j: "j \<ge> k" "who j = t" and before: "\<And>i. i \<ge> k \<Longrightarrow> i < j \<Longrightarrow> who i \<noteq> t"
    unfolding exists_least_iff [of "\<lambda>j. j \<ge> k \<and> who j = t"] by blast
  have "threads (run_sched prog who ok s i) t = threads (run_sched prog who ok s k) t \<and>
      resv (run_sched prog who ok s i) t = resv (run_sched prog who ok s k) t" if "i \<ge> k" "i \<le> j" for i
    using that
  proof (induction i rule: dec_induct)
    case (step i)
    then have "t \<noteq> who i" "i \<ge> K" using before [of i] assms(4) by auto
    then show ?case using settledD(4,5) [OF assms(1), of i t] step by (simp del: run_sched.simps)
  qed simp
  then show ?thesis using j by blast
qed

lemma settled_comes:
  assumes set: "settled who ok s K" and fair: "fair N who ok" and ins: "inside m s" and t: "t < N" and "k \<ge> K"
    and idle: "ann (threads (run_sched prog who ok s K) t) \<noteq> During (Spin (s_sense (cmem (run_sched prog who ok s K))))"
  shows "\<exists>j \<ge> k. ip (threads (run_sched prog who ok s j) t) = length prog"
  using assms(5)
proof (induction "rank (threads (run_sched prog who ok s k) t) (resv (run_sched prog who ok s k) t)"
    arbitrary: k rule: less_induct)
  case less
  let ?r = "run_sched prog who ok s"
  obtain j where j: "j \<ge> k" "who j = t" "threads (?r j) t = threads (?r k) t" "resv (?r j) t = resv (?r k) t"
    using settled_turn [OF set fair t less.prems] by blast
  show ?case
  proof (cases "ip (threads (?r j) t) < length prog")
    case True
    have ge: "j \<ge> K" "Suc j \<ge> K" using j(1) less.prems by auto
    have "rank (threads (?r (Suc j)) t) (resv (?r (Suc j)) t) < rank (threads (?r j) t) (resv (?r j) t)"
      using settled_stable [OF set ge(1)] settled_stable [OF set ge(2)] t idle True settledD(1) [OF set ge(1)] j(2)
      by (intro sched_rank [OF run_inside [OF ins fair]]) simp_all
    then obtain i where "i \<ge> Suc j" "ip (threads (?r i) t) = length prog"
      using less.hyps [of "Suc j"] j(3,4) ge(2) by auto
    then show ?thesis using j(1) by (intro exI [of _ i]) simp
  next
    case False
    then show ?thesis using inside_good [OF run_inside [OF ins fair] t] j(1)
      by (intro exI [of _ j]) (simp add: le_antisym)
  qed
qed

text \<open>Then no thread waits: the abstract barrier has progress.\<close>

lemma settled_idle:
  assumes set: "settled who ok s K" and fair: "fair N who ok" and ins: "inside m s" and t: "t < N"
  shows "ann (threads (run_sched prog who ok s K) t) \<noteq> During (Spin (s_sense (cmem (run_sched prog who ok s K))))"
proof -
  let ?r = "run_sched prog who ok s K"
  obtain a where a: "areach flip islast N a" "sim ?r a" and calls: "\<forall>t < N. calls ?r t = m"
    using run_inside [OF ins fair, of K] by (auto simp: inside_def)
  have lk: "linked (ann (threads ?r u)) a u m" if "u < N" for u using a(2) calls that by (simp add: sim_def)
  have mem: "cmem ?r = mem a" using a(2) by (simp add: sim_def)
  have shape: "pc a u = Out \<and> left a u = m \<and> entered a u = m \<or>
      pc a u = Spin (s_sense (mem a)) \<and> entered a u = m" if u: "u < N" for u
  proof (cases "ann (threads ?r u) = During (Spin (s_sense (cmem ?r)))")
    case True
    then show ?thesis using lk [OF u] mem by simp
  next
    case False
    obtain j where j: "j \<ge> K" "ip (threads (run_sched prog who ok s j) u) = length prog"
      using settled_comes [OF set fair ins u order_refl False] by blast
    then have "ann (threads ?r u) = After" using finish settled_stable [OF set j(1)] u by metis
    then show ?thesis using lk [OF u] by simp
  qed
  have "\<not> astep flip islast N u a a'" for u a'
  proof
    assume "astep flip islast N u a a'"
    then show False using shape [of u] by cases auto
  qed
  then have "left a t = m" using progress [OF ainv_reach [OF a(1)], of m t] shape t by blast
  then show ?thesis using lk [OF t] by auto
qed

lemma fair_returns:
  assumes ins: "inside m s" and fair: "fair N who ok"
  shows "\<exists>K. \<forall>k \<ge> K. \<forall>t < N. ip (threads (run_sched prog who ok s k) t) = length prog \<and>
    calls (run_sched prog who ok s k) t = m"
proof -
  obtain K where set: "settled who ok s K" using fair_settles [OF assms] by blast
  note comes = settled_comes [OF set fair ins _ order_refl settled_idle [OF set fair ins]]
  have "\<forall>t. \<exists>j. t < N \<longrightarrow> j \<ge> K \<and> ip (threads (run_sched prog who ok s j) t) = length prog"
    using comes by blast
  then obtain J where J: "\<And>t. t < N \<Longrightarrow> J t \<ge> K \<and> ip (threads (run_sched prog who ok s (J t)) t) = length prog"
    by metis
  have "ip (threads (run_sched prog who ok s k) t) = length prog" if "k \<ge> (\<Sum>t < N. J t)" "t < N" for k t
  proof (rule settled_stays [OF set])
    have "J t \<le> (\<Sum>t < N. J t)" using that(2) by (intro member_le_sum) auto
    then show "J t \<le> k" using that(1) by simp
  qed (use J that(2) in auto)
  moreover have "calls (run_sched prog who ok s k) t = m" if "t < N" for k t
    using run_inside [OF assms, of k] that by (simp add: inside_def)
  ultimately show ?thesis by blast
qed

lemma calls_return:
  assumes "creach prog N s" and "\<forall>t < N. calls s t = m" and "fair N who ok"
  shows "\<exists>K. \<forall>k \<ge> K. \<forall>t < N. ip (threads (run_sched prog who ok s k) t) = length prog \<and>
    returned prog (run_sched prog who ok s k) t = m"
proof -
  have "\<exists>K. \<forall>k \<ge> K. \<forall>t < N. ip (threads (run_sched prog who ok s k) t) = length prog \<and>
      calls (run_sched prog who ok s k) t = m"
    using implements [OF assms(1)] assms(2) by (intro fair_returns [OF _ assms(3)]) (simp add: inside_def)
  then show ?thesis by (metis returned_def)
qed

end

subsection \<open>The programs\<close>

text \<open>
  A thread is stale when it has to go back in its program: its reservation is lost, its
  store-conditional has failed, or it has read the sense before the reversal.
\<close>

fun stale :: "stage \<times> known list \<Rightarrow> tstate \<Rightarrow> bool \<Rightarrow> bool" where
  "stale (SDec, ks) ts rv \<longleftrightarrow> \<not> rv \<and> list_ex (\<lambda>k. case k of Linked r x \<Rightarrow> True | _ \<Rightarrow> False) ks"
| "stale (SStat b x, ks) ts rv \<longleftrightarrow> holds b ts"
| "stale (SCheck b, ks) ts rv \<longleftrightarrow> holds b ts"
| "stale _ ts rv \<longleftrightarrow> False"

definition rank_of :: "notes_t \<Rightarrow> tstate \<Rightarrow> bool \<Rightarrow> nat" where
  "rank_of anns ts rv = (length anns - ip ts) + (if stale (anns ! ip ts) ts rv then length anns else 0)"

definition instr_nearer ::
  "(u32 \<Rightarrow> u32) \<Rightarrow> (u32 \<Rightarrow> bool) \<Rightarrow> instr list \<Rightarrow> notes_t \<Rightarrow> nat \<Rightarrow> bool" where
  "instr_nearer flip islast prog anns i \<longleftrightarrow>
     (\<forall>ts m rv. ip ts = i \<longrightarrow> good_of flip anns ts m rv \<longrightarrow>
       ann_of flip islast anns ts \<noteq> During (Spin (s_sense m)) \<longrightarrow>
       (case exec True (prog ! i) (ts, m, rv) of (ts', m', rv') \<Rightarrow>
          place (ann_of flip islast anns ts') < place (ann_of flip islast anns ts) \<or>
          rank_of anns ts' rv' < rank_of anns ts rv))"

lemma live_from_notes:
  assumes "barrier_code flip islast N prog (ann_of flip islast anns) (good_of flip anns)"
    and "\<And>i. i < length prog \<Longrightarrow> instr_nearer flip islast prog anns i"
  shows "live_code flip islast N prog (ann_of flip islast anns) (good_of flip anns) (rank_of anns)"
proof (intro live_code.intro live_code_axioms.intro)
  show "barrier_code flip islast N prog (ann_of flip islast anns) (good_of flip anns)" by (rule assms(1))
  show "place (ann_of flip islast anns ts') < place (ann_of flip islast anns ts) \<or>
      rank_of anns ts' rv' < rank_of anns ts rv"
    if "ip ts < length prog" "good_of flip anns ts m rv" "ann_of flip islast anns ts \<noteq> During (Spin (s_sense m))"
      "exec True (prog ! ip ts) (ts, m, rv) = (ts', m', rv')" for ts m rv ts' m' rv'
    using assms(2) [OF that(1), unfolded instr_nearer_def, rule_format, OF refl that(2,3)] that(4) by simp
qed

lemmas near = instr_nearer_def ann_of_def good_of_def rank_of_def machine

lemma aarch64_nearer:
  assumes "i < length aarch64_wait"
  shows "instr_nearer aarch64_flip aarch64_last aarch64_wait aarch64_notes i"
proof -
  have "i < 21" using assms by (simp add: aarch64_wait_def)
  then show ?thesis
    by (cases rule: below_21) (simp_all add: near aarch64_wait_def aarch64_notes_def aarch64_flip_def aarch64_last_def)
qed

lemma arm_nearer:
  assumes "i < length arm_wait"
  shows "instr_nearer arm_flip zero_last arm_wait arm_notes i"
proof -
  have "i < 21" using assms by (simp add: arm_wait_def)
  then show ?thesis
    by (cases rule: below_21) (simp_all add: near arm_wait_def arm_notes_def arm_flip_def zero_last_def)
qed

lemma ppc_nearer:
  assumes "i < length ppc_wait"
  shows "instr_nearer arm_flip zero_last ppc_wait ppc_notes i"
proof -
  have "i < 21" using assms by (simp add: ppc_wait_def)
  then show ?thesis
    by (cases rule: below_21) (use assms in \<open>simp_all add: near ppc_wait_def ppc_notes_def arm_flip_def zero_last_def\<close>)
qed

lemma mips_nearer:
  assumes "i < length mips_wait"
  shows "instr_nearer aarch64_flip zero_last mips_wait mips_notes i"
proof -
  have "i < 21" using assms by (simp add: mips_wait_def)
  then show ?thesis
    by (cases rule: below_21) (use assms in \<open>simp_all add: near mips_wait_def mips_notes_def aarch64_flip_def zero_last_def\<close>)
qed

lemma x86_nearer:
  assumes "i < length x86_wait"
  shows "instr_nearer x86_flip zero_last x86_wait x86_notes i"
proof -
  have "i < 21" using assms by (simp add: x86_wait_def)
  then show ?thesis
    by (cases rule: below_21) (use assms in \<open>simp_all add: near x86_wait_def x86_notes_def x86_flip_def zero_last_def\<close>)
qed

lemma riscv_nearer:
  assumes "i < length riscv_wait"
  shows "instr_nearer aarch64_flip zero_last riscv_wait riscv_notes i"
proof -
  have "i < 21" using assms by (simp add: riscv_wait_def)
  then show ?thesis
    by (cases rule: below_21) (use assms in \<open>simp_all add: near riscv_wait_def riscv_notes_def aarch64_flip_def zero_last_def\<close>)
qed

interpretation aarch64_live: live_code aarch64_flip aarch64_last "nthreads k" aarch64_wait
  "ann_of aarch64_flip aarch64_last aarch64_notes" "good_of aarch64_flip aarch64_notes" "rank_of aarch64_notes" for k
  by (rule live_from_notes [OF aarch64.barrier_code_axioms aarch64_nearer])

interpretation arm_live: live_code arm_flip zero_last "nthreads k" arm_wait
  "ann_of arm_flip zero_last arm_notes" "good_of arm_flip arm_notes" "rank_of arm_notes" for k
  by (rule live_from_notes [OF arm.barrier_code_axioms arm_nearer])

interpretation ppc_live: live_code arm_flip zero_last "nthreads k" ppc_wait
  "ann_of arm_flip zero_last ppc_notes" "good_of arm_flip ppc_notes" "rank_of ppc_notes" for k
  by (rule live_from_notes [OF ppc.barrier_code_axioms ppc_nearer])

interpretation mips_live: live_code aarch64_flip zero_last "nthreads k" mips_wait
  "ann_of aarch64_flip zero_last mips_notes" "good_of aarch64_flip mips_notes" "rank_of mips_notes" for k
  by (rule live_from_notes [OF mips.barrier_code_axioms mips_nearer])

interpretation x86_live: live_code x86_flip zero_last "nthreads k" x86_wait
  "ann_of x86_flip zero_last x86_notes" "good_of x86_flip x86_notes" "rank_of x86_notes" for k
  by (rule live_from_notes [OF x86.barrier_code_axioms x86_nearer])

interpretation riscv_live: live_code aarch64_flip zero_last "nthreads k" riscv_wait
  "ann_of aarch64_flip zero_last riscv_notes" "good_of aarch64_flip riscv_notes" "rank_of riscv_notes" for k
  by (rule live_from_notes [OF riscv.barrier_code_axioms riscv_nearer])

text \<open>
  C27: the calls of \<open>barrier_wait\<close> return, on the six architectures, with any number of threads.
  Let the threads be anywhere in their \<open>m\<close>-th call (or have returned from it), after any interleaving.
  On every fair schedule of their instructions, where the store-conditionals fail without a lost
  reservation finitely often only, all the threads are out of the call from some point on.
\<close>

theorem barrier_wait_returns:
  assumes "0 < N" and "N < 2 ^ 31"
    and "prog \<in> {aarch64_wait, arm_wait, ppc_wait, mips_wait, x86_wait, riscv_wait}"
    and "creach prog N s" and "\<forall>t < N. calls s t = m" and "fair N who ok"
  shows "\<exists>K. \<forall>k \<ge> K. \<forall>t < N. ip (threads (run_sched prog who ok s k) t) = length prog \<and>
    returned prog (run_sched prog who ok s k) t = m"
proof -
  note n = nthreads_any [OF assms(1,2)]
  note returns = aarch64_live.calls_return [of "N - 1", unfolded n] arm_live.calls_return [of "N - 1", unfolded n]
    ppc_live.calls_return [of "N - 1", unfolded n] mips_live.calls_return [of "N - 1", unfolded n]
    x86_live.calls_return [of "N - 1", unfolded n] riscv_live.calls_return [of "N - 1", unfolded n]
  show ?thesis
    using assms(3-6) unfolding insert_iff empty_iff by (elim disjE) (simp_all only: returns simp_thms)
qed

theorem barrier_wait_returns_witness:
  "\<exists>K. ip (threads (run_sched riscv_wait (\<lambda>_. 0) (\<lambda>_. True) ex_called K) 0) = 16"
proof -
  have "fair 1 (\<lambda>_. 0) (\<lambda>_. True)" by (auto simp: fair_def)
  moreover have "\<forall>t < 1. calls ex_called t = 1" by (simp add: ex_called_def cinit_def)
  ultimately obtain K where "\<forall>k \<ge> K. \<forall>t < 1.
      ip (threads (run_sched riscv_wait (\<lambda>_. 0) (\<lambda>_. True) ex_called k) t) = length riscv_wait"
    using barrier_wait_returns [OF _ _ _ ex_called_reach, of 1 "\<lambda>_. 0" "\<lambda>_. True"] by auto
  then have "ip (threads (run_sched riscv_wait (\<lambda>_. 0) (\<lambda>_. True) ex_called K) 0) = length riscv_wait" by blast
  then show ?thesis by (intro exI [of _ K]) (simp add: riscv_wait_def)
qed

end
