(* ===== verification/Monitor.thy ===== *)
theory Monitor
  imports Sense
begin

section \<open>The pthread barrier and the or-flag (\<^verbatim>\<open>_utils.c\<close>)\<close>

text \<open>
  \<open>pb_wait\<close>, \<open>po_reinit\<close> and \<open>po_wait\<close> run under the mutex of their condition variable, so what
  they do up to \<open>pc_wait\<close> is one step, and so is what a thread does when it comes back from
  \<open>pc_wait\<close>.  A waiting thread comes back after a broadcast, or for no reason.  The pthread calls are
  assumed not to fail.

  The protocol is the sense-reversing barrier again: the theory shows that every function refines
  \<open>Sense\<close>, and that \<open>po_wait\<close> returns the disjunction of the arguments of all the threads.
\<close>

record pb_t =
  nprocs :: int
  count :: int
  turn :: int

record po_t = pb_t +
  val :: int

definition pb_create :: "int \<Rightarrow> pb_t" where
  "pb_create np = \<lparr>nprocs = np, count = np, turn = 0\<rparr>"

definition po_create :: "int \<Rightarrow> po_t" where
  "po_create np = \<lparr>nprocs = np, count = np, turn = 0, val = 0\<rparr>"

definition c_not :: "int \<Rightarrow> int" where
  "c_not x = (if x = 0 then 1 else 0)"

text \<open>
  From \<open>pc_lock\<close> to \<open>pc_unlock\<close> or to the first \<open>pc_wait\<close>; the flag says whether the thread passes.
  Passing broadcasts.
\<close>

definition pb_wait_enter :: "pb_t \<Rightarrow> pb_t \<times> bool" where
  "pb_wait_enter p =
     (let t = turn p;
          p = p\<lparr>count := count p - 1\<rparr>
      in if count p = 0 then (p\<lparr>count := nprocs p, turn := c_not t\<rparr>, True)
         else (p, False))"

definition po_reinit_enter :: "po_t \<Rightarrow> po_t \<times> bool" where
  "po_reinit_enter p =
     (let t = turn p;
          p = p\<lparr>count := count p - 1\<rparr>
      in if count p = 0 then (p\<lparr>count := nprocs p, val := 0, turn := c_not t\<rparr>, True)
         else (p, False))"

definition po_wait_enter :: "int \<Rightarrow> po_t \<Rightarrow> po_t \<times> bool" where
  "po_wait_enter v p =
     (let t = turn p;
          p = p\<lparr>count := count p - 1\<rparr>;
          p = p\<lparr>val := (if val p \<noteq> 0 \<or> v \<noteq> 0 then 1 else 0)\<rparr>
      in if count p = 0 then (p\<lparr>count := nprocs p, turn := c_not t\<rparr>, True)
         else (p, False))"

text \<open>The condition of the loop around \<open>pc_wait\<close>.\<close>

definition still_waits :: "'a pb_t_scheme \<Rightarrow> int \<Rightarrow> bool" where
  "still_waits p t \<longleftrightarrow> turn p = t"

subsection \<open>The threads\<close>

datatype wpc = Idle | Waiting int | Woken int

text \<open>
  \<open>results t k\<close> is the value thread \<open>t\<close> reads at the end of its \<open>k\<close>-th call (\<open>int r = p->val\<close> in
  \<open>po_wait\<close>).  It, the two
  counters and the number of rounds \<open>m_rounds\<close> are ghosts.
\<close>

record 'p mstate =
  obj :: 'p
  wpc :: "nat \<Rightarrow> wpc"
  m_entered :: "nat \<Rightarrow> nat"
  m_left :: "nat \<Rightarrow> nat"
  results :: "nat \<Rightarrow> nat \<Rightarrow> int"
  m_rounds :: nat

definition minit :: "'p \<Rightarrow> 'p mstate" where
  "minit p = \<lparr>obj = p, wpc = \<lambda>_. Idle, m_entered = \<lambda>_. 0, m_left = \<lambda>_. 0, results = \<lambda>_ _. 0,
     m_rounds = 0\<rparr>"

definition broadcast :: "(nat \<Rightarrow> wpc) \<Rightarrow> nat \<Rightarrow> wpc" where
  "broadcast w = (\<lambda>t. case w t of Waiting x \<Rightarrow> Woken x | p \<Rightarrow> p)"

definition set_wpc :: "nat \<Rightarrow> wpc \<Rightarrow> 'p mstate \<Rightarrow> 'p mstate" where
  "set_wpc t w s = s\<lparr>wpc := (wpc s)(t := w)\<rparr>"

definition finish_call :: "('p \<Rightarrow> int) \<Rightarrow> nat \<Rightarrow> 'p mstate \<Rightarrow> 'p mstate" where
  "finish_call rd t s = s\<lparr>wpc := (wpc s)(t := Idle), m_left := (m_left s)(t := m_left s t + 1),
     results := (results s)(t := (results s t)(m_left s t := rd (obj s)))\<rparr>"

inductive mstep ::
  "(nat \<Rightarrow> nat \<Rightarrow> 'p \<Rightarrow> 'p \<times> bool) \<Rightarrow> ('p \<Rightarrow> int) \<Rightarrow> ('p \<Rightarrow> int) \<Rightarrow> nat \<Rightarrow> 'p mstate \<Rightarrow> 'p mstate \<Rightarrow> bool"
  for op tn rd N where
  block: "t < N \<Longrightarrow> wpc s t = Idle \<Longrightarrow> op t (m_entered s t) (obj s) = (p, False) \<Longrightarrow>
    mstep op tn rd N s
      (set_wpc t (Waiting (tn (obj s))) (s\<lparr>obj := p, m_entered := (m_entered s)(t := m_entered s t + 1)\<rparr>))"
| through: "t < N \<Longrightarrow> wpc s t = Idle \<Longrightarrow> op t (m_entered s t) (obj s) = (p, True) \<Longrightarrow>
    mstep op tn rd N s
      (finish_call rd t (s\<lparr>obj := p, wpc := broadcast (wpc s), m_entered := (m_entered s)(t := m_entered s t + 1),
        m_rounds := m_rounds s + 1\<rparr>))"
| spurious: "t < N \<Longrightarrow> wpc s t = Waiting x \<Longrightarrow> mstep op tn rd N s (set_wpc t (Woken x) s)"
| again: "t < N \<Longrightarrow> wpc s t = Woken x \<Longrightarrow> tn (obj s) = x \<Longrightarrow> mstep op tn rd N s (set_wpc t (Waiting x) s)"
| resume: "t < N \<Longrightarrow> wpc s t = Woken x \<Longrightarrow> tn (obj s) \<noteq> x \<Longrightarrow> mstep op tn rd N s (finish_call rd t s)"

definition mreach ::
  "(nat \<Rightarrow> nat \<Rightarrow> 'p \<Rightarrow> 'p \<times> bool) \<Rightarrow> ('p \<Rightarrow> int) \<Rightarrow> ('p \<Rightarrow> int) \<Rightarrow> nat \<Rightarrow> 'p \<Rightarrow> 'p mstate \<Rightarrow> bool" where
  "mreach op tn rd N p s \<longleftrightarrow> (mstep op tn rd N)\<^sup>*\<^sup>* (minit p) s"

subsection \<open>Refinement of the abstract barrier\<close>

text \<open>The reversal of the turn and the last thread, on words.\<close>

definition not_flip :: "u32 \<Rightarrow> u32" where "not_flip x = (if x = 0 then 1 else 0)"

definition is_zero :: "u32 \<Rightarrow> bool" where "is_zero r \<longleftrightarrow> r = 0"

lemma not_flip_ok: "0 < N \<Longrightarrow> N < 2 ^ 31 \<Longrightarrow> sense_ok not_flip is_zero N"
  by (simp add: sense_ok_def not_flip_def is_zero_def)

locale turn_barrier =
  fixes op :: "nat \<Rightarrow> nat \<Rightarrow> 'p \<Rightarrow> 'p \<times> bool" and np cn tn :: "'p \<Rightarrow> int" and rd :: "'p \<Rightarrow> int"
    and N :: nat and start :: 'p
  assumes range: "0 < N" "N < 2 ^ 31"
    and start: "np start = int N" "cn start = int N" "tn start = 0"
    and op_law: "op t k p = (p', b) \<Longrightarrow> np p = int N \<Longrightarrow>
      np p' = int N \<and> b = (cn p = 1) \<and> cn p' = (if b then int N else cn p - 1) \<and> tn p' = (if b then c_not (tn p) else tn p)"
begin

fun shadow :: "wpc \<Rightarrow> apc" where
  "shadow Idle = Out"
| "shadow (Waiting x) = Spin (word_of_int x)"
| "shadow (Woken x) = Spin (word_of_int x)"

fun bit_turn :: "wpc \<Rightarrow> bool" where
  "bit_turn Idle = True"
| "bit_turn (Waiting x) = (x \<in> {0, 1})"
| "bit_turn (Woken x) = (x \<in> {0, 1})"

definition msim :: "'p mstate \<Rightarrow> astate \<Rightarrow> bool" where
  "msim s a \<longleftrightarrow> int (unat (s_c (mem a))) = cn (obj s) \<and> s_sense (mem a) = word_of_int (tn (obj s)) \<and>
     tn (obj s) \<in> {0, 1} \<and> np (obj s) = int N \<and> ainv not_flip N a \<and> rounds a = m_rounds s \<and>
     (\<forall>t < N. pc a t = shadow (wpc s t) \<and> bit_turn (wpc s t) \<and>
        entered a t = m_entered s t \<and> left a t = m_left s t)"

lemma abstract_barrier: "sense_barrier not_flip is_zero N"
  using not_flip_ok [OF range] by (simp add: sense_barrier_iff)

lemma shadow_not: "shadow w \<noteq> Dec ms" "shadow w \<noteq> Reset ms" "shadow w \<noteq> Flip ms"
  by (cases w; simp)+

lemma counter_positive: "msim s a \<Longrightarrow> s_c (mem a) \<noteq> 0"
  using sense_barrier.ainvD(6) [OF abstract_barrier, of a] shadow_not by (auto simp: msim_def)

lemma word_turn: "x \<in> {0, 1} \<Longrightarrow> y \<in> {0, 1} \<Longrightarrow> (word_of_int x :: u32) = word_of_int y \<longleftrightarrow> x = y"
  by auto

lemma not_flip_turn: "x \<in> {0, 1} \<Longrightarrow> not_flip (word_of_int x) = word_of_int (c_not x) \<and> c_not x \<in> {0, 1}"
  by (auto simp: not_flip_def c_not_def)

text \<open>The first two steps of a call.\<close>

lemma sim_enter:
  assumes "msim s a" and "t < N" and "wpc s t = Idle"
  defines "a1 \<equiv> enter t (move t (Dec (s_sense (mem a))) a)"
  defines "a2 \<equiv> move t (if cn (obj s) = 1 then Reset (s_sense (mem a)) else Spin (s_sense (mem a)))
      (set_mem ((mem a)\<lparr>s_c := s_c (mem a) - 1\<rparr>) a1)"
  shows "(any_step not_flip is_zero N)\<^sup>*\<^sup>* a a2"
    and "int (unat (s_c (mem a) - 1)) = cn (obj s) - 1"
proof -
  have c: "s_c (mem a) \<noteq> 0" "int (unat (s_c (mem a))) = cn (obj s)"
    using counter_positive [OF assms(1)] assms(1) by (auto simp: msim_def)
  then show dec: "int (unat (s_c (mem a) - 1)) = cn (obj s) - 1"
    by (simp add: unat_minus_one of_nat_diff Suc_le_eq unat_gt_0)
  have zero: "is_zero (s_c (mem a) - 1) \<longleftrightarrow> cn (obj s) = 1"
  proof -
    have "is_zero (s_c (mem a) - 1) \<longleftrightarrow> int (unat (s_c (mem a) - 1)) = 0"
      by (simp only: is_zero_def of_nat_eq_0_iff unat_eq_zero)
    then show ?thesis unfolding dec by linarith
  qed
  have "arrive N t a a1" unfolding a1_def using assms(1-3) by (intro arrive.intros) (auto simp: msim_def)
  moreover have "astep not_flip is_zero N t a1 a2"
    using astep.decr [of t N a1 "s_sense (mem a)" _ not_flip is_zero, OF assms(2) _ refl]
    by (simp add: a1_def a2_def updates zero)
  ultimately have "any_step not_flip is_zero N a a1" "any_step not_flip is_zero N a1 a2"
    by (auto simp: any_step_def)
  then show "(any_step not_flip is_zero N)\<^sup>*\<^sup>* a a2" by (meson rtranclp.rtrancl_into_rtrancl rtranclp.rtrancl_refl)
qed

lemma ainv_steps: "(any_step not_flip is_zero N)\<^sup>*\<^sup>* a a' \<Longrightarrow> ainv not_flip N a \<Longrightarrow> ainv not_flip N a'"
  by (induction rule: rtranclp_induct) (auto intro: sense_barrier.ainv_step [OF abstract_barrier])

lemma sim_block:
  assumes "msim s a" and "t < N" and "wpc s t = Idle" and "op t (m_entered s t) (obj s) = (p, False)"
  shows "\<exists>a'. (any_step not_flip is_zero N)\<^sup>*\<^sup>* a a' \<and>
    msim (set_wpc t (Waiting (tn (obj s))) (s\<lparr>obj := p, m_entered := (m_entered s)(t := m_entered s t + 1)\<rparr>)) a'"
proof -
  have p: "cn (obj s) \<noteq> 1" "cn p = cn (obj s) - 1" "tn p = tn (obj s)" "np p = int N"
    using op_law [OF assms(4)] assms(1) by (auto simp: msim_def)
  define a2 where "a2 = move t (Spin (s_sense (mem a)))
    (set_mem ((mem a)\<lparr>s_c := s_c (mem a) - 1\<rparr>) (enter t (move t (Dec (s_sense (mem a))) a)))"
  have "(any_step not_flip is_zero N)\<^sup>*\<^sup>* a a2"
    using sim_enter(1) [OF assms(1-3)] p(1) by (simp add: a2_def)
  moreover have "ainv not_flip N a2" using ainv_steps [OF calculation] assms(1) by (simp add: msim_def)
  moreover have "int (unat (s_c (mem a2))) = cn p"
    using sim_enter(2) [OF assms(1-3)] p(2) by (simp add: a2_def updates)
  ultimately show ?thesis using assms(1-3) p(3,4)
    by (intro exI [of _ a2]) (auto simp: msim_def a2_def updates set_wpc_def)
qed

lemma bit_broadcast: "bit_turn w \<Longrightarrow> shadow (case w of Waiting x \<Rightarrow> Woken x | q \<Rightarrow> q) = shadow w \<and>
    bit_turn (case w of Waiting x \<Rightarrow> Woken x | q \<Rightarrow> q)"
  by (cases w) auto

lemma sim_through:
  assumes "msim s a" and "t < N" and "wpc s t = Idle" and "op t (m_entered s t) (obj s) = (p, True)"
  shows "\<exists>a'. (any_step not_flip is_zero N)\<^sup>*\<^sup>* a a' \<and> msim (finish_call rd t
    (s\<lparr>obj := p, wpc := broadcast (wpc s), m_entered := (m_entered s)(t := m_entered s t + 1),
        m_rounds := m_rounds s + 1\<rparr>)) a'"
proof -
  let ?ms = "s_sense (mem a)"
  have p: "cn (obj s) = 1" "cn p = int N" "tn p = c_not (tn (obj s))" "np p = int N"
    using op_law [OF assms(4)] assms(1) by (auto simp: msim_def)
  define a2 where "a2 = move t (Reset ?ms)
    (set_mem ((mem a)\<lparr>s_c := s_c (mem a) - 1\<rparr>) (enter t (move t (Dec ?ms) a)))"
  define a3 where "a3 = move t (Flip ?ms) (set_mem ((mem a2)\<lparr>s_c := s_n (mem a2)\<rparr>) a2)"
  define a4 where "a4 = leave t (move t Out (set_mem ((mem a3)\<lparr>s_sense := not_flip ?ms\<rparr>) a3))\<lparr>rounds := rounds a3 + 1\<rparr>"
  have "(any_step not_flip is_zero N)\<^sup>*\<^sup>* a a2"
    using sim_enter(1) [OF assms(1-3)] p(1) by (simp add: a2_def)
  moreover have "astep not_flip is_zero N t a2 a3"
    unfolding a3_def by (rule astep.reset) (use assms(2) in \<open>simp_all add: a2_def updates\<close>)
  moreover have "astep not_flip is_zero N t a3 a4"
    unfolding a4_def by (rule astep.reverse) (use assms(2) in \<open>simp_all add: a3_def updates\<close>)
  ultimately have reach: "(any_step not_flip is_zero N)\<^sup>*\<^sup>* a a4"
    by (meson any_step_def rtranclp.rtrancl_into_rtrancl)
  then have inv: "ainv not_flip N a4" using ainv_steps assms(1) by (simp add: msim_def)
  have "s_n (mem a) = of_nat N" using sense_barrier.ainvD(1) [OF abstract_barrier] assms(1) by (simp add: msim_def)
  then have mem: "mem a4 = \<lparr>s_c = of_nat N, s_sense = not_flip ?ms, s_n = of_nat N\<rparr>"
    by (simp add: a4_def a3_def a2_def updates)
  have "unat (of_nat N :: u32) = N" using range(2) by (simp add: unat_of_nat take_bit_nat_eq_self)
  moreover have "not_flip ?ms = word_of_int (tn p) \<and> tn p \<in> {0, 1}"
    using not_flip_turn [of "tn (obj s)"] assms(1) p(3) by (simp add: msim_def)
  moreover have "rounds a4 = rounds a + 1" by (simp add: a4_def a3_def a2_def updates)
  moreover have "pc a4 u = (if u = t then Out else pc a u)" "entered a4 u = (if u = t then entered a t + 1 else entered a u)"
      "left a4 u = (if u = t then left a t + 1 else left a u)" for u
    by (simp_all add: a4_def a3_def a2_def updates)
  ultimately have "msim (finish_call rd t
    (s\<lparr>obj := p, wpc := broadcast (wpc s), m_entered := (m_entered s)(t := m_entered s t + 1),
        m_rounds := m_rounds s + 1\<rparr>)) a4"
    using assms(1,2) p(2,4) inv mem bit_broadcast
    unfolding msim_def finish_call_def broadcast_def by simp
  with reach show ?thesis by blast
qed

lemma sim_step:
  assumes "msim s a" and "mstep op tn rd N s s'"
  shows "\<exists>a'. (any_step not_flip is_zero N)\<^sup>*\<^sup>* a a' \<and> msim s' a'"
  using assms(2)
proof cases
  case (block t p)
  then show ?thesis using sim_block [OF assms(1)] by blast
next
  case (through t p)
  then show ?thesis using sim_through [OF assms(1)] by blast
next
  case (spurious t x)
  then have "msim s' a" using assms(1) by (auto simp: msim_def set_wpc_def)
  then show ?thesis by blast
next
  case (again t x)
  then have "msim s' a" using assms(1) by (auto simp: msim_def set_wpc_def)
  then show ?thesis by blast
next
  case (resume t x)
  have t: "pc a t = Spin (word_of_int x)" "x \<in> {0, 1}" using assms(1) resume by (auto simp: msim_def)
  have "s_sense (mem a) \<noteq> word_of_int x"
    using assms(1) resume(4) word_turn [of "tn (obj s)" x] t(2) by (simp add: msim_def)
  then have step: "any_step not_flip is_zero N a (leave t (move t Out a))"
    using astep.pass [OF resume(2) t(1)] by (auto simp: any_step_def)
  then have "ainv not_flip N (leave t (move t Out a))"
    using assms(1) ainv_steps [OF r_into_rtranclp] by (simp add: msim_def)
  then have "msim s' (leave t (move t Out a))"
    using assms(1) unfolding resume(1) by (auto simp: msim_def finish_call_def updates)
  then show ?thesis using step by blast
qed

lemma sim_init: "msim (minit start) (ainit N)"
  using sense_barrier.ainv_init [OF abstract_barrier] start range
  by (simp add: msim_def minit_def ainit_def barrier_init_def unat_of_nat take_bit_nat_eq_self)

lemma implements:
  "mreach op tn rd N start s \<Longrightarrow> \<exists>a. areach not_flip is_zero N a \<and> msim s a"
  unfolding mreach_def
proof (induction rule: rtranclp_induct)
  case base
  then show ?case using sim_init by (auto simp: areach_def)
next
  case (step s s')
  then obtain a where "areach not_flip is_zero N a" "msim s a" by blast
  moreover obtain a' where "(any_step not_flip is_zero N)\<^sup>*\<^sup>* a a'" "msim s' a'"
    using sim_step [OF calculation(2) step(2)] by blast
  ultimately show ?case unfolding areach_def by (meson rtranclp_trans)
qed

text \<open>No thread leaves a call that another one has not entered.\<close>

lemma no_early:
  assumes "mreach op tn rd N start s" and "t < N" and "u < N"
  shows "m_left s t \<le> m_entered s u"
proof -
  obtain a where a: "ainv not_flip N a" "msim s a" using implements [OF assms(1)] by (auto simp: msim_def)
  have "left a t \<le> entered a u"
    using sense_barrier.inv_no_early [OF abstract_barrier a(1) assms(2,3)] .
  moreover have "left a t = m_left s t" "entered a u = m_entered s u" using a(2) assms(2,3) by (simp_all add: msim_def)
  ultimately show ?thesis by simp
qed

text \<open>A thread that is not woken has nothing to wake up for.\<close>

lemma no_lost_wakeup:
  assumes "mreach op tn rd N start s" and "wpc s t = Waiting x"
  shows "tn (obj s) = x"
  using assms unfolding mreach_def
proof (induction arbitrary: t x rule: rtranclp_induct)
  case base
  then show ?case by (simp add: minit_def)
next
  case (step s s')
  obtain a where "msim s a" using step.hyps(1) implements by (auto simp: mreach_def)
  then have np: "np (obj s) = int N" by (simp add: msim_def)
  from step.hyps(2) show ?case
  proof cases
    case (block u p)
    then show ?thesis using step.IH step.prems op_law [OF block(4) np]
      by (auto simp: set_wpc_def split: if_splits)
  next
    case (through u p)
    then show ?thesis using step.prems
      by (auto simp: finish_call_def broadcast_def split: if_splits wpc.splits)
  qed (use step.IH step.prems in \<open>auto simp: set_wpc_def finish_call_def split: if_splits\<close>)
qed

text \<open>When all threads have entered, one can go on until all have left.\<close>

lemma opens:
  assumes reach: "mreach op tn rd N start s" and m: "\<forall>t < N. m_entered s t = m" and "t < N" "m_left s t \<noteq> m"
  shows "\<exists>u < N. \<exists>x. wpc s u = Woken x \<and> tn (obj s) \<noteq> x"
proof -
  obtain a where a: "msim s a" using implements [OF reach] by blast
  then obtain u a' where "astep not_flip is_zero N u a a'"
    using sense_barrier.progress [OF abstract_barrier, of a m t] m assms(3,4) by (auto simp: msim_def)
  then show ?thesis
  proof cases
    case (pass ms)
    then have u: "shadow (wpc s u) = Spin ms" using a by (auto simp: msim_def)
    then obtain x where x: "wpc s u = Waiting x \<or> wpc s u = Woken x" "ms = word_of_int x"
      by (cases "wpc s u") auto
    then have "tn (obj s) \<noteq> x" using a pass by (auto simp: msim_def)
    then show ?thesis using x(1) no_lost_wakeup [OF reach] pass(2) by blast
  qed (use a shadow_not in \<open>auto simp: msim_def\<close>)
qed

text \<open>Where the threads are relative to the number of rounds.\<close>

lemma around:
  assumes reach: "mreach op tn rd N start s" and t: "t < N"
  shows "wpc s t = Idle \<Longrightarrow> m_left s t = m_rounds s \<and> m_entered s t = m_rounds s"
    and "wpc s t = Woken x \<Longrightarrow> tn (obj s) \<noteq> x \<Longrightarrow> m_left s t + 1 = m_rounds s"
    and "m_rounds s \<le> m_entered s t \<and> m_entered s t \<le> m_rounds s + 1"
proof -
  obtain a where a: "msim s a" using implements [OF reach] by blast
  have inv: "ainv not_flip N a" and R: "rounds a = m_rounds s" and
    here: "pc a t = shadow (wpc s t)" "bit_turn (wpc s t)" "entered a t = m_entered s t" "left a t = m_left s t"
    using a t by (simp_all add: msim_def)
  note D = sense_barrier.ainvD(3,4) [OF abstract_barrier inv t]
  show "wpc s t = Idle \<Longrightarrow> m_left s t = m_rounds s \<and> m_entered s t = m_rounds s"
    using D here R by simp
  show "m_left s t + 1 = m_rounds s" if "wpc s t = Woken x" "tn (obj s) \<noteq> x"
  proof -
    have "s_sense (mem a) \<noteq> word_of_int x"
      using a that here(2) word_turn [of "tn (obj s)" x] by (simp add: msim_def)
    then show ?thesis using D(1) here R that by simp
  qed
  show "m_rounds s \<le> m_entered s t \<and> m_entered s t \<le> m_rounds s + 1"
    using D here R by (cases "wpc s t") auto
qed

lemma np_const: "mreach op tn rd N start s \<Longrightarrow> np (obj s) = int N"
  using implements by (auto simp: msim_def)

end

subsection \<open>The three functions\<close>

text \<open>A barrier of \<open>pb_wait\<close> only; the calls of an or-flag are \<open>po_reinit\<close>, \<open>po_wait\<close>, in turn.\<close>

definition pb_op :: "nat \<Rightarrow> nat \<Rightarrow> pb_t \<Rightarrow> pb_t \<times> bool" where
  "pb_op t k p = pb_wait_enter p"

definition po_op :: "(nat \<Rightarrow> nat \<Rightarrow> int) \<Rightarrow> nat \<Rightarrow> nat \<Rightarrow> po_t \<Rightarrow> po_t \<times> bool" where
  "po_op v t k p = (if even k then po_reinit_enter p else po_wait_enter (v t k) p)"

interpretation pb: turn_barrier pb_op nprocs count turn "\<lambda>_. 0" "nthreads i" "pb_create (int (nthreads i))" for i
  by unfold_locales
    (use nthreads_range [of i] in \<open>auto simp: pb_create_def pb_op_def pb_wait_enter_def Let_def split: if_splits\<close>)

interpretation po: turn_barrier "po_op v" nprocs count turn val "nthreads i" "po_create (int (nthreads i))" for v i
  by unfold_locales
    (use nthreads_range [of i] in \<open>auto simp: po_create_def po_op_def po_reinit_enter_def po_wait_enter_def Let_def split: if_splits\<close>)

subsection \<open>The value of the or-flag\<close>

definition any_set :: "(nat \<Rightarrow> nat \<Rightarrow> int) \<Rightarrow> nat \<Rightarrow> nat \<Rightarrow> bool" where
  "any_set v N k \<longleftrightarrow> (\<exists>u < N. v u k \<noteq> 0)"

text \<open>
  In a round of \<open>po_wait\<close> the flag collects the values of the threads that have come; in the round of
  \<open>po_reinit\<close> that follows it still has the disjunction of all.
\<close>

definition flag_ok :: "(nat \<Rightarrow> nat \<Rightarrow> int) \<Rightarrow> nat \<Rightarrow> po_t mstate \<Rightarrow> bool" where
  "flag_ok v N s \<longleftrightarrow>
     (let R = m_rounds s in
      (odd R \<longrightarrow> (val (obj s) \<noteq> 0 \<longleftrightarrow> (\<exists>u < N. m_entered s u = R + 1 \<and> v u R \<noteq> 0))) \<and>
      (even R \<and> 0 < R \<longrightarrow> (val (obj s) \<noteq> 0 \<longleftrightarrow> any_set v N (R - 1))))"

definition results_ok :: "(nat \<Rightarrow> nat \<Rightarrow> int) \<Rightarrow> nat \<Rightarrow> po_t mstate \<Rightarrow> bool" where
  "results_ok v N s \<longleftrightarrow>
     (\<forall>t < N. \<forall>k < m_left s t. odd k \<longrightarrow> (results s t k \<noteq> 0 \<longleftrightarrow> any_set v N k))"

lemma po_enter_val:
  assumes "po_op v t k p = (p', b)"
  shows "val p' = (if even k then if b then 0 else val p
    else if val p \<noteq> 0 \<or> v t k \<noteq> 0 then 1 else 0)"
  using assms by (auto simp: po_op_def po_reinit_enter_def po_wait_enter_def Let_def split: if_splits)

lemma flag_block:
  assumes "flag_ok v N s" and "t < N" and "wpc s t = Idle" and "m_entered s t = m_rounds s"
    and "po_op v t (m_entered s t) (obj s) = (p, False)"
  shows "flag_ok v N (set_wpc t w (s\<lparr>obj := p, m_entered := (m_entered s)(t := m_entered s t + 1)\<rparr>))"
proof (cases "even (m_rounds s)")
  case True
  then show ?thesis using assms po_enter_val [OF assms(5)] by (auto simp: flag_ok_def set_wpc_def)
next
  case False
  then have "val p \<noteq> 0 \<longleftrightarrow> (\<exists>u < N. m_entered s u = m_rounds s + 1 \<and> v u (m_rounds s) \<noteq> 0) \<or> v t (m_rounds s) \<noteq> 0"
    using assms po_enter_val [OF assms(5)] by (auto simp: flag_ok_def Let_def)
  then show ?thesis using False assms(2,4) by (auto simp: flag_ok_def set_wpc_def Let_def)
qed

text \<open>The last thread: all the others have entered the round.\<close>

lemma flag_through:
  assumes "flag_ok v N s" and "t < N" and "m_entered s t = m_rounds s"
    and "\<And>u. u < N \<Longrightarrow> u \<noteq> t \<Longrightarrow> m_entered s u = m_rounds s + 1"
    and "po_op v t (m_entered s t) (obj s) = (p, True)"
  defines "s' \<equiv> finish_call val t (s\<lparr>obj := p, wpc := broadcast (wpc s),
      m_entered := (m_entered s)(t := m_entered s t + 1), m_rounds := m_rounds s + 1\<rparr>)"
  shows "flag_ok v N s'" and "odd (m_rounds s) \<Longrightarrow> val p \<noteq> 0 \<longleftrightarrow> any_set v N (m_rounds s)"
proof -
  note new = po_enter_val [OF assms(5)]
  show odd: "val p \<noteq> 0 \<longleftrightarrow> any_set v N (m_rounds s)" if "odd (m_rounds s)"
    using that new assms(1-4) unfolding flag_ok_def any_set_def Let_def by auto
  show "flag_ok v N s'"
  proof (cases "even (m_rounds s)")
    case True
    have "m_entered s' u \<noteq> m_rounds s + 2" if "u < N" for u
      using assms(3) assms(4) [OF that] by (cases "u = t") (auto simp: s'_def finish_call_def)
    moreover have "m_rounds s' = m_rounds s + 1" "obj s' = p" by (simp_all add: s'_def finish_call_def)
    moreover have "val p = 0" using True new assms(3) by simp
    ultimately show ?thesis using True by (auto simp: flag_ok_def Let_def)
  next
    case False
    then show ?thesis using odd by (simp add: flag_ok_def s'_def finish_call_def)
  qed
qed

lemma results_finish:
  assumes "results_ok v N s" and "odd (m_left s t) \<Longrightarrow> val (obj s) \<noteq> 0 \<longleftrightarrow> any_set v N (m_left s t)"
  shows "results_ok v N (finish_call val t s)"
  using assms by (auto simp: results_ok_def finish_call_def less_Suc_eq)

lemma po_inv:
  assumes "mreach (po_op v) turn val (nthreads i) (po_create (int (nthreads i))) s"
  shows "flag_ok v (nthreads i) s \<and> results_ok v (nthreads i) s"
  using assms unfolding mreach_def
proof (induction rule: rtranclp_induct)
  case base
  then show ?case by (simp add: flag_ok_def results_ok_def minit_def)
next
  case (step s s')
  have reach: "mreach (po_op v) turn val (nthreads i) (po_create (int (nthreads i))) s"
    using step.hyps(1) by (simp add: mreach_def)
  have reach': "mreach (po_op v) turn val (nthreads i) (po_create (int (nthreads i))) s'"
    using step.hyps unfolding mreach_def by (rule rtranclp.rtrancl_into_rtrancl)
  note here = po.around [OF reach]
  have flag: "flag_ok v (nthreads i) s" and res: "results_ok v (nthreads i) s" using step.IH by auto
  from step.hyps(2) show ?case
  proof cases
    case (block t p)
    have "m_entered s t = m_rounds s" using here(1) [OF block(2,3)] by simp
    from flag_block [OF flag block(2,3) this block(4)] res show ?thesis
      by (simp add: block(1) results_ok_def set_wpc_def)
  next
    case (through t p)
    have t: "m_entered s t = m_rounds s" "m_left s t = m_rounds s" using here(1) [OF through(2,3)] by auto
    have others: "m_entered s u = m_rounds s + 1" if "u < nthreads i" "u \<noteq> t" for u
      using po.around(3) [OF reach' that(1)] here(3) [OF that(1)] that(2)
      by (simp add: through(1) finish_call_def)
    note last = flag_through [OF flag through(2) t(1) others through(4)]
    show ?thesis unfolding through(1)
      using last res t by (intro conjI results_finish) (auto simp: results_ok_def)
  next
    case (resume t x)
    have left: "m_left s t + 1 = m_rounds s" using here(2) [OF resume(2,3,4)] .
    have "val (obj s) \<noteq> 0 \<longleftrightarrow> any_set v (nthreads i) (m_left s t)" if odd: "odd (m_left s t)"
    proof -
      have "even (m_rounds s)" "0 < m_rounds s" "m_rounds s - 1 = m_left s t" using left odd by presburger+
      then show ?thesis using flag by (simp add: flag_ok_def Let_def)
    qed
    then show ?thesis unfolding resume(1)
      using flag res by (intro conjI results_finish) (auto simp: flag_ok_def finish_call_def)
  qed (use flag res in \<open>simp_all add: flag_ok_def results_ok_def set_wpc_def\<close>)
qed

text \<open>
  C26: \<open>pb_wait\<close> is a barrier: with any number of threads, any interleaving and spurious wake-ups, no
  call returns before all threads have made as many calls; and when all have, no thread is left
  waiting without a wake-up: one of those still inside is woken and passes.
\<close>

theorem pb_wait_barrier:
  assumes "0 < N" and "N < 2 ^ 31" and "mreach pb_op turn (\<lambda>_. 0) N (pb_create (int N)) s"
  shows "(\<forall>t < N. \<forall>u < N. m_left s t \<le> m_entered s u) \<and>
    (\<forall>m. (\<forall>t < N. m_entered s t = m) \<and> (\<exists>t < N. m_left s t \<noteq> m) \<longrightarrow>
      (\<exists>u < N. \<exists>x. wpc s u = Woken x \<and> \<not> still_waits (obj s) x))"
proof -
  have reach: "mreach pb_op turn (\<lambda>_. 0) (nthreads (N - 1)) (pb_create (int (nthreads (N - 1)))) s"
    using assms nthreads_any by simp
  show ?thesis
    using pb.no_early [OF reach] pb.opens [OF reach] nthreads_any [OF assms(1,2)]
    unfolding still_waits_def by metis
qed

text \<open>
  C25: the or-flag, used as \<open>po_reinit\<close>, \<open>po_wait\<close>, \<open>po_reinit\<close>, \<dots> by all threads: every \<open>po_wait\<close>
  returns non-zero to every thread exactly when some thread gave it a non-zero value in that round.
\<close>

theorem po_wait_disjunction:
  assumes "0 < N" and "N < 2 ^ 31" and "mreach (po_op v) turn val N (po_create (int N)) s"
    and "t < N" and "odd k" and "k < m_left s t"
  shows "results s t k \<noteq> 0 \<longleftrightarrow> (\<exists>u < N. v u k \<noteq> 0)"
  using po_inv [of v "N - 1" s] assms nthreads_any [OF assms(1,2)]
  by (auto simp: results_ok_def any_set_def)

subsection \<open>Runs\<close>

text \<open>The next step of a thread, as a function; a schedule is a list of threads.\<close>

definition mnext ::
  "(nat \<Rightarrow> nat \<Rightarrow> 'p \<Rightarrow> 'p \<times> bool) \<Rightarrow> ('p \<Rightarrow> int) \<Rightarrow> ('p \<Rightarrow> int) \<Rightarrow> nat \<Rightarrow> 'p mstate \<Rightarrow> 'p mstate" where
  "mnext op tn rd t s =
     (case wpc s t of
        Idle \<Rightarrow>
          (case op t (m_entered s t) (obj s) of
             (p, True) \<Rightarrow> finish_call rd t (s\<lparr>obj := p, wpc := broadcast (wpc s),
               m_entered := (m_entered s)(t := m_entered s t + 1), m_rounds := m_rounds s + 1\<rparr>)
           | (p, False) \<Rightarrow> set_wpc t (Waiting (tn (obj s)))
               (s\<lparr>obj := p, m_entered := (m_entered s)(t := m_entered s t + 1)\<rparr>))
      | Waiting x \<Rightarrow> set_wpc t (Woken x) s
      | Woken x \<Rightarrow> if tn (obj s) = x then set_wpc t (Waiting x) s else finish_call rd t s)"

lemma mnext_step: "t < N \<Longrightarrow> mstep op tn rd N s (mnext op tn rd t s)"
proof (cases "wpc s t")
  case Idle
  obtain p b where "op t (m_entered s t) (obj s) = (p, b)" by (cases "op t (m_entered s t) (obj s)")
  then show "t < N \<Longrightarrow> ?thesis"
    using Idle mstep.block [of t N s op p tn rd] mstep.through [of t N s op p tn rd]
    by (cases b) (simp_all add: mnext_def)
qed (auto simp: mnext_def intro: mstep.intros)

lemma schedule_reach:
  "\<forall>t \<in> set ts. t < N \<Longrightarrow> mreach op tn rd N p (fold (mnext op tn rd) ts (minit p))"
proof (induction ts rule: rev_induct)
  case (snoc t ts)
  then show ?case unfolding mreach_def
    by (auto intro: rtranclp.rtrancl_into_rtrancl mnext_step)
qed (simp add: mreach_def)

lemmas run_eval = mnext_def set_wpc_def finish_call_def broadcast_def minit_def Let_def c_not_def

text \<open>Two threads; the second one comes last in both rounds.\<close>

definition ex_pb :: "pb_t mstate" where
  "ex_pb = fold (mnext pb_op turn (\<lambda>_. 0)) [0, 1] (minit (pb_create 2))"

theorem pb_wait_barrier_witness:
  "m_entered ex_pb 0 = 1 \<and> m_left ex_pb 0 = 0 \<and> m_left ex_pb 1 \<le> m_entered ex_pb 0 \<and>
   (\<exists>u < 2. \<exists>x. wpc ex_pb u = Woken x \<and> \<not> still_waits (obj ex_pb) x)"
proof -
  have s: "m_entered ex_pb = (\<lambda>_. 0)(0 := 1, 1 := 1)" "m_left ex_pb = (\<lambda>_. 0)(1 := 1)"
    by (simp_all add: ex_pb_def run_eval pb_op_def pb_wait_enter_def pb_create_def)
  have "mreach pb_op turn (\<lambda>_. 0) 2 (pb_create (int 2)) ex_pb"
    unfolding ex_pb_def using schedule_reach [of "[0, 1]" 2] by simp
  then have all: "(\<forall>t < 2. \<forall>u < 2. m_left ex_pb t \<le> m_entered ex_pb u) \<and>
    (\<forall>m. (\<forall>t < 2. m_entered ex_pb t = m) \<and> (\<exists>t < 2. m_left ex_pb t \<noteq> m) \<longrightarrow>
      (\<exists>u < 2. \<exists>x. wpc ex_pb u = Woken x \<and> \<not> still_waits (obj ex_pb) x))"
    by (intro pb_wait_barrier) simp_all
  have "\<forall>t < 2. m_entered ex_pb t = 1" "m_left ex_pb 0 = 0" using s by (auto simp: less_2_cases_iff)
  moreover from this have "\<exists>t < 2. m_left ex_pb t \<noteq> 1" by (intro exI [of _ 0]) simp
  ultimately have "\<exists>u < 2. \<exists>x. wpc ex_pb u = Woken x \<and> \<not> still_waits (obj ex_pb) x"
    using all by blast
  moreover have "m_left ex_pb 1 \<le> m_entered ex_pb 0"
    using conjunct1 [OF all, rule_format, of 1 0] by simp
  ultimately show ?thesis using s by simp
qed

definition ex_po :: "po_t mstate" where
  "ex_po = fold (mnext (po_op (\<lambda>t k. 7 * int t)) turn val) [0, 1, 0, 0, 1, 0] (minit (po_create 2))"

theorem po_wait_disjunction_witness:
  "m_left ex_po 0 = 2 \<and> results ex_po 0 1 \<noteq> 0"
proof -
  have left: "m_left ex_po 0 = 2"
    by (simp add: ex_po_def run_eval po_op_def po_reinit_enter_def po_wait_enter_def po_create_def)
  have "mreach (po_op (\<lambda>t k. 7 * int t)) turn val 2 (po_create (int 2)) ex_po"
    unfolding ex_po_def using schedule_reach [of "[0, 1, 0, 0, 1, 0]" 2] by simp
  then have "results ex_po 0 1 \<noteq> 0 \<longleftrightarrow> (\<exists>u < 2. 7 * int u \<noteq> 0)"
    using left by (intro po_wait_disjunction) simp_all
  moreover have "\<exists>u < 2. 7 * int u \<noteq> 0" by (intro exI [of _ 1]) simp
  ultimately show ?thesis using left by simp
qed

end
