(* ===== verification/Pool.thy ===== *)
theory Pool
  imports Litmus_Base
begin

section \<open>One-place buffers and the pool of cached threads (\<^verbatim>\<open>_utils.c\<close>)\<close>

text \<open>
  A detached task reports its result through a one-place buffer.  With the thread cache, tasks go
  to a pool: \<open>pool_put\<close> starts a new thread or, when a thread is waiting, leaves the task in a table;
  a cached thread runs its task, then asks for the next one with \<open>pool_get\<close>.  The critical sections
  are atomic, since they run under a mutex; \<open>pc_wait\<close>, which releases it, is where a thread blocks.  The pthread calls
  and \<open>realloc\<close> are assumed not to fail.
\<close>

subsection \<open>One-place buffer\<close>

text \<open>
  One thread gets the value of a buffer.  Its state belongs to the buffer here: it has not called \<open>op_get\<close>, it sleeps in \<open>pc_wait\<close> on the
  condition variable of the buffer, or it has been woken up and has to take the lock again.
\<close>

datatype getter = Absent | Asleep | Woken

record 'v op_t =
  op_val :: "'v option"
  some :: bool
  getter :: getter

definition op_create :: "'v op_t" where
  "op_create = \<lparr>op_val = None, some = False, getter = Absent\<rparr>"

text \<open>\<open>pc_signal\<close> and \<open>pc_wait\<close> on the condition variable of the buffer; a signal for no one is lost.\<close>

definition op_signal :: "'v op_t \<Rightarrow> 'v op_t" where
  "op_signal p = (if getter p = Asleep then p\<lparr>getter := Woken\<rparr> else p)"

definition op_sleep :: "'v op_t \<Rightarrow> 'v op_t" where
  "op_sleep p = p\<lparr>getter := Asleep\<rparr>"

definition op_set :: "'v op_t \<Rightarrow> 'v \<Rightarrow> 'v op_t res" where
  "op_set p v =
     (if some p then Inl (Fatal ''op_set'')
      else Inr (op_signal (p\<lparr>op_val := Some v, some := True\<rparr>)))"

text \<open>
  One turn of the loop of \<open>op_get\<close>, by a thread that is not asleep: \<open>None\<close> when it has gone to sleep.
\<close>

definition op_get :: "'v op_t \<Rightarrow> 'v option option \<times> 'v op_t" where
  "op_get p =
     (if \<not> some p then (None, op_sleep p)
      else (let v = op_val p in (Some v, p\<lparr>op_val := None, some := False, getter := Absent\<rparr>)))"

subsection \<open>The table of tasks\<close>

record 'd table_t =
  sz :: nat
  nxt :: nat
  cells :: "'d list"

definition table_create :: "'d table_t" where
  "table_create = \<lparr>sz = 0, nxt = 0, cells = []\<rparr>"

text \<open>\<open>realloc\<close> keeps the cells that fit and adds cells of any contents (\<open>fresh\<close>).\<close>

definition realloc :: "(nat \<Rightarrow> 'd) \<Rightarrow> 'd list \<Rightarrow> nat \<Rightarrow> 'd list" where
  "realloc fresh xs k = take k xs @ map fresh [length xs..<k]"

definition table_push :: "(nat \<Rightarrow> 'd) \<Rightarrow> 'd table_t \<Rightarrow> 'd \<Rightarrow> 'd table_t res" where
  "table_push fresh t p =
     (let t = (if nxt t \<ge> sz t
               then (let s = 2 * sz t + 1 in t\<lparr>sz := s, cells := realloc fresh (cells t) s\<rparr>)
               else t)
      in bind_res (aset (cells t) (int (nxt t)) p) (\<lambda>c. Inr (t\<lparr>cells := c, nxt := nxt t + 1\<rparr>)))"

definition table_pop :: "'d table_t \<Rightarrow> ('d \<times> 'd table_t) res" where
  "table_pop t =
     bind_res (aget (cells t) (int (nxt t) - 1)) (\<lambda>x. Inr (x, t\<lparr>nxt := nxt t - 1\<rparr>))"

definition table_inv :: "'d table_t \<Rightarrow> bool" where
  "table_inv t \<longleftrightarrow> length (cells t) = sz t \<and> nxt t \<le> sz t"

text \<open>The table is a stack.\<close>

definition stack_of :: "'d table_t \<Rightarrow> 'd list" where
  "stack_of t = take (nxt t) (cells t)"

lemma length_realloc [simp]: "length (realloc fresh xs k) = k"
  by (simp add: realloc_def)

lemma take_realloc: "j \<le> length xs \<Longrightarrow> j \<le> k \<Longrightarrow> take j (realloc fresh xs k) = take j xs"
  by (simp add: realloc_def)

lemma table_push_ok:
  assumes "table_inv t"
  shows "\<exists>t'. table_push fresh t p = Inr t' \<and> table_inv t' \<and> stack_of t' = stack_of t @ [p] \<and>
    nxt t' = nxt t + 1"
  using assms
  by (auto simp: table_push_def table_inv_def stack_of_def Let_def take_realloc take_Suc_conv_app_nth
      nth_append take_update_cancel)

lemma table_pop_ok:
  assumes "table_inv t" and "nxt t \<noteq> 0"
  shows "\<exists>x t'. table_pop t = Inr (x, t') \<and> table_inv t' \<and> stack_of t = stack_of t' @ [x] \<and>
    nxt t = nxt t' + 1"
proof -
  have "aget (cells t) (int (nxt t) - 1) = Inr (cells t ! (nxt t - 1))"
    using assms by (auto simp: aget_def table_inv_def nat_diff_distrib)
  moreover have "take (nxt t) (cells t) = take (nxt t - 1) (cells t) @ [cells t ! (nxt t - 1)]"
    using assms by (metis Suc_pred' bot_nat_0.not_eq_extremum less_le_trans lessI table_inv_def take_Suc_conv_app_nth diff_less zero_less_one)
  ultimately show ?thesis using assms by (auto simp: table_pop_def table_inv_def stack_of_def)
qed

subsection \<open>The pool\<close>

record 'd pool_t =
  n_pool :: int
  n_out :: int
  n_thread :: int
  tasks :: "'d table_t"
  nop :: int

definition pool_create :: "'d pool_t" where
  "pool_create = \<lparr>n_pool = 0, n_out = 0, n_thread = 0, tasks = table_create, nop = 0\<rparr>"

text \<open>
  The check of the invariant, made by all operations.  \<open>verb\<close> is the compile-time option \<open>VERB\<close>; the
  log message is left out.
\<close>

definition check_verb :: "bool \<Rightarrow> bool \<Rightarrow> bool" where
  "check_verb verb ok = (verb \<and> ok)"

definition pool_status :: "bool \<Rightarrow> 'd pool_t \<Rightarrow> bool \<Rightarrow> 'd pool_t res" where
  "pool_status verb p force =
     (let sum = n_pool p + n_out p + int (nxt (tasks p));
          ok = (sum = n_thread p);
          force = (force \<or> n_pool p \<le> 0);
          p = (if \<not> ok \<or> force then p\<lparr>nop := 0\<rparr>
               else (let p = p\<lparr>nop := nop p + 1\<rparr> in if check_verb verb (nop p > 8192) then p\<lparr>nop := 0\<rparr> else p))
      in if \<not> ok then Inl (Fatal ''Cache pool invariant violation'') else Inr p)"

text \<open>\<open>pool_get\<close> up to the loop, and the loop: \<open>None\<close> when the thread waits.\<close>

definition pool_get_enter :: "bool \<Rightarrow> 'd pool_t \<Rightarrow> 'd pool_t res" where
  "pool_get_enter verb p =
     (let p = p\<lparr>n_pool := n_pool p + 1, n_out := n_out p - 1\<rparr> in pool_status verb p False)"

definition pool_get_take :: "'d pool_t \<Rightarrow> ('d \<times> 'd pool_t) option res" where
  "pool_get_take p =
     (if nxt (tasks p) \<le> 0 then Inr None
      else bind_res (table_pop (tasks p)) (\<lambda>(r, t). Inr (Some (r, p\<lparr>tasks := t, n_out := n_out p + 1\<rparr>))))"

text \<open>\<open>pool_put\<close>: the flag says whether the caller then starts a new thread for the task.\<close>

definition pool_put :: "bool \<Rightarrow> (nat \<Rightarrow> 'd) \<Rightarrow> 'd pool_t \<Rightarrow> 'd \<Rightarrow> ('d pool_t \<times> bool) res" where
  "pool_put verb fresh pool p =
     (if n_pool pool \<le> 0 then
        (let pool = pool\<lparr>n_out := n_out pool + 1, n_thread := n_thread pool + 1\<rparr>
         in bind_res (pool_status verb pool True) (\<lambda>pool. Inr (pool, True)))
      else
        bind_res (pool_status verb pool False) (\<lambda>pool.
        bind_res (table_push fresh (tasks pool) p) (\<lambda>t.
        Inr (pool\<lparr>tasks := t, n_pool := n_pool pool - 1\<rparr>, False))))"

subsection \<open>The cached threads\<close>

text \<open>
  A thread that was created for a task has still to start it; then it runs the task, and the next
  ones; without a task it is blocked, until a broadcast or for no reason.  The tasks submitted and
  finished are ghosts.
\<close>

datatype 'd worker = Starting 'd | Running 'd | Blocked | Awake

record 'd world =
  the_pool :: "'d pool_t"
  workers :: "'d worker list"
  submitted :: "'d list"
  finished :: "'d list"

definition world_init :: "'d world" where
  "world_init = \<lparr>the_pool = pool_create, workers = [], submitted = [], finished = []\<rparr>"

definition wake_all :: "'d worker list \<Rightarrow> 'd worker list" where
  "wake_all ws = map (\<lambda>w. case w of Blocked \<Rightarrow> Awake | v \<Rightarrow> v) ws"

text \<open>The state of a thread after \<open>pool_get\<close> found a task or not.\<close>

fun next_task :: "nat \<Rightarrow> ('d \<times> 'd pool_t) option \<Rightarrow> 'd pool_t \<Rightarrow> 'd world \<Rightarrow> 'd world" where
  "next_task i None p s = s\<lparr>the_pool := p, workers := (workers s)[i := Blocked]\<rparr>"
| "next_task i (Some (r, p')) p s = s\<lparr>the_pool := p', workers := (workers s)[i := Running r]\<rparr>"

text \<open>\<open>finish\<close> is the end of a task in \<open>zyva_cache\<close> and the call of \<open>pool_get\<close>.\<close>

inductive pstep :: "bool \<Rightarrow> (nat \<Rightarrow> 'd) \<Rightarrow> 'd world \<Rightarrow> 'd world \<Rightarrow> bool" for verb fresh where
  put_launch: "pool_put verb fresh (the_pool s) d = Inr (p, True) \<Longrightarrow>
    pstep verb fresh s (s\<lparr>the_pool := p, workers := workers s @ [Starting d], submitted := d # submitted s\<rparr>)"
| put_queue: "pool_put verb fresh (the_pool s) d = Inr (p, False) \<Longrightarrow>
    pstep verb fresh s (s\<lparr>the_pool := p, workers := wake_all (workers s), submitted := d # submitted s\<rparr>)"
| run: "i < length (workers s) \<Longrightarrow> workers s ! i = Starting d \<Longrightarrow>
    pstep verb fresh s (s\<lparr>workers := (workers s)[i := Running d]\<rparr>)"
| finish: "i < length (workers s) \<Longrightarrow> workers s ! i = Running d \<Longrightarrow>
    pool_get_enter verb (the_pool s) = Inr p \<Longrightarrow> pool_get_take p = Inr r \<Longrightarrow>
    pstep verb fresh s (next_task i r p (s\<lparr>finished := d # finished s\<rparr>))"
| spurious: "i < length (workers s) \<Longrightarrow> workers s ! i = Blocked \<Longrightarrow>
    pstep verb fresh s (s\<lparr>workers := (workers s)[i := Awake]\<rparr>)"
| resume: "i < length (workers s) \<Longrightarrow> workers s ! i = Awake \<Longrightarrow>
    pool_get_take (the_pool s) = Inr r \<Longrightarrow> pstep verb fresh s (next_task i r (the_pool s) s)"

definition preach :: "bool \<Rightarrow> (nat \<Rightarrow> 'd) \<Rightarrow> 'd world \<Rightarrow> bool" where
  "preach verb fresh s \<longleftrightarrow> (pstep verb fresh)\<^sup>*\<^sup>* world_init s"

subsection \<open>The invariant\<close>

fun busy :: "'d worker \<Rightarrow> 'd list" where
  "busy (Starting d) = [d]"
| "busy (Running d) = [d]"
| "busy w = []"

definition in_work :: "'d worker list \<Rightarrow> 'd list" where
  "in_work ws = concat (map busy ws)"

definition pool_inv :: "'d world \<Rightarrow> bool" where
  "pool_inv s \<longleftrightarrow>
     (let p = the_pool s; ws = workers s in
      table_inv (tasks p) \<and> 0 \<le> n_pool p \<and>
      n_thread p = int (length ws) \<and> n_out p = int (length (in_work ws)) \<and>
      n_pool p + n_out p + int (nxt (tasks p)) = n_thread p \<and>
      (Blocked \<in> set ws \<longrightarrow> nxt (tasks p) = 0) \<and>
      mset (submitted s) = mset (finished s) + mset (in_work ws) + mset (stack_of (tasks p)))"

lemma pool_status_ok:
  assumes "n_pool p + n_out p + int (nxt (tasks p)) = n_thread p"
  shows "\<exists>k. pool_status verb p force = Inr (p\<lparr>nop := k\<rparr>)"
  using assms by (auto simp: pool_status_def Let_def)

lemma in_work_wake [simp]: "in_work (wake_all ws) = in_work ws"
  unfolding in_work_def wake_all_def map_map
  by (intro arg_cong [of _ _ concat] map_cong) (auto split: worker.split)

lemma length_wake [simp]: "length (wake_all ws) = length ws"
  by (simp add: wake_all_def)

lemma blocked_wake [simp]: "Blocked \<notin> set (wake_all ws)"
  by (auto simp: wake_all_def split: worker.splits)

lemma in_work_append [simp]: "in_work (ws @ vs) = in_work ws @ in_work vs"
  by (simp add: in_work_def)

lemma in_work_update:
  assumes "i < length ws"
  obtains M where "mset (in_work ws) = mset (busy (ws ! i)) + M"
    and "\<And>w. mset (in_work (ws[i := w])) = mset (busy w) + M"
proof -
  have "in_work ws = in_work (take i ws) @ busy (ws ! i) @ in_work (drop (Suc i) ws)"
    using id_take_nth_drop [OF assms] by (metis concat.simps(2) in_work_append in_work_def list.simps(9))
  moreover have "in_work (ws[i := w]) = in_work (take i ws) @ busy w @ in_work (drop (Suc i) ws)" for w
    using assms by (simp add: upd_conv_take_nth_drop) (simp add: in_work_def)
  ultimately show thesis by (intro that) auto
qed

lemma length_in_work_update:
  assumes "i < length ws"
  shows "length (in_work (ws[i := w])) + length (busy (ws ! i)) = length (in_work ws) + length (busy w)"
proof -
  obtain M where "mset (in_work ws) = mset (busy (ws ! i)) + M" "mset (in_work (ws[i := w])) = mset (busy w) + M"
    using in_work_update [OF assms] by blast
  then have "length (in_work ws) = length (busy (ws ! i)) + size M"
    "length (in_work (ws[i := w])) = length (busy w) + size M"
    by (metis size_mset size_union)+
  then show ?thesis by simp
qed

text \<open>\<open>pool_get_take\<close> blocks when the table is empty and takes its top otherwise.\<close>

lemma take_cases:
  assumes "table_inv (tasks p)"
  obtains (empty) "nxt (tasks p) = 0" "pool_get_take p = Inr None"
  | (task) r t where "nxt (tasks p) = nxt t + 1" "stack_of (tasks p) = stack_of t @ [r]" "table_inv t"
      "pool_get_take p = Inr (Some (r, p\<lparr>tasks := t, n_out := n_out p + 1\<rparr>))"
proof (cases "nxt (tasks p) = 0")
  case True
  then show thesis by (intro empty) (simp_all add: pool_get_take_def)
next
  case False
  then obtain r t where "table_pop (tasks p) = Inr (r, t)" "table_inv t" "stack_of (tasks p) = stack_of t @ [r]"
      "nxt (tasks p) = nxt t + 1"
    using table_pop_ok [OF assms] by blast
  then show thesis by (intro task) (simp_all add: pool_get_take_def)
qed

lemma inv_take:
  assumes inv: "pool_inv s" and i: "i < length (workers s)" "workers s ! i = Awake"
    and take: "pool_get_take (the_pool s) = Inr r"
  shows "pool_inv (next_task i r (the_pool s) s)"
proof -
  have table: "table_inv (tasks (the_pool s))" using inv by (simp add: pool_inv_def Let_def)
  obtain M where M: "mset (in_work (workers s)) = M" "\<And>w. mset (in_work ((workers s)[i := w])) = mset (busy w) + M"
    using in_work_update [OF i(1)] i(2) by (metis add_0 busy.simps(4) mset.simps(1))
  note len = length_in_work_update [OF i(1), unfolded i(2), simplified]
  from table show ?thesis
  proof (cases rule: take_cases)
    case empty
    then have "r = None" using take by simp
    then show ?thesis using inv empty M len [of Blocked] i by (simp add: pool_inv_def Let_def)
  next
    case (task x t)
    then have r: "r = Some (x, (the_pool s)\<lparr>tasks := t, n_out := n_out (the_pool s) + 1\<rparr>)" using take by simp
    have "Blocked \<notin> set (workers s)" using inv task(1) by (auto simp: pool_inv_def Let_def)
    then have "Blocked \<notin> set ((workers s)[i := Running x])"
      using set_update_subset_insert [of "workers s" i "Running x"] by auto
    then show ?thesis using inv task M len [of "Running x"] i unfolding r
      by (simp add: pool_inv_def Let_def)
  qed
qed

text \<open>A thread that has finished its task, before it looks into the table.\<close>

lemma inv_finish:
  assumes inv: "pool_inv s" and i: "i < length (workers s)" "workers s ! i = Running d"
    and enter: "pool_get_enter verb (the_pool s) = Inr p"
  shows "pool_inv (s\<lparr>the_pool := p, workers := (workers s)[i := Awake], finished := d # finished s\<rparr>)"
proof -
  let ?p = "(the_pool s)\<lparr>n_pool := n_pool (the_pool s) + 1, n_out := n_out (the_pool s) - 1\<rparr>"
  have "n_pool ?p + n_out ?p + int (nxt (tasks ?p)) = n_thread ?p"
    using inv by (simp add: pool_inv_def Let_def)
  then obtain k where "pool_status verb ?p False = Inr (?p\<lparr>nop := k\<rparr>)" using pool_status_ok by blast
  then have p: "p = ?p\<lparr>nop := k\<rparr>" using enter by (simp add: pool_get_enter_def Let_def)
  obtain M where M: "mset (in_work (workers s)) = add_mset d M" "mset (in_work ((workers s)[i := Awake])) = M"
    using in_work_update [OF i(1)] i(2) by (metis add_0 add_mset_add_single busy.simps(2,4) mset.simps(1,2) union_commute)
  have "Blocked \<in> set ((workers s)[i := Awake]) \<Longrightarrow> Blocked \<in> set (workers s)"
    using set_update_subset_insert [of "workers s" i Awake] by auto
  then show ?thesis using inv M length_in_work_update [OF i(1), of Awake] i(2)
    by (simp add: pool_inv_def Let_def p)
qed

lemma put_cases:
  assumes "pool_inv s"
  obtains (launch) k where "n_pool (the_pool s) = 0"
      "pool_put verb fresh (the_pool s) d =
        Inr ((the_pool s)\<lparr>n_out := n_out (the_pool s) + 1, n_thread := n_thread (the_pool s) + 1, nop := k\<rparr>, True)"
  | (queue) k t where "0 < n_pool (the_pool s)" "table_inv t"
      "stack_of t = stack_of (tasks (the_pool s)) @ [d]" "nxt t = nxt (tasks (the_pool s)) + 1"
      "pool_put verb fresh (the_pool s) d =
        Inr ((the_pool s)\<lparr>nop := k, tasks := t, n_pool := n_pool (the_pool s) - 1\<rparr>, False)"
proof (cases "n_pool (the_pool s) \<le> 0")
  case True
  let ?p = "(the_pool s)\<lparr>n_out := n_out (the_pool s) + 1, n_thread := n_thread (the_pool s) + 1\<rparr>"
  have "n_pool ?p + n_out ?p + int (nxt (tasks ?p)) = n_thread ?p"
    using assms by (simp add: pool_inv_def Let_def)
  then obtain k where "pool_status verb ?p True = Inr (?p\<lparr>nop := k\<rparr>)" using pool_status_ok by blast
  then show thesis using True assms by (intro launch [of k]) (simp_all add: pool_put_def pool_inv_def Let_def)
next
  case False
  have "n_pool (the_pool s) + n_out (the_pool s) + int (nxt (tasks (the_pool s))) = n_thread (the_pool s)"
    using assms by (simp add: pool_inv_def Let_def)
  then obtain k where k: "pool_status verb (the_pool s) False = Inr ((the_pool s)\<lparr>nop := k\<rparr>)"
    using pool_status_ok by blast
  obtain t where "table_push fresh (tasks (the_pool s)) d = Inr t" "table_inv t"
      "stack_of t = stack_of (tasks (the_pool s)) @ [d]" "nxt t = nxt (tasks (the_pool s)) + 1"
    using table_push_ok [of "tasks (the_pool s)" fresh d] assms by (auto simp: pool_inv_def Let_def)
  then show thesis using False k by (intro queue [of t k]) (simp_all add: pool_put_def)
qed

lemma pool_inv_step:
  assumes inv: "pool_inv s" and "pstep verb fresh s s'"
  shows "pool_inv s'"
  using assms(2)
proof cases
  case (put_launch d p)
  from inv show ?thesis
  proof (cases rule: put_cases [where verb = verb and fresh = fresh and d = d])
    case (launch k)
    then show ?thesis using put_launch inv by (auto simp: pool_inv_def Let_def in_work_def)
  qed (use put_launch in simp)
next
  case (put_queue d p)
  from inv show ?thesis
  proof (cases rule: put_cases [where verb = verb and fresh = fresh and d = d])
    case (queue k t)
    then show ?thesis using put_queue inv by (simp add: pool_inv_def Let_def)
  qed (use put_queue in simp)
next
  case (run i d)
  have "Blocked \<in> set ((workers s)[i := Running d]) \<Longrightarrow> Blocked \<in> set (workers s)"
    using set_update_subset_insert [of "workers s" i "Running d"] by auto
  moreover obtain M where "mset (in_work (workers s)) = {#d#} + M"
      "mset (in_work ((workers s)[i := Running d])) = {#d#} + M"
    using in_work_update [OF run(2)] run(3) by (metis busy.simps(1,2) mset_single_iff_right)
  ultimately show ?thesis using run inv length_in_work_update [OF run(2), of "Running d"]
    by (simp add: pool_inv_def Let_def)
next
  case (finish i d p r)
  let ?s = "s\<lparr>the_pool := p, workers := (workers s)[i := Awake], finished := d # finished s\<rparr>"
  have "pool_inv (next_task i r (the_pool ?s) ?s)"
    using finish inv_finish [OF inv finish(2-4)] by (intro inv_take) simp_all
  moreover have "next_task i r (the_pool ?s) ?s = s'"
    unfolding finish(1) by (cases "(i, r, p, s)" rule: next_task.cases) simp_all
  ultimately show ?thesis by simp
next
  case (spurious i)
  have "Blocked \<in> set ((workers s)[i := Awake]) \<Longrightarrow> Blocked \<in> set (workers s)"
    using set_update_subset_insert [of "workers s" i Awake] by auto
  moreover obtain M where "mset (in_work (workers s)) = M" "mset (in_work ((workers s)[i := Awake])) = M"
    using in_work_update [OF spurious(2)] spurious(3) by (metis add_0 busy.simps(3,4) mset.simps(1))
  ultimately show ?thesis using spurious inv length_in_work_update [OF spurious(2), of Awake]
    by (simp add: pool_inv_def Let_def)
next
  case (resume i r)
  then show ?thesis using inv_take [OF inv] by simp
qed

lemma pool_inv_reach: "preach verb fresh s \<Longrightarrow> pool_inv s"
  unfolding preach_def
proof (induction rule: rtranclp_induct)
  case base
  show ?case
    by (simp add: pool_inv_def Let_def world_init_def pool_create_def table_create_def table_inv_def
        in_work_def stack_of_def)
next
  case (step s s')
  then show ?case using pool_inv_step by blast
qed

text \<open>When there are tasks in the table, as many threads are awake to take them.\<close>

lemma tasks_awake:
  assumes inv: "pool_inv s" and "nxt (tasks (the_pool s)) \<noteq> 0"
  shows "Blocked \<notin> set (workers s) \<and> nxt (tasks (the_pool s)) \<le> length (filter (\<lambda>w. w = Awake) (workers s))"
proof -
  have count: "length ws = length (in_work ws) + length (filter (\<lambda>w. w = Awake) ws)"
    if "Blocked \<notin> set ws" for ws :: "'a worker list"
    using that
  proof (induction ws)
    case (Cons w ws)
    then show ?case by (cases w) (auto simp: in_work_def)
  qed (simp add: in_work_def)
  have free: "Blocked \<notin> set (workers s)" using assms unfolding pool_inv_def Let_def by blast
  moreover have "n_pool (the_pool s) + int (length (in_work (workers s))) + int (nxt (tasks (the_pool s))) =
      int (length (workers s))" "0 \<le> n_pool (the_pool s)"
    using inv unfolding pool_inv_def Let_def by simp_all
  ultimately show ?thesis using count [OF free] by linarith
qed

subsection \<open>Properties\<close>

text \<open>
  The table of tasks is a stack that grows on demand: \<open>table_push\<close> adds on top, \<open>table_pop\<close> of a
  table that is not empty returns the top and removes it, and no access is out of bounds.
\<close>

theorem table_is_stack:
  assumes "table_inv t"
  shows "\<exists>t'. table_push fresh t p = Inr t' \<and> table_inv t' \<and> stack_of t' = stack_of t @ [p] \<and>
    (\<exists>t''. table_pop t' = Inr (p, t'') \<and> table_inv t'' \<and> stack_of t'' = stack_of t)"
proof -
  obtain t' where t': "table_push fresh t p = Inr t'" "table_inv t'" "stack_of t' = stack_of t @ [p]" "nxt t' = nxt t + 1"
    using table_push_ok [OF assms] by blast
  then show ?thesis using table_pop_ok [OF t'(2)] by auto
qed

theorem table_is_stack_witness:
  "\<exists>t'. table_push (\<lambda>_. 9) (\<lparr>sz = 1, nxt = 1, cells = [4 :: int]\<rparr>) 5 = Inr t' \<and> stack_of t' = [4, 5]"
  using table_is_stack [of "\<lparr>sz = 1, nxt = 1, cells = [4]\<rparr>" "\<lambda>_. 9" 5]
  by (auto simp: table_inv_def stack_of_def)

text \<open>
  C18: whatever the interleaving, the pool check \<open>"Cache pool invariant violation"\<close> never fails and no
  table access is out of bounds: every \<open>pool_put\<close> and every \<open>pool_get\<close> succeeds in every reachable state.
\<close>

theorem pool_never_fails:
  assumes "preach verb fresh s"
  shows "(\<exists>r. pool_put verb fresh (the_pool s) d = Inr r) \<and>
    ((\<exists>i e. i < length (workers s) \<and> workers s ! i = Running e) \<longrightarrow>
      (\<exists>p r. pool_get_enter verb (the_pool s) = Inr p \<and> pool_get_take p = Inr r)) \<and>
    (\<exists>r. pool_get_take (the_pool s) = Inr r)"
proof -
  note inv = pool_inv_reach [OF assms]
  have "\<exists>r. pool_put verb fresh (the_pool s) d = Inr r"
    using inv by (cases rule: put_cases [where verb = verb and fresh = fresh and d = d]) auto
  moreover have "\<exists>r. pool_get_take p = Inr r" if "table_inv (tasks p)" for p :: "'a pool_t"
    using that by (cases rule: take_cases) auto
  moreover have "\<exists>p. pool_get_enter verb (the_pool s) = Inr p \<and> tasks p = tasks (the_pool s)"
    using pool_status_ok [of "(the_pool s)\<lparr>n_pool := n_pool (the_pool s) + 1, n_out := n_out (the_pool s) - 1\<rparr>" verb False]
      inv by (auto simp: pool_get_enter_def pool_inv_def Let_def)
  ultimately show ?thesis using inv unfolding pool_inv_def Let_def by metis
qed

text \<open>
  C17: no task is lost or run twice: the submitted tasks are those finished, those some thread has, and
  those in the table.  When the table is not empty, at least as many threads are awake and about to
  take a task as there are tasks, and none is blocked.
\<close>

theorem pool_keeps_tasks:
  assumes "preach verb fresh s"
  shows "mset (submitted s) = mset (finished s) + mset (in_work (workers s)) + mset (stack_of (tasks (the_pool s))) \<and>
    (nxt (tasks (the_pool s)) \<noteq> 0 \<longrightarrow>
      Blocked \<notin> set (workers s) \<and>
      nxt (tasks (the_pool s)) \<le> length (filter (\<lambda>w. w = Awake) (workers s)))"
  using pool_inv_reach [OF assms] tasks_awake [OF pool_inv_reach [OF assms]]
  unfolding pool_inv_def Let_def by blast

text \<open>A pool with one thread that is back for more, and a second task.\<close>

definition ex_world :: "int world" where
  "ex_world = \<lparr>the_pool = \<lparr>n_pool = 0, n_out = 0, n_thread = 1,
     tasks = \<lparr>sz = 1, nxt = 1, cells = [22]\<rparr>, nop = 2\<rparr>,
     workers = [Awake], submitted = [22, 11], finished = [11]\<rparr>"

lemma ex_world_reach: "preach False (\<lambda>_. 0) ex_world"
proof -
  let ?p1 = "\<lparr>n_pool = 0, n_out = 1, n_thread = 1, tasks = table_create, nop = 0\<rparr>"
  let ?s1 = "\<lparr>the_pool = ?p1, workers = [Starting 11], submitted = [11 :: int], finished = []\<rparr>"
  let ?s2 = "?s1\<lparr>workers := [Running 11]\<rparr>"
  let ?p3 = "\<lparr>n_pool = 1, n_out = 0, n_thread = 1, tasks = table_create, nop = 1\<rparr>"
  let ?s3 = "\<lparr>the_pool = ?p3, workers = [Blocked], submitted = [11], finished = [11 :: int]\<rparr>"
  note eval = pool_put_def pool_status_def Let_def check_verb_def table_push_def realloc_def aset_def
    table_create_def pool_get_enter_def pool_get_take_def
  have "pstep False (\<lambda>_. 0) world_init ?s1"
    using pstep.put_launch [of False "\<lambda>_. 0" world_init 11 ?p1]
    by (simp add: world_init_def pool_create_def eval)
  moreover have "pstep False (\<lambda>_. 0) ?s1 ?s2" using pstep.run [of 0 ?s1 11] by simp
  moreover have "pstep False (\<lambda>_. 0) ?s2 ?s3"
    using pstep.finish [of 0 ?s2 11 False ?p3 None] by (simp add: eval)
  moreover have "pstep False (\<lambda>_. 0) ?s3 ex_world"
    using pstep.put_queue [of False "\<lambda>_. 0" ?s3 22 "the_pool ex_world"]
    by (simp add: eval ex_world_def wake_all_def)
  ultimately show ?thesis unfolding preach_def
    by (meson rtranclp.rtrancl_into_rtrancl rtranclp.rtrancl_refl)
qed

theorem pool_never_fails_witness:
  "(\<exists>r. pool_put False (\<lambda>_. 0) (the_pool ex_world) 33 = Inr r) \<and>
   (\<exists>r. pool_get_take (the_pool ex_world) = Inr r)"
  using pool_never_fails [OF ex_world_reach] by simp

theorem pool_keeps_tasks_witness:
  "mset (submitted ex_world) = {#11, 22#} \<and> nxt (tasks (the_pool ex_world)) \<le>
     length (filter (\<lambda>w. w = Awake) (workers ex_world))"
  using pool_keeps_tasks [OF ex_world_reach] by (simp add: ex_world_def)

subsection \<open>Detached tasks\<close>

text \<open>
  \<open>launch_detached\<close> makes a buffer and a thread that runs the task and sets the buffer;
  \<open>join_detached\<close> gets the value.
\<close>

record ('a, 'v) detarg_t =
  det_f :: "'a \<Rightarrow> 'v"
  det_a :: 'a

definition zyva_det :: "('a, 'v) detarg_t \<Rightarrow> 'v op_t \<Rightarrow> 'v op_t res" where
  "zyva_det b buf = (let f = det_f b; a = det_a b; r = f a in op_set buf r)"

text \<open>
  Whatever the order in which the task sets its buffer and the creator gets the value, the creator gets the value of the
  function of the task and leaves the buffer as it was created; a creator that came first and sleeps is woken up, and
  a second \<open>op_set\<close> on a full buffer is the only way to a fatal error.
\<close>

theorem one_place_buffer:
  "(\<exists>buf. zyva_det \<lparr>det_f = f, det_a = a\<rparr> op_create = Inr buf \<and> op_get buf = (Some (Some (f a)), op_create) \<and>
      op_set buf w = Inl (Fatal ''op_set'')) \<and>
   (\<exists>slept buf. op_get op_create = (None, slept) \<and> getter slept = Asleep \<and>
      zyva_det \<lparr>det_f = f, det_a = a\<rparr> slept = Inr buf \<and> getter buf = Woken \<and> op_get buf = (Some (Some (f a)), op_create))"
  by (simp add: zyva_det_def op_create_def op_set_def op_get_def op_signal_def op_sleep_def Let_def)

end
