(* ===== verification/CStr.thy ===== *)
theory CStr
  imports Litmus_Base
begin

section \<open>C strings and the decimal numbers of the standard library\<close>

text \<open>
  A C string is the list of its characters, without the final NUL; a pointer into it is the
  rest of the string, \<open>*p == '\0'\<close> is \<open>p = []\<close>.  What the program uses of the standard library on
  numbers is \<open>"%i"\<close> of \<open>printf\<close> (\<open>show_int\<close>) and \<open>strtol\<close>: its result is the value, clamped to the range of
  \<open>long\<close>, the rest of the string, and whether \<open>errno\<close> was set to \<open>ERANGE\<close>.
\<close>

named_theorems str_simps "printing and reading of numbers"

definition isspace :: "char \<Rightarrow> bool" where
  "isspace c \<longleftrightarrow> c = CHR '' '' \<or> (9 \<le> (of_char c :: nat) \<and> (of_char c :: nat) \<le> 13)"

definition digit :: "nat \<Rightarrow> char" where "digit n = char_of (48 + n)"

definition is_digit :: "char \<Rightarrow> bool" where
  "is_digit c \<longleftrightarrow> 48 \<le> (of_char c :: nat) \<and> (of_char c :: nat) \<le> 57"

definition digit_val :: "char \<Rightarrow> nat" where "digit_val c = of_char c - 48"

fun show_nat :: "nat \<Rightarrow> string" where
  "show_nat n = (if n < 10 then [digit n] else show_nat (n div 10) @ [digit (n mod 10)])"

declare show_nat.simps [simp del]

definition show_int :: "int \<Rightarrow> string" where
  "show_int i = (if i < 0 then CHR ''-'' # show_nat (nat (- i)) else show_nat (nat i))"

fun read_digits :: "nat \<Rightarrow> string \<Rightarrow> nat \<times> string" where
  "read_digits acc [] = (acc, [])"
| "read_digits acc (c # cs) =
     (if is_digit c then read_digits (10 * acc + digit_val c) cs else (acc, c # cs))"

definition long_max :: int where "long_max = 2 ^ 63 - 1"
definition long_min :: int where "long_min = - (2 ^ 63)"
definition int_max :: int where "int_max = 2 ^ 31 - 1"

text \<open>The sign of a number, and the rest.\<close>

fun read_sign :: "string \<Rightarrow> bool \<times> string" where
  "read_sign (CHR ''-'' # s) = (True, s)"
| "read_sign (CHR ''+'' # s) = (False, s)"
| "read_sign s = (False, s)"

fun clamp_long :: "int \<Rightarrow> int \<times> bool" where
  "clamp_long v = (if v > long_max then (long_max, True) else if v < long_min then (long_min, True) else (v, False))"

definition starts_digit :: "string \<Rightarrow> bool" where
  "starts_digit s \<longleftrightarrow> (case s of [] \<Rightarrow> False | c # _ \<Rightarrow> is_digit c)"

definition strtol :: "string \<Rightarrow> int \<times> string \<times> bool" where
  "strtol p =
     (let (neg, s) = read_sign (dropWhile isspace p)
      in if \<not> starts_digit s then (0, p, False)
         else let (n, q) = read_digits 0 s; (v, range) = clamp_long (if neg then - int n else int n)
              in (v, q, range))"

text \<open>The cast \<open>(int)x\<close> of a \<open>long\<close> keeps the low 32 bits.\<close>

definition to_int :: "int \<Rightarrow> int" where "to_int x = signed_take_bit 31 x"

definition in_int :: "int \<Rightarrow> bool" where "in_int i \<longleftrightarrow> - (2 ^ 31) \<le> i \<and> i < 2 ^ 31"

subsection \<open>Digits\<close>

lemma of_char_digit [str_simps]: "n < 10 \<Longrightarrow> of_char (digit n) = 48 + n"
  by (simp add: digit_def)

lemma is_digit_digit [str_simps]: "n < 10 \<Longrightarrow> is_digit (digit n)"
  by (simp add: is_digit_def of_char_digit)

lemma digit_val_digit [str_simps]: "n < 10 \<Longrightarrow> digit_val (digit n) = n"
  by (simp add: digit_val_def of_char_digit)

lemma digit_eq_iff: "is_digit c \<Longrightarrow> digit (digit_val c) = c"
  by (auto simp: digit_def digit_val_def is_digit_def)

lemma digit_not_space: "is_digit c \<Longrightarrow> \<not> isspace c"
  by (auto simp: isspace_def is_digit_def)

lemma digit_not_sign: "is_digit c \<Longrightarrow> c \<noteq> CHR ''-'' \<and> c \<noteq> CHR ''+''"
  by (auto simp: is_digit_def)

lemma show_nat_digits: "c \<in> set (show_nat n) \<Longrightarrow> is_digit c"
proof (induction n rule: show_nat.induct)
  case (1 n)
  then show ?case using show_nat.simps [of n] by (auto simp: is_digit_digit split: if_splits)
qed

lemma show_nat_nonempty [simp]: "show_nat n \<noteq> []"
  by (subst show_nat.simps) simp

lemma starts_digit_show [simp]: "starts_digit (show_nat n @ s)"
  using show_nat_digits [of "hd (show_nat n)" n]
  by (cases "show_nat n") (auto simp: starts_digit_def)

lemma read_digits_append:
  "(\<And>c. c \<in> set ds \<Longrightarrow> is_digit c) \<Longrightarrow>
   read_digits acc (ds @ s) = read_digits (fst (read_digits acc ds)) s"
  by (induction ds arbitrary: acc) auto

lemma read_digits_stop: "\<not> starts_digit s \<Longrightarrow> read_digits acc s = (acc, s)"
  by (cases s) (auto simp: starts_digit_def)

lemma read_show_nat: "fst (read_digits 0 (show_nat n)) = n"
proof (induction n rule: show_nat.induct)
  case (1 n)
  show ?case
  proof (cases "n < 10")
    case True
    then show ?thesis by (simp add: show_nat.simps [of n] str_simps)
  next
    case False
    then have "read_digits 0 (show_nat n) = read_digits (n div 10) [digit (n mod 10)]"
      using 1 by (simp add: show_nat.simps [of n] read_digits_append show_nat_digits)
    also have "\<dots> = (n, [])" by (simp add: str_simps)
    finally show ?thesis by simp
  qed
qed

lemma read_digits_show: "\<not> starts_digit s \<Longrightarrow> read_digits 0 (show_nat n @ s) = (n, s)"
  by (simp add: read_digits_append show_nat_digits read_show_nat read_digits_stop)

subsection \<open>Numbers\<close>

lemma read_sign_digit: "starts_digit s \<Longrightarrow> read_sign s = (False, s)"
  by (cases s rule: read_sign.cases) (auto simp: starts_digit_def is_digit_def)

lemma show_nat_not_space: "dropWhile isspace (show_nat n @ s) = show_nat n @ s"
  using show_nat_digits [of "hd (show_nat n)" n] digit_not_space
  by (cases "show_nat n") auto

text \<open>Reading back a printed number, whatever follows it.\<close>

lemma strtol_show_int [str_simps]:
  assumes "long_min \<le> i" and "i \<le> long_max" and "\<not> starts_digit s"
  shows "strtol (show_int i @ s) = (i, s, False)"
proof (cases "i < 0")
  case True
  have "dropWhile isspace (show_int i @ s) = CHR ''-'' # show_nat (nat (- i)) @ s"
    using True by (simp add: show_int_def isspace_def)
  then show ?thesis using True assms by (simp add: strtol_def read_digits_show)
next
  case False
  have "dropWhile isspace (show_int i @ s) = show_nat (nat i) @ s"
    using False show_nat_not_space by (simp add: show_int_def)
  then show ?thesis using False assms by (simp add: strtol_def read_digits_show read_sign_digit)
qed

lemma to_int_id [simp]: "in_int i \<Longrightarrow> to_int i = i"
  by (simp add: to_int_def in_int_def signed_take_bit_int_eq_self)

lemma in_int_to_int [simp]: "in_int (to_int x)"
  using signed_take_bit_int_greater_eq_minus_exp [of 31 x] signed_take_bit_int_less_exp [of 31 x]
  by (simp add: in_int_def to_int_def)

lemma in_int_long: "in_int i \<Longrightarrow> long_min \<le> i \<and> i \<le> long_max"
  by (simp add: in_int_def long_min_def long_max_def)

lemma show_int_nonempty [simp]: "show_int i \<noteq> []"
  by (simp add: show_int_def)

text \<open>A number is printed without any character but digits and the sign.\<close>

lemma show_int_chars: "c \<in> set (show_int i) \<Longrightarrow> is_digit c \<or> c = CHR ''-''"
  using show_nat_digits by (auto simp: show_int_def split: if_splits)

text \<open>What is left of a string is not longer than it.\<close>

lemma read_digits_length: "length (snd (read_digits acc s)) \<le> length s"
  by (induction acc s rule: read_digits.induct) auto

lemma read_sign_length: "length (snd (read_sign s)) \<le> length s"
  by (cases s rule: read_sign.cases) auto

lemma strtol_length: "strtol p = (v, q, e) \<Longrightarrow> length q \<le> length p"
proof -
  assume "strtol p = (v, q, e)"
  moreover have "length (dropWhile isspace p) \<le> length p" by (simp add: length_dropWhile_le)
  moreover have "\<And>n s r. read_digits n s = (v', r) \<Longrightarrow> length r \<le> length s" for v'
    using read_digits_length by (metis snd_conv)
  moreover have "\<And>b t s. read_sign s = (b, t) \<Longrightarrow> length t \<le> length s"
    using read_sign_length by (metis snd_conv)
  ultimately show ?thesis
    unfolding strtol_def Let_def by (auto split: prod.splits if_splits) (meson order_trans)+
qed

lemma strtol_in_long: "strtol p = (v, q, e) \<Longrightarrow> long_min \<le> v \<and> v \<le> long_max"
  unfolding strtol_def Let_def
  by (auto split: prod.splits if_splits simp: long_max_def long_min_def)

end
