(* ===== verification/LitmusIO.thy ===== *)
theory LitmusIO
  imports CStr
begin

section \<open>Output of numbers (\<^verbatim>\<open>_litmus_io.c\<close>)\<close>

text \<open>
  The bare-metal harness prints without \<open>printf\<close>.  The macros of the file define each function for
  several integer types; here they are polymorphic in the width of the word.  A function returns the
  characters given to \<open>emit_char\<close>.  The buffers are local arrays, not initialised: their contents
  are the argument \<open>junk\<close>.
\<close>

subsection \<open>Conversion into a buffer\<close>

text \<open>
  \<open>TRU\<close> and \<open>TRX\<close> differ in the base and in the character of a digit.  The digits are written backwards
  from cell \<open>idx\<close>; the result is their number and the buffer.
\<close>

function tr_loop ::
  "(nat \<Rightarrow> char) \<Rightarrow> nat \<Rightarrow> string \<Rightarrow> int \<Rightarrow> nat \<Rightarrow> 'a::len word \<Rightarrow> (nat \<times> string) res" where
  "tr_loop dig b dst idx n x =
     (if 0 < x then
        bind_res (aset dst idx (dig (unat x mod b))) (\<lambda>dst.
          if idx - 1 < 0 then Inr (n + 1, dst)
          else tr_loop dig b dst (idx - 1) (n + 1) (word_of_nat (unat x div b)))
      else if n = 0 then bind_res (aset dst idx (dig 0)) (\<lambda>dst. Inr (n + 1, dst))
      else Inr (n, dst))"
  by pat_completeness auto
termination by (relation "measure (\<lambda>(dig, b, dst, idx, n, x). nat idx)") auto

declare tr_loop.simps [simp del]

definition hex_digit :: "nat \<Rightarrow> char" where
  "hex_digit d = (if d < 10 then digit d else char_of (97 + d - 10))"

definition tr_uns :: "string \<Rightarrow> int \<Rightarrow> 'a::len word \<Rightarrow> (nat \<times> string) res" where
  "tr_uns dst idx x = tr_loop digit 10 dst idx 0 x"

definition tr_hex :: "string \<Rightarrow> int \<Rightarrow> 'a::len word \<Rightarrow> (nat \<times> string) res" where
  "tr_hex dst idx x = tr_loop hex_digit 16 dst idx 0 x"

subsection \<open>The printing functions\<close>

fun emit_string :: "string \<Rightarrow> string" where
  "emit_string [] = []"
| "emit_string (c # s) = c # emit_string s"

definition io_sz :: nat where "io_sz = 32"

definition new_buff :: "(nat \<Rightarrow> char) \<Rightarrow> nat \<Rightarrow> string" where
  "new_buff junk sz = map junk [0..<sz]"

text \<open>The loop \<open>for ( ; n > 0 ; n--) emit_char(out,*p++)\<close>.\<close>

fun emit_cells :: "string \<Rightarrow> int \<Rightarrow> nat \<Rightarrow> string res" where
  "emit_cells buff p 0 = Inr []"
| "emit_cells buff p (Suc n) =
     bind_res (aget buff p) (\<lambda>c. bind_res (emit_cells buff (p + 1) n) (\<lambda>s. Inr (c # s)))"

definition emit_with ::
  "(string \<Rightarrow> int \<Rightarrow> 'a::len word \<Rightarrow> (nat \<times> string) res) \<Rightarrow> (nat \<Rightarrow> char) \<Rightarrow> 'a word \<Rightarrow> string res" where
  "emit_with tr junk x =
     bind_res (tr (new_buff junk io_sz) (int io_sz - 1) x) (\<lambda>(n, buff).
       emit_cells buff (int io_sz - int n) n)"

definition emit_uns :: "(nat \<Rightarrow> char) \<Rightarrow> 'a::len word \<Rightarrow> string res" where
  "emit_uns = emit_with tr_uns"

definition emit_hex :: "(nat \<Rightarrow> char) \<Rightarrow> 'a::len word \<Rightarrow> string res" where
  "emit_hex = emit_with tr_hex"

text \<open>Negation of a signed value: the least one has no opposite.\<close>

definition c_neg :: "'a::len word \<Rightarrow> 'a word res" where
  "c_neg x = (if sint x = - (2 ^ (LENGTH('a) - 1)) then Inl Undefined else Inr (- x))"

definition emit_signed :: "(nat \<Rightarrow> char) \<Rightarrow> 'a::len word \<Rightarrow> string res" where
  "emit_signed junk x =
     (if x <s 0 then bind_res (c_neg x) (\<lambda>x. bind_res (emit_uns junk x) (\<lambda>s. Inr (CHR ''-'' # s)))
      else emit_uns junk x)"

definition emit_nchars :: "char \<Rightarrow> int \<Rightarrow> string" where
  "emit_nchars ch n = replicate (nat n) ch"

definition pad_width :: "int \<Rightarrow> int res" where
  "pad_width pval = (if pval < 0 then (if pval = - (2 ^ 31) then Inl Undefined else Inr (- pval)) else Inr pval)"

definition pad_with ::
  "(string \<Rightarrow> int \<Rightarrow> 'a::len word \<Rightarrow> (nat \<times> string) res) \<Rightarrow> (nat \<Rightarrow> char) \<Rightarrow> char \<Rightarrow> int \<Rightarrow> 'a word \<Rightarrow> string res" where
  "pad_with tr junk pc pval x =
     bind_res (pad_width pval) (\<lambda>p.
     let msz = (if int io_sz < pval then pval else int io_sz)
     in bind_res (tr (new_buff junk (nat msz)) (msz - 1) x) (\<lambda>(n, buff).
        bind_res (emit_cells buff (msz - int n) n) (\<lambda>s.
        Inr ((if pval > 0 \<and> int n < p then emit_nchars pc (p - int n) else []) @ s @
             (if pval < 0 \<and> int n < p then emit_nchars pc (p - int n) else [])))))"

definition emit_pad_uns :: "(nat \<Rightarrow> char) \<Rightarrow> char \<Rightarrow> int \<Rightarrow> 'a::len word \<Rightarrow> string res" where
  "emit_pad_uns = pad_with tr_uns"

definition emit_pad_hex :: "(nat \<Rightarrow> char) \<Rightarrow> char \<Rightarrow> int \<Rightarrow> 'a::len word \<Rightarrow> string res" where
  "emit_pad_hex = pad_with tr_hex"

text \<open>
  The signed version counts the sign in \<open>n\<close> and then uses this \<open>n\<close> to find the first digit.
\<close>

definition emit_pad_signed :: "(nat \<Rightarrow> char) \<Rightarrow> char \<Rightarrow> int \<Rightarrow> 'a::len word \<Rightarrow> string res" where
  "emit_pad_signed junk pc pval x =
     bind_res (pad_width pval) (\<lambda>p.
     let msz = (if int io_sz < pval then pval else int io_sz)
     in bind_res (if x <s 0 then c_neg x else Inr x) (\<lambda>y.
        bind_res (tr_uns (new_buff junk (nat msz)) (msz - 1) y) (\<lambda>(n, buff).
        let n = (if x <s 0 then n + 1 else n)
        in bind_res (emit_cells buff (msz - int n) n) (\<lambda>s.
           Inr ((if pval > 0 \<and> int n < p then emit_nchars pc (p - int n) else []) @
                (if x <s 0 then ''-'' else []) @ s @
                (if pval < 0 \<and> int n < p then emit_nchars pc (p - int n) else []))))))"

text \<open>
  The end of \<open>emit_double\<close>: \<open>neg\<close> is \<open>f < 0.0\<close>, \<open>x\<close> the rounded number of hundredths of \<open>\<bar>f\<bar>\<close>; the
  floating point operations before it are not modelled.
\<close>

definition emit_hundredths :: "(nat \<Rightarrow> char) \<Rightarrow> bool \<Rightarrow> u64 \<Rightarrow> string res" where
  "emit_hundredths junk neg x =
     bind_res (emit_uns junk (x div 100)) (\<lambda>s.
     bind_res (emit_pad_uns junk (CHR ''0'') 2 (ucast (x mod 100) :: u32)) (\<lambda>t.
     Inr ((if neg then ''-'' else []) @ s @ ''.'' @ t)))"

subsection \<open>Numbers in a base\<close>

fun show_base :: "(nat \<Rightarrow> char) \<Rightarrow> nat \<Rightarrow> nat \<Rightarrow> string" where
  "show_base dig b n =
     (if n < b \<or> b < 2 then [dig n] else show_base dig b (n div b) @ [dig (n mod b)])"

declare show_base.simps [simp del]

lemma show_base_small: "n < b \<Longrightarrow> show_base dig b n = [dig n]"
  by (simp add: show_base.simps)

lemma show_base_step:
  "2 \<le> b \<Longrightarrow> b \<le> n \<Longrightarrow> show_base dig b n = show_base dig b (n div b) @ [dig (n mod b)]"
  by (subst show_base.simps) simp

lemma show_base_decimal: "show_base digit 10 n = show_nat n"
proof (induction n rule: show_nat.induct)
  case (1 n)
  then show ?case by (cases "n < 10") (simp_all add: show_base_small show_base_step show_nat.simps [of n])
qed

lemma show_base_nonempty [simp]: "show_base dig b n \<noteq> []"
  by (subst show_base.simps) simp

lemma show_base_length:
  assumes "2 \<le> b" and "n < b ^ k" and "0 < k"
  shows "length (show_base dig b n) \<le> k"
  using assms(2,3)
proof (induction k arbitrary: n)
  case (Suc k)
  show ?case
  proof (cases "n < b")
    case False
    then have "n div b < b ^ k" using Suc.prems by (simp add: less_mult_imp_div_less mult.commute)
    moreover have "0 < k" using False Suc.prems by (cases k) auto
    ultimately show ?thesis using Suc.IH [of "n div b"] assms(1) False by (simp add: show_base_step)
  qed (simp add: show_base_small)
qed simp

lemma put_digits:
  assumes "length s \<le> i" and "i < length dst"
  shows "take (i - length s) (dst[i := d]) @ s @ drop i (dst[i := d]) =
         take (Suc i - length (s @ [d])) dst @ (s @ [d]) @ drop (Suc i) dst"
  using assms by (simp add: drop_update_cancel Cons_nth_drop_Suc [symmetric] id_take_nth_drop upd_conv_take_nth_drop)

lemma tr_loop_correct:
  fixes x :: "'a::len word"
  assumes "2 \<le> b" and "0 < x" and "i < length dst" and "length (show_base dig b (unat x)) \<le> Suc i"
  shows "tr_loop dig b dst (int i) n x =
    Inr (n + length (show_base dig b (unat x)),
         take (Suc i - length (show_base dig b (unat x))) dst @ show_base dig b (unat x) @ drop (Suc i) dst)"
  using assms(2-)
proof (induction i arbitrary: dst n x)
  case 0
  then have "unat x < b"
    using assms(1) by (auto simp: show_base_step not_less intro: ccontr)
  with 0 show ?case
    by (simp add: tr_loop.simps [of _ _ _ 0] aset_def show_base_small upd_conv_take_nth_drop)
next
  case (Suc i)
  let ?d = "dst[Suc i := dig (unat x mod b)]"
  have step: "tr_loop dig b dst (int (Suc i)) n x =
      tr_loop dig b ?d (int i) (n + 1) (word_of_nat (unat x div b) :: 'a word)"
    using Suc.prems by (simp add: tr_loop.simps [of _ _ _ "1 + int i"] aset_def nat_add_distrib)
  have "unat x div b < 2 ^ LENGTH('a)"
    by (rule le_less_trans [OF div_le_dividend unsigned_less])
  then have small: "unat (word_of_nat (unat x div b) :: 'a word) = unat x div b"
    by (simp add: unsigned_of_nat take_bit_nat_eq_self_iff)
  show ?case
  proof (cases "unat x < b")
    case True
    then show ?thesis
      using Suc.prems unfolding step
      by (simp add: tr_loop.simps [of _ _ _ "int i"] show_base_small upd_conv_take_nth_drop)
  next
    case False
    then have pos: "0 < (word_of_nat (unat x div b) :: 'a word)"
      using assms(1) small by (simp add: word_less_nat_alt div_greater_zero_iff)
    have "length (show_base dig b (unat x div b)) \<le> Suc i"
      using Suc.prems assms(1) False by (simp add: show_base_step)
    then show ?thesis
      using Suc.IH [OF pos, of ?d "n + 1"] Suc.prems assms(1) False small unfolding step
      by (simp add: show_base_step put_digits [simplified])
  qed
qed

lemma tr_correct:
  fixes x :: "'a::len word"
  assumes "2 \<le> b" and "i < length dst" and "length (show_base dig b (unat x)) \<le> Suc i"
  shows "tr_loop dig b dst (int i) 0 x =
    Inr (length (show_base dig b (unat x)),
         take (Suc i - length (show_base dig b (unat x))) dst @ show_base dig b (unat x) @ drop (Suc i) dst)"
proof (cases "x = 0")
  case True
  then show ?thesis
    using assms by (simp add: tr_loop.simps [of _ _ _ "int i"] show_base_small upd_conv_take_nth_drop)
next
  case False
  then show ?thesis using tr_loop_correct [of b x i dst dig 0] assms by (simp add: word_neq_0_conv)
qed

lemma emit_cells_digits: "emit_cells (xs @ s @ ys) (int (length xs)) (length s) = Inr s"
proof (induction s arbitrary: xs)
  case (Cons c s)
  then show ?case using Cons.IH [of "xs @ [c]"] by (simp add: aget_def nth_append algebra_simps)
qed simp

text \<open>A conversion into a new buffer of \<open>m\<close> cells, and the cells read back from the first digit on.\<close>

lemma tr_new_buff:
  fixes x :: "'a::len word"
  assumes "2 \<le> b" and "length (show_base dig b (unat x)) \<le> m" and "m = nat msz" and "0 < m"
  shows "tr_loop dig b (new_buff junk m) (msz - 1) 0 x =
    Inr (length (show_base dig b (unat x)),
         map junk [0..<m - length (show_base dig b (unat x))] @ show_base dig b (unat x))"
proof -
  obtain i where "m = Suc i" using assms(4) by (cases m) auto
  moreover from this have "msz - 1 = int i" using assms(3) by simp
  moreover have "take (Suc i - k) (map junk [0..<Suc i]) = map junk [0..<Suc i - k]" for k
    by (simp add: take_map take_upt del: upt_Suc)
  ultimately show ?thesis
    using tr_correct [of b i "new_buff junk m" dig x] assms
    by (simp add: new_buff_def del: upt_Suc map_append)
qed

lemma emit_new_buff:
  "length s \<le> m \<Longrightarrow> m = nat msz \<Longrightarrow> emit_cells (map junk [0..<m - length s] @ s) (msz - int (length s)) (length s) = Inr s"
  using emit_cells_digits [of "map junk [0..<m - length s]" s "[]"]
  by (cases "0 \<le> msz") (simp_all add: of_nat_diff)

text \<open>No integer type has a number that fills the buffers.\<close>

lemma unat_fits: "LENGTH('a::len) \<le> 64 \<Longrightarrow> unat (x :: 'a word) < 2 ^ 64"
  by (rule less_le_trans [OF unsigned_less power_increasing]) simp_all

lemma decimal_length: "LENGTH('a::len) \<le> 64 \<Longrightarrow> length (show_nat (unat (x :: 'a word))) \<le> 20"
  using show_base_length [of 10 "unat x" 20 digit] unat_fits [of x] by (simp add: show_base_decimal)

lemma hex_length: "LENGTH('a::len) \<le> 64 \<Longrightarrow> length (show_base hex_digit 16 (unat (x :: 'a word))) \<le> 16"
  using show_base_length [of 16 "unat x" 16 hex_digit] unat_fits [of x] by simp

lemma emit_with_digits:
  assumes "\<And>dst idx. tr dst idx x = tr_loop dig b dst idx 0 x" and "2 \<le> b"
    and "length (show_base dig b (unat x)) \<le> 32"
  shows "emit_with tr junk x = Inr (show_base dig b (unat x))"
proof -
  have "length (show_base dig b (unat x)) \<le> io_sz" using assms(3) by (simp add: io_sz_def)
  moreover have "0 < io_sz" by (simp add: io_sz_def)
  ultimately show ?thesis
    using tr_new_buff [of b dig x io_sz "int io_sz" junk] assms(2)
      emit_new_buff [of "show_base dig b (unat x)" io_sz "int io_sz" junk]
    unfolding emit_with_def assms(1) by simp
qed

lemma emit_uns_decimal:
  assumes "LENGTH('a::len) \<le> 64"
  shows "emit_uns junk (x :: 'a word) = Inr (show_nat (unat x))"
  using emit_with_digits [of tr_uns x digit 10] decimal_length [OF assms, of x]
  by (simp add: emit_uns_def tr_uns_def show_base_decimal)

lemma emit_hex_digits:
  assumes "LENGTH('a::len) \<le> 64"
  shows "emit_hex junk (x :: 'a word) = Inr (show_base hex_digit 16 (unat x))"
  using emit_with_digits [of tr_hex x hex_digit 16] hex_length [OF assms, of x]
  by (simp add: emit_hex_def tr_hex_def)

subsection \<open>Signed values\<close>

lemma unat_of_sint:
  fixes x :: "'a::len word"
  assumes "0 \<le> sint x"
  shows "unat x = nat (sint x)"
proof -
  have "sint x < 2 ^ LENGTH('a)"
    using sint_lt [of x] by (rule less_le_trans) (simp add: power_increasing)
  then have "uint x = sint x"
    using assms by (simp add: uint_sint [of x] take_bit_int_eq_self_iff)
  then show ?thesis by (simp add: nat_uint_eq [symmetric])
qed

lemma c_neg_correct:
  fixes x :: "'a::len word"
  assumes "sint x < 0" and "sint x \<noteq> - (2 ^ (LENGTH('a) - 1))"
  shows "c_neg x = Inr (- x)" and "unat (- x) = nat (- sint x)"
proof -
  show "c_neg x = Inr (- x)" using assms(2) by (simp add: c_neg_def)
  have "- sint x < 2 ^ (LENGTH('a) - 1)"
    using sint_ge [of x] assms(2) by linarith
  then have "- sint x < 2 ^ LENGTH('a)"
    by (rule less_le_trans) (simp add: power_increasing)
  then have "uint (word_of_int (- sint x) :: 'a word) = - sint x"
    using assms(1) by (simp only: uint_word_of_int mod_pos_pos_trivial)
  moreover have "word_of_int (- sint x) = - x" by simp
  ultimately have "uint (- x) = - sint x" by simp
  then show "unat (- x) = nat (- sint x)" by (simp add: nat_uint_eq [symmetric])
qed

lemma sless_0: "x <s 0 \<longleftrightarrow> sint x < 0"
  by (simp add: word_sless_alt)

lemma emit_signed_decimal:
  fixes x :: "'a::len word"
  assumes "LENGTH('a) \<le> 64" and "sint x \<noteq> - (2 ^ (LENGTH('a) - 1))"
  shows "emit_signed junk x = Inr (show_int (sint x))"
  using c_neg_correct [of x] unat_of_sint [of x] assms
  by (auto simp: emit_signed_def sless_0 emit_uns_decimal show_int_def not_less)

subsection \<open>Padding\<close>

definition padded :: "char \<Rightarrow> int \<Rightarrow> string \<Rightarrow> string" where
  "padded pc pval s =
     (let pad = replicate (nat \<bar>pval\<bar> - length s) pc in if pval < 0 then s @ pad else pad @ s)"

lemma pad_width_ok: "- (2 ^ 31) < pval \<Longrightarrow> pad_width pval = Inr \<bar>pval\<bar>"
  by (auto simp: pad_width_def)

lemma pad_around:
  "(if pval > 0 \<and> int k < \<bar>pval\<bar> then emit_nchars pc (\<bar>pval\<bar> - int k) else []) @ s @
   (if pval < 0 \<and> int k < \<bar>pval\<bar> then emit_nchars pc (\<bar>pval\<bar> - int k) else []) =
   (if pval < 0 then s @ replicate (nat \<bar>pval\<bar> - k) pc else replicate (nat \<bar>pval\<bar> - k) pc @ s)"
  by (auto simp: emit_nchars_def nat_diff_distrib)

text \<open>The size of the buffer.\<close>

lemma buffer_size:
  assumes "length s \<le> 20"
  shows "length s < nat (if int io_sz < pval then pval else int io_sz)"
  using assms by (auto simp: io_sz_def)

lemma pad_with_digits:
  assumes "\<And>dst idx. tr dst idx x = tr_loop dig b dst idx 0 x" and "2 \<le> b"
    and "length (show_base dig b (unat x)) \<le> 20" and "- (2 ^ 31) < pval"
  shows "pad_with tr junk pc pval x = Inr (padded pc pval (show_base dig b (unat x)))"
proof -
  let ?s = "show_base dig b (unat x)"
  let ?msz = "if int io_sz < pval then pval else int io_sz"
  note fits = buffer_size [OF assms(3), of pval]
  have "tr (new_buff junk (nat ?msz)) (?msz - 1) x =
      Inr (length ?s, map junk [0..<nat ?msz - length ?s] @ ?s)"
    unfolding assms(1) by (rule tr_new_buff) (use fits assms(2) in auto)
  moreover have "emit_cells (map junk [0..<nat ?msz - length ?s] @ ?s) (?msz - int (length ?s)) (length ?s) = Inr ?s"
    by (rule emit_new_buff) (use fits in auto)
  ultimately show ?thesis
    using pad_around [of pval "length ?s" pc ?s] pad_width_ok [OF assms(4)]
    unfolding pad_with_def by (simp only: bind_res.simps prod.case Let_def padded_def)
qed

lemma emit_pad_signed_nonneg:
  fixes x :: "'a::len word"
  assumes "LENGTH('a) \<le> 64" and "- (2 ^ 31) < pval" and "0 \<le> sint x"
  shows "emit_pad_signed junk pc pval x = Inr (padded pc pval (show_int (sint x)))"
proof -
  have "\<not> x <s 0" using assms(3) by (simp add: sless_0)
  then have "emit_pad_signed junk pc pval x = pad_with tr_uns junk pc pval x"
    unfolding emit_pad_signed_def pad_with_def Let_def by (simp only: if_False bind_res.simps append_Nil)
  also have "\<dots> = Inr (padded pc pval (show_nat (unat x)))"
    using pad_with_digits [of tr_uns x digit 10 pval junk pc] decimal_length [OF assms(1), of x] assms(2)
    by (simp add: tr_uns_def show_base_decimal)
  finally show ?thesis using assms(3) by (simp add: unat_of_sint show_int_def)
qed

text \<open>With a sign, the cells emitted start one before the first digit.\<close>

lemma emit_one_more:
  assumes "length s < m" and "m = nat msz"
  shows "emit_cells (map junk [0..<m - length s] @ s) (msz - int (length s + 1)) (length s + 1) =
    Inr (junk (m - length s - 1) # s)"
proof -
  let ?k = "m - length s - 1"
  have "[0..<m - length s] = [0..<?k] @ [?k]"
    using assms(1) by (metis Suc_diff_Suc diff_Suc_eq_diff_pred diff_commute minus_nat.diff_0 upt_Suc_append zero_le Suc_diff_1 zero_less_diff)
  then have "map junk [0..<m - length s] @ s = map junk [0..<?k] @ (junk ?k # s) @ []" by simp
  moreover have "msz - int (length s + 1) = int (length (map junk [0..<?k]))"
    using assms by auto
  ultimately show ?thesis
    using emit_cells_digits [of "map junk [0..<?k]" "junk ?k # s" "[]"]
    by (metis One_nat_def Suc_eq_plus1 length_Cons)
qed

lemma emit_pad_signed_neg:
  fixes x :: "'a::len word"
  assumes "LENGTH('a) \<le> 64" and "- (2 ^ 31) < pval" and "sint x < 0" and "sint x \<noteq> - (2 ^ (LENGTH('a) - 1))"
  shows "emit_pad_signed junk pc pval x =
    Inr (let s = show_nat (nat (- sint x)); pad = replicate (nat \<bar>pval\<bar> - (length s + 1)) pc;
             t = CHR ''-'' # junk (nat (max pval 32) - length s - 1) # s
         in if pval < 0 then t @ pad else pad @ t)"
proof -
  let ?s = "show_nat (nat (- sint x))"
  let ?msz = "if int io_sz < pval then pval else int io_sz"
  have y: "c_neg x = Inr (- x)" "unat (- x) = nat (- sint x)" using c_neg_correct [OF assms(3,4)] by auto
  have len: "length ?s \<le> 20" using decimal_length [OF assms(1), of "- x"] y by simp
  note fits = buffer_size [OF len, of pval]
  have "tr_uns (new_buff junk (nat ?msz)) (?msz - 1) (- x) = Inr (length ?s, map junk [0..<nat ?msz - length ?s] @ ?s)"
    using tr_new_buff [of 10 digit "- x" "nat ?msz" ?msz junk] fits unfolding tr_uns_def show_base_decimal y(2)
    by auto
  moreover have "emit_cells (map junk [0..<nat ?msz - length ?s] @ ?s) (?msz - int (length ?s + 1)) (length ?s + 1) =
      Inr (junk (nat ?msz - length ?s - 1) # ?s)"
    by (rule emit_one_more) (use fits in auto)
  moreover have "?msz = max pval 32" by (auto simp: io_sz_def)
  moreover have "x <s 0" using assms(3) by (simp add: sless_0)
  ultimately show ?thesis
    using pad_around [of pval "length ?s + 1" pc "CHR ''-'' # junk (nat ?msz - length ?s - 1) # ?s"]
      pad_width_ok [OF assms(2)] y(1)
    unfolding emit_pad_signed_def
    by (simp only: bind_res.simps prod.case Let_def if_True append_Cons append_Nil append.assoc)
qed

subsection \<open>Reading hexadecimal numbers\<close>

definition hex_val :: "char \<Rightarrow> nat" where
  "hex_val ch = (if is_digit ch then digit_val ch else of_char ch - 87)"

definition read_hex :: "string \<Rightarrow> nat" where
  "read_hex s = foldl (\<lambda>n ch. 16 * n + hex_val ch) 0 s"

lemma hex_val_digit: "d < 16 \<Longrightarrow> hex_val (hex_digit d) = d"
  by (cases "d < 10") (simp_all add: hex_val_def hex_digit_def is_digit_digit digit_val_digit, simp add: is_digit_def)

lemma read_hex_show: "read_hex (show_base hex_digit 16 n) = n"
proof (induction n rule: less_induct)
  case (less n)
  show ?case
  proof (cases "n < 16")
    case True
    then show ?thesis by (simp add: show_base_small read_hex_def hex_val_digit)
  next
    case False
    then have "read_hex (show_base hex_digit 16 n) = 16 * (n div 16) + n mod 16"
      using less.IH [of "n div 16"] by (simp add: show_base_step read_hex_def hex_val_digit)
    then show ?thesis by simp
  qed
qed

subsection \<open>Properties\<close>

lemma digit_0: "digit 0 = CHR ''0''"
  by code_simp

lemma show_42: "show_nat 42 = ''42''"
  by code_simp


text \<open>
  C40: The functions \<open>emit_int\<close>, \<open>emit_int32\<close>, \<open>emit_int64\<close> print the value they are given, and nothing of their
  uninitialised buffers: for every width up to 64 and every value but the least one, \<open>strtol\<close> reads the value
  back, up to the first character that is not a digit.
\<close>

theorem emit_signed_reads_back:
  fixes x :: "'a::len word"
  assumes "LENGTH('a) \<le> 64" and "sint x \<noteq> - (2 ^ (LENGTH('a) - 1))"
  shows "\<exists>s. emit_signed junk x = Inr s \<and>
    (\<forall>r. \<not> starts_digit r \<longrightarrow> strtol (s @ r) = (sint x, r, False))"
proof (intro exI conjI allI impI)
  have "2 ^ (LENGTH('a) - 1) \<le> (2 :: int) ^ 63"
    using assms(1) by (intro power_increasing) auto
  then have "long_min \<le> sint x" and "sint x \<le> long_max"
    using sint_ge [of x] sint_lt [of x] by (simp_all add: long_min_def long_max_def)
  then show "strtol (show_int (sint x) @ r) = (sint x, r, False)" if "\<not> starts_digit r" for r
    using that by (simp add: strtol_show_int)
qed (rule emit_signed_decimal [OF assms])

theorem emit_signed_reads_back_witness:
  "\<exists>s. emit_signed (\<lambda>_. CHR ''?'') (- 2147483647 :: u32) = Inr s \<and> strtol (s @ '' x'') = (- 2147483647, '' x'', False)"
  using emit_signed_reads_back [of "- 2147483647 :: u32" "\<lambda>_. CHR ''?''"] by (auto simp: starts_digit_def is_digit_def)

text \<open>
  The hexadecimal functions print the value they are given: reading the digits gives the value back.
\<close>

theorem emit_hex_reads_back:
  fixes x :: "'a::len word"
  assumes "LENGTH('a) \<le> 64"
  shows "\<exists>s. emit_hex junk x = Inr s \<and> s \<noteq> [] \<and> length s \<le> 16 \<and> read_hex s = unat x"
  using emit_hex_digits [OF assms] hex_length [OF assms, of x] by (auto simp: read_hex_show)

theorem emit_hex_reads_back_witness:
  "\<exists>s. emit_hex (\<lambda>_. CHR ''?'') (0xdeadbeef :: u32) = Inr s \<and> s \<noteq> [] \<and> length s \<le> 16 \<and> read_hex s = 0xdeadbeef"
  using emit_hex_reads_back [of "\<lambda>_. CHR ''?''" "0xdeadbeef :: u32"] by simp

lemma emit_pad_uns_padded:
  assumes "LENGTH('a::len) \<le> 64" and "- (2 ^ 31) < pval"
  shows "emit_pad_uns junk pc pval (x :: 'a word) = Inr (padded pc pval (show_nat (unat x)))"
  using pad_with_digits [of tr_uns x digit 10 pval junk pc] decimal_length [OF assms(1), of x] assms(2)
  by (simp add: emit_pad_uns_def tr_uns_def show_base_decimal)

lemma two_digits: "k < 100 \<Longrightarrow> padded (CHR ''0'') 2 (show_nat k) = [digit (k div 10 mod 10), digit (k mod 10)]"
  by (cases "k < 10")
    (simp_all add: padded_def show_nat.simps [of k] show_nat.simps [of "k div 10"] digit_0)

text \<open>
  The padded functions print the digits with enough padding characters to reach the width, on the left for a
  positive width and on the right for a negative one; wider numbers are not cut, and no width overflows the buffer.
\<close>

theorem emit_pad_uns_fills:
  fixes x :: "'a::len word"
  assumes "LENGTH('a) \<le> 64" and "- (2 ^ 31) < pval"
  shows "emit_pad_uns junk pc pval x = Inr (padded pc pval (show_nat (unat x)))"
  by (rule emit_pad_uns_padded [OF assms])

theorem emit_pad_uns_fills_witness:
  "emit_pad_uns (\<lambda>_. CHR ''?'') CHR '' '' 5 (42 :: u32) = Inr ''   42''"
  using emit_pad_uns_fills [of 5 "\<lambda>_. CHR ''?''" "CHR '' ''" "42 :: u32"]
  by (simp add: padded_def show_42 numeral_3_eq_3)

text \<open>
  The padded functions for signed values print correctly the values that are not negative, but a negative
  value comes out with one character of the uninitialised buffer between the sign and the digits: the
  sign is counted in \<open>n\<close> before \<open>n\<close> is used to find the first digit.
\<close>

theorem emit_pad_signed_leaks:
  fixes x :: "'a::len word"
  assumes "LENGTH('a) \<le> 64" and "- (2 ^ 31) < pval" and "sint x \<noteq> - (2 ^ (LENGTH('a) - 1))"
  shows "emit_pad_signed junk pc pval x =
    Inr (if 0 \<le> sint x then padded pc pval (show_int (sint x))
         else (let s = show_nat (nat (- sint x)); pad = replicate (nat \<bar>pval\<bar> - (length s + 1)) pc;
                   t = CHR ''-'' # junk (nat (max pval 32) - length s - 1) # s
               in if pval < 0 then t @ pad else pad @ t))"
proof (cases "0 \<le> sint x")
  case True
  then show ?thesis using emit_pad_signed_nonneg [OF assms(1,2) True] by (simp only: if_True)
next
  case False
  then have "sint x < 0" by simp
  then show ?thesis
    unfolding if_not_P [OF False] by (rule emit_pad_signed_neg [OF assms(1,2) _ assms(3)])
qed

theorem emit_pad_signed_leaks_witness:
  "emit_pad_signed (\<lambda>_. CHR ''?'') CHR '' '' 5 (- 42 :: u32) = Inr ''  -?42''"
  using emit_pad_signed_leaks [of 5 "- 42 :: u32" "\<lambda>_. CHR ''?''" "CHR '' ''"]
  by (simp add: show_42 numeral_2_eq_2 Let_def)

text \<open>
  \<open>emit_double\<close> prints its number of hundredths exactly, always with two decimals.
\<close>

theorem emit_hundredths_exact:
  "emit_hundredths junk neg x =
    Inr ((if neg then ''-'' else []) @ show_nat (unat x div 100) @
         [CHR ''.'', digit (unat x div 10 mod 10), digit (unat x mod 10)])"
proof -
  define y where "y = (ucast (x mod 100) :: u32)"
  have y: "unat y = unat x mod 100"
    by (simp add: y_def unsigned_ucast_eq unat_mod take_bit_nat_eq_self_iff)
  have "emit_pad_uns junk (CHR ''0'') 2 y = Inr (padded (CHR ''0'') 2 (show_nat (unat x mod 100)))"
    unfolding y [symmetric] by (rule emit_pad_uns_padded) simp_all
  moreover have "unat x mod 100 div 10 mod 10 = unat x div 10 mod 10" "unat x mod 100 mod 10 = unat x mod 10"
    using mod_mult2_eq [of "unat x" 10 10] by simp_all
  moreover have "emit_uns junk (x div 100) = Inr (show_nat (unat x div 100))"
    using emit_uns_decimal [of junk "x div 100"] by (simp add: unat_div)
  ultimately show ?thesis
    using two_digits [of "unat x mod 100"] unfolding emit_hundredths_def y_def [symmetric]
    by (simp only: bind_res.simps append.simps mod_less_divisor)
qed

end
