(* ===== verification/CmdLine.thy ===== *)
theory CmdLine
  imports CStr Affinity
begin

section \<open>Command line of the standard harness (\<^verbatim>\<open>_utils.c\<close>)\<close>

text \<open>
  Options, their numeric arguments and the three lists: processors, time base delays, prefetch
  directives, with the functions that print them.  An argument vector is a list of strings.

  \<open>errno\<close> is a global variable that \<open>strtol\<close> sets and nothing clears: its being \<open>ERANGE\<close> is a
  part of the state.  \<open>usage\<close> prints its message and exits: it is the error \<open>Usage\<close>, and the message is
  \<open>usage_lines\<close>.  Floating point numbers are a parameter: \<open>strtod\<close>, and the products and quotients of an \<open>int\<close>
  by a \<open>double\<close>, converted back to \<open>int\<close>.
\<close>

subsection \<open>Lists of numbers\<close>

fun pp_tail :: "int list \<Rightarrow> string" where
  "pp_tail [] = []"
| "pp_tail (x # xs) = '','' @ show_int x @ pp_tail xs"

text \<open>The array is given by its \<open>n\<close> first cells.\<close>

fun pp_ints :: "int list \<Rightarrow> string" where
  "pp_ints [] = []"
| "pp_ints (x # xs) = show_int x @ pp_tail xs"

definition cpus_dump :: "cpus_t \<Rightarrow> string" where
  "cpus_dump p = pp_ints (cpu p)"

record ints_t =
  vals :: "int list"

fun ints_tail :: "nat \<Rightarrow> int list \<Rightarrow> string" where
  "ints_tail k [] = []"
| "ints_tail k (x # xs) = '','' @ show_int (int k) @ '':'' @ show_int x @ ints_tail (k + 1) xs"

definition ints_dump :: "ints_t \<Rightarrow> string" where
  "ints_dump p = (case vals p of [] \<Rightarrow> [] | x # xs \<Rightarrow> show_int 0 @ '':'' @ show_int x @ ints_tail 1 xs)"

subsection \<open>Prefetch directives\<close>

datatype prfdir_t = None_dir | Flush | Touch | Touch_store

record prfone_t =
  name :: string
  dir :: prfdir_t

type_synonym prfproc_t = "prfone_t list"
type_synonym prfdirs_t = "prfproc_t list"

definition dir_char :: "prfdir_t \<Rightarrow> char" where
  "dir_char d = (if d = Flush then CHR ''F'' else if d = Touch then CHR ''T''
                 else if d = Touch_store then CHR ''W'' else CHR ''I'')"

text \<open>The inner and the outer loop of \<open>prefetch_dump\<close>, with the flag \<open>some\<close>.\<close>

fun dump_vars :: "nat \<Rightarrow> prfproc_t \<Rightarrow> bool \<Rightarrow> string \<times> bool" where
  "dump_vars k [] some = ([], some)"
| "dump_vars k (r # rs) some =
     (if dir r \<noteq> None_dir then
        (let (s, some') = dump_vars k rs True
         in ((if some then '','' else []) @ show_int (int k) @ '':'' @ name r @ ''='' @ [dir_char (dir r)] @ s, some'))
      else dump_vars k rs some)"

fun dump_procs :: "nat \<Rightarrow> prfdirs_t \<Rightarrow> bool \<Rightarrow> string" where
  "dump_procs k [] some = []"
| "dump_procs k (q # qs) some = (let (s, some') = dump_vars k q some in s @ dump_procs (k + 1) qs some')"

definition prefetch_dump :: "prfdirs_t \<Rightarrow> string" where
  "prefetch_dump p = dump_procs 0 p False"

definition set_prefetch :: "prfdirs_t \<Rightarrow> prfdir_t \<Rightarrow> prfdirs_t" where
  "set_prefetch p d = map (map (\<lambda>r. r\<lparr>dir := d\<rparr>)) p"

text \<open>The slot of a name, as an index; \<open>char_dir\<close> is the \<open>switch\<close> on the letter of a directive.\<close>

fun get_name_slot :: "prfproc_t \<Rightarrow> string \<Rightarrow> nat option" where
  "get_name_slot [] nm = None"
| "get_name_slot (q # qs) nm = (if nm = name q then Some 0 else map_option Suc (get_name_slot qs nm))"

definition char_dir :: "char \<Rightarrow> prfdir_t" where
  "char_dir ch = (if ch = CHR ''F'' then Flush else if ch = CHR ''T'' then Touch
                  else if ch = CHR ''W'' then Touch_store else None_dir)"

text \<open>An empty argument reads the final NUL, which is no letter of a directive.\<close>

definition argoneprefetch :: "string \<Rightarrow> prfdirs_t \<Rightarrow> prfdirs_t" where
  "argoneprefetch p r = set_prefetch r (case p of [] \<Rightarrow> None_dir | ch # _ \<Rightarrow> char_dir ch)"

definition set_slot :: "prfdirs_t \<Rightarrow> nat \<Rightarrow> nat \<Rightarrow> prfdir_t \<Rightarrow> prfdirs_t" where
  "set_slot r proc k d = r[proc := (r ! proc)[k := (r ! proc ! k)\<lparr>dir := d\<rparr>]]"

text \<open>
  The loop of \<open>parse_prefetch\<close>: the result is the value returned (1 for success), the directives, which a
  failure leaves partly changed, and \<open>errno\<close>.  After a name and \<open>=\<close> the code reads two more characters, so
  that a string that ends there is read past its end.
\<close>

function prefetch_loop :: "bool \<Rightarrow> string \<Rightarrow> prfdirs_t \<Rightarrow> (bool \<times> prfdirs_t \<times> bool) res" where
  "prefetch_loop e p r =
     (let (l, q, e') = strtol p; proc = to_int l; e = (e \<or> e')
      in if proc < 0 \<or> proc \<ge> int (length r) \<or> p = [] \<or> q = [] \<or> hd q \<noteq> CHR '':'' then Inr (False, r, e)
         else
           (let p0 = takeWhile (\<lambda>ch. ch \<noteq> CHR ''='') (tl q); p = dropWhile (\<lambda>ch. ch \<noteq> CHR ''='') (tl q)
            in if p = [] then Inr (False, r, e)
               else (case get_name_slot (r ! nat proc) p0 of
                   None \<Rightarrow> Inr (False, r, e)
                 | Some k \<Rightarrow>
                     (case tl p of
                        [] \<Rightarrow> Inl Undefined
                      | ch # p \<Rightarrow>
                          (let r = set_slot r (nat proc) k (char_dir ch)
                           in case p of
                                [] \<Rightarrow> Inr (True, r, e)
                              | ch # p \<Rightarrow> if ch = CHR '','' then prefetch_loop e p r else Inr (False, r, e))))))"
  by pat_completeness auto
termination
proof (relation "measure (\<lambda>(e, p, r). length p)", goal_cases)
  case (2 e p r x l y q e' proc ea p0 p1 k ch p2 r' ch' p3)
  then have "length q \<le> length p" using strtol_length [of p l q e'] by metis
  moreover have "length p1 \<le> length (tl q)" using 2 length_dropWhile_le by metis
  moreover have "tl p1 = ch # ch' # p3" using 2 by metis
  then have "length p3 < length p1" by (cases p1) auto
  ultimately show ?case by simp
qed simp

declare prefetch_loop.simps [simp del]

definition parse_prefetch :: "bool \<Rightarrow> string \<Rightarrow> prfdirs_t \<Rightarrow> (bool \<times> prfdirs_t \<times> bool) res" where
  "parse_prefetch e p r = (if p = [] then Inr (True, r, e) else prefetch_loop e p r)"

definition argprefetch :: "bool \<Rightarrow> string \<Rightarrow> prfdirs_t \<Rightarrow> (prfdirs_t \<times> bool) res" where
  "argprefetch e p r = bind_res (parse_prefetch e p r) (\<lambda>(ok, r, e). if \<not> ok then Inl Usage else Inr (r, e))"

subsection \<open>Numeric arguments\<close>

text \<open>The overflow of a signed addition is undefined; the test that follows can only see it too late.\<close>

definition my_add :: "int \<Rightarrow> int \<Rightarrow> int res" where
  "my_add x y =
     (let r = x + y
      in if r < long_min \<or> long_max < r then Inl Undefined
         else if r < x \<or> r < y then Inl (Fatal ''overflow'') else Inr r)"

fun pow10_loop :: "nat \<Rightarrow> int \<Rightarrow> int res" where
  "pow10_loop 0 r = Inr r"
| "pow10_loop (Suc p) r =
     bind_res (my_add r r) (\<lambda>y2.
     bind_res (my_add y2 y2) (\<lambda>y4.
     bind_res (my_add y4 y4) (\<lambda>y8.
     bind_res (my_add y8 y2) (pow10_loop p))))"

definition my_pow10 :: "nat \<Rightarrow> int \<Rightarrow> int res" where
  "my_pow10 p x =
     bind_res (pow10_loop p x) (\<lambda>r. if r \<ge> int_max \<or> r \<le> 0 then Inl (Fatal ''overflow'') else Inr r)"

text \<open>\<open>do_argint\<close> returns with \<open>errno\<close> different from \<open>ERANGE\<close>, or does not return.\<close>

definition suffix_of :: "string \<Rightarrow> nat" where
  "suffix_of q = (case q of [] \<Rightarrow> 0 | ch # _ \<Rightarrow>
     if ch = CHR ''k'' \<or> ch = CHR ''K'' then 3 else if ch = CHR ''m'' \<or> ch = CHR ''M'' then 6 else 0)"

definition do_argint :: "bool \<Rightarrow> string \<Rightarrow> (int \<times> string) res" where
  "do_argint e p =
     (let (r, q, e') = strtol p
      in if e \<or> e' then Inl (Fatal ''overflow'')
         else if suffix_of q > 0 then bind_res (my_pow10 (suffix_of q) r) (\<lambda>r. Inr (to_int r, tl q))
         else Inr (to_int r, q))"

lemma do_argint_length: "do_argint e p = Inr (v, q) \<Longrightarrow> length q \<le> length p"
  using strtol_length [of p]
  by (fastforce simp: do_argint_def Let_def res_simps split: prod.splits if_splits)

definition argint :: "bool \<Rightarrow> string \<Rightarrow> int res" where
  "argint e p = bind_res (do_argint e p) (\<lambda>(r, q). if p = [] \<or> q \<noteq> [] then Inl Usage else Inr r)"

text \<open>\<open>argcpus\<close> first counts the numbers, then reads them again into a new set.\<close>

function count_cpus :: "bool \<Rightarrow> string \<Rightarrow> nat \<Rightarrow> (nat \<times> bool) res" where
  "count_cpus e p sz =
     (let (l, q, e') = strtol p; x = to_int l; e = (e \<or> e')
      in if x < 0 \<or> p = [] \<or> (q \<noteq> [] \<and> hd q \<noteq> CHR '','') then Inl Usage
         else if q = [] then Inr (sz + 1, e) else count_cpus e (tl q) (sz + 1))"
  by pat_completeness auto
termination
proof (relation "measure (\<lambda>(e, p, sz). length p)", goal_cases)
  case (2 e p sz x l y q e' v ea)
  then have "length q \<le> length p" using strtol_length [of p l q e'] by metis
  then show ?case using 2 by (cases q) auto
qed simp

declare count_cpus.simps [simp del]

fun fill_cpus :: "string \<Rightarrow> nat \<Rightarrow> int list" where
  "fill_cpus p 0 = []"
| "fill_cpus p (Suc k) = (let (l, q, e') = strtol p in to_int l # fill_cpus (tl q) k)"

definition argcpus :: "bool \<Rightarrow> string \<Rightarrow> (cpus_t \<times> bool) res" where
  "argcpus e p0 = bind_res (count_cpus e p0 0) (\<lambda>(sz, e). Inr (\<lparr>cpu = fill_cpus p0 sz\<rparr>, e))"

function argints :: "bool \<Rightarrow> string \<Rightarrow> ints_t \<Rightarrow> (ints_t \<times> bool) res" where
  "argints e p r =
     (if p = [] then Inr (r, e)
      else
        (let (l, q, e') = strtol p; idx = to_int l; e = (e \<or> e')
         in if idx < 0 \<or> idx \<ge> int (length (vals r)) \<or> q = [] \<or> hd q \<noteq> CHR '':'' then Inl Usage
            else (case do_argint e (tl q) of
                Inl er \<Rightarrow> Inl er
              | Inr (v, q') \<Rightarrow>
                  if tl q = [] \<or> (q' \<noteq> [] \<and> hd q' \<noteq> CHR '','') then Inl Usage
                  else (let r = r\<lparr>vals := (vals r)[nat idx := v]\<rparr>
                        in if q' = [] then Inr (r, False) else argints False (tl q') r))))"
  by pat_completeness auto
termination
proof (relation "measure (\<lambda>(e, p, r). length p)", goal_cases)
  case (2 e p r x l y q e' idx ea a v q' r')
  then have "length q \<le> length p" using strtol_length [of p l q e'] by metis
  moreover have "length q' \<le> length (tl q)" using 2 do_argint_length [of ea "tl q" v q'] by metis
  ultimately show ?case using 2 by (cases q) auto
qed simp

declare argints.simps [simp del]

subsection \<open>The options\<close>

datatype aff_mode_t = Aff_none | Aff_incr | Aff_random | Aff_custom | Aff_scan | Aff_topo

record cmd_t =
  verbose :: int
  max_run :: int
  size_of_test :: int
  stride :: int
  avail :: int
  n_exe :: int
  sync_n :: int
  aff_mode :: aff_mode_t
  aff_custom_enabled :: int
  aff_scan_enabled :: int
  aff_incr :: int
  aff_cpus :: cpus_t
  aff_topo :: "string option"
  shuffle :: int
  max_loop :: int
  delta_tb :: "ints_t option"
  prefetch :: "prfdirs_t option"
  static_prefetch :: int
  verbose_barrier :: int
  speedcheck :: int
  fix_order :: int
  prelude :: int

record 'd fp_ops =
  strtod :: "string \<Rightarrow> 'd \<times> string \<times> bool"
  int_mul :: "int \<Rightarrow> 'd \<Rightarrow> int res"
  int_div :: "int \<Rightarrow> 'd \<Rightarrow> int res"

definition argdouble :: "'d fp_ops \<Rightarrow> bool \<Rightarrow> string \<Rightarrow> ('d \<times> bool) res" where
  "argdouble fp e p =
     (let (r, q, e') = strtod fp p in if p = [] \<or> q \<noteq> [] then Inl Usage else Inr (r, e \<or> e'))"

text \<open>
  What \<open>parse_cmd\<close> does with a word that starts with a sign: an option without operand changes the command
  \<open>p\<close>, an option with an operand takes the next word.  The defaults \<open>d\<close> say which options exist.
\<close>

datatype action =
    Flag "cmd_t \<Rightarrow> cmd_t"
  | Operand "string \<Rightarrow> bool \<Rightarrow> cmd_t \<Rightarrow> (cmd_t \<times> bool) res"
  | No_option

definition with_int :: "(int \<Rightarrow> cmd_t \<Rightarrow> cmd_t) \<Rightarrow> action" where
  "with_int f = Operand (\<lambda>a e p. bind_res (argint e a) (\<lambda>x. Inr (f x p, False)))"

definition with_delays :: "(string \<Rightarrow> bool \<Rightarrow> ints_t \<Rightarrow> (ints_t \<times> bool) res) \<Rightarrow> action" where
  "with_delays f = Operand (\<lambda>a e p.
     case delta_tb p of None \<Rightarrow> Inl Undefined
     | Some r \<Rightarrow> bind_res (f a e r) (\<lambda>(r, e). Inr (p\<lparr>delta_tb := Some r\<rparr>, e)))"

definition with_prefetch :: "(string \<Rightarrow> bool \<Rightarrow> prfdirs_t \<Rightarrow> (prfdirs_t \<times> bool) res) \<Rightarrow> action" where
  "with_prefetch f = Operand (\<lambda>a e p.
     case prefetch p of None \<Rightarrow> Inl Undefined
     | Some r \<Rightarrow> bind_res (f a e r) (\<lambda>(r, e). Inr (p\<lparr>prefetch := Some r\<rparr>, e)))"

definition option_action :: "'d fp_ops \<Rightarrow> cmd_t \<Rightarrow> string \<Rightarrow> action" where
  "option_action fp d arg =
     (if arg = ''-q'' then Flag (\<lambda>p. p\<lparr>verbose := 0\<rparr>)
      else if arg = ''-v'' then Flag (\<lambda>p. p\<lparr>verbose := verbose p + 1\<rparr>)
      else if arg = ''-r'' then with_int (\<lambda>x p. p\<lparr>max_run := x\<rparr>)
      else if arg = ''-fr'' then Operand (\<lambda>a e p.
        bind_res (argdouble fp e a) (\<lambda>(f, e).
        bind_res (int_mul fp (max_run p) f) (\<lambda>m. Inr (p\<lparr>max_run := m\<rparr>, e))))
      else if arg = ''-s'' then with_int (\<lambda>x p. p\<lparr>size_of_test := x\<rparr>)
      else if stride d > 0 \<and> arg = ''-st'' then with_int (\<lambda>x p. p\<lparr>stride := if x \<le> 0 then 0 else x\<rparr>)
      else if arg = ''-fs'' then Operand (\<lambda>a e p.
        bind_res (argdouble fp e a) (\<lambda>(f, e).
        bind_res (int_mul fp (size_of_test p) f) (\<lambda>m. Inr (p\<lparr>size_of_test := m\<rparr>, e))))
      else if arg = ''-f'' then Operand (\<lambda>a e p.
        bind_res (argdouble fp e a) (\<lambda>(f, e).
        bind_res (int_mul fp (size_of_test p) f) (\<lambda>m.
        bind_res (int_div fp (max_run p) f) (\<lambda>r. Inr (p\<lparr>size_of_test := m, max_run := r\<rparr>, e)))))
      else if arg = ''-n'' then with_int (\<lambda>x p. p\<lparr>n_exe := if x < 1 then 1 else x\<rparr>)
      else if arg = ''-a'' then with_int (\<lambda>a p. p\<lparr>avail := a\<rparr>)
      else if sync_n d > 0 \<and> arg = ''-k'' then with_int (\<lambda>a p. p\<lparr>sync_n := if a < 0 then 0 else a\<rparr>)
      else if aff_mode d \<noteq> Aff_none \<and> arg = ''-i'' then
        with_int (\<lambda>i p. p\<lparr>aff_mode := Aff_incr, aff_incr := if i < 0 then 0 else i\<rparr>)
      else if aff_mode d \<noteq> Aff_none \<and> arg = ''-p'' then Operand (\<lambda>a e p.
        bind_res (argcpus e a) (\<lambda>(cpus, e). Inr (p\<lparr>aff_cpus := cpus\<rparr>, e)))
      else if aff_mode d \<noteq> Aff_none \<and> arg = ''+ra'' then Flag (\<lambda>p. p\<lparr>aff_mode := Aff_random\<rparr>)
      else if aff_custom_enabled d \<noteq> 0 \<and> arg = ''+ca'' then Flag (\<lambda>p. p\<lparr>aff_mode := Aff_custom\<rparr>)
      else if aff_mode d \<noteq> Aff_none \<and> arg = ''+ca'' then Flag (\<lambda>p. p\<lparr>aff_mode := Aff_random\<rparr>)
      else if aff_scan_enabled d \<noteq> 0 \<and> arg = ''+sa'' then Flag (\<lambda>p. p\<lparr>aff_mode := Aff_scan\<rparr>)
      else if aff_mode d \<noteq> Aff_none \<and> arg = ''+sa'' then Flag (\<lambda>p. p\<lparr>aff_mode := Aff_random\<rparr>)
      else if aff_scan_enabled d \<noteq> 0 \<and> arg = ''+ta'' then
        Operand (\<lambda>a e p. Inr (p\<lparr>aff_mode := Aff_topo, aff_topo := Some a\<rparr>, e))
      else if aff_mode d \<noteq> Aff_none \<and> arg = ''+sa'' then Flag (\<lambda>p. p\<lparr>aff_mode := Aff_random\<rparr>)
      else if shuffle d \<ge> 0 \<and> arg = ''+rm'' then Flag (\<lambda>p. p\<lparr>shuffle := 1\<rparr>)
      else if shuffle d \<ge> 0 \<and> arg = ''-rm'' then Flag (\<lambda>p. p\<lparr>shuffle := 0\<rparr>)
      else if speedcheck d \<ge> 0 \<and> arg = ''+sc'' then Flag (\<lambda>p. p\<lparr>speedcheck := 1\<rparr>)
      else if speedcheck d \<ge> 0 \<and> arg = ''-sc'' then Flag (\<lambda>p. p\<lparr>speedcheck := 0\<rparr>)
      else if fix_order d = 0 \<and> arg = ''+fix'' then Flag (\<lambda>p. p\<lparr>fix_order := 1\<rparr>)
      else if verbose_barrier d \<ge> 0 \<and> arg = ''+vb'' then Flag (\<lambda>p. p\<lparr>verbose_barrier := verbose_barrier p + 1\<rparr>)
      else if verbose_barrier d \<ge> 0 \<and> arg = ''-vb'' then Flag (\<lambda>p. p\<lparr>verbose_barrier := 0\<rparr>)
      else if prelude d > 0 \<and> arg = ''-vp'' then Flag (\<lambda>p. p\<lparr>prelude := 0\<rparr>)
      else if delta_tb d \<noteq> None \<and> arg = ''-tb'' then with_delays (\<lambda>a e r. argints e a r)
      else if delta_tb d \<noteq> None \<and> arg = ''-ta'' then with_delays (\<lambda>a e r.
        bind_res (argint e a) (\<lambda>da. Inr (r\<lparr>vals := map (\<lambda>_. da) (vals r)\<rparr>, False)))
      else if prefetch d \<noteq> None \<and> arg = ''-prf'' then with_prefetch (\<lambda>a e r. argprefetch e a r)
      else if prefetch d \<noteq> None \<and> arg = ''-pra'' then with_prefetch (\<lambda>a e r. Inr (argoneprefetch a r, e))
      else if static_prefetch d \<ge> 0 \<and> arg = ''-prs'' then
        with_int (\<lambda>prs p. p\<lparr>static_prefetch := if prs \<ge> 0 then prs else 0\<rparr>)
      else if max_loop d > 0 \<and> arg = ''-l'' then with_int (\<lambda>i p. p\<lparr>max_loop := if i < 1 then 1 else i\<rparr>)
      else No_option)"

text \<open>The loop over the words; the words that remain at its end, if any, are an error.\<close>

definition is_option :: "string \<Rightarrow> bool" where
  "is_option arg \<longleftrightarrow> (case arg of [] \<Rightarrow> False | ch # _ \<Rightarrow> ch = CHR ''-'' \<or> ch = CHR ''+'')"

fun cmd_loop :: "'d fp_ops \<Rightarrow> cmd_t \<Rightarrow> bool \<Rightarrow> string list \<Rightarrow> cmd_t \<Rightarrow> (cmd_t \<times> string list) res" where
  "cmd_loop fp d e [] p = Inr (p, [])"
| "cmd_loop fp d e (arg # args) p =
     (if \<not> is_option arg then Inr (p, arg # args)
      else case option_action fp d arg of
          Flag f \<Rightarrow> cmd_loop fp d e args (f p)
        | Operand f \<Rightarrow>
            (case args of
               [] \<Rightarrow> Inl Usage
             | a # rest \<Rightarrow> bind_res (f a e p) (\<lambda>(p, e). cmd_loop fp d e rest p))
        | No_option \<Rightarrow> Inl Usage)"

definition parse_cmd :: "'d fp_ops \<Rightarrow> bool \<Rightarrow> string list \<Rightarrow> cmd_t \<Rightarrow> cmd_t \<Rightarrow> cmd_t res" where
  "parse_cmd fp e args d p =
     bind_res (cmd_loop fp d e args p) (\<lambda>(p, rest). if rest = [] then Inr p else Inl Usage)"

text \<open>The message of \<open>usage\<close>, line by line.\<close>

definition default_mark :: "bool \<Rightarrow> string" where
  "default_mark b = (if b then '' (default)'' else [])"

definition usage_lines :: "string \<Rightarrow> cmd_t \<Rightarrow> string list" where
  "usage_lines prog d =
     [''usage: '' @ prog @ '' (options)*'',
      ''  -v      be verbose'',
      ''  -q      be quiet'',
      ''  -a <n>  run maximal number of tests for n available processors (default '' @ show_int (avail d) @ '')'',
      ''  -n <n>  run n tests concurrently'',
      ''  -r <n>  perform n runs (default '' @ show_int (max_run d) @ '')'',
      ''  -fr <f> multiply run number per f'',
      ''  -s <n>  outcomes per run (default '' @ show_int (size_of_test d) @ '')''] @
     (if stride d > 0 then [''  -st <n> stride (default '' @ show_int (stride d) @ '')''] else []) @
     [''  -fs <f> multiply outcomes per f'',
      ''  -f <f>  multiply outcomes per f, divide run number by f''] @
     (if aff_mode d \<noteq> Aff_none then
        [''  -i <n>  increment for allocating logical processors, -i 0 disables affinity mode'' @
           (if aff_mode d = Aff_incr then '' (default '' @ show_int (aff_incr d) @ '')'' else []),
         ''  -p <ns> specify logical processors (default '' @ [CHR 0x27] @ cpus_dump (aff_cpus d) @ [CHR 0x27] @ '')'',
         ''  +ra     randomise affinity'' @ default_mark (aff_mode d = Aff_random),
         (if aff_custom_enabled d \<noteq> 0 then ''  +ca     enable custom affinity'' @ default_mark (aff_mode d = Aff_custom)
          else ''  +ca     alias for +ra'')] @
        (if aff_scan_enabled d \<noteq> 0 then
           [''  +sa     enable scanning affinity'' @ default_mark (aff_mode d = Aff_scan),
            ''  +ta <topo> set topology affinity'']
         else [''  +sa     alias for +ra''])
      else []) @
     (if shuffle d \<ge> 0 then
        [''  +rm     randomise memory accesses'' @ default_mark (shuffle d \<noteq> 0),
         ''  -rm     do not randomise memory accesses'' @ default_mark (shuffle d = 0)]
      else []) @
     (if speedcheck d \<ge> 0 then
        [''  +sc     stop as soon as possible'' @ default_mark (speedcheck d \<noteq> 0),
         ''  -sc     run test completly'' @ default_mark (speedcheck d = 0)]
      else []) @
     (if fix_order d = 0 then [''  +fix    fix thread launch order''] else []) @
     (case delta_tb d of None \<Rightarrow> [] | Some r \<Rightarrow>
        [''  -tb <list> set timebase delays, default '' @ [CHR 0x27] @ ints_dump r @ [CHR 0x27],
         ''    List syntax is comma separated proc:delay'',
         ''  -ta <n>    set all timebase delays'']) @
     (if verbose_barrier d \<ge> 0 then
        [''  +vb     show iteration timings'' @ default_mark (verbose_barrier d \<noteq> 0),
         ''  -vb     do not show iteration timings'' @ default_mark (verbose_barrier d = 0)]
      else []) @
     (case prefetch d of None \<Rightarrow> [] | Some r \<Rightarrow>
        [''  -pra (I|F|T|W) set all prefetch'',
         ''  -prf <list> set prefetch, default '' @ [CHR 0x27] @ prefetch_dump r @ [CHR 0x27],
         ''    List syntax is comma separated proc:name=(I|F|T|W)'']) @
     (if static_prefetch d \<ge> 0 then
        [''  -prs <n> prefetch probability is 1/n, -prs 0 disables feature, default '' @ show_int (static_prefetch d)]
      else []) @
     (if max_loop d > 0 then
        [''  -l <n>  measure time by running assembly in a loop of size <n> (default '' @ show_int (max_loop d) @ '')'']
      else []) @
     (if prelude d > 0 then [''  -vp     no verbose prelude''] else []) @
     (if sync_n d > 0 then [''  -k <n>  undocumented (default '' @ show_int (sync_n d) @ '')''] else [])"

subsection \<open>Reading the lists that are printed\<close>

lemma tail_no_digit [simp]: "\<not> starts_digit (pp_tail xs)" "\<not> starts_digit (ints_tail k xs)"
  by (cases xs; simp add: starts_digit_def is_digit_def)+

lemma colon_no_digit [simp]: "\<not> starts_digit (CHR '':'' # s)" "\<not> starts_digit (CHR '','' # s)"
  by (simp_all add: starts_digit_def is_digit_def)

text \<open>A number of type \<open>int\<close> is read back.\<close>

lemma strtol_int [simp]: "in_int i \<Longrightarrow> \<not> starts_digit s \<Longrightarrow> strtol (show_int i @ s) = (i, s, False)"
  using in_int_long strtol_show_int by blast

lemma strtol_int_end [simp]: "in_int i \<Longrightarrow> strtol (show_int i) = (i, [], False)"
  using strtol_int [of i "[]"] by (simp add: starts_digit_def)

lemma count_cpus_dump:
  "\<forall>x \<in> set (x # xs). 0 \<le> x \<and> in_int x \<Longrightarrow>
   count_cpus e (show_int x @ pp_tail xs) sz = Inr (sz + length (x # xs), e)"
proof (induction xs arbitrary: x sz)
  case Nil
  then show ?case by (subst count_cpus.simps) (simp add: Let_def)
next
  case (Cons y ys)
  from Cons.IH [of y "sz + 1"] Cons.prems show ?case by (subst count_cpus.simps) (simp add: Let_def)
qed

lemma fill_cpus_dump:
  "\<forall>x \<in> set (x # xs). in_int x \<Longrightarrow> fill_cpus (show_int x @ pp_tail xs) (length (x # xs)) = x # xs"
proof (induction xs arbitrary: x)
  case (Cons y ys)
  from Cons.IH [of y] Cons.prems show ?case by simp
qed simp

lemma do_argint_show:
  "in_int i \<Longrightarrow> \<not> starts_digit s \<Longrightarrow> suffix_of s = 0 \<Longrightarrow> do_argint False (show_int i @ s) = Inr (i, s)"
  by (simp add: do_argint_def)

lemma do_argint_end: "in_int i \<Longrightarrow> do_argint False (show_int i) = Inr (i, [])"
  by (simp add: do_argint_def suffix_of_def)

lemma suffix_comma [simp]: "suffix_of (CHR '','' # s) = 0" "suffix_of [] = 0"
  by (simp_all add: suffix_of_def)

text \<open>One \<open>proc:delay\<close>.\<close>

lemma argints_step:
  assumes "k < length (vals r)" and "in_int (int k)" and "in_int x"
    and "s = [] \<or> hd s = CHR '',''" and "\<not> starts_digit s" and "suffix_of s = 0"
  shows "argints False (show_int (int k) @ '':'' @ show_int x @ s) r =
    (let r = r\<lparr>vals := (vals r)[k := x]\<rparr> in if s = [] then Inr (r, False) else argints False (tl s) r)"
  using assms by (cases s; subst argints.simps) (simp_all add: do_argint_show do_argint_end Let_def)

lemma argints_dump:
  "in_int (int (k + length xs)) \<Longrightarrow> \<forall>y \<in> set (x # xs). in_int y \<Longrightarrow>
   length (vals r) = k + length (x # xs) \<Longrightarrow>
   argints False (show_int (int k) @ '':'' @ show_int x @ ints_tail (k + 1) xs) r =
     Inr (r\<lparr>vals := take k (vals r) @ x # xs\<rparr>, False)"
proof (induction xs arbitrary: k x r)
  case Nil
  then show ?case
    by (simp add: argints_step [of k r x "[]", simplified] Let_def starts_digit_def upd_conv_take_nth_drop)
next
  case (Cons y ys)
  have k: "in_int (int k)" using Cons.prems(1) by (simp add: in_int_def)
  have "argints False (show_int (int k) @ '':'' @ show_int x @ ints_tail (k + 1) (y # ys)) r =
      argints False (show_int (int (k + 1)) @ '':'' @ show_int y @ ints_tail (k + 1 + 1) ys)
        (r\<lparr>vals := (vals r)[k := x]\<rparr>)"
    using argints_step [of k r x "ints_tail (k + 1) (y # ys)"] Cons.prems k by (simp add: Let_def)
  also have "\<dots> = Inr (r\<lparr>vals := take (k + 1) ((vals r)[k := x]) @ y # ys\<rparr>, False)"
    using Cons.IH [of "k + 1" y "r\<lparr>vals := (vals r)[k := x]\<rparr>"] Cons.prems by simp
  finally show ?case using Cons.prems by (simp add: take_Suc_conv_app_nth)
qed

end
