(* ===== verification/CmdLine_Facts.thy ===== *)
theory CmdLine_Facts
  imports CmdLine
begin

section \<open>Properties of the command line\<close>

text \<open>
  The lists that the harness prints are read back as they were, numbers with a suffix are scaled or
  refused, the parser keeps the command within its bounds, and \<open>usage\<close> shows the options that exist.
\<close>

subsection \<open>Prefetch directives\<close>

text \<open>The directives that \<open>prefetch_dump\<close> prints: thread, position and name of the variable, directive.\<close>

type_synonym item_t = "nat \<times> nat \<times> string \<times> prfdir_t"

fun var_items :: "nat \<Rightarrow> nat \<Rightarrow> prfproc_t \<Rightarrow> item_t list" where
  "var_items k i [] = []"
| "var_items k i (r # rs) =
     (if dir r \<noteq> None_dir then [(k, i, name r, dir r)] else []) @ var_items k (i + 1) rs"

fun proc_items :: "nat \<Rightarrow> prfdirs_t \<Rightarrow> item_t list" where
  "proc_items k [] = []"
| "proc_items k (q # qs) = var_items k 0 q @ proc_items (k + 1) qs"

fun item_str :: "item_t \<Rightarrow> string" where
  "item_str (k, i, nm, d) = show_int (int k) @ '':'' @ nm @ ''='' @ [dir_char d]"

fun commas :: "item_t list \<Rightarrow> string" where
  "commas [] = []"
| "commas (x # xs) = '','' @ item_str x @ commas xs"

fun joined :: "item_t list \<Rightarrow> string" where
  "joined [] = []"
| "joined (x # xs) = item_str x @ commas xs"

lemma commas_append [simp]: "commas (xs @ ys) = commas xs @ commas ys"
  by (induction xs) auto

lemma joined_append: "joined (xs @ ys) = joined xs @ (if xs = [] then joined ys else commas ys)"
  by (cases xs) auto

lemma dump_vars_items:
  "dump_vars k rs some =
     ((if some then commas (var_items k i rs) else joined (var_items k i rs)), some \<or> var_items k i rs \<noteq> [])"
proof (induction rs arbitrary: i some)
  case (Cons r rs)
  show ?case by (simp add: Cons.IH [where i = "i + 1"])
qed simp

lemma dump_procs_items:
  "dump_procs k qs some = (if some then commas (proc_items k qs) else joined (proc_items k qs))"
  by (induction qs arbitrary: k some) (auto simp: Let_def dump_vars_items [where i = 0] joined_append)

text \<open>Reading one directive.\<close>

lemma char_dir_char [simp]: "char_dir (dir_char d) = d"
  by (cases d) (auto simp: dir_char_def char_dir_def)

lemma takeWhile_name:
  "CHR ''='' \<notin> set nm \<Longrightarrow> takeWhile (\<lambda>ch. ch \<noteq> CHR ''='') (nm @ CHR ''='' # s) = nm"
  "CHR ''='' \<notin> set nm \<Longrightarrow> dropWhile (\<lambda>ch. ch \<noteq> CHR ''='') (nm @ CHR ''='' # s) = CHR ''='' # s"
  by (induction nm) auto

definition item_ok :: "prfdirs_t \<Rightarrow> item_t \<Rightarrow> bool" where
  "item_ok r = (\<lambda>(k, i, nm, d). k < length r \<and> in_int (int k) \<and> CHR ''='' \<notin> set nm \<and>
     get_name_slot (r ! k) nm = Some i)"

lemma prefetch_step:
  assumes "item_ok r (k, i, nm, d)"
  shows "prefetch_loop e (item_str (k, i, nm, d) @ s) r =
    (let r = set_slot r k i d
     in case s of [] \<Rightarrow> Inr (True, r, e)
        | ch # p \<Rightarrow> if ch = CHR '','' then prefetch_loop e p r else Inr (False, r, e))"
  using assms
  by (subst prefetch_loop.simps) (cases s; simp add: item_ok_def takeWhile_name Let_def)

text \<open>The names do not change, so that the items that follow can still be read.\<close>

lemma get_name_slot_cong: "map name q = map name q' \<Longrightarrow> get_name_slot q nm = get_name_slot q' nm"
proof (induction q arbitrary: q')
  case (Cons a q)
  then show ?case by (cases q') auto
qed simp

lemma get_name_slot_less: "get_name_slot q nm = Some i \<Longrightarrow> i < length q"
  by (induction q arbitrary: i) (auto split: if_splits)

lemma set_slot_names: "map (map name) (set_slot r k i d) = map (map name) r"
proof (cases "k < length r \<and> i < length (r ! k)")
  case True
  have "map name ((r ! k)[i := (r ! k ! i)\<lparr>dir := d\<rparr>]) = map name (r ! k)"
    using True list_update_id [of "map name (r ! k)" i] by (simp add: map_update)
  then show ?thesis
    using True list_update_id [of "map (map name) r" k] by (simp add: set_slot_def map_update)
next
  case False
  then show ?thesis
    by (metis (no_types, lifting) list_update_beyond list_update_id not_less set_slot_def)
qed

lemma item_ok_names: "map (map name) r = map (map name) r' \<Longrightarrow> item_ok r = item_ok r'"
proof (intro ext)
  fix x :: item_t assume eq: "map (map name) r = map (map name) r'"
  then have len: "length r = length r'" by (metis length_map)
  have slot: "k < length r \<Longrightarrow> get_name_slot (r ! k) nm = get_name_slot (r' ! k) nm" for k nm
    using eq len by (intro get_name_slot_cong) (metis nth_map)
  obtain k i nm d where x: "x = (k, i, nm, d)" by (cases x)
  show "item_ok r x = item_ok r' x"
    unfolding item_ok_def x prod.case using len slot [of k nm] by metis
qed

definition put_item :: "item_t \<Rightarrow> prfdirs_t \<Rightarrow> prfdirs_t" where
  "put_item = (\<lambda>(k, i, nm, d) r. set_slot r k i d)"

lemma put_item_names: "map (map name) (put_item x r) = map (map name) r"
  by (cases x) (simp add: put_item_def set_slot_names)

lemma prefetch_items:
  "\<forall>y \<in> set (x # xs). item_ok r y \<Longrightarrow>
   prefetch_loop e (item_str x @ commas xs) r = Inr (True, fold put_item (x # xs) r, e)"
proof (induction xs arbitrary: x r)
  case Nil
  obtain k i nm d where x: "x = (k, i, nm, d)" by (cases x)
  show ?case using prefetch_step [of r k i nm d e "[]"] Nil by (simp add: x put_item_def Let_def)
next
  case (Cons y ys)
  obtain k i nm d where x: "x = (k, i, nm, d)" by (cases x)
  have "prefetch_loop e (item_str x @ commas (y # ys)) r =
      prefetch_loop e (item_str y @ commas ys) (put_item x r)"
    using prefetch_step [of r k i nm d e "commas (y # ys)"] Cons.prems
    unfolding x by (simp add: put_item_def Let_def)
  also have "\<dots> = Inr (True, fold put_item (y # ys) (put_item x r), e)"
    using Cons.prems item_ok_names [OF put_item_names [of x r]] by (intro Cons.IH) auto
  finally show ?case by simp
qed

text \<open>The directives written, one after the other.\<close>

definition dir_at :: "prfdirs_t \<Rightarrow> nat \<Rightarrow> nat \<Rightarrow> prfdir_t" where
  "dir_at r k i = dir (r ! k ! i)"

lemma dir_at_set_slot:
  assumes "k < length r" and "i < length (r ! k)"
  shows "dir_at (set_slot r k' i' d) k i = (if k' = k \<and> i' = i then d else dir_at r k i)"
  using assms by (cases "k' = k") (auto simp: dir_at_def set_slot_def nth_list_update)

lemma shape_eq:
  assumes "map (map name) r = map (map name) r'"
    and "\<And>k i. k < length r \<Longrightarrow> i < length (r ! k) \<Longrightarrow> dir_at r k i = dir_at r' k i"
  shows "r = r'"
proof -
  have len: "length r = length r'" using assms(1) by (metis length_map)
  have names: "map name (r ! k) = map name (r' ! k)" if "k < length r" for k
    using assms(1) len that by (metis nth_map)
  have "r ! k = r' ! k" if "k < length r" for k
  proof (rule nth_equalityI)
    show "length (r ! k) = length (r' ! k)" using names [OF that] by (metis length_map)
    fix i assume "i < length (r ! k)"
    then have "name (r ! k ! i) = name (r' ! k ! i)"
      using names [OF that] by (metis length_map nth_map)
    moreover have "dir (r ! k ! i) = dir (r' ! k ! i)"
      using assms(2) [OF that \<open>i < length (r ! k)\<close>] by (simp add: dir_at_def)
    ultimately show "r ! k ! i = r' ! k ! i" by simp
  qed
  then show ?thesis using len by (intro nth_equalityI) auto
qed

lemma fold_put_names: "map (map name) (fold put_item xs r) = map (map name) r"
  by (induction xs arbitrary: r) (simp_all add: put_item_names)

lemma shape_length:
  assumes "map (map name) r = map (map name) r'"
  shows "length r = length r'" and "k < length r \<Longrightarrow> length (r ! k) = length (r' ! k)"
proof -
  show len: "length r = length r'" using assms by (metis length_map)
  show "k < length r \<Longrightarrow> length (r ! k) = length (r' ! k)" using assms len by (metis length_map nth_map)
qed

lemma dir_at_fold:
  assumes "k < length r" and "i < length (r ! k)"
    and "\<And>k i nm d. (k, i, nm, d) \<in> set xs \<Longrightarrow> d = dir_at p k i"
  shows "dir_at (fold put_item xs r) k i =
    (if \<exists>nm d. (k, i, nm, d) \<in> set xs then dir_at p k i else dir_at r k i)"
  using assms
proof (induction xs arbitrary: r)
  case (Cons x xs)
  obtain k' i' nm d where x: "x = (k', i', nm, d)" by (cases x)
  have here: "dir_at (put_item x r) k i = (if k' = k \<and> i' = i then d else dir_at r k i)"
    using Cons.prems by (simp add: x put_item_def dir_at_set_slot)
  have d: "d = dir_at p k' i'" using Cons.prems(3) [of k' i' nm d] by (simp add: x)
  have "dir_at (fold put_item xs (put_item x r)) k i =
      (if \<exists>nm d. (k, i, nm, d) \<in> set xs then dir_at p k i else dir_at (put_item x r) k i)"
  proof (rule Cons.IH)
    show "k < length (put_item x r)" and "i < length (put_item x r ! k)"
      using shape_length [OF put_item_names [of x r]] Cons.prems(1,2) by auto
    show "d = dir_at p k i" if "(k, i, nm, d) \<in> set xs" for k i nm d
      using Cons.prems(3) [of k i nm d] that by simp
  qed
  then show ?case using here d by (auto simp: x)
qed simp

text \<open>The items of a set of directives.\<close>

lemma var_items_iff:
  "(k', i, nm, d) \<in> set (var_items k j rs) \<longleftrightarrow>
   k' = k \<and> j \<le> i \<and> i < j + length rs \<and> nm = name (rs ! (i - j)) \<and> d = dir (rs ! (i - j)) \<and> d \<noteq> None_dir"
proof (induction rs arbitrary: j)
  case (Cons r rs)
  show ?case
  proof (cases "i = j")
    case False
    then show ?thesis using Cons.IH [of "j + 1"] by (cases "j < i") (auto simp: nth_Cons' Suc_le_eq)
  qed (use Cons.IH [of "j + 1"] in auto)
qed simp

lemma proc_items_iff:
  "(k, i, nm, d) \<in> set (proc_items j qs) \<longleftrightarrow>
   j \<le> k \<and> k < j + length qs \<and> i < length (qs ! (k - j)) \<and>
   nm = name (qs ! (k - j) ! i) \<and> d = dir (qs ! (k - j) ! i) \<and> d \<noteq> None_dir"
proof (induction qs arbitrary: j)
  case (Cons q qs)
  show ?case
  proof (cases "k = j")
    case False
    then show ?thesis
      using Cons.IH [of "j + 1"] by (cases "j < k") (auto simp: nth_Cons' Suc_le_eq var_items_iff)
  qed (use Cons.IH [of "j + 1"] in \<open>auto simp: var_items_iff\<close>)
qed simp

lemma get_name_slot_distinct:
  "distinct (map name q) \<Longrightarrow> i < length q \<Longrightarrow> get_name_slot q (name (q ! i)) = Some i"
proof (induction q arbitrary: i)
  case (Cons a q)
  show ?case
  proof (cases i)
    case (Suc j)
    then have "name (q ! j) \<noteq> name a" using Cons.prems by (metis Suc_less_eq distinct.simps(2) length_Cons length_map list.simps(9) nth_map nth_mem)
    then show ?thesis using Suc Cons by simp
  qed simp
qed simp

text \<open>Tables of directives as the program has them: names without \<open>=\<close>, all different in a thread.\<close>

definition names_ok :: "prfdirs_t \<Rightarrow> bool" where
  "names_ok p \<longleftrightarrow> length p < 2 ^ 31 \<and>
     (\<forall>q \<in> set p. distinct (map name q) \<and> (\<forall>r \<in> set q. CHR ''='' \<notin> set (name r)))"

lemma set_prefetch_names: "map (map name) (set_prefetch p d) = map (map name) p"
  by (simp add: set_prefetch_def)

lemma dir_at_set_prefetch: "k < length p \<Longrightarrow> i < length (p ! k) \<Longrightarrow> dir_at (set_prefetch p d) k i = d"
  by (simp add: dir_at_def set_prefetch_def)

lemma proc_items_ok: "names_ok p \<Longrightarrow> x \<in> set (proc_items 0 p) \<Longrightarrow> item_ok p x"
  by (cases x) (auto simp: names_ok_def item_ok_def proc_items_iff in_int_def get_name_slot_distinct, meson nth_mem)

lemma fold_items: "fold put_item (proc_items 0 p) (set_prefetch p None_dir) = p"
proof (rule shape_eq)
  let ?r = "set_prefetch p None_dir"
  show "map (map name) (fold put_item (proc_items 0 p) ?r) = map (map name) p"
    by (simp add: fold_put_names set_prefetch_names)
  fix k i
  assume "k < length (fold put_item (proc_items 0 p) ?r)" and "i < length (fold put_item (proc_items 0 p) ?r ! k)"
  then have ki: "k < length ?r" "i < length (?r ! k)" "k < length p" "i < length (p ! k)"
    using shape_length [OF fold_put_names [of "proc_items 0 p" ?r]] shape_length [OF set_prefetch_names [of p None_dir]]
    by auto
  then show "dir_at (fold put_item (proc_items 0 p) ?r) k i = dir_at p k i"
    by (subst dir_at_fold [where p = p]) (auto simp: proc_items_iff dir_at_set_prefetch, auto simp: dir_at_def)
qed

subsection \<open>Numbers with a suffix\<close>

lemma my_add_ok: "0 \<le> x \<Longrightarrow> 0 \<le> y \<Longrightarrow> x + y \<le> long_max \<Longrightarrow> my_add x y = Inr (x + y)"
  by (simp add: my_add_def long_min_def Let_def)

lemma my_add_neg: "x < 0 \<Longrightarrow> long_min \<le> x + x \<Longrightarrow> my_add x x = Inl (Fatal ''overflow'')"
  by (simp add: my_add_def Let_def long_max_def)

lemma pow10_loop_ok: "0 \<le> r \<Longrightarrow> r * 10 ^ p \<le> long_max \<Longrightarrow> pow10_loop p r = Inr (r * 10 ^ p)"
proof (induction p arbitrary: r)
  case (Suc p)
  have "r * 10 * 1 \<le> r * 10 * 10 ^ p" using Suc.prems(1) by (intro mult_left_mono) auto
  then have r10: "r * 10 \<le> long_max" using Suc.prems by (simp add: mult.assoc)
  then have "my_add r r = Inr (2 * r)" "my_add (2 * r) (2 * r) = Inr (4 * r)"
    "my_add (4 * r) (4 * r) = Inr (8 * r)" "my_add (8 * r) (2 * r) = Inr (10 * r)"
    using Suc.prems(1) by (simp_all add: my_add_ok)
  then show ?case using Suc.IH [of "10 * r"] Suc.prems by (simp add: mult_ac)
qed simp

text \<open>For numbers that fit in an \<open>int\<close>, the additions stay inside \<open>long\<close>.\<close>

lemma my_pow10_int:
  assumes "in_int n" and "0 < s" and "s \<le> 6"
  shows "my_pow10 s n =
    (if 0 < n \<and> n * 10 ^ s < int_max then Inr (n * 10 ^ s) else Inl (Fatal ''overflow''))"
proof (cases "0 \<le> n")
  case True
  have "n * 10 ^ s \<le> 2 ^ 31 * 10 ^ 6"
    using assms True by (intro mult_mono power_increasing) (auto simp: in_int_def)
  also have "\<dots> \<le> long_max" by (simp add: long_max_def)
  finally have "pow10_loop s n = Inr (n * 10 ^ s)" by (rule pow10_loop_ok [OF True])
  moreover have "0 < n * 10 ^ s \<longleftrightarrow> 0 < n" by (simp add: zero_less_mult_iff)
  ultimately show ?thesis by (simp add: my_pow10_def not_le not_less) linarith
next
  case False
  then obtain p where "s = Suc p" using assms(2) by (cases s) auto
  moreover have "my_add n n = Inl (Fatal ''overflow'')"
    using False assms(1) by (intro my_add_neg) (auto simp: in_int_def long_min_def)
  ultimately show ?thesis using False by (simp add: my_pow10_def)
qed

lemma argint_end: "in_int n \<Longrightarrow> argint False (show_int n) = Inr n"
  using do_argint_end by (simp add: argint_def)

subsection \<open>What the options change\<close>

text \<open>
  The bounds of the options that exist, and the sizes of the tables, which options fill but do not
  replace.
\<close>

definition cmd_ok :: "cmd_t \<Rightarrow> cmd_t \<Rightarrow> bool" where
  "cmd_ok d p \<longleftrightarrow> 1 \<le> n_exe p \<and> (sync_n d > 0 \<longrightarrow> 0 \<le> sync_n p) \<and> (aff_mode d \<noteq> Aff_none \<longrightarrow> 0 \<le> aff_incr p) \<and>
     (stride d > 0 \<longrightarrow> 0 \<le> stride p) \<and> (static_prefetch d \<ge> 0 \<longrightarrow> 0 \<le> static_prefetch p) \<and>
     (max_loop d > 0 \<longrightarrow> 1 \<le> max_loop p) \<and> (\<forall>x \<in> set (cpu (aff_cpus p)). 0 \<le> x)"

definition tables :: "cmd_t \<Rightarrow> nat option \<times> string list list option" where
  "tables p = (map_option (\<lambda>r. length (vals r)) (delta_tb p), map_option (map (map name)) (prefetch p))"

definition cmd_inv :: "cmd_t \<Rightarrow> cmd_t \<Rightarrow> cmd_t \<Rightarrow> bool" where
  "cmd_inv d p0 p \<longleftrightarrow> cmd_ok d p \<and> tables p = tables p0"

lemmas cmd_inv_defs = cmd_inv_def cmd_ok_def tables_def

fun keeps :: "(cmd_t \<Rightarrow> bool) \<Rightarrow> action \<Rightarrow> bool" where
  "keeps P (Flag f) \<longleftrightarrow> (\<forall>p. P p \<longrightarrow> P (f p))"
| "keeps P (Operand f) \<longleftrightarrow> (\<forall>a e p p' e'. P p \<longrightarrow> f a e p = Inr (p', e') \<longrightarrow> P p')"
| "keeps P No_option \<longleftrightarrow> True"

lemma keeps_if: "keeps P x \<Longrightarrow> keeps P y \<Longrightarrow> keeps P (if b then x else y)"
  by simp

lemma keeps_with_int: "(\<And>x p. P p \<Longrightarrow> P (f x p)) \<Longrightarrow> keeps P (with_int f)"
  by (auto simp: with_int_def res_simps)

lemma inv_delays:
  "cmd_inv d p0 p \<Longrightarrow> delta_tb p = Some r \<Longrightarrow> length (vals r') = length (vals r) \<Longrightarrow>
   cmd_inv d p0 (p\<lparr>delta_tb := Some r'\<rparr>)"
  by (simp add: cmd_inv_defs)

lemma inv_prefetch:
  "cmd_inv d p0 p \<Longrightarrow> prefetch p = Some r \<Longrightarrow> map (map name) r' = map (map name) r \<Longrightarrow>
   cmd_inv d p0 (p\<lparr>prefetch := Some r'\<rparr>)"
  by (simp add: cmd_inv_defs)

lemma keeps_delays:
  assumes "\<And>a e r r' e'. f a e r = Inr (r', e') \<Longrightarrow> length (vals r') = length (vals r)"
  shows "keeps (cmd_inv d p0) (with_delays f)"
  unfolding with_delays_def
  by (auto simp: res_simps split: option.splits intro: inv_delays dest: assms)

lemma keeps_prefetch:
  assumes "\<And>a e r r' e'. f a e r = Inr (r', e') \<Longrightarrow> map (map name) r' = map (map name) r"
  shows "keeps (cmd_inv d p0) (with_prefetch f)"
  unfolding with_prefetch_def
  by (auto simp: res_simps split: option.splits intro: inv_prefetch dest: assms)

lemma argints_length: "argints e p r = Inr (r', e') \<Longrightarrow> length (vals r') = length (vals r)"
proof (induction e p r rule: argints.induct)
  case (1 e p r)
  obtain l q x where p: "strtol p = (l, q, x)" by (cases "strtol p")
  show ?case
  proof (cases "p = [] \<or> to_int l < 0 \<or> to_int l \<ge> int (length (vals r)) \<or> q = [] \<or> hd q \<noteq> CHR '':''")
    case True
    then show ?thesis using "1.prems" p by (subst (asm) argints.simps) (auto simp: Let_def split: if_splits)
  next
    case False
    obtain v q' where v: "do_argint (e \<or> x) (tl q) = Inr (v, q')"
      using "1.prems" False p by (subst (asm) argints.simps) (auto simp: Let_def split: sum.splits)
    have IH: "argints False (tl q') (r\<lparr>vals := (vals r)[nat (to_int l) := v]\<rparr>) = Inr (r', e') \<Longrightarrow>
        length (vals r') = length (vals r)" if "q' \<noteq> []" "tl q \<noteq> []" "hd q' = CHR '',''"
      using "1.IH" [OF _ p [symmetric] refl refl refl refl _ v refl, of "r\<lparr>vals := (vals r)[nat (to_int l) := v]\<rparr>"] False that
      by auto
    show ?thesis
      using "1.prems" False p v IH by (subst (asm) argints.simps) (auto simp: Let_def split: if_splits)
  qed
qed

lemma prefetch_loop_names:
  "prefetch_loop e p r = Inr (ok, r', e') \<Longrightarrow> map (map name) r' = map (map name) r"
proof (induction e p r arbitrary: ok r' e' rule: prefetch_loop.induct)
  case (1 e p r)
  obtain l q x where p: "strtol p = (l, q, x)" by (cases "strtol p")
  let ?bad = "to_int l < 0 \<or> to_int l \<ge> int (length r) \<or> p = [] \<or> q = [] \<or> hd q \<noteq> CHR '':''"
  let ?p1 = "dropWhile (\<lambda>ch. ch \<noteq> CHR ''='') (tl q)"
  let ?p0 = "takeWhile (\<lambda>ch. ch \<noteq> CHR ''='') (tl q)"
  consider "?bad \<or> ?p1 = [] \<or> get_name_slot (r ! nat (to_int l)) ?p0 = None \<or> tl ?p1 = []"
    | k ch p2 where "\<not> ?bad" "?p1 \<noteq> []" "get_name_slot (r ! nat (to_int l)) ?p0 = Some k" "tl ?p1 = ch # p2"
    by (metis list.exhaust not_Some_eq)
  then show ?case
  proof cases
    case 1
    then show ?thesis
      using "1.prems" p by (subst (asm) prefetch_loop.simps) (auto simp: Let_def split: if_splits option.splits list.splits)
  next
    case 2
    let ?r = "set_slot r (nat (to_int l)) k (char_dir ch)"
    have IH: "prefetch_loop (e \<or> x) p3 ?r = Inr (ok, r', e') \<Longrightarrow> map (map name) r' = map (map name) ?r"
      if "p2 = CHR '','' # p3" for p3
      using "1.IH" [OF p [symmetric] refl refl refl refl _ refl refl _ 2(3,4) refl that refl] 2 by auto
    show ?thesis
    proof (cases p2)
      case Nil
      then show ?thesis
        using "1.prems" p 2 by (subst (asm) prefetch_loop.simps) (auto simp: Let_def set_slot_names split: if_splits)
    next
      case (Cons ch' p3)
      then show ?thesis
        using "1.prems" p 2 IH by (subst (asm) prefetch_loop.simps) (auto simp: Let_def set_slot_names split: if_splits)
    qed
  qed
qed

lemma argprefetch_names: "argprefetch e p r = Inr (r', e') \<Longrightarrow> map (map name) r' = map (map name) r"
  using prefetch_loop_names
  by (auto simp: argprefetch_def parse_prefetch_def res_simps split: if_splits)

lemma count_cpus_nonneg:
  "count_cpus e p sz = Inr (sz', e') \<Longrightarrow> sz < sz' \<and> (\<forall>x \<in> set (fill_cpus p (sz' - sz)). 0 \<le> x)"
proof (induction e p sz rule: count_cpus.induct)
  case (1 e p sz)
  obtain l q x where p: "strtol p = (l, q, x)" by (cases "strtol p")
  have ok: "0 \<le> to_int l" "p \<noteq> []" "q = [] \<or> hd q = CHR '',''"
    using "1.prems" p by (subst (asm) count_cpus.simps; auto simp: Let_def split: if_splits)+
  show ?case
  proof (cases "q = []")
    case True
    then have "sz' = Suc sz" using "1.prems" p ok by (subst (asm) count_cpus.simps) (simp add: Let_def)
    then show ?thesis using p ok by simp
  next
    case False
    then have "count_cpus (e \<or> x) (tl q) (sz + 1) = Inr (sz', e')"
      using "1.prems" p ok by (subst (asm) count_cpus.simps) (simp add: Let_def)
    then have "sz + 1 < sz'" "\<forall>y \<in> set (fill_cpus (tl q) (sz' - (sz + 1))). 0 \<le> y"
      using "1.IH" [OF p [symmetric] refl refl refl] ok False by auto
    moreover have "sz' - sz = Suc (sz' - (sz + 1))" using \<open>sz + 1 < sz'\<close> by simp
    ultimately show ?thesis using ok p by simp
  qed
qed

lemma argcpus_nonneg: "argcpus e p = Inr (c, e') \<Longrightarrow> x \<in> set (cpu c) \<Longrightarrow> 0 \<le> x"
  using count_cpus_nonneg [of e p 0] by (auto simp: argcpus_def res_simps)

lemma inv_runs [simp]:
  "cmd_inv d p0 (p\<lparr>max_run := m\<rparr>) = cmd_inv d p0 p"
  "cmd_inv d p0 (p\<lparr>size_of_test := m\<rparr>) = cmd_inv d p0 p"
  "cmd_inv d p0 (p\<lparr>size_of_test := m, max_run := r\<rparr>) = cmd_inv d p0 p"
  "cmd_inv d p0 (p\<lparr>aff_mode := Aff_topo, aff_topo := Some a\<rparr>) = cmd_inv d p0 p"
  by (simp_all add: cmd_inv_defs)

lemma inv_cpus: "cmd_inv d p0 p \<Longrightarrow> argcpus e a = Inr (cpus, e') \<Longrightarrow> cmd_inv d p0 (p\<lparr>aff_cpus := cpus\<rparr>)"
  using argcpus_nonneg [of e a cpus e'] by (simp add: cmd_inv_defs)

lemma keeps_operand:
  "(\<And>a e p p' e'. P p \<Longrightarrow> f a e p = Inr (p', e') \<Longrightarrow> P p') \<Longrightarrow> keeps P (Operand f)"
  by auto

lemma keeps_flag: "(\<And>p. P p \<Longrightarrow> P (f p)) \<Longrightarrow> keeps P (Flag f)"
  by auto

lemma option_action_keeps: "keeps (cmd_inv d p0) (option_action fp d arg)"
  unfolding option_action_def
  by (intro keeps_if keeps_with_int keeps_delays keeps_prefetch keeps_operand keeps_flag keeps.simps(3) [THEN iffD2] TrueI)
    ((erule argints_length argprefetch_names) | (simp add: cmd_inv_defs; fail) |
      (simp add: res_simps argoneprefetch_def set_prefetch_names; fail) |
      (auto simp: res_simps argoneprefetch_def set_prefetch_names intro: inv_cpus))+

lemma cmd_loop_keeps:
  "cmd_loop fp d e args p = Inr (p', rest) \<Longrightarrow> cmd_inv d p0 p \<Longrightarrow> cmd_inv d p0 p'"
proof (induction fp d e args p rule: cmd_loop.induct)
  case (2 fp d e arg args p)
  note keeps = option_action_keeps [of d p0 fp arg]
  show ?case
  proof (cases "is_option arg")
    case True
    show ?thesis
    proof (cases "option_action fp d arg")
      case (Flag f)
      then show ?thesis using 2 True keeps by simp
    next
      case (Operand f)
      obtain a rest' where args: "args = a # rest'"
        using "2.prems" True Operand by (cases args) auto
      then obtain q e' where q: "f a e p = Inr (q, e')" and loop: "cmd_loop fp d e' rest' q = Inr (p', rest)"
        using "2.prems" True Operand by (auto simp: res_simps)
      have "cmd_inv d p0 q" using keeps q "2.prems"(2) unfolding Operand keeps.simps by blast
      then show ?thesis using "2.IH"(2) [OF _ Operand args loop] True by simp
    next
      case No_option
      then show ?thesis using 2 True by simp
    qed
  qed (use 2 in simp)
qed simp

subsection \<open>The options that the usage message shows\<close>

text \<open>The second word of a line, after two spaces.\<close>

definition line_option :: "string \<Rightarrow> string" where
  "line_option l = takeWhile (\<lambda>ch. ch \<noteq> CHR '' '') (drop 2 l)"

definition usage_options :: "string \<Rightarrow> cmd_t \<Rightarrow> string list" where
  "usage_options prog d = filter is_option (map line_option (usage_lines prog d))"

lemma some_action [simp]:
  "with_int f \<noteq> No_option" "with_delays g \<noteq> No_option" "with_prefetch h \<noteq> No_option"
  by (simp_all add: with_int_def with_delays_def with_prefetch_def)

text \<open>The options with the conditions under which they exist.\<close>

definition option_table :: "cmd_t \<Rightarrow> (string \<times> bool) list" where
  "option_table d =
     [(''-q'', True), (''-v'', True), (''-r'', True), (''-fr'', True), (''-s'', True), (''-st'', stride d > 0),
      (''-fs'', True), (''-f'', True), (''-n'', True), (''-a'', True), (''-k'', sync_n d > 0),
      (''-i'', aff_mode d \<noteq> Aff_none), (''-p'', aff_mode d \<noteq> Aff_none), (''+ra'', aff_mode d \<noteq> Aff_none),
      (''+ca'', aff_custom_enabled d \<noteq> 0 \<or> aff_mode d \<noteq> Aff_none),
      (''+sa'', aff_scan_enabled d \<noteq> 0 \<or> aff_mode d \<noteq> Aff_none), (''+ta'', aff_scan_enabled d \<noteq> 0),
      (''+rm'', shuffle d \<ge> 0), (''-rm'', shuffle d \<ge> 0), (''+sc'', speedcheck d \<ge> 0), (''-sc'', speedcheck d \<ge> 0),
      (''+fix'', fix_order d = 0), (''+vb'', verbose_barrier d \<ge> 0), (''-vb'', verbose_barrier d \<ge> 0),
      (''-vp'', prelude d > 0), (''-tb'', delta_tb d \<noteq> None), (''-ta'', delta_tb d \<noteq> None),
      (''-prf'', prefetch d \<noteq> None), (''-pra'', prefetch d \<noteq> None), (''-prs'', static_prefetch d \<ge> 0),
      (''-l'', max_loop d > 0)]"

lemma no_option_if:
  "x \<noteq> No_option \<Longrightarrow> (if b then x else y) \<noteq> No_option \<longleftrightarrow> b \<or> y \<noteq> No_option"
  by simp

lemma option_action_table:
  "option_action fp d arg \<noteq> No_option \<longleftrightarrow> (arg, True) \<in> set (option_table d)"
  unfolding option_action_def option_table_def
  by (simp only: no_option_if some_action action.distinct simp_thms list.set insert_iff prod.inject empty_iff eq_True)
    (simp only: conj_disj_distribL conj_disj_distribR disj_assoc disj_commute disj_left_commute disj_absorb
      disj_left_absorb conj_commute)

lemma line_option_simps:
  "line_option (CHR '' '' # CHR '' '' # s) = takeWhile (\<lambda>ch. ch \<noteq> CHR '' '') s"
  by (simp add: line_option_def)

definition lists_option :: "string \<Rightarrow> string list \<Rightarrow> bool" where
  "lists_option arg ls \<longleftrightarrow> is_option arg \<and> (\<exists>l \<in> set ls. line_option l = arg)"

lemma lists_option_simps:
  "\<not> lists_option arg []"
  "lists_option arg (l # ls) \<longleftrightarrow> (is_option (line_option l) \<and> arg = line_option l) \<or> lists_option arg ls"
  "lists_option arg (xs @ ys) \<longleftrightarrow> lists_option arg xs \<or> lists_option arg ys"
  "lists_option arg (if b then xs else ys) \<longleftrightarrow> (b \<and> lists_option arg xs) \<or> (\<not> b \<and> lists_option arg ys)"
  by (auto simp: lists_option_def)

lemma lists_option_case:
  "lists_option arg (case x of None \<Rightarrow> [] | Some r \<Rightarrow> f r) \<longleftrightarrow> (\<exists>r. x = Some r \<and> lists_option arg (f r))"
  by (cases x) (auto simp: lists_option_simps)

lemma line_option_if: "line_option (if b then x else y) = (if b then line_option x else line_option y)"
  by simp

lemma usage_options_table:
  assumes "aff_mode d = Aff_none \<Longrightarrow> aff_custom_enabled d = 0 \<and> aff_scan_enabled d = 0"
  shows "arg \<in> set (usage_options prog d) \<longleftrightarrow> (arg, True) \<in> set (option_table d)"
proof -
  have "arg \<in> set (usage_options prog d) \<longleftrightarrow> lists_option arg (usage_lines prog d)"
    by (auto simp: usage_options_def lists_option_def)
  also have "\<dots> \<longleftrightarrow> (arg, True) \<in> set (option_table d)"
    unfolding usage_lines_def option_table_def
    by (simp only: lists_option_simps lists_option_case append_Cons append_Nil,
        cases "aff_mode d = Aff_none"; cases "aff_custom_enabled d = 0"; cases "aff_scan_enabled d = 0")
      (simp_all add: line_option_def is_option_def assms split del: if_split cong: if_cong,
       simp_all only: conj_disj_distribL conj_disj_distribR disj_assoc disj_commute disj_left_commute
         disj_absorb disj_left_absorb conj_commute)
  finally show ?thesis .
qed

subsection \<open>Properties\<close>

text \<open>
  \<open>argcpus\<close> reads back what \<open>cpus_dump\<close> prints, for every non-empty set of processors, which are
  non-negative numbers; \<open>errno\<close> stays as it was.
\<close>

theorem argcpus_reads_dump:
  assumes "cs \<noteq> []" and "\<forall>x \<in> set cs. 0 \<le> x \<and> in_int x"
  shows "argcpus e (cpus_dump \<lparr>cpu = cs\<rparr>) = Inr (\<lparr>cpu = cs\<rparr>, e)"
proof -
  obtain x xs where cs: "cs = x # xs" using assms(1) by (cases cs) auto
  have "count_cpus e (show_int x @ pp_tail xs) 0 = Inr (length cs, e)"
    using count_cpus_dump [of x xs e 0] assms(2) by (simp add: cs)
  moreover have "fill_cpus (show_int x @ pp_tail xs) (length cs) = cs"
    unfolding cs by (rule fill_cpus_dump) (use assms(2) cs in auto)
  ultimately show ?thesis by (simp add: argcpus_def cpus_dump_def cs)
qed

theorem argcpus_reads_dump_witness:
  "argcpus True (cpus_dump \<lparr>cpu = [3, 0, 12]\<rparr>) = Inr (\<lparr>cpu = [3, 0, 12]\<rparr>, True)"
  by (rule argcpus_reads_dump) (simp_all add: in_int_def)

text \<open>
  \<open>argints\<close> reads back what \<open>ints_dump\<close> prints: it replaces every delay of a table of the same size.
\<close>

theorem argints_reads_dump:
  assumes "length xs < 2 ^ 31" and "\<forall>x \<in> set xs. in_int x" and "length (vals r) = length xs"
  shows "argints False (ints_dump \<lparr>vals = xs\<rparr>) r = Inr (\<lparr>vals = xs\<rparr>, False)"
proof (cases xs)
  case Nil
  then show ?thesis using assms(3) by (subst argints.simps) (simp add: ints_dump_def)
next
  case (Cons y ys)
  have "argints False (show_int (int 0) @ '':'' @ show_int y @ ints_tail (0 + 1) ys) r =
      Inr (r\<lparr>vals := take 0 (vals r) @ y # ys\<rparr>, False)"
    by (rule argints_dump) (use assms Cons in \<open>auto simp: in_int_def\<close>)
  then show ?thesis by (simp add: ints_dump_def Cons)
qed

theorem argints_reads_dump_witness:
  "argints False (ints_dump \<lparr>vals = [5, -7, 100]\<rparr>) \<lparr>vals = [0, 0, 0]\<rparr> = Inr (\<lparr>vals = [5, -7, 100]\<rparr>, False)"
  by (rule argints_reads_dump) (simp_all add: in_int_def)

text \<open>
  \<open>parse_prefetch\<close> reads back what \<open>prefetch_dump\<close> prints, from a table without directives: every thread
  and variable gets its directive again, for names that contain no \<open>=\<close> and are different in a thread.
\<close>

theorem parse_prefetch_reads_dump:
  assumes "names_ok p"
  shows "parse_prefetch e (prefetch_dump p) (set_prefetch p None_dir) = Inr (True, p, e)"
proof (cases "proc_items 0 p")
  case Nil
  then show ?thesis
    using fold_items [of p] by (simp add: parse_prefetch_def prefetch_dump_def dump_procs_items)
next
  case (Cons x xs)
  have "\<forall>y \<in> set (x # xs). item_ok (set_prefetch p None_dir) y"
    using proc_items_ok [OF assms] item_ok_names [OF set_prefetch_names [of p None_dir]] Cons by metis
  moreover have "item_str x \<noteq> []" by (cases x) simp
  ultimately show ?thesis
    using prefetch_items [of x xs "set_prefetch p None_dir" e] fold_items [of p] Cons
    by (simp add: parse_prefetch_def prefetch_dump_def dump_procs_items)
qed

theorem parse_prefetch_reads_dump_witness:
  "parse_prefetch False
     (prefetch_dump [[\<lparr>name = ''x'', dir = Flush\<rparr>, \<lparr>name = ''y'', dir = None_dir\<rparr>], [\<lparr>name = ''y'', dir = Touch_store\<rparr>]])
     [[\<lparr>name = ''x'', dir = None_dir\<rparr>, \<lparr>name = ''y'', dir = None_dir\<rparr>], [\<lparr>name = ''y'', dir = None_dir\<rparr>]] =
   Inr (True, [[\<lparr>name = ''x'', dir = Flush\<rparr>, \<lparr>name = ''y'', dir = None_dir\<rparr>], [\<lparr>name = ''y'', dir = Touch_store\<rparr>]], False)"
  using parse_prefetch_reads_dump
    [of "[[\<lparr>name = ''x'', dir = Flush\<rparr>, \<lparr>name = ''y'', dir = None_dir\<rparr>], [\<lparr>name = ''y'', dir = Touch_store\<rparr>]]" False]
  by (simp add: names_ok_def set_prefetch_def)

text \<open>
  A directive that ends after its \<open>=\<close> makes \<open>parse_prefetch\<close> read beyond the end of the string, for any
  thread and any of its variables.
\<close>

theorem parse_prefetch_overruns:
  assumes "names_ok r" and "k < length r" and "i < length (r ! k)"
  shows "parse_prefetch e (show_int (int k) @ '':'' @ name (r ! k ! i) @ ''='') r = Inl Undefined"
proof -
  have "in_int (int k)" using assms by (simp add: names_ok_def in_int_def)
  moreover have "CHR ''='' \<notin> set (name (r ! k ! i))" "get_name_slot (r ! k) (name (r ! k ! i)) = Some i"
    using assms by (auto simp: names_ok_def get_name_slot_distinct) (meson nth_mem)
  ultimately show ?thesis
    using assms(2) unfolding parse_prefetch_def
    by (subst prefetch_loop.simps) (simp add: takeWhile_name [where s = "[]", simplified] Let_def)
qed

theorem parse_prefetch_overruns_witness:
  "parse_prefetch False (show_int (int 0) @ '':'' @ ''x'' @ ''='') [[\<lparr>name = ''x'', dir = None_dir\<rparr>]] = Inl Undefined"
  using parse_prefetch_overruns [of "[[\<lparr>name = ''x'', dir = None_dir\<rparr>]]" 0 0 False]
  by (simp add: names_ok_def)

text \<open>
  A number with the suffix \<open>k\<close> or \<open>m\<close> (in either case) is multiplied by \<open>10^3\<close> or \<open>10^6\<close>, and refused when the
  product reaches \<open>INT_MAX\<close>, or is not positive; without a suffix the number itself is the result, and the
  rest of the word must be empty.
\<close>

theorem argint_scales:
  assumes "in_int n"
  shows "argint False (show_int n) = Inr n \<and>
    (suffix_of [ch] = s \<and> 0 < s \<longrightarrow> argint False (show_int n @ [ch]) =
      (if 0 < n \<and> n * 10 ^ s < int_max then Inr (n * 10 ^ s) else Inl (Fatal ''overflow''))) \<and>
    (suffix_of [ch] = 0 \<and> \<not> is_digit ch \<longrightarrow> argint False (show_int n @ [ch]) = Inl Usage)"
proof (intro conjI impI; (elim conjE)?)
  show "argint False (show_int n) = Inr n" by (rule argint_end [OF assms])
  have ch: "strtol (show_int n @ [ch]) = (n, [ch], False)" if "\<not> is_digit ch"
    using assms that by (simp add: starts_digit_def)
  show "argint False (show_int n @ [ch]) = Inl Usage" if "suffix_of [ch] = 0" "\<not> is_digit ch"
    using ch that by (simp add: argint_def do_argint_def)
  assume s: "suffix_of [ch] = s" "0 < s"
  then have "\<not> is_digit ch" "s \<le> 6" by (auto simp: suffix_of_def is_digit_def split: if_splits)
  moreover have "in_int (n * 10 ^ s)" if "0 < n" "n * 10 ^ s < int_max"
  proof -
    have "0 \<le> n * 10 ^ s" using that(1) by simp
    then show ?thesis using that(2) by (simp add: in_int_def int_max_def)
  qed
  ultimately show "argint False (show_int n @ [ch]) =
      (if 0 < n \<and> n * 10 ^ s < int_max then Inr (n * 10 ^ s) else Inl (Fatal ''overflow''))"
    using ch s my_pow10_int [OF assms s(2)] by (simp add: argint_def do_argint_def)
qed

theorem argint_scales_witness:
  "argint False (show_int 20 @ ''k'') = Inr 20000 \<and> argint False (show_int 3000 @ ''M'') = Inl (Fatal ''overflow'')"
  using argint_scales [of 20 "CHR ''k''" 3] argint_scales [of 3000 "CHR ''M''" 6]
  by (simp add: in_int_def suffix_of_def int_max_def)

text \<open>
  C32: Whatever the words, when \<open>parse_cmd\<close> returns, the command respects the bounds of its options (at least
  one copy of the test, a positive loop, no negative stride, increment, prefetch rate or processor) and
  the tables of delays and directives have kept their sizes and names.
\<close>

theorem parse_cmd_keeps_bounds:
  assumes "cmd_ok d p" and "parse_cmd fp e args d p = Inr p'"
  shows "cmd_ok d p' \<and> tables p' = tables p"
proof -
  obtain rest where "cmd_loop fp d e args p = Inr (p', rest)"
    using assms(2) by (auto simp: parse_cmd_def res_simps split: if_splits)
  moreover have "cmd_inv d p p" using assms(1) by (simp add: cmd_inv_def)
  ultimately have "cmd_inv d p p'" by (rule cmd_loop_keeps)
  then show ?thesis by (simp add: cmd_inv_def)
qed

definition ex_cmd :: cmd_t where
  "ex_cmd = \<lparr>verbose = 0, max_run = 10, size_of_test = 100, stride = 1, avail = 4, n_exe = 1, sync_n = 0,
     aff_mode = Aff_incr, aff_custom_enabled = 0, aff_scan_enabled = 0, aff_incr = 1, aff_cpus = \<lparr>cpu = [0, 1]\<rparr>,
     aff_topo = None, shuffle = -1, max_loop = 0, delta_tb = None, prefetch = None, static_prefetch = -1,
     verbose_barrier = -1, speedcheck = -1, fix_order = 0, prelude = 0\<rparr>"

definition ex_fp :: "unit fp_ops" where
  "ex_fp = \<lparr>strtod = \<lambda>s. ((), s, False), int_mul = \<lambda>i _. Inr i, int_div = \<lambda>i _. Inr i\<rparr>"

lemma ex_parse: "parse_cmd ex_fp False [''-n'', ''-5'', ''+fix''] ex_cmd ex_cmd = Inr (ex_cmd\<lparr>fix_order := 1\<rparr>)"
proof -
  have "show_int (- 5) = ''-5''" by code_simp
  then have "argint False ''-5'' = Inr (- 5)"
    using argint_end [of "- 5"] by (simp add: in_int_def)
  then show ?thesis
    by (simp add: parse_cmd_def option_action_def is_option_def with_int_def) (simp add: ex_cmd_def)
qed

theorem parse_cmd_keeps_bounds_witness:
  "cmd_ok ex_cmd (ex_cmd\<lparr>fix_order := 1\<rparr>)"
  using parse_cmd_keeps_bounds [OF _ ex_parse] by (simp add: ex_cmd_def cmd_ok_def)

text \<open>
  The usage message shows exactly the options that the parser accepts, for all defaults in which the
  custom and scan modes are enabled only together with affinity.
\<close>

theorem usage_shows_options:
  assumes "aff_mode d = Aff_none \<Longrightarrow> aff_custom_enabled d = 0 \<and> aff_scan_enabled d = 0"
  shows "arg \<in> set (usage_options prog d) \<longleftrightarrow> option_action fp d arg \<noteq> No_option"
  using usage_options_table [OF assms, of arg prog] option_action_table [of fp d arg] by simp

theorem usage_shows_options_witness:
  "''-i'' \<in> set (usage_options ''prog'' ex_cmd)"
  using usage_shows_options [of ex_cmd "''-i''" "''prog''" ex_fp]
  by (simp add: option_action_def) (simp add: ex_cmd_def)

end
