(* ===== verification/PreSi.thy ===== *)
theory PreSi
  imports CmdLine_Facts
begin

section \<open>Command line of the bare-metal harness (\<^verbatim>\<open>_presi.c\<close>)\<close>

text \<open>
  Options as in the standard harness, fewer of them, then words \<open>tag=value\<close> that set the parameters
  of the test: \<open>parse_opt\<close> stops at the first word that is no option and returns the words that are left.
\<close>

subsection \<open>Options\<close>

record opt_t =
  o_verbose :: int
  o_max_run :: int
  o_size_of_test :: int
  o_avail :: int
  o_n_exe :: int
  o_delay :: int
  o_fix :: int

text \<open>Here \<open>my_pow10\<close> does not compare its result with \<open>INT_MAX\<close>.\<close>

definition presi_pow10 :: "nat \<Rightarrow> int \<Rightarrow> int res" where
  "presi_pow10 p x = pow10_loop p x"

definition presi_argint :: "bool \<Rightarrow> string \<Rightarrow> (int \<times> string) res" where
  "presi_argint e p =
     (let (r, q, e') = strtol p
      in if e \<or> e' then Inl (Fatal ''overflow'')
         else if suffix_of q > 0 then bind_res (presi_pow10 (suffix_of q) r) (\<lambda>r. Inr (to_int r, tl q))
         else Inr (to_int r, q))"

definition argint_opt :: "bool \<Rightarrow> string \<Rightarrow> int res" where
  "argint_opt e p = bind_res (presi_argint e p) (\<lambda>(r, q). if p = [] \<or> q \<noteq> [] then Inl Usage else Inr r)"

definition usage_opt :: "string \<Rightarrow> opt_t \<Rightarrow> string list" where
  "usage_opt prog d =
     [''usage: '' @ prog @ '' (options)* (parameters)*'',
      ''  -v      be verbose'',
      ''  -q      be quiet'',
      ''  -a <n>  consider that <n> cores are available (default '' @ show_int (o_avail d) @ '')'',
      ''  -n <n>  run n tests concurrently (default '' @ show_int (o_n_exe d) @ '')'',
      ''  -r <n>  perform n external runs (default '' @ show_int (o_max_run d) @ '')'',
      ''  -s <n>  perform n internal runs (default '' @ show_int (o_size_of_test d) @ '')''] @
     (if o_delay d > 0 then [''  -tb <n> time base delay  (default '' @ show_int (o_delay d) @ '')''] else []) @
     [''  +fix    do not shuffle threads'']"

text \<open>
  The effect of a word that starts with a sign; the number of an option is read before its effect.
\<close>

datatype opt_action =
    Opt_flag "opt_t \<Rightarrow> opt_t"
  | Opt_int "int \<Rightarrow> opt_t \<Rightarrow> opt_t"
  | Opt_none

definition opt_action :: "opt_t \<Rightarrow> string \<Rightarrow> opt_action" where
  "opt_action d arg =
     (if arg = ''-q'' then Opt_flag (\<lambda>p. p\<lparr>o_verbose := 0\<rparr>)
      else if arg = ''-v'' then Opt_flag (\<lambda>p. p\<lparr>o_verbose := o_verbose p + 1\<rparr>)
      else if arg = ''-r'' then Opt_int (\<lambda>x p. p\<lparr>o_max_run := x\<rparr>)
      else if arg = ''-s'' then Opt_int (\<lambda>x p. p\<lparr>o_size_of_test := x\<rparr>)
      else if arg = ''-a'' then Opt_int (\<lambda>x p.
        let p = p\<lparr>o_avail := x\<rparr> in if o_avail p < 1 then p\<lparr>o_n_exe := 1\<rparr> else p)
      else if arg = ''-n'' then Opt_int (\<lambda>x p.
        let p = p\<lparr>o_n_exe := x\<rparr> in if o_n_exe p < 1 then p\<lparr>o_n_exe := 1\<rparr> else p)
      else if arg = ''-tb'' \<and> o_delay d > 0 then Opt_int (\<lambda>x p.
        let p = p\<lparr>o_delay := x\<rparr> in if o_delay p < 1 then p\<lparr>o_delay := 1\<rparr> else p)
      else if arg = ''+fix'' then Opt_flag (\<lambda>p. p\<lparr>o_fix := 1\<rparr>)
      else Opt_none)"

fun parse_opt :: "bool \<Rightarrow> string list \<Rightarrow> opt_t \<Rightarrow> opt_t \<Rightarrow> (opt_t \<times> string list) res" where
  "parse_opt e [] d p = Inr (p, [])"
| "parse_opt e (arg # args) d p =
     (if \<not> is_option arg then Inr (p, arg # args)
      else case opt_action d arg of
          Opt_flag f \<Rightarrow> parse_opt e args d (f p)
        | Opt_int f \<Rightarrow>
            (case args of
               [] \<Rightarrow> Inl Usage
             | a # rest \<Rightarrow> bind_res (argint_opt e a) (\<lambda>x. parse_opt False rest d (f x p)))
        | Opt_none \<Rightarrow> Inl Usage)"

subsection \<open>Parameters\<close>

text \<open>\<open>strtol(rem,NULL,0)\<close>: the base is given by the prefix \<open>0x\<close> or \<open>0\<close> of the number.\<close>

definition char_val :: "char \<Rightarrow> nat" where
  "char_val ch =
     (let x = of_char ch in
      if 48 \<le> x \<and> x \<le> 57 then x - 48
      else if 97 \<le> x \<and> x \<le> 122 then x - 87
      else if 65 \<le> x \<and> x \<le> 90 then x - 55 else 99)"

fun read_base :: "nat \<Rightarrow> nat \<Rightarrow> string \<Rightarrow> nat" where
  "read_base b acc [] = acc"
| "read_base b acc (ch # s) = (if char_val ch < b then read_base b (b * acc + char_val ch) s else acc)"

fun read_any :: "string \<Rightarrow> nat" where
  "read_any (CHR ''0'' # x # ch # s) =
     (if (x = CHR ''x'' \<or> x = CHR ''X'') \<and> char_val ch < 16 then read_base 16 0 (ch # s)
      else read_base 8 0 (x # ch # s))"
| "read_any (CHR ''0'' # s) = read_base 8 0 s"
| "read_any s = read_base 10 0 s"

definition strtol0 :: "string \<Rightarrow> int" where
  "strtol0 p = (let (neg, s) = read_sign (dropWhile isspace p); n = int (read_any s)
                in fst (clamp_long (if neg then - n else n)))"

fun check_key :: "string \<Rightarrow> string \<Rightarrow> string option" where
  "check_key (k # key) (ch # arg) = (if k \<noteq> ch then None else check_key key arg)"
| "check_key (k # key) [] = None"
| "check_key [] (ch # arg) = (if ch = CHR ''='' then Some arg else None)"
| "check_key [] [] = None"

text \<open>The destination \<open>dst\<close> is a position in the store of the parameters.\<close>

record parse_param_t =
  tag :: string
  dst :: nat
  conv :: "int \<Rightarrow> int"
  p_max :: int

fun do_parse :: "parse_param_t list \<Rightarrow> string \<Rightarrow> int list \<Rightarrow> int list res" where
  "do_parse [] arg st = Inr st"
| "do_parse (p # ps) arg st =
     (case check_key (tag p) arg of
        Some rem \<Rightarrow>
          bind_res (aset st (int (dst p)) (conv p (to_int (strtol0 rem)))) (\<lambda>st.
            if st ! dst p \<ge> p_max p then Inl (Errexit ''parameter is out of range'') else Inr st)
      | None \<Rightarrow> do_parse ps arg st)"

fun parse_param :: "parse_param_t list \<Rightarrow> string list \<Rightarrow> int list \<Rightarrow> int list res" where
  "parse_param ps [] st = Inr st"
| "parse_param ps (arg # args) st = bind_res (do_parse ps arg st) (parse_param ps args)"

subsection \<open>Time\<close>

record sec_t =
  sec :: u64
  frac :: u64

definition tsc_millions :: "u64 \<Rightarrow> sec_t" where
  "tsc_millions t =
     (let a = t div 1000000; b = t mod 1000000; b = (b + 5000) div 10000 in \<lparr>sec = a, frac = b\<rparr>)"

text \<open>\<open>"%02"\<close> writes at least two digits.\<close>

definition emit_millions :: "sec_t \<Rightarrow> string" where
  "emit_millions f =
     show_nat (unat (sec f)) @ ''.'' @
     (let s = show_nat (unat (frac f)) in replicate (2 - length s) (CHR ''0'') @ s)"

subsection \<open>Lemmas\<close>

lemma check_key_iff: "check_key key arg = Some r \<longleftrightarrow> arg = key @ CHR ''='' # r"
  by (induction key arg rule: check_key.induct) auto

lemma do_parse_none:
  "(\<forall>p \<in> set ps. \<forall>r. arg \<noteq> tag p @ CHR ''='' # r) \<Longrightarrow> do_parse ps arg st = Inr st"
proof (induction ps)
  case (Cons p ps)
  then have "check_key (tag p) arg = None"
    using check_key_iff by (metis list.set_intros(1) not_Some_eq)
  then show ?case using Cons by simp
qed simp

text \<open>The tags are such that a word sets one parameter at most, and the destinations are different.\<close>

definition params_ok :: "parse_param_t list \<Rightarrow> nat \<Rightarrow> bool" where
  "params_ok ps n \<longleftrightarrow> distinct (map tag ps) \<and> distinct (map dst ps) \<and>
     (\<forall>p \<in> set ps. CHR ''='' \<notin> set (tag p) \<and> dst p < n)"

lemma key_unique:
  assumes "a @ CHR ''='' # r = b @ CHR ''='' # r'" and "CHR ''='' \<notin> set a" and "CHR ''='' \<notin> set b"
  shows "a = b"
  using assms by (metis takeWhile_name(1))

lemma do_parse_hit:
  assumes "params_ok ps n" and "p \<in> set ps" and "arg = tag p @ CHR ''='' # r" and "length st = n"
  shows "do_parse ps arg st =
    (let v = conv p (to_int (strtol0 r))
     in if v \<ge> p_max p then Inl (Errexit ''parameter is out of range'') else Inr (st[dst p := v]))"
  using assms
proof (induction ps)
  case (Cons q ps)
  show ?case
  proof (cases "q = p")
    case True
    have "check_key (tag p) arg = Some r" using Cons.prems(3) by (simp add: check_key_iff)
    then show ?thesis
      using True Cons.prems by (simp add: params_ok_def Let_def)
  next
    case False
    have "check_key (tag q) arg \<noteq> Some x" for x
    proof
      assume "check_key (tag q) arg = Some x"
      then have "tag q = tag p"
        using Cons.prems key_unique [of "tag q" x "tag p" r] by (auto simp: check_key_iff params_ok_def)
      then show False using False Cons.prems by (force simp: params_ok_def)
    qed
    then have "check_key (tag q) arg = None" by auto
    then show ?thesis using False Cons by (simp add: params_ok_def)
  qed
qed simp

text \<open>The words for one parameter.\<close>

definition word_value :: "parse_param_t \<Rightarrow> string \<Rightarrow> int option" where
  "word_value p arg = map_option (\<lambda>r. conv p (to_int (strtol0 r))) (check_key (tag p) arg)"

definition last_value :: "parse_param_t \<Rightarrow> string list \<Rightarrow> int \<Rightarrow> int" where
  "last_value p args v = foldl (\<lambda>v arg. case word_value p arg of None \<Rightarrow> v | Some x \<Rightarrow> x) v args"

lemma do_parse_effect:
  assumes "params_ok ps n" and "length st = n" and "do_parse ps arg st = Inr st'"
  shows "length st' = n \<and> (\<forall>p \<in> set ps. st' ! dst p = last_value p [arg] (st ! dst p)) \<and>
    (\<forall>p \<in> set ps. \<forall>x. word_value p arg = Some x \<longrightarrow> x < p_max p)"
proof (cases "\<exists>p \<in> set ps. \<exists>r. arg = tag p @ CHR ''='' # r")
  case True
  then obtain p r where p: "p \<in> set ps" "arg = tag p @ CHR ''='' # r" by auto
  define v where "v = conv p (to_int (strtol0 r))"
  have st': "v < p_max p" "st' = st[dst p := v]"
    using do_parse_hit [OF assms(1) p assms(2)] assms(3) by (auto simp: v_def Let_def split: if_splits)
  have w: "word_value q arg = (if q = p then Some v else None)" if "q \<in> set ps" for q
  proof (cases "q = p")
    case True
    have "check_key (tag p) arg = Some r" using p(2) by (simp add: check_key_iff)
    then show ?thesis using True by (simp add: word_value_def v_def)
  next
    case False
    then have "tag q \<noteq> tag p" using assms(1) p(1) that by (auto simp: params_ok_def distinct_map inj_on_def)
    then have "check_key (tag q) arg \<noteq> Some x" for x
      using key_unique [of "tag q" x "tag p" r] assms(1) p that by (auto simp: check_key_iff params_ok_def)
    then have "check_key (tag q) arg = None" by auto
    then show ?thesis using False by (simp add: word_value_def)
  qed
  have "st[dst p := v] ! dst q = (if q = p then v else st ! dst q)" if "q \<in> set ps" for q
    using assms(1,2) p(1) that by (auto simp: params_ok_def distinct_map inj_on_def nth_list_update)
  then show ?thesis using st' w assms(2) by (simp add: last_value_def)
next
  case False
  then have none: "word_value q arg = None" if "q \<in> set ps" for q
    using that check_key_iff by (auto simp: word_value_def) (metis not_Some_eq)
  moreover have "st' = st" using do_parse_none [of ps arg st] False assms(3) by auto
  ultimately show ?thesis using assms(2) by (simp add: last_value_def)
qed

lemma parse_param_effect:
  assumes "params_ok ps n" and "length st = n" and "parse_param ps args st = Inr st'"
  shows "length st' = n \<and> (\<forall>p \<in> set ps. st' ! dst p = last_value p args (st ! dst p)) \<and>
    (\<forall>arg \<in> set args. \<forall>p \<in> set ps. \<forall>x. word_value p arg = Some x \<longrightarrow> x < p_max p)"
  using assms(2,3)
proof (induction args arbitrary: st)
  case Nil
  then show ?case by (simp add: last_value_def)
next
  case (Cons arg args)
  obtain s1 where s1: "do_parse ps arg st = Inr s1" "parse_param ps args s1 = Inr st'"
    using Cons.prems(2) by (auto simp: res_simps)
  note one = do_parse_effect [OF assms(1) Cons.prems(1) s1(1)]
  then have "length s1 = n" by simp
  note rest = Cons.IH [OF this s1(2)]
  have "last_value p (arg # args) v = last_value p args (last_value p [arg] v)" for p v
    by (simp add: last_value_def)
  then show ?case using one rest by simp
qed

lemma do_parse_succeeds:
  assumes "params_ok ps n" and "length st = n"
    and "\<forall>p \<in> set ps. \<forall>x. word_value p arg = Some x \<longrightarrow> x < p_max p"
  shows "\<exists>st'. do_parse ps arg st = Inr st'"
proof (cases "\<exists>p \<in> set ps. \<exists>r. arg = tag p @ CHR ''='' # r")
  case True
  then obtain p r where p: "p \<in> set ps" "arg = tag p @ CHR ''='' # r" by auto
  then have "check_key (tag p) arg = Some r" by (simp add: check_key_iff)
  then have "word_value p arg = Some (conv p (to_int (strtol0 r)))" by (simp add: word_value_def)
  then have "conv p (to_int (strtol0 r)) < p_max p" using assms(3) p(1) by blast
  then show ?thesis using do_parse_hit [OF assms(1) p assms(2)] by (simp add: Let_def)
next
  case False
  then show ?thesis using do_parse_none [of ps arg st] by auto
qed

lemma parse_param_succeeds:
  assumes "params_ok ps n" and "length st = n"
    and "\<forall>arg \<in> set args. \<forall>p \<in> set ps. \<forall>x. word_value p arg = Some x \<longrightarrow> x < p_max p"
  shows "\<exists>st'. parse_param ps args st = Inr st'"
  using assms(2,3)
proof (induction args arbitrary: st)
  case (Cons arg args)
  then obtain s1 where s1: "do_parse ps arg st = Inr s1"
    using do_parse_succeeds [OF assms(1) Cons.prems(1), of arg] by (metis list.set_intros(1))
  moreover have "length s1 = n" using do_parse_effect [OF assms(1) Cons.prems(1) s1] by simp
  ultimately show ?case using Cons.IH [of s1] Cons.prems by auto
qed simp

subsection \<open>Properties\<close>

text \<open>
  \<open>parse_param\<close> succeeds exactly when no word gives a parameter a value that reaches its maximum; then every
  parameter has the value of the last word for it, or its old value, and no other cell of the store
  changes its place or number.  (The lower bound is not checked: negative values are accepted.)
\<close>

theorem parse_param_correct:
  assumes "params_ok ps (length st)"
  shows "((\<exists>st'. parse_param ps args st = Inr st') \<longleftrightarrow>
      (\<forall>arg \<in> set args. \<forall>p \<in> set ps. \<forall>x. word_value p arg = Some x \<longrightarrow> x < p_max p)) \<and>
    (\<forall>st'. parse_param ps args st = Inr st' \<longrightarrow> length st' = length st \<and>
      (\<forall>p \<in> set ps. st' ! dst p = last_value p args (st ! dst p)))"
  using parse_param_effect [OF assms refl] parse_param_succeeds [OF assms refl] by metis

definition ex_params :: "parse_param_t list" where
  "ex_params = [\<lparr>tag = ''x'', dst = 0, conv = \<lambda>i. i, p_max = 4\<rparr>, \<lparr>tag = ''xy'', dst = 1, conv = \<lambda>i. 2 * i, p_max = 20\<rparr>]"

theorem parse_param_correct_witness:
  "parse_param ex_params [''xy=0x3'', ''z=9'', ''x=-1''] [0, 0] = Inr [-1, 6] \<and>
   map (\<lambda>p. [-1, 6] ! dst p) ex_params = map (\<lambda>p. last_value p [''xy=0x3'', ''z=9'', ''x=-1''] ([0, 0] ! dst p)) ex_params"
proof -
  have "parse_param ex_params [''xy=0x3'', ''z=9'', ''x=-1''] [0, 0] = Inr [-1, 6]" by code_simp
  moreover have "params_ok ex_params (length [0 :: int, 0])" by (simp add: params_ok_def ex_params_def)
  ultimately show ?thesis using parse_param_correct [of ex_params "[0, 0]" "[''xy=0x3'', ''z=9'', ''x=-1'']"]
    by (metis (no_types, lifting) map_cong)
qed

text \<open>
  The usage message of the bare-metal harness shows exactly the options that it accepts.
\<close>

theorem usage_opt_shows_options:
  "arg \<in> set (filter is_option (map line_option (usage_opt prog d))) \<longleftrightarrow> opt_action d arg \<noteq> Opt_none"
proof -
  have "arg \<in> set (filter is_option (map line_option (usage_opt prog d))) \<longleftrightarrow> lists_option arg (usage_opt prog d)"
    by (auto simp: lists_option_def)
  also have "\<dots> \<longleftrightarrow> opt_action d arg \<noteq> Opt_none"
    unfolding usage_opt_def opt_action_def
    by (simp only: lists_option_simps append_Cons append_Nil)
      (auto simp: line_option_def is_option_def)
  finally show ?thesis .
qed

text \<open>
  \<open>-a\<close> sets the number of available cores to whatever it is given, zero and negative numbers included; it
  is the number of copies of the test that such a number resets.
\<close>

theorem parse_opt_avail_unchecked:
  assumes "in_int a"
  shows "parse_opt False [''-a'', show_int a] d p =
    Inr (p\<lparr>o_avail := a, o_n_exe := (if a < 1 then 1 else o_n_exe p)\<rparr>, [])"
proof -
  have "argint_opt False (show_int a) = Inr a"
    using assms by (simp add: argint_opt_def presi_argint_def)
  then show ?thesis by (simp add: opt_action_def is_option_def Let_def)
qed

definition ex_opt :: opt_t where
  "ex_opt = \<lparr>o_verbose = 0, o_max_run = 10, o_size_of_test = 5, o_avail = 8, o_n_exe = 2, o_delay = 1, o_fix = 0\<rparr>"

theorem parse_opt_avail_unchecked_witness:
  "parse_opt False [''-a'', show_int (- 3)] ex_opt ex_opt = Inr (ex_opt\<lparr>o_avail := - 3, o_n_exe := 1\<rparr>, [])"
  using parse_opt_avail_unchecked [of "- 3" ex_opt ex_opt] by (simp add: in_int_def)

text \<open>
  A number with a suffix is cut to 32 bits here, where the standard harness refuses it.
\<close>

theorem argint_opt_truncates:
  assumes "in_int n" and "0 \<le> n" and "suffix_of [ch] = s" and "0 < s"
  shows "argint_opt False (show_int n @ [ch]) = Inr (to_int (n * 10 ^ s)) \<and>
    (int_max \<le> n * 10 ^ s \<longrightarrow> argint False (show_int n @ [ch]) = Inl (Fatal ''overflow''))"
proof -
  have s: "\<not> is_digit ch" "s \<le> 6" using assms(3,4) by (auto simp: suffix_of_def is_digit_def split: if_splits)
  then have ch: "strtol (show_int n @ [ch]) = (n, [ch], False)" using assms(1) by (simp add: starts_digit_def)
  have "n * 10 ^ s \<le> 2 ^ 31 * 10 ^ 6"
    using assms s by (intro mult_mono power_increasing) (auto simp: in_int_def)
  also have "\<dots> \<le> long_max" by (simp add: long_max_def)
  finally have "pow10_loop s n = Inr (n * 10 ^ s)" by (rule pow10_loop_ok [OF assms(2)])
  then show ?thesis
    using ch s assms my_pow10_int [OF assms(1,4) s(2)]
    by (simp add: argint_opt_def presi_argint_def presi_pow10_def argint_def do_argint_def)
qed

theorem argint_opt_truncates_witness:
  "argint_opt False (show_int 5000000 @ ''k'') = Inr 705032704"
proof -
  have "to_int 5000000000 = 705032704" by (simp add: to_int_def signed_take_bit_int_eq_self_iff signed_take_bit_eq_if_positive take_bit_int_def)
  then show ?thesis
    using argint_opt_truncates [of 5000000 "CHR ''k''" 3] by (simp add: in_int_def suffix_of_def)
qed

text \<open>
  \<open>tsc_millions\<close> rounds the time to hundredths of a second, exactly; but the hundredths are not carried:
  from \<open>x.995000\<close> on they are 100, and \<open>emit_millions\<close> prints \<open>x.100\<close>.
\<close>

theorem tsc_millions_rounds:
  "100 * unat (sec (tsc_millions t)) + unat (frac (tsc_millions t)) = (unat t + 5000) div 10000 \<and>
   (unat (frac (tsc_millions t)) < 100 \<longleftrightarrow> unat t mod 1000000 < 995000) \<and>
   (995000 \<le> unat t mod 1000000 \<longrightarrow> emit_millions (tsc_millions t) = show_nat (unat t div 1000000) @ ''.100'')"
proof -
  define n where "n = unat t"
  have sec: "unat (sec (tsc_millions t)) = n div 1000000"
    by (simp add: tsc_millions_def Let_def unat_div n_def)
  have "unat (t mod 1000000) = n mod 1000000" by (simp add: unat_mod n_def)
  moreover have "n mod 1000000 < 1000000" by simp
  ultimately have "unat (t mod 1000000 + 5000) = n mod 1000000 + 5000"
    by (subst unat_add) simp_all
  then have frac: "unat (frac (tsc_millions t)) = (n mod 1000000 + 5000) div 10000"
    by (simp add: tsc_millions_def Let_def unat_div)
  have "n = 1000000 * (n div 1000000) + n mod 1000000" by simp
  then have sum: "100 * (n div 1000000) + (n mod 1000000 + 5000) div 10000 = (n + 5000) div 10000"
    by linarith
  have hundred: "(n mod 1000000 + 5000) div 10000 = 100" if "995000 \<le> n mod 1000000"
    using that \<open>n mod 1000000 < 1000000\<close> by linarith
  have "show_nat 100 = ''100''" by code_simp
  then have "emit_millions (tsc_millions t) = show_nat (n div 1000000) @ ''.100''" if "995000 \<le> n mod 1000000"
    using hundred [OF that] by (simp add: emit_millions_def sec frac)
  moreover have "(n mod 1000000 + 5000) div 10000 < 100 \<longleftrightarrow> n mod 1000000 < 995000" by linarith
  ultimately show ?thesis unfolding sec frac using sum unfolding n_def by auto
qed

theorem tsc_millions_rounds_witness:
  "emit_millions (tsc_millions 2999999) = show_nat 2 @ ''.100''"
  using tsc_millions_rounds [of 2999999] by simp

end
