(* ===== verification/Pte.thy ===== *)
theory Pte
  imports Litmus_Base
begin

section \<open>Page table entries (\<^verbatim>\<open>_aarch64/kvm-headers.h\<close>)\<close>

text \<open>
  A page table entry \<open>pteval_t\<close> is a word of 64 bits.  Shift amounts are below 64, as C requires.  The
  encodings \<open>MT_\<dots>\<close> of the memory types are constants of the hypervisor's headers: a parameter.
\<close>

type_synonym pteval_t = u64

named_theorems pte_bits "bits of the constants and of the operations on entries"

subsection \<open>Fields\<close>

definition litmus_get_field :: "pteval_t \<Rightarrow> nat \<Rightarrow> nat \<Rightarrow> u64" where
  "litmus_get_field x low sz = (let y = drop_bit low x; msk = push_bit sz 1 - 1 in y AND msk)"

definition litmus_set_field :: "pteval_t \<Rightarrow> nat \<Rightarrow> nat \<Rightarrow> pteval_t \<Rightarrow> pteval_t" where
  "litmus_set_field old low sz v =
     (let msk = push_bit sz 1 - 1;
          v = v AND msk; v = push_bit low v;
          msk = push_bit low msk;
          old = old AND NOT msk
      in old OR v)"

definition FULL_MASK :: pteval_t where
  "FULL_MASK = (push_bit 48 1 - 1) AND NOT (push_bit 12 1 - 1)"

definition litmus_set_pte_physical :: "pteval_t \<Rightarrow> pteval_t \<Rightarrow> pteval_t" where
  "litmus_set_pte_physical old v = (v AND FULL_MASK) OR (old AND NOT FULL_MASK)"

definition litmus_same_oa :: "pteval_t \<Rightarrow> pteval_t \<Rightarrow> bool" where
  "litmus_same_oa p q \<longleftrightarrow> (p XOR q) AND FULL_MASK = 0"

subsection \<open>Flags\<close>

definition msk_valid :: u64 where "msk_valid = 0x1"
definition msk_af :: u64 where "msk_af = 0x400"
definition msk_dbm :: u64 where "msk_dbm = 0x8000000000000"
definition msk_db :: u64 where "msk_db = 0x80"
definition msk_el0 :: u64 where "msk_el0 = 0x40"
definition msk_full :: u64 where "msk_full = msk_valid OR msk_af OR msk_dbm OR msk_db OR msk_el0"

definition litmus_set_pte_invalid :: "pteval_t \<Rightarrow> pteval_t" where
  "litmus_set_pte_invalid old = old AND NOT msk_valid"

definition unset_el0 :: "pteval_t \<Rightarrow> pteval_t" where
  "unset_el0 p = p AND NOT msk_el0"

definition litmus_set_pte_flags :: "pteval_t \<Rightarrow> pteval_t \<Rightarrow> pteval_t" where
  "litmus_set_pte_flags old flags =
     (let flags = flags XOR msk_db; old = old AND NOT msk_full in old OR flags)"

subsection \<open>Attributes\<close>

datatype pte_attr_key =
    Attr_Normal | Attr_Inner_write_through | Attr_Inner_write_back | Attr_Inner_non_cacheable
  | Attr_Outer_write_through | Attr_Outer_write_back | Attr_Outer_non_cacheable | Attr_Device
  | Attr_NGnRnE | Attr_NGnRE | Attr_NGRE | Attr_GRE
  | Attr_Non_shareable | Attr_Inner_shareable | Attr_Outer_shareable

definition litmus_set_sh :: "pteval_t \<Rightarrow> pteval_t \<Rightarrow> pteval_t" where
  "litmus_set_sh old sh = litmus_set_field old 8 2 sh"

definition litmus_set_memattr :: "pteval_t \<Rightarrow> pteval_t \<Rightarrow> pteval_t" where
  "litmus_set_memattr old memattr = litmus_set_field old 2 4 memattr"

text \<open>The two encodings that some headers do not have are optional.\<close>

record mt_env =
  MT_NORMAL :: u64
  MT_NORMAL_WT :: "u64 option"
  MT_NORMAL_NC :: u64
  MT_DEVICE_nGnRE :: u64
  MT_DEVICE_nGnRnE :: u64
  MT_DEVICE_nGRE :: "u64 option"
  MT_DEVICE_GRE :: u64

fun litmus_set_pte_attribute :: "mt_env \<Rightarrow> pteval_t \<Rightarrow> pte_attr_key \<Rightarrow> pteval_t" where
  "litmus_set_pte_attribute mt p Attr_Non_shareable = litmus_set_sh p 0"
| "litmus_set_pte_attribute mt p Attr_Inner_shareable = litmus_set_sh p 3"
| "litmus_set_pte_attribute mt p Attr_Outer_shareable = litmus_set_sh p 2"
| "litmus_set_pte_attribute mt p Attr_Normal = litmus_set_memattr p (MT_NORMAL mt)"
| "litmus_set_pte_attribute mt p Attr_Inner_write_back = litmus_set_memattr p (MT_NORMAL mt)"
| "litmus_set_pte_attribute mt p Attr_Outer_write_back = litmus_set_memattr p (MT_NORMAL mt)"
| "litmus_set_pte_attribute mt p Attr_Inner_write_through =
     litmus_set_memattr p (case MT_NORMAL_WT mt of Some x \<Rightarrow> x | None \<Rightarrow> MT_NORMAL_NC mt)"
| "litmus_set_pte_attribute mt p Attr_Outer_write_through =
     litmus_set_memattr p (case MT_NORMAL_WT mt of Some x \<Rightarrow> x | None \<Rightarrow> MT_NORMAL_NC mt)"
| "litmus_set_pte_attribute mt p Attr_Inner_non_cacheable = litmus_set_memattr p (MT_NORMAL_NC mt)"
| "litmus_set_pte_attribute mt p Attr_Outer_non_cacheable = litmus_set_memattr p (MT_NORMAL_NC mt)"
| "litmus_set_pte_attribute mt p Attr_Device = litmus_set_memattr p (MT_DEVICE_nGnRE mt)"
| "litmus_set_pte_attribute mt p Attr_NGnRE = litmus_set_memattr p (MT_DEVICE_nGnRE mt)"
| "litmus_set_pte_attribute mt p Attr_NGnRnE = litmus_set_memattr p (MT_DEVICE_nGnRnE mt)"
| "litmus_set_pte_attribute mt p Attr_NGRE =
     litmus_set_memattr p (case MT_DEVICE_nGRE mt of Some x \<Rightarrow> x | None \<Rightarrow> MT_DEVICE_nGnRE mt)"
| "litmus_set_pte_attribute mt p Attr_GRE = litmus_set_memattr p (MT_DEVICE_GRE mt)"

subsection \<open>Packed entries\<close>

text \<open>
  The log of a test keeps the observable part of an entry: the variable it points to and five flags.
  Variables and flags are of type \<open>int\<close>, here a word of 32 bits; the conversion to \<open>pteval_t\<close> extends the sign.
\<close>

definition AF_PACKED :: nat where "AF_PACKED = 0"
definition DB_PACKED :: nat where "DB_PACKED = 1"
definition DBM_PACKED :: nat where "DBM_PACKED = 2"
definition VALID_PACKED :: nat where "VALID_PACKED = 3"
definition EL0_PACKED :: nat where "EL0_PACKED = 4"
definition OA_PACKED :: nat where "OA_PACKED = 5"

lemmas packed_defs = AF_PACKED_def DB_PACKED_def DBM_PACKED_def VALID_PACKED_def EL0_PACKED_def OA_PACKED_def

definition pack_flag :: "pteval_t \<Rightarrow> pteval_t \<Rightarrow> nat \<Rightarrow> pteval_t" where
  "pack_flag v msk sh = push_bit sh (if v AND msk \<noteq> 0 then 1 else 0)"

definition pack_pte :: "u32 \<Rightarrow> pteval_t \<Rightarrow> pteval_t" where
  "pack_pte oa v =
     push_bit OA_PACKED (scast oa) OR
     pack_flag v msk_af AF_PACKED OR
     pack_flag (v XOR msk_db) msk_db DB_PACKED OR
     pack_flag v msk_dbm DBM_PACKED OR
     pack_flag v msk_valid VALID_PACKED OR
     pack_flag v msk_el0 EL0_PACKED"

definition pack_pack_flag :: "u32 \<Rightarrow> nat \<Rightarrow> pteval_t" where
  "pack_pack_flag f sh = push_bit sh (scast f)"

definition pack_pack :: "u32 \<Rightarrow> u32 \<Rightarrow> u32 \<Rightarrow> u32 \<Rightarrow> u32 \<Rightarrow> u32 \<Rightarrow> pteval_t" where
  "pack_pack oa af db dbm valid el0 =
     push_bit OA_PACKED (scast oa) OR
     pack_pack_flag af AF_PACKED OR
     pack_pack_flag db DB_PACKED OR
     pack_pack_flag dbm DBM_PACKED OR
     pack_pack_flag valid VALID_PACKED OR
     pack_pack_flag el0 EL0_PACKED"

definition unpack_oa :: "pteval_t \<Rightarrow> u32" where
  "unpack_oa v = ucast (drop_bit OA_PACKED v)"

definition unpack_flag :: "pteval_t \<Rightarrow> nat \<Rightarrow> u32" where
  "unpack_flag v sh = ucast (drop_bit sh v AND 1)"

definition unpack_af :: "pteval_t \<Rightarrow> u32" where "unpack_af v = unpack_flag v AF_PACKED"
definition unpack_db :: "pteval_t \<Rightarrow> u32" where "unpack_db v = unpack_flag v DB_PACKED"
definition unpack_dbm :: "pteval_t \<Rightarrow> u32" where "unpack_dbm v = unpack_flag v DBM_PACKED"
definition unpack_valid :: "pteval_t \<Rightarrow> u32" where "unpack_valid v = unpack_flag v VALID_PACKED"
definition unpack_el0 :: "pteval_t \<Rightarrow> u32" where "unpack_el0 v = unpack_flag v EL0_PACKED"

lemmas unpack_defs = unpack_oa_def unpack_flag_def unpack_af_def unpack_db_def unpack_dbm_def unpack_valid_def
  unpack_el0_def

subsection \<open>Hardware management of the flags\<close>

text \<open>The system registers that the code reads and writes.\<close>

record sysregs =
  isar0 :: u64
  mmfr1 :: u64
  tcr_el1 :: u64

definition check_atomic :: "sysregs \<Rightarrow> bool" where
  "check_atomic s = (let r = isar0 s; r = drop_bit 20 r; r = r AND 15 in r = 2)"

definition get_hafdbs :: "sysregs \<Rightarrow> u64" where
  "get_hafdbs s = mmfr1 s AND 15"

definition set_tcr_el1_bit :: "nat \<Rightarrow> u64 \<Rightarrow> sysregs \<Rightarrow> sysregs" where
  "set_tcr_el1_bit b v s =
     (let old = tcr_el1 s; msk = push_bit b 1 in s\<lparr>tcr_el1 := (old AND NOT msk) OR push_bit b v\<rparr>)"

definition set_ha_bit :: "u64 \<Rightarrow> sysregs \<Rightarrow> sysregs" where "set_ha_bit v = set_tcr_el1_bit 39 v"
definition set_hd_bit :: "u64 \<Rightarrow> sysregs \<Rightarrow> sysregs" where "set_hd_bit v = set_tcr_el1_bit 40 v"

definition set_hahd_bits :: "u64 \<Rightarrow> sysregs \<Rightarrow> sysregs" where
  "set_hahd_bits v s =
     (let old = tcr_el1 s; msk = push_bit 39 3; n = (old AND NOT msk) OR push_bit 39 v in s\<lparr>tcr_el1 := n\<rparr>)"

definition reset_hahd_bits :: "sysregs \<Rightarrow> sysregs" where
  "reset_hahd_bits s =
     (let hafdbs = get_hafdbs s
      in if hafdbs = 1 then set_ha_bit 0 s else if hafdbs = 2 then set_hahd_bits 0 s else s)"

subsection \<open>Bits\<close>

lemma low_mask: "(push_bit sz 1 - 1 :: u64) = mask sz"
  by (simp add: mask_eq_exp_minus_1 push_bit_eq_mult)

lemma bit_get_field [pte_bits]:
  "bit (litmus_get_field x low sz) n \<longleftrightarrow> n < sz \<and> bit x (low + n)"
  unfolding litmus_get_field_def low_mask by (auto simp: bit_simps Let_def dest: bit_imp_le_length)

lemma bit_set_field [pte_bits]:
  "n < 64 \<Longrightarrow> bit (litmus_set_field old low sz v) n \<longleftrightarrow>
    (if low \<le> n \<and> n < low + sz then bit v (n - low) else bit old n)"
  unfolding litmus_set_field_def low_mask by (auto simp: bit_simps Let_def)

lemma FULL_MASK_bits [pte_bits]: "bit FULL_MASK n \<longleftrightarrow> 12 \<le> n \<and> n < 48"
  unfolding FULL_MASK_def low_mask by (auto simp: bit_simps)

lemma bit_power: "k < 64 \<Longrightarrow> bit (2 ^ k :: u64) n \<longleftrightarrow> n = k"
  by (auto simp: bit_exp_iff)

lemma msk_bits [pte_bits]:
  "bit msk_valid n \<longleftrightarrow> n = 0" "bit msk_af n \<longleftrightarrow> n = 10" "bit msk_dbm n \<longleftrightarrow> n = 51"
  "bit msk_db n \<longleftrightarrow> n = 7" "bit msk_el0 n \<longleftrightarrow> n = 6"
  using bit_power [of 0 n] bit_power [of 10 n] bit_power [of 51 n] bit_power [of 7 n] bit_power [of 6 n]
  by (simp_all add: msk_valid_def msk_af_def msk_dbm_def msk_db_def msk_el0_def)

lemma msk_full_bits [pte_bits]: "bit msk_full n \<longleftrightarrow> n \<in> {0, 6, 7, 10, 51}"
  by (auto simp: msk_full_def bit_simps pte_bits)

lemma and_nonzero: "v AND m \<noteq> 0 \<longleftrightarrow> (\<exists>n < 64. bit v n \<and> bit m n)" for v m :: u64
  by (auto simp: bit_eq_iff bit_simps)

lemma and_msk [pte_bits]:
  "v AND msk_valid \<noteq> 0 \<longleftrightarrow> bit v 0" "v AND msk_af \<noteq> 0 \<longleftrightarrow> bit v 10" "v AND msk_dbm \<noteq> 0 \<longleftrightarrow> bit v 51"
  "v AND msk_db \<noteq> 0 \<longleftrightarrow> bit v 7" "v AND msk_el0 \<noteq> 0 \<longleftrightarrow> bit v 6"
  by (auto simp: and_nonzero msk_bits)

lemma bit_set_flags [pte_bits]:
  "bit (litmus_set_pte_flags old flags) n \<longleftrightarrow>
    (if n = 7 then \<not> bit flags 7 else if n \<in> {0, 6, 10, 51} then bit flags n else bit old n \<or> bit flags n)"
  by (cases "n < 64")
    (auto simp: litmus_set_pte_flags_def Let_def bit_simps pte_bits dest: bit_imp_le_length)

lemma bit_set_physical [pte_bits]:
  "n < 64 \<Longrightarrow> bit (litmus_set_pte_physical old v) n \<longleftrightarrow> (if 12 \<le> n \<and> n < 48 then bit v n else bit old n)"
  by (auto simp: litmus_set_pte_physical_def bit_simps pte_bits)

lemma same_oa_bits: "litmus_same_oa p q \<longleftrightarrow> (\<forall>n. 12 \<le> n \<and> n < 48 \<longrightarrow> bit p n = bit q n)"
proof -
  have "litmus_same_oa p q \<longleftrightarrow> \<not> (\<exists>n < 64. bit (p XOR q) n \<and> bit FULL_MASK n)"
    unfolding litmus_same_oa_def using and_nonzero by blast
  moreover have "12 \<le> n \<and> n < 48 \<Longrightarrow> n < 64" for n :: nat by simp
  ultimately show ?thesis by (auto simp: bit_xor_iff FULL_MASK_bits)
qed

subsection \<open>Packing\<close>

lemma bit_pack_flag [pte_bits]:
  "bit (pack_flag v msk sh) n \<longleftrightarrow> n < 64 \<and> n = sh \<and> v AND msk \<noteq> 0"
  by (auto simp: pack_flag_def bit_simps)

lemma bit_sign_extend: "n < 64 \<Longrightarrow> bit (scast (oa :: u32) :: u64) n \<longleftrightarrow> bit oa (min n 31)"
  by (simp add: bit_simps min_def)

lemma bit_pack_pte:
  "n < 64 \<Longrightarrow> bit (pack_pte oa v) n \<longleftrightarrow>
    (if n = 0 then bit v 10 else if n = 1 then \<not> bit v 7 else if n = 2 then bit v 51 else if n = 3 then bit v 0
     else if n = 4 then bit v 6 else bit oa (min (n - 5) 31))"
  unfolding pack_pte_def packed_defs
  by (simp add: bit_or_iff bit_pack_flag pte_bits bit_push_bit_iff bit_xor_iff) (auto simp: bit_sign_extend)

lemma unpack_flag_bit: "unpack_flag v sh = of_bool (bit v sh)"
  by (rule bit_word_eqI) (auto simp: unpack_flag_def bit_simps)

lemma unpack_oa_pack: "unpack_oa (pack_pte oa v) = oa"
proof (rule bit_word_eqI)
  fix n :: nat assume n: "n < LENGTH(32)"
  then have "bit (unpack_oa (pack_pte oa v)) n \<longleftrightarrow> bit (pack_pte oa v) (n + 5)"
    by (simp add: unpack_oa_def OA_PACKED_def bit_simps add.commute)
  then show "bit (unpack_oa (pack_pte oa v)) n \<longleftrightarrow> bit oa n"
    using n by (simp add: bit_pack_pte min_def)
qed

lemma bit_pack_pack_flag:
  "bit (pack_pack_flag (of_bool b) sh) n \<longleftrightarrow> n < 64 \<and> n = sh \<and> b"
  by (cases b) (auto simp: pack_pack_flag_def bit_simps)

lemma pack_pack_bits:
  "n < 64 \<Longrightarrow> bit (pack_pack oa (of_bool a) (of_bool d) (of_bool m) (of_bool l) (of_bool e)) n \<longleftrightarrow>
    (if n = 0 then a else if n = 1 then d else if n = 2 then m else if n = 3 then l
     else if n = 4 then e else bit oa (min (n - 5) 31))"
  unfolding pack_pack_def packed_defs
  by (simp add: bit_or_iff bit_pack_pack_flag bit_push_bit_iff) (auto simp: bit_sign_extend)

lemma pack_pack_pte:
  "pack_pack oa (of_bool (bit v 10)) (of_bool (\<not> bit v 7)) (of_bool (bit v 51)) (of_bool (bit v 0)) (of_bool (bit v 6)) =
   pack_pte oa v"
  by (rule bit_word_eqI) (simp add: pack_pack_bits bit_pack_pte)

lemma unpack_flags_pack:
  "unpack_af (pack_pte oa v) = of_bool (bit v 10)" "unpack_db (pack_pte oa v) = of_bool (\<not> bit v 7)"
  "unpack_dbm (pack_pte oa v) = of_bool (bit v 51)" "unpack_valid (pack_pte oa v) = of_bool (bit v 0)"
  "unpack_el0 (pack_pte oa v) = of_bool (bit v 6)"
  by (simp_all add: unpack_af_def unpack_db_def unpack_dbm_def unpack_valid_def unpack_el0_def packed_defs
      unpack_flag_bit bit_pack_pte)

subsection \<open>Changing an entry while the hardware walks the table\<close>

text \<open>
  The state: the entry in memory, the translations of its page that the processors keep, the two registers of the inline assembly and
  the exclusive monitor of the processor that runs it, and the values its calls of \<open>litmus_set_pte\<close> have returned.
\<close>

record mmu =
  pte :: pteval_t
  kept :: "pteval_t set"
  reg_w :: pteval_t
  reg_t :: u32
  monitor :: bool
  got :: "pteval_t list"

text \<open>
  The instructions.  A store-exclusive succeeds only while the monitor is set, and may fail even then: \<open>ok\<close> says what it does.
\<close>

datatype pte_insn = Swp pteval_t | Ldxr | Stlxr pteval_t | Cbnz

fun exec_insn :: "pte_insn \<Rightarrow> bool \<Rightarrow> nat \<Rightarrow> mmu \<Rightarrow> nat \<times> mmu" where
  "exec_insn (Swp v) ok i m = (i + 1, m\<lparr>reg_w := pte m, pte := v\<rparr>)"
| "exec_insn Ldxr ok i m = (i + 1, m\<lparr>reg_w := pte m, monitor := True\<rparr>)"
| "exec_insn (Stlxr v) ok i m =
     (if ok \<and> monitor m then (i + 1, m\<lparr>pte := v, reg_t := 0, monitor := False\<rparr>)
      else (i + 1, m\<lparr>reg_t := 1, monitor := False\<rparr>))"
| "exec_insn Cbnz ok i m = (if reg_t m \<noteq> 0 then 0 else i + 1, m)"

definition litmus_set_pte :: "bool \<Rightarrow> pteval_t \<Rightarrow> pte_insn list" where
  "litmus_set_pte NOSWP v = (if NOSWP then [Ldxr, Stlxr v, Cbnz] else [Swp v])"

text \<open>
  The three calls of \<open>litmus_set_pte_safe\<close>.  \<open>litmus_flush_tlb\<close> calls \<open>flush_tlb_page\<close> of the hypervisor's library: a parameter of the steps below.
\<close>

datatype pte_call = Set_pte pteval_t | Flush_tlb

definition litmus_set_pte_safe :: "pteval_t \<Rightarrow> pte_call list" where
  "litmus_set_pte_safe v = (let w = v AND NOT msk_valid in [Set_pte w, Flush_tlb, Set_pte v])"

text \<open>
  Tests may have the hardware manage the access flag (\<open>hab\<close>) and the dirty state (\<open>hdb\<close>) of entries: it then sets the flag of a valid
  entry, and makes one with \<open>DBM\<close> writable by clearing its bit 7.
\<close>

definition hw_update :: "bool \<Rightarrow> bool \<Rightarrow> pteval_t \<Rightarrow> pteval_t \<Rightarrow> bool" where
  "hw_update hab hdb e e' \<longleftrightarrow>
     bit e 0 \<and> ((hab \<and> e' = e OR msk_af) \<or> (hdb \<and> bit e 51 \<and> e' = e AND NOT msk_db))"

text \<open>
  A state is the next instruction of the current call, the calls that are left, and the memory.  At any time a processor may walk
  the table and keep a valid entry, the hardware may update a valid entry, which clears the monitor, or forget translations.
\<close>

inductive mmu_step ::
  "bool \<Rightarrow> bool \<Rightarrow> bool \<Rightarrow> (mmu \<Rightarrow> mmu \<Rightarrow> bool) \<Rightarrow> nat \<times> pte_call list \<times> mmu \<Rightarrow> nat \<times> pte_call list \<times> mmu \<Rightarrow> bool"
  for NOSWP hab hdb flush_tlb_page
where
  insn: "mmu_step NOSWP hab hdb flush_tlb_page (i, Set_pte v # cs, m) (i', Set_pte v # cs, m')"
  if "i < length (litmus_set_pte NOSWP v)" and "exec_insn (litmus_set_pte NOSWP v ! i) ok i m = (i', m')"
| returns: "mmu_step NOSWP hab hdb flush_tlb_page (i, Set_pte v # cs, m) (0, cs, m\<lparr>got := got m @ [reg_w m]\<rparr>)"
  if "i = length (litmus_set_pte NOSWP v)"
| flush: "mmu_step NOSWP hab hdb flush_tlb_page (i, Flush_tlb # cs, m) (0, cs, m')" if "flush_tlb_page m m'"
| walk: "mmu_step NOSWP hab hdb flush_tlb_page (i, cs, m) (i, cs, m\<lparr>kept := insert (pte m) (kept m)\<rparr>)" if "bit (pte m) 0"
| update: "mmu_step NOSWP hab hdb flush_tlb_page (i, cs, m) (i, cs, m\<lparr>pte := e, monitor := False\<rparr>)" if "hw_update hab hdb (pte m) e"
| evict: "mmu_step NOSWP hab hdb flush_tlb_page (i, cs, m) (i, cs, m\<lparr>kept := kept m - X\<rparr>)"

text \<open>
  The documented behaviour of \<open>flush_tlb_page\<close>: when it returns, no processor keeps a translation of the page from before, and it does not
  touch the table.
\<close>

definition flush_ok :: "(mmu \<Rightarrow> mmu \<Rightarrow> bool) \<Rightarrow> bool" where
  "flush_ok flush_tlb_page \<longleftrightarrow>
     (\<forall>m m'. flush_tlb_page m m' \<longrightarrow> kept m' = {} \<and> pte m' = pte m \<and> got m' = got m)"

text \<open>Entries that differ at most in what the hardware manages: without management, equal ones.\<close>

definition agree :: "bool \<Rightarrow> bool \<Rightarrow> pteval_t \<Rightarrow> pteval_t \<Rightarrow> bool" where
  "agree hab hdb e e' \<longleftrightarrow>
     (let msk = (if hab then msk_af else 0) OR (if hdb then msk_db else 0) in e AND NOT msk = e' AND NOT msk)"

lemma agree_refl [simp]: "agree hab hdb e e"
  by (simp add: agree_def)

lemma agree_sym: "agree hab hdb e e' \<Longrightarrow> agree hab hdb e' e"
  by (simp add: agree_def Let_def)

lemma agree_trans: "agree hab hdb e e' \<Longrightarrow> agree hab hdb e' e'' \<Longrightarrow> agree hab hdb e e''"
  by (simp add: agree_def Let_def)

lemma agree_unmanaged: "agree False False e e' \<longleftrightarrow> e = e'"
  by (simp add: agree_def)

lemma agree_iff_bits: "agree hab hdb e e' \<longleftrightarrow>
    (\<forall>n < 64. (hab \<and> n = 10) \<or> (hdb \<and> n = 7) \<or> (bit e n \<longleftrightarrow> bit e' n))"
  by (auto simp: agree_def Let_def bit_eq_iff bit_simps pte_bits)

lemma agree_valid: "agree hab hdb e e' \<Longrightarrow> bit e 0 \<longleftrightarrow> bit e' 0"
  unfolding agree_iff_bits by (drule spec [of _ 0]) simp

lemma hw_update_agree: "hw_update hab hdb e e' \<Longrightarrow> agree hab hdb e' e"
  by (auto simp: hw_update_def agree_iff_bits bit_simps pte_bits)

text \<open>No processor keeps a translation that differs from a valid entry.\<close>

definition coherent :: "bool \<Rightarrow> bool \<Rightarrow> mmu \<Rightarrow> bool" where
  "coherent hab hdb m \<longleftrightarrow> (bit (pte m) 0 \<longrightarrow> (\<forall>e \<in> kept m. agree hab hdb e (pte m)))"

subsection \<open>The exchange\<close>

text \<open>
  Whether the new entry has been stored, at an instruction of \<open>litmus_set_pte\<close>; and that the register has what is in memory as long as
  a store-exclusive can succeed.
\<close>

definition stored :: "bool \<Rightarrow> nat \<Rightarrow> mmu \<Rightarrow> bool" where
  "stored NOSWP i m \<longleftrightarrow> (if NOSWP then i = 3 \<or> (i = 2 \<and> reg_t m = 0) else i = 1)"

definition read_ok :: "bool \<Rightarrow> nat \<Rightarrow> mmu \<Rightarrow> bool" where
  "read_ok NOSWP i m \<longleftrightarrow> (NOSWP \<and> i = 1 \<and> monitor m \<longrightarrow> reg_w m = pte m)"

lemma length_set_pte: "length (litmus_set_pte N v) = (if N then 3 else 1)"
  by (simp add: litmus_set_pte_def)

lemma stored_return: "stored N (length (litmus_set_pte N v)) m"
  by (simp add: stored_def length_set_pte)

lemma start_simps [simp]: "\<not> stored N 0 m" "read_ok N 0 m"
  by (simp_all add: stored_def read_ok_def)

lemma insn_cases:
  assumes "i < length (litmus_set_pte N v)" and "exec_insn (litmus_set_pte N v ! i) ok i m = (i', m')" and "read_ok N i m"
  shows "read_ok N i' m' \<and> kept m' = kept m \<and> got m' = got m \<and>
    (if stored N i' m' then
       if stored N i m then pte m' = pte m \<and> reg_w m' = reg_w m else pte m' = v \<and> reg_w m' = pte m
     else \<not> stored N i m \<and> pte m' = pte m)"
proof (cases N)
  case False
  then show ?thesis using assms by (auto simp: litmus_set_pte_def stored_def read_ok_def)
next
  case True
  then have "i < 3" using assms(1) by (simp add: litmus_set_pte_def)
  then consider "i = 0" | "i = 1" | "i = 2" by arith
  then show ?thesis
    by cases (use assms True in \<open>auto simp: litmus_set_pte_def stored_def read_ok_def split: if_splits\<close>)
qed

lemma stored_cong [simp]:
  "stored N i (m\<lparr>kept := X\<rparr>) = stored N i m" "read_ok N i (m\<lparr>kept := X\<rparr>) = read_ok N i m"
  "stored N i (m\<lparr>pte := e, monitor := False\<rparr>) = stored N i m" "read_ok N i (m\<lparr>pte := e, monitor := False\<rparr>)"
  by (simp_all add: stored_def read_ok_def)

subsection \<open>Break before make\<close>

text \<open>
  \<open>u\<close> is the old entry.  Before the first store the entry is the old one; from there to the second store it is not valid, and after the flush
  no translation is kept; then entry and translations are the new one.
\<close>

definition new_entry :: "bool \<Rightarrow> bool \<Rightarrow> pteval_t \<Rightarrow> mmu \<Rightarrow> bool" where
  "new_entry hab hdb v m \<longleftrightarrow> agree hab hdb (pte m) v \<and> (\<forall>e \<in> kept m. agree hab hdb e v \<and> bit v 0)"

fun bbm_inv :: "bool \<Rightarrow> bool \<Rightarrow> bool \<Rightarrow> pteval_t \<Rightarrow> pteval_t \<Rightarrow> nat \<times> pte_call list \<times> mmu \<Rightarrow> bool" where
  "bbm_inv N hab hdb u v (i, cs, m) \<longleftrightarrow> coherent hab hdb m \<and>
     (let w = v AND NOT msk_valid in
      (cs = [Set_pte w, Flush_tlb, Set_pte v] \<and> got m = [] \<and> read_ok N i m \<and>
         (if stored N i m then pte m = w \<and> agree hab hdb (reg_w m) u else agree hab hdb (pte m) u)) \<or>
      (cs = [Flush_tlb, Set_pte v] \<and> (\<exists>x. got m = [x] \<and> agree hab hdb x u) \<and> pte m = w) \<or>
      (cs = [Set_pte v] \<and> (\<exists>x. got m = [x] \<and> agree hab hdb x u) \<and> read_ok N i m \<and>
         (if stored N i m then new_entry hab hdb v m \<and> reg_w m = w else pte m = w \<and> kept m = {})) \<or>
      (cs = [] \<and> (\<exists>x. got m = [x, w] \<and> agree hab hdb x u) \<and> new_entry hab hdb v m))"

lemma invalid_w: "\<not> bit (v AND NOT msk_valid :: u64) 0"
  by (simp add: bit_and_iff bit_not_iff pte_bits)

lemma not_updated: "\<not> hw_update hab hdb (v AND NOT msk_valid) e"
  using invalid_w [of v] by (simp only: hw_update_def) simp

lemma bbm_inv_step:
  assumes flush: "flush_ok flush_tlb_page"
  shows "mmu_step N hab hdb flush_tlb_page s s' \<Longrightarrow> bbm_inv N hab hdb u v s \<Longrightarrow> bbm_inv N hab hdb u v s'"
proof (induction s s' rule: mmu_step.induct)
  case (insn i x ok m i' m' cs)
  let ?w = "v AND NOT msk_valid"
  have "read_ok N i m" using insn.prems by (auto simp: Let_def)
  note step = insn_cases [OF insn.hyps this]
  have coh: "coherent hab hdb m" using insn.prems by simp
  from insn.prems consider
      "x = ?w" "cs = [Flush_tlb, Set_pte v]" "got m = []"
        "if stored N i m then pte m = ?w \<and> agree hab hdb (reg_w m) u else agree hab hdb (pte m) u"
    | y where "x = v" "cs = []" "got m = [y]" "agree hab hdb y u"
        "if stored N i m then new_entry hab hdb v m \<and> reg_w m = ?w else pte m = ?w \<and> kept m = {}"
    by (auto simp: Let_def)
  then show ?case
  proof cases
    case 1
    moreover have "coherent hab hdb m'"
      using step coh 1 invalid_w [of v] by (auto simp: coherent_def split: if_splits)
    ultimately show ?thesis using step by (auto simp: Let_def split: if_splits)
  next
    case 2
    moreover have "coherent hab hdb m'"
      using step coh 2 invalid_w [of v] by (auto simp: coherent_def split: if_splits)
    ultimately show ?thesis using step by (auto simp: Let_def new_entry_def split: if_splits)
  qed
next
  case (returns i x cs m)
  then show ?case
    using stored_return [of N x m] by (auto simp: Let_def coherent_def new_entry_def)
next
  case (flush m m' i cs)
  then have m': "kept m' = {}" "pte m' = pte m" "got m' = got m"
    using assms unfolding flush_ok_def by blast+
  then show ?case using flush.prems by (auto simp: Let_def coherent_def)
next
  case (walk m i cs)
  then show ?case using invalid_w [of v]
    by (auto simp: Let_def coherent_def new_entry_def dest: agree_valid split: if_splits)
next
  case (update m e i cs)
  note agree = hw_update_agree [OF update.hyps]
  have coh: "coherent hab hdb (m\<lparr>pte := e, monitor := False\<rparr>)"
    using update agree_trans [OF _ agree_sym [OF agree]] by (auto simp: coherent_def hw_update_def)
  have mono: "agree hab hdb e y" if "agree hab hdb (pte m) y" for y using agree agree_trans that by blast
  have ne: "pte m \<noteq> v AND NOT msk_valid" using update.hyps not_updated by metis
  from update.prems consider
      "cs = [Set_pte (v AND NOT msk_valid), Flush_tlb, Set_pte v]" "got m = []" "\<not> stored N i m" "agree hab hdb (pte m) u"
    | y where "cs = [Set_pte v]" "got m = [y]" "agree hab hdb y u" "stored N i m" "new_entry hab hdb v m" "reg_w m = v AND NOT msk_valid"
    | y where "cs = []" "got m = [y, v AND NOT msk_valid]" "agree hab hdb y u" "new_entry hab hdb v m"
    using ne by (auto simp: Let_def split: if_splits)
  then show ?case
  proof cases
    case 1
    then show ?thesis using coh mono by (simp add: Let_def)
  next
    case 2
    then show ?thesis using coh mono by (simp add: Let_def new_entry_def)
  next
    case 3
    then show ?thesis using coh mono by (simp add: Let_def new_entry_def)
  qed
next
  case (evict i cs m X)
  let ?m = "m\<lparr>kept := kept m - X\<rparr>"
  have coh: "coherent hab hdb ?m" using evict by (simp add: coherent_def)
  have new: "new_entry hab hdb v m \<Longrightarrow> new_entry hab hdb v ?m" by (auto simp: new_entry_def)
  from evict consider
      "cs = [Set_pte (v AND NOT msk_valid), Flush_tlb, Set_pte v]" | "cs = [Flush_tlb, Set_pte v]"
    | "cs = [Set_pte v]" | "cs = []"
    unfolding bbm_inv.simps Let_def by blast
  then show ?case
  proof cases
    case 3
    then show ?thesis using evict coh new by (cases "stored N i m") (simp_all add: Let_def)
  qed (use evict coh new in \<open>simp_all add: Let_def\<close>)
qed

lemma bbm_inv_reach:
  "(mmu_step N hab hdb flush_tlb_page)\<^sup>*\<^sup>* s s' \<Longrightarrow> flush_ok flush_tlb_page \<Longrightarrow> bbm_inv N hab hdb u v s \<Longrightarrow> bbm_inv N hab hdb u v s'"
  by (induction rule: rtranclp_induct) (auto intro: bbm_inv_step)

subsection \<open>Properties\<close>

text \<open>
  A field that is written is read back, writing back what was read changes nothing, and a write does not
  touch the fields beside it.
\<close>

theorem field_round_trip:
  assumes "low + sz \<le> 64"
  shows "litmus_get_field (litmus_set_field old low sz v) low sz = take_bit sz v \<and>
    litmus_set_field old low sz (litmus_get_field old low sz) = old \<and>
    (\<forall>low' sz'. low' + sz' \<le> 64 \<and> (low' + sz' \<le> low \<or> low + sz \<le> low') \<longrightarrow>
      litmus_get_field (litmus_set_field old low sz v) low' sz' = litmus_get_field old low' sz')"
  using assms by (auto intro!: bit_word_eqI simp: pte_bits bit_take_bit_iff split: if_splits)

theorem field_round_trip_witness:
  "litmus_get_field (litmus_set_field 0xffff 8 2 2) 8 2 = 2"
  using field_round_trip [of 8 2 "0xffff" 2] by (simp add: take_bit_eq_mod)

text \<open>
  \<open>litmus_set_pte_physical\<close> gives the entry the output address of \<open>v\<close>, as \<open>litmus_same_oa\<close> compares them, and
  leaves the rest, so that the packed flags stay the same; \<open>litmus_same_oa\<close> is an equivalence.
\<close>

theorem set_physical_correct:
  "litmus_same_oa (litmus_set_pte_physical old v) v \<and>
   (\<forall>oa. pack_pte oa (litmus_set_pte_physical old v) = pack_pte oa old) \<and>
   equivp litmus_same_oa"
proof (intro conjI allI)
  show "litmus_same_oa (litmus_set_pte_physical old v) v"
    by (simp add: same_oa_bits pte_bits)
  show "pack_pte oa (litmus_set_pte_physical old v) = pack_pte oa old" for oa
    by (rule bit_word_eqI) (simp add: bit_pack_pte pte_bits)
  show "equivp litmus_same_oa"
    by (rule equivpI) (auto simp: same_oa_bits reflp_def symp_def transp_def)
qed

text \<open>
  C39: Packing and unpacking: the variable, also a negative one, and the five flags come back from a packed
  entry (the dirty flag inverted, as the hardware bit is), and packing them again gives the same word.
\<close>

theorem pack_round_trip:
  "unpack_oa (pack_pte oa v) = oa \<and>
   unpack_af (pack_pte oa v) = of_bool (bit v 10) \<and>
   unpack_db (pack_pte oa v) = of_bool (\<not> bit v 7) \<and>
   unpack_dbm (pack_pte oa v) = of_bool (bit v 51) \<and>
   unpack_valid (pack_pte oa v) = of_bool (bit v 0) \<and>
   unpack_el0 (pack_pte oa v) = of_bool (bit v 6) \<and>
   (let p = pack_pte oa v
    in pack_pack (unpack_oa p) (unpack_af p) (unpack_db p) (unpack_dbm p) (unpack_valid p) (unpack_el0 p) = p)"
  by (simp only: unpack_oa_pack unpack_flags_pack Let_def pack_pack_pte simp_thms)

text \<open>
  Two packed entries are equal exactly when they are of the same variable and the entries have the same five
  flags: comparing outcomes on packed entries compares what the test observes.
\<close>

theorem pack_pte_eq_iff:
  "pack_pte oa v = pack_pte oa' v' \<longleftrightarrow> oa = oa' \<and> v AND msk_full = v' AND msk_full"
proof
  assume eq: "pack_pte oa v = pack_pte oa' v'"
  then have "oa = oa'" by (metis unpack_oa_pack)
  moreover have "bit v k = bit v' k" if "k \<in> {0, 6, 7, 10, 51}" for k
    using arg_cong [OF eq, of "\<lambda>p. bit p 0"] arg_cong [OF eq, of "\<lambda>p. bit p 1"] arg_cong [OF eq, of "\<lambda>p. bit p 2"]
      arg_cong [OF eq, of "\<lambda>p. bit p 3"] arg_cong [OF eq, of "\<lambda>p. bit p 4"] that
    by (auto simp: bit_pack_pte)
  then have "v AND msk_full = v' AND msk_full"
    by (intro bit_word_eqI) (auto simp: bit_and_iff msk_full_bits)
  ultimately show "oa = oa' \<and> v AND msk_full = v' AND msk_full" by simp
next
  assume eq: "oa = oa' \<and> v AND msk_full = v' AND msk_full"
  have "bit v k = bit v' k" if "k \<in> {0, 6, 7, 10, 51}" for k
  proof -
    have "bit (v AND msk_full) k = bit (v' AND msk_full) k" using eq by simp
    then show ?thesis using that by (simp add: bit_and_iff msk_full_bits)
  qed
  then show "pack_pte oa v = pack_pte oa' v'"
    using eq by (intro bit_word_eqI) (simp add: bit_pack_pte)
qed

text \<open>
  The flags given to \<open>litmus_set_pte_flags\<close> are those that the packed entry then shows, the dirty flag
  with its positive meaning; given flags only, the output address does not change.
\<close>

theorem set_flags_shown:
  assumes "flags AND NOT msk_full = 0"
  shows "pack_pte oa (litmus_set_pte_flags old flags) =
      pack_pack oa (of_bool (bit flags 10)) (of_bool (bit flags 7)) (of_bool (bit flags 51)) (of_bool (bit flags 0))
        (of_bool (bit flags 6)) \<and>
    litmus_same_oa (litmus_set_pte_flags old flags) old"
proof
  show "pack_pte oa (litmus_set_pte_flags old flags) =
      pack_pack oa (of_bool (bit flags 10)) (of_bool (bit flags 7)) (of_bool (bit flags 51)) (of_bool (bit flags 0))
        (of_bool (bit flags 6))"
    by (rule bit_word_eqI) (simp add: bit_pack_pte pack_pack_bits bit_set_flags)
  have "\<not> bit flags n" if "12 \<le> n" "n < 48" for n
  proof
    assume "bit flags n"
    then have "bit (flags AND NOT msk_full) n"
      using that by (auto simp: bit_simps msk_full_bits)
    then show False using assms by simp
  qed
  then show "litmus_same_oa (litmus_set_pte_flags old flags) old"
    by (auto simp: same_oa_bits bit_set_flags)
qed

theorem set_flags_shown_witness:
  "litmus_same_oa (litmus_set_pte_flags 0xABC3 0x481) 0xABC3"
  using set_flags_shown [of "0x481" 0 "0xABC3"]
  by (simp add: msk_full_def msk_valid_def msk_af_def msk_dbm_def msk_db_def msk_el0_def)

text \<open>
  C24: Break before make: while \<open>litmus_set_pte_safe\<close> replaces an entry, by either exchange, the processors walking the table and the hardware
  updating it at any time, no processor keeps a translation different from a valid entry.  At the end the entry and every
  translation kept are the new one, and the two exchanges have returned the old entry and the invalid one.  All this
  is up to the flags that the hardware manages, so exactly when it manages none.
\<close>

theorem set_pte_safe_coherent:
  assumes "flush_ok flush_tlb_page" and "coherent hab hdb m" and "got m = []"
    and "(mmu_step NOSWP hab hdb flush_tlb_page)\<^sup>*\<^sup>* (0, litmus_set_pte_safe v, m) (i, cs, m')"
  shows "coherent hab hdb m' \<and>
    (cs = [] \<longrightarrow> agree hab hdb (pte m') v \<and> (\<forall>e \<in> kept m'. agree hab hdb e v \<and> bit v 0) \<and>
       (\<exists>x. got m' = [x, v AND NOT msk_valid] \<and> agree hab hdb x (pte m)))"
proof -
  have "bbm_inv NOSWP hab hdb (pte m) v (0, litmus_set_pte_safe v, m)"
    using assms(2,3) by (simp add: litmus_set_pte_safe_def Let_def)
  from bbm_inv_reach [OF assms(4,1) this] show ?thesis by (auto simp: Let_def new_entry_def)
qed

text \<open>
  A run with the exclusive instructions: the hardware sets the access flag between the load and the store, which fails and is
  done again; at the end the page is walked.
\<close>

definition ex_flush :: "mmu \<Rightarrow> mmu \<Rightarrow> bool" where
  "ex_flush m m' \<longleftrightarrow> m' = m\<lparr>kept := {}\<rparr>"

definition ex_mmu :: "pteval_t \<Rightarrow> pteval_t set \<Rightarrow> pteval_t \<Rightarrow> u32 \<Rightarrow> bool \<Rightarrow> pteval_t list \<Rightarrow> mmu" where
  "ex_mmu e K w x mon g = \<lparr>pte = e, kept = K, reg_w = w, reg_t = x, monitor = mon, got = g\<rparr>"

lemma ex_insn:
  assumes "i < 3" and "exec_insn ([Ldxr, Stlxr v, Cbnz] ! i) ok i m = (i', m')"
  shows "mmu_step True True hdb ex_flush (i, Set_pte v # cs, m) (i', Set_pte v # cs, m')"
  using mmu_step.insn [of i True v ok m i' m' True hdb ex_flush cs] assms by (simp add: litmus_set_pte_def)

lemma ex_exchange:
  "(mmu_step True True hdb ex_flush)\<^sup>*\<^sup>* (0, Set_pte v # cs, ex_mmu e K w x mon g) (0, cs, ex_mmu v K e 0 False (g @ [e]))"
proof -
  let ?S = "mmu_step True True hdb ex_flush"
  have "?S (0, Set_pte v # cs, ex_mmu e K w x mon g) (1, Set_pte v # cs, ex_mmu e K e x True g)"
    by (rule ex_insn [where ok = True]) (simp_all add: ex_mmu_def)
  moreover have "?S (1, Set_pte v # cs, ex_mmu e K e x True g) (2, Set_pte v # cs, ex_mmu v K e 0 False g)"
    by (rule ex_insn [where ok = True]) (simp_all add: ex_mmu_def)
  moreover have "?S (2, Set_pte v # cs, ex_mmu v K e 0 False g) (3, Set_pte v # cs, ex_mmu v K e 0 False g)"
    by (rule ex_insn [where ok = True]) (simp_all add: ex_mmu_def)
  moreover have "?S (3, Set_pte v # cs, ex_mmu v K e 0 False g) (0, cs, ex_mmu v K e 0 False (g @ [e]))"
    using mmu_step.returns [of 3 True v True hdb ex_flush cs "ex_mmu v K e 0 False g"]
    by (simp add: litmus_set_pte_def ex_mmu_def)
  ultimately show ?thesis by (meson converse_rtranclp_into_rtranclp rtranclp.rtrancl_refl)
qed

lemma ex_run_pte:
  "(mmu_step True True hdb ex_flush)\<^sup>*\<^sup>* (0, litmus_set_pte_safe 0x2001, ex_mmu 0x1001 {0x1001} 0 0 False [])
    (0, [], ex_mmu 0x2001 {0x2001} 0x2000 0 False [0x1401, 0x2000])" (is "?S\<^sup>*\<^sup>* _ _")
proof -
  let ?f = "[Flush_tlb, Set_pte 0x2001]"
  have w: "litmus_set_pte_safe 0x2001 = Set_pte 0x2000 # ?f"
    by (simp add: litmus_set_pte_safe_def msk_valid_def)
  have "?S (0, Set_pte 0x2000 # ?f, ex_mmu 0x1001 {0x1001} 0 0 False [])
      (1, Set_pte 0x2000 # ?f, ex_mmu 0x1001 {0x1001} 0x1001 0 True [])"
    by (rule ex_insn [where ok = True]) (simp_all add: ex_mmu_def)
  moreover have "?S (1, Set_pte 0x2000 # ?f, ex_mmu 0x1001 {0x1001} 0x1001 0 True [])
      (1, Set_pte 0x2000 # ?f, ex_mmu 0x1401 {0x1001} 0x1001 0 False [])"
    using mmu_step.update [of True hdb "ex_mmu 0x1001 {0x1001} 0x1001 0 True []" "0x1401" True ex_flush 1 "Set_pte 0x2000 # ?f"]
    by (simp add: hw_update_def ex_mmu_def msk_af_def)
  ultimately have a: "?S\<^sup>*\<^sup>* (0, Set_pte 0x2000 # ?f, ex_mmu 0x1001 {0x1001} 0 0 False [])
      (1, Set_pte 0x2000 # ?f, ex_mmu 0x1401 {0x1001} 0x1001 0 False [])"
    by (meson converse_rtranclp_into_rtranclp rtranclp.rtrancl_refl)
  have "?S (1, Set_pte 0x2000 # ?f, ex_mmu 0x1401 {0x1001} 0x1001 0 False [])
      (2, Set_pte 0x2000 # ?f, ex_mmu 0x1401 {0x1001} 0x1001 1 False [])"
    by (rule ex_insn [where ok = True]) (simp_all add: ex_mmu_def)
  moreover have "?S (2, Set_pte 0x2000 # ?f, ex_mmu 0x1401 {0x1001} 0x1001 1 False [])
      (0, Set_pte 0x2000 # ?f, ex_mmu 0x1401 {0x1001} 0x1001 1 False [])"
    by (rule ex_insn [where ok = True]) (simp_all add: ex_mmu_def)
  moreover note ex_exchange [of hdb "0x2000" ?f "0x1401" "{0x1001}" "0x1001" 1 False "[]"]
  ultimately have b: "?S\<^sup>*\<^sup>* (1, Set_pte 0x2000 # ?f, ex_mmu 0x1401 {0x1001} 0x1001 0 False [])
      (0, ?f, ex_mmu 0x2000 {0x1001} 0x1401 0 False [0x1401])"
    by (simp add: converse_rtranclp_into_rtranclp)
  have "?S (0, ?f, ex_mmu 0x2000 {0x1001} 0x1401 0 False [0x1401]) (0, [Set_pte 0x2001], ex_mmu 0x2000 {} 0x1401 0 False [0x1401])"
    by (rule mmu_step.flush) (simp add: ex_flush_def ex_mmu_def)
  moreover note ex_exchange [of hdb "0x2001" "[]" "0x2000" "{}" "0x1401" 0 False "[0x1401]"]
  moreover have "?S (0, [], ex_mmu 0x2001 {} 0x2000 0 False [0x1401, 0x2000])
      (0, [], ex_mmu 0x2001 {0x2001} 0x2000 0 False [0x1401, 0x2000])"
    using mmu_step.walk [of "ex_mmu 0x2001 {} 0x2000 0 False [0x1401, 0x2000]" True True hdb ex_flush 0 "[]"]
    by (simp add: ex_mmu_def)
  ultimately have "?S\<^sup>*\<^sup>* (0, ?f, ex_mmu 0x2000 {0x1001} 0x1401 0 False [0x1401])
      (0, [], ex_mmu 0x2001 {0x2001} 0x2000 0 False [0x1401, 0x2000])"
    by (simp add: converse_rtranclp_into_rtranclp rtranclp.rtrancl_into_rtrancl)
  then show ?thesis unfolding w using a b by (meson rtranclp_trans)
qed

theorem set_pte_safe_coherent_witness:
  "coherent True True (ex_mmu 0x2001 {0x2001} 0x2000 0 False [0x1401, 0x2000]) \<and> agree True True 0x1401 0x1001"
proof -
  have "flush_ok ex_flush" by (simp add: flush_ok_def ex_flush_def)
  moreover have "coherent True True (ex_mmu 0x1001 {0x1001} 0 0 False [])" "got (ex_mmu 0x1001 {0x1001} 0 0 False []) = []"
    by (simp_all add: coherent_def ex_mmu_def)
  ultimately show ?thesis using set_pte_safe_coherent [OF _ _ _ ex_run_pte [of True]] by (simp add: ex_mmu_def)
qed

text \<open>
  \<open>reset_hahd_bits\<close> switches off the management of the access flag and of the dirty state by the hardware,
  as far as the processor has it, and changes no other bit of the register; the single bits are set as fields
  of one bit.
\<close>

theorem reset_hahd_bits_clears:
  "(get_hafdbs s = 1 \<longrightarrow> tcr_el1 (reset_hahd_bits s) = litmus_set_field (tcr_el1 s) 39 1 0) \<and>
   (get_hafdbs s = 2 \<longrightarrow> tcr_el1 (reset_hahd_bits s) = litmus_set_field (tcr_el1 s) 39 2 0) \<and>
   (get_hafdbs s \<notin> {1, 2} \<longrightarrow> reset_hahd_bits s = s)"
proof -
  have one: "tcr_el1 (set_ha_bit 0 s) = litmus_set_field (tcr_el1 s) 39 1 0"
    by (simp add: set_ha_bit_def set_tcr_el1_bit_def Let_def litmus_set_field_def)
  have two: "tcr_el1 (set_hahd_bits 0 s) = litmus_set_field (tcr_el1 s) 39 2 0"
    by (simp add: set_hahd_bits_def Let_def litmus_set_field_def)
  show ?thesis using one two by (auto simp: reset_hahd_bits_def Let_def)
qed

theorem reset_hahd_bits_clears_witness:
  "tcr_el1 (reset_hahd_bits \<lparr>isar0 = 0, mmfr1 = 0x12, tcr_el1 = 0x180000000ff\<rparr>) = litmus_set_field 0x180000000ff 39 2 0"
  using reset_hahd_bits_clears [of "\<lparr>isar0 = 0, mmfr1 = 0x12, tcr_el1 = 0x180000000ff\<rparr>"]
  by (simp add: get_hafdbs_def)

subsection \<open>The packed null entry, initialisation, x86\<close>

text \<open>\<open>NVARS\<close>, the number of variables of the test, stands for the null pointer.\<close>

definition NULL_PACKED :: "u32 \<Rightarrow> pteval_t" where
  "NULL_PACKED NVARS = pack_pack NVARS 0 1 0 0 0"

definition litmus_init :: "sysregs \<Rightarrow> sysregs" where
  "litmus_init s = reset_hahd_bits s"

text \<open>On x86 an entry is exchanged in one instruction, without a break, and its old value is returned.\<close>

definition x86_set_pte :: "('p \<Rightarrow> pteval_t) \<Rightarrow> 'p \<Rightarrow> pteval_t \<Rightarrow> pteval_t \<times> ('p \<Rightarrow> pteval_t)" where
  "x86_set_pte m p x = (m p, m(p := x))"

definition x86_set_pte_safe :: "('p \<Rightarrow> pteval_t) \<Rightarrow> 'q \<Rightarrow> 'p \<Rightarrow> pteval_t \<Rightarrow> pteval_t \<times> ('p \<Rightarrow> pteval_t)" where
  "x86_set_pte_safe m q p x = x86_set_pte m p x"

text \<open>As its comment says, \<open>NULL_PACKED\<close> is the packed version of the entry zero: its flags are unset but \<open>db\<close>, stored inverted.\<close>

theorem NULL_PACKED_is_zero: "NULL_PACKED nv = pack_pte nv 0"
  using pack_pack_pte [of nv 0] by (simp add: NULL_PACKED_def)

text \<open>Setting an entry and then what was returned puts the page table back as it was.\<close>

theorem x86_set_pte_undone:
  "x86_set_pte_safe m q p x = (old, m') \<Longrightarrow> x86_set_pte_safe m' q p old = (x, m)"
  by (auto simp: x86_set_pte_safe_def x86_set_pte_def)

end
