(* ===== verification/Faults.thy ===== *)
theory Faults
  imports CStr
begin

section \<open>Recording of memory faults (\<^verbatim>\<open>_aarch64/kvm_fault_type.c\<close>, \<^verbatim>\<open>_aarch64/kvm_fault_handler.c\<close>)\<close>

text \<open>
  The bare-metal harness records the faults of each thread: the instruction, the address (as symbols
  of the test) and the kind.  Symbol 0 stands for unknown.  The position and the value of the
  exception class in \<open>esr\<close> are constants of the hypervisor's headers, and the functions from addresses
  to symbols are generated with the test: parameters.
\<close>

subsection \<open>Kinds of faults\<close>

datatype fault_type_t =
    FaultUndefinedInstruction | FaultMMUAddressSize | FaultMMUTranslation | FaultMMUAccessFlag
  | FaultMMUPermission | FaultTagCheck | FaultUnsupported | FaultUnknown

text \<open>The numbering of the enumeration.\<close>

definition fault_types :: "fault_type_t list" where
  "fault_types = [FaultUndefinedInstruction, FaultMMUAddressSize, FaultMMUTranslation, FaultMMUAccessFlag,
     FaultMMUPermission, FaultTagCheck, FaultUnsupported, FaultUnknown]"

fun code :: "fault_type_t \<Rightarrow> nat" where
  "code FaultUndefinedInstruction = 0"
| "code FaultMMUAddressSize = 1"
| "code FaultMMUTranslation = 2"
| "code FaultMMUAccessFlag = 3"
| "code FaultMMUPermission = 4"
| "code FaultTagCheck = 5"
| "code FaultUnsupported = 6"
| "code FaultUnknown = 7"

definition fault_type_names :: "string list" where
  "fault_type_names = [''UndefinedInstruction'', ''MMU:AddressSize'', ''MMU:Translation'', ''MMU:AccessFlag'',
     ''MMU:Permission'', ''TagCheck'', ''Unsupported'']"

definition get_fault_type :: "nat \<Rightarrow> u32 \<Rightarrow> u64 \<Rightarrow> fault_type_t" where
  "get_fault_type ec_shift ec_unknown esr =
     (let ec = ucast (drop_bit ec_shift esr) :: u32
      in if ec = ec_unknown then FaultUndefinedInstruction
         else
           (let dfsc = ucast (esr AND 0x3f) :: u32;
                fault_type = unat (drop_bit 2 dfsc) + code FaultMMUAddressSize
            in if fault_type > code FaultTagCheck then FaultUnsupported else fault_types ! fault_type))"

subsection \<open>The table of a thread\<close>

record fault_info_t =
  instr_symb :: nat
  data_symb :: nat
  ftype :: fault_type_t

definition MAX_FAULTS :: nat where "MAX_FAULTS = 8"

record th_faults_info_t =
  faults :: "fault_info_t list"
  n_faults :: nat

definition th_faults_info_init :: "th_faults_info_t \<Rightarrow> th_faults_info_t" where
  "th_faults_info_init th =
     \<lparr>faults = map (\<lambda>_. \<lparr>instr_symb = 0, data_symb = 0, ftype = FaultUnknown\<rparr>) (faults th), n_faults = 0\<rparr>"

function compare_loop :: "th_faults_info_t \<Rightarrow> th_faults_info_t \<Rightarrow> nat \<Rightarrow> nat \<Rightarrow> bool res" where
  "compare_loop a b i1 i2 =
     (if i1 < n_faults a then
        if i2 \<ge> n_faults b then (if i2 = n_faults b then Inr False else Inl Undefined)
        else
          bind_res (aget (faults a) (int i1)) (\<lambda>f1. bind_res (aget (faults b) (int i2)) (\<lambda>f2.
            if instr_symb f1 = instr_symb f2 \<and> data_symb f1 = data_symb f2 \<and> ftype f1 = ftype f2
            then compare_loop a b (i1 + 1) 0 else compare_loop a b i1 (i2 + 1)))
      else Inr True)"
  by pat_completeness auto
termination
  by (relation "measures [\<lambda>(a, b, i1, i2). n_faults a - i1, \<lambda>(a, b, i1, i2). n_faults b - i2]") auto

declare compare_loop.simps [simp del]

definition th_faults_info_compare :: "th_faults_info_t \<Rightarrow> th_faults_info_t \<Rightarrow> bool res" where
  "th_faults_info_compare a b = (if n_faults a \<noteq> n_faults b then Inr False else compare_loop a b 0 0)"

fun eq_faults :: "th_faults_info_t list \<Rightarrow> th_faults_info_t list \<Rightarrow> bool res" where
  "eq_faults (a # as) (b # bs) =
     bind_res (th_faults_info_compare a b) (\<lambda>eq. if eq then eq_faults as bs else Inr False)"
| "eq_faults _ _ = Inr True"

text \<open>The test on an entry that \<open>exists_fault\<close> and \<open>pp_log_faults\<close> make; 0 and \<open>FaultUnknown\<close> match anything.\<close>

definition matches :: "fault_info_t \<Rightarrow> nat \<Rightarrow> nat \<Rightarrow> fault_type_t \<Rightarrow> bool" where
  "matches flt i d ft \<longleftrightarrow>
     (if i \<noteq> 0 then instr_symb flt = i else True) \<and> (if d \<noteq> 0 then data_symb flt = d else True) \<and>
     (if ft \<noteq> FaultUnknown then ftype flt = ft else True)"

fun exists_loop :: "fault_info_t list \<Rightarrow> nat \<Rightarrow> nat \<Rightarrow> fault_type_t \<Rightarrow> nat list \<Rightarrow> bool res" where
  "exists_loop fs i d ft [] = Inr False"
| "exists_loop fs i d ft (k # ks) =
     bind_res (aget fs (int k)) (\<lambda>flt. if matches flt i d ft then Inr True else exists_loop fs i d ft ks)"

definition exists_fault :: "th_faults_info_t \<Rightarrow> nat \<Rightarrow> nat \<Rightarrow> fault_type_t \<Rightarrow> bool res" where
  "exists_fault th i d ft = exists_loop (faults th) i d ft [0..<n_faults th]"

text \<open>
  \<open>record_fault\<close>: the symbol of the instruction and, when the address register is valid, that of the
  address; \<open>log_fault\<close> says whether the test looks at such a fault.
\<close>

record fault_env =
  get_instr_symb_id :: "u64 \<Rightarrow> nat"
  get_far :: "u64 \<Rightarrow> u64 option"
  idx_addr :: "u64 \<Rightarrow> nat"
  log_fault :: "nat \<Rightarrow> nat \<Rightarrow> nat \<Rightarrow> fault_type_t \<Rightarrow> bool"
  EC_SHIFT :: nat
  EC_UNKNOWN :: u32

definition new_fault :: "fault_env \<Rightarrow> u64 \<Rightarrow> u64 \<Rightarrow> fault_info_t" where
  "new_fault env pc esr =
     \<lparr>instr_symb = get_instr_symb_id env pc,
      data_symb = (case get_far env esr of Some far \<Rightarrow> idx_addr env far | None \<Rightarrow> 0),
      ftype = get_fault_type (EC_SHIFT env) (EC_UNKNOWN env) esr\<rparr>"

definition record_fault :: "fault_env \<Rightarrow> nat \<Rightarrow> u64 \<Rightarrow> u64 \<Rightarrow> th_faults_info_t \<Rightarrow> th_faults_info_t res" where
  "record_fault env proc pc esr th =
     (let flt = new_fault env pc esr
      in if \<not> log_fault env proc (instr_symb flt) (data_symb flt) (ftype flt) then Inr th
         else
           bind_res (exists_fault th (instr_symb flt) (data_symb flt) (ftype flt)) (\<lambda>found.
             if found then Inr th
             else if n_faults th < MAX_FAULTS then
               bind_res (aset (faults th) (int (n_faults th)) flt) (\<lambda>fs.
                 Inr (th\<lparr>faults := fs, n_faults := n_faults th + 1\<rparr>))
             else Inr th))"

text \<open>
  The handler counts the fault in a \<open>count_t\<close>, which has 32 bits in this harness and wraps around, records it, and sets the return address: to the label of the thread in
  mode \<open>PRECISE\<close>, past the instruction in mode \<open>FAULT_SKIP\<close>.
\<close>

datatype fault_mode = Precise u64 | Fault_skip | Fault_retry

record fault_state =
  nfaults :: u32
  th_table :: th_faults_info_t
  reg_pc :: u64

definition fault_handler :: "fault_env \<Rightarrow> fault_mode \<Rightarrow> nat \<Rightarrow> u32 \<Rightarrow> fault_state \<Rightarrow> fault_state res" where
  "fault_handler env mode proc esr s =
     (let s = s\<lparr>nfaults := nfaults s + 1\<rparr>
      in bind_res (record_fault env proc (reg_pc s) (ucast esr) (th_table s)) (\<lambda>th.
           Inr (s\<lparr>th_table := th,
                  reg_pc := (case mode of Precise ret \<Rightarrow> ret | Fault_skip \<Rightarrow> reg_pc s + 4 | Fault_retry \<Rightarrow> reg_pc s)\<rparr>)))"

subsection \<open>Printing\<close>

definition pp_fault :: "string list \<Rightarrow> string list \<Rightarrow> nat \<Rightarrow> nat \<Rightarrow> nat \<Rightarrow> fault_type_t \<Rightarrow> string res" where
  "pp_fault instr_symb_name data_symb_name proc i d ft =
     bind_res (if i \<noteq> 0 then bind_res (aget instr_symb_name (int i)) (\<lambda>s. Inr ('':'' @ s)) else Inr []) (\<lambda>s1.
     bind_res (if d \<noteq> 0 then bind_res (aget data_symb_name (int d)) (\<lambda>s. Inr ('','' @ s)) else Inr []) (\<lambda>s2.
     bind_res (if ft \<noteq> FaultUnknown then bind_res (aget fault_type_names (int (code ft))) (\<lambda>s. Inr ('','' @ s)) else Inr []) (\<lambda>s3.
     Inr (''fault(P'' @ show_nat proc @ s1 @ s2 @ s3 @ '');''))))"

text \<open>
  \<open>pp_log_faults\<close> prints the matching entries that were not printed since \<open>pp_log_faults_init\<close>; the flags \<open>rep\<close>
  are those of the thread.  The result is the output, the indices printed and the flags.
\<close>

fun log_loop ::
  "(fault_info_t \<Rightarrow> string res) \<Rightarrow> fault_info_t list \<Rightarrow> nat \<Rightarrow> nat \<Rightarrow> fault_type_t \<Rightarrow> nat list \<Rightarrow> bool list \<Rightarrow>
   (string \<times> nat list \<times> bool \<times> bool list) res" where
  "log_loop pp fs i d ft [] rep = Inr ([], [], False, rep)"
| "log_loop pp fs i d ft (k # ks) rep =
     bind_res (aget fs (int k)) (\<lambda>flt.
       if matches flt i d ft then
         bind_res (aget rep (int k)) (\<lambda>done.
           if \<not> done then
             bind_res (pp flt) (\<lambda>s. bind_res (log_loop pp fs i d ft ks (rep[k := True])) (\<lambda>(out, idx, _, rep).
               Inr ('' '' @ s @ out, k # idx, True, rep)))
           else
             bind_res (log_loop pp fs i d ft ks rep) (\<lambda>(out, idx, _, rep). Inr ('' '' @ out, idx, True, rep)))
       else log_loop pp fs i d ft ks rep)"

definition pp_log_faults_init :: "nat \<Rightarrow> bool list" where
  "pp_log_faults_init m = replicate m False"

definition pp_log_faults ::
  "string list \<Rightarrow> string list \<Rightarrow> th_faults_info_t \<Rightarrow> nat \<Rightarrow> nat \<Rightarrow> nat \<Rightarrow> fault_type_t \<Rightarrow> bool list \<Rightarrow>
   (string \<times> nat list \<times> bool list) res" where
  "pp_log_faults inames dnames th proc i d ft rep =
     bind_res (log_loop (\<lambda>flt. pp_fault inames dnames proc (instr_symb flt) (data_symb flt) (ftype flt))
                 (faults th) i d ft [0..<n_faults th] rep) (\<lambda>(out, idx, found, rep).
       if found then Inr (out, idx, rep)
       else bind_res (pp_fault inames dnames proc i d ft) (\<lambda>s. Inr (out @ '' ~'' @ s, idx, rep)))"

subsection \<open>The invariant of a table\<close>

definition recorded :: "th_faults_info_t \<Rightarrow> fault_info_t list" where
  "recorded th = take (n_faults th) (faults th)"

definition faults_ok :: "th_faults_info_t \<Rightarrow> bool" where
  "faults_ok th \<longleftrightarrow> length (faults th) = MAX_FAULTS \<and> n_faults th \<le> MAX_FAULTS \<and> distinct (recorded th)"

lemma recorded_nth: "k < n_faults th \<Longrightarrow> recorded th ! k = faults th ! k"
  by (simp add: recorded_def)

lemma recorded_length [simp]: "faults_ok th \<Longrightarrow> length (recorded th) = n_faults th"
  by (simp add: recorded_def faults_ok_def)

lemma matches_self: "matches f (instr_symb f) (data_symb f) (ftype f)"
  by (simp add: matches_def)

lemma exists_loop_iff:
  "\<forall>k \<in> set ks. k < length fs \<Longrightarrow> exists_loop fs i d ft ks = Inr (\<exists>k \<in> set ks. matches (fs ! k) i d ft)"
  by (induction ks) auto

lemma exists_fault_iff:
  assumes "faults_ok th"
  shows "exists_fault th i d ft = Inr (\<exists>f \<in> set (recorded th). matches f i d ft)"
proof -
  have "exists_fault th i d ft = Inr (\<exists>k \<in> set [0..<n_faults th]. matches (faults th ! k) i d ft)"
    unfolding exists_fault_def by (rule exists_loop_iff) (use assms in \<open>auto simp: faults_ok_def\<close>)
  moreover have "(\<exists>k \<in> set [0..<n_faults th]. matches (faults th ! k) i d ft) \<longleftrightarrow>
      (\<exists>f \<in> set (recorded th). matches f i d ft)"
    using assms nth_image [of "n_faults th" "faults th"] unfolding recorded_def faults_ok_def
    by (metis (no_types, lifting) atLeast_upt image_iff lessThan_atLeast0)
  ultimately show ?thesis by simp
qed

lemma record_fault_ok:
  assumes "faults_ok th" and "flt = new_fault env pc esr"
  shows "\<exists>th'. record_fault env proc pc esr th = Inr th' \<and> faults_ok th' \<and>
    recorded th' = recorded th @
      (if log_fault env proc (instr_symb flt) (data_symb flt) (ftype flt) \<and> n_faults th < MAX_FAULTS \<and>
         \<not> (\<exists>f \<in> set (recorded th). matches f (instr_symb flt) (data_symb flt) (ftype flt)) then [flt] else [])"
proof -
  let ?found = "\<exists>f \<in> set (recorded th). matches f (instr_symb flt) (data_symb flt) (ftype flt)"
  let ?log = "log_fault env proc (instr_symb flt) (data_symb flt) (ftype flt)"
  consider "\<not> ?log \<or> ?found \<or> MAX_FAULTS \<le> n_faults th" | "?log" "\<not> ?found" "n_faults th < MAX_FAULTS"
    by linarith
  then show ?thesis
  proof cases
    case 1
    then have "record_fault env proc pc esr th = Inr th"
      using exists_fault_iff [OF assms(1)] by (auto simp: record_fault_def Let_def assms(2) [symmetric])
    then show ?thesis using 1 assms(1) by auto
  next
    case 2
    let ?th = "th\<lparr>faults := (faults th)[n_faults th := flt], n_faults := n_faults th + 1\<rparr>"
    have "record_fault env proc pc esr th = Inr ?th"
      using 2 assms(1) exists_fault_iff [OF assms(1)]
      by (simp add: record_fault_def Let_def assms(2) [symmetric] faults_ok_def)
    moreover have rec: "recorded ?th = recorded th @ [flt]"
      using 2 assms(1) by (simp add: recorded_def faults_ok_def take_Suc_conv_app_nth)
    moreover have "flt \<notin> set (recorded th)" using 2(2) matches_self by blast
    then have "faults_ok ?th" using assms(1) 2(3) unfolding faults_ok_def rec by simp
    ultimately show ?thesis using 2 by auto
  qed
qed

subsection \<open>Comparison\<close>

lemma compare_loop_iff:
  "faults_ok a \<Longrightarrow> faults_ok b \<Longrightarrow> i2 \<le> n_faults b \<Longrightarrow>
   compare_loop a b i1 i2 =
     Inr ((i1 < n_faults a \<longrightarrow> recorded a ! i1 \<in> set (drop i2 (recorded b))) \<and>
          (\<forall>k. i1 < k \<and> k < n_faults a \<longrightarrow> recorded a ! k \<in> set (recorded b)))"
proof (induction a b i1 i2 rule: compare_loop.induct)
  case (1 a b i1 i2)
  have len: "n_faults a \<le> length (faults a)" "n_faults b \<le> length (faults b)"
    using "1.prems" by (auto simp: faults_ok_def)
  consider "i1 \<ge> n_faults a" | "i1 < n_faults a" "i2 = n_faults b" | "i1 < n_faults a" "i2 < n_faults b"
    using "1.prems"(3) by linarith
  then show ?case
  proof cases
    case 1
    then show ?thesis by (subst compare_loop.simps) auto
  next
    case 2
    then show ?thesis using "1.prems" by (subst compare_loop.simps) simp
  next
    case 3
    let ?f1 = "recorded a ! i1" and ?f2 = "recorded b ! i2"
    have get: "aget (faults a) (int i1) = Inr ?f1" "aget (faults b) (int i2) = Inr ?f2"
      using 3 len by (simp_all add: recorded_nth)
    have drop: "drop i2 (recorded b) = ?f2 # drop (Suc i2) (recorded b)"
      using 3 "1.prems" by (simp add: Cons_nth_drop_Suc)
    have eq: "(instr_symb ?f1 = instr_symb ?f2 \<and> data_symb ?f1 = data_symb ?f2 \<and> ftype ?f1 = ftype ?f2) \<longleftrightarrow> ?f1 = ?f2"
      by auto
    have loop: "compare_loop a b i1 i2 = (if ?f1 = ?f2 then compare_loop a b (i1 + 1) 0 else compare_loop a b i1 (i2 + 1))"
      using 3 get eq by (subst compare_loop.simps) (simp)
    show ?thesis
    proof (cases "?f1 = ?f2")
      case True
      have "compare_loop a b (i1 + 1) 0 =
          Inr ((i1 + 1 < n_faults a \<longrightarrow> recorded a ! (i1 + 1) \<in> set (drop 0 (recorded b))) \<and>
               (\<forall>k. i1 + 1 < k \<and> k < n_faults a \<longrightarrow> recorded a ! k \<in> set (recorded b)))"
        using "1.IH"(1) [of ?f1 ?f2] 3 True eq "1.prems" by simp
      moreover have "(\<forall>k. i1 < k \<and> k < n_faults a \<longrightarrow> P k) \<longleftrightarrow>
          (i1 + 1 < n_faults a \<longrightarrow> P (i1 + 1)) \<and> (\<forall>k. i1 + 1 < k \<and> k < n_faults a \<longrightarrow> P k)" for P
        by (metis Suc_eq_plus1 Suc_lessI lessI less_Suc_eq less_trans)
      ultimately show ?thesis unfolding loop drop using True by simp
    next
      case False
      then show ?thesis
        using "1.IH"(2) [of ?f1 ?f2] False 3 eq "1.prems" unfolding loop drop by simp
    qed
  qed
qed

lemma compare_iff:
  assumes "faults_ok a" and "faults_ok b"
  shows "th_faults_info_compare a b = Inr (mset (recorded a) = mset (recorded b))"
proof (cases "n_faults a = n_faults b")
  case True
  have "th_faults_info_compare a b = Inr (set (recorded a) \<subseteq> set (recorded b))"
  proof -
    have "(\<forall>k. k < n_faults a \<longrightarrow> recorded a ! k \<in> set (recorded b)) \<longleftrightarrow> set (recorded a) \<subseteq> set (recorded b)"
      using recorded_length [OF assms(1)] by (metis in_set_conv_nth subset_iff)
    moreover have "(0 < n_faults a \<longrightarrow> recorded a ! 0 \<in> set (recorded b)) \<and>
        (\<forall>k. 0 < k \<and> k < n_faults a \<longrightarrow> recorded a ! k \<in> set (recorded b)) \<longleftrightarrow>
        (\<forall>k. k < n_faults a \<longrightarrow> recorded a ! k \<in> set (recorded b))"
      by (metis gr0I)
    ultimately show ?thesis
      using True compare_loop_iff [OF assms, of 0 0] by (simp add: th_faults_info_compare_def)
  qed
  moreover have "set (recorded a) \<subseteq> set (recorded b) \<longleftrightarrow> mset (recorded a) = mset (recorded b)"
  proof
    assume "set (recorded a) \<subseteq> set (recorded b)"
    moreover have "card (set (recorded a)) = card (set (recorded b))"
      using assms True by (simp add: faults_ok_def distinct_card)
    ultimately have "set (recorded a) = set (recorded b)" by (simp add: card_subset_eq)
    then show "mset (recorded a) = mset (recorded b)"
      using assms by (simp add: faults_ok_def set_eq_iff_mset_eq_distinct)
  qed (metis set_mset_mset subset_refl)
  ultimately show ?thesis by simp
next
  case False
  then have "mset (recorded a) \<noteq> mset (recorded b)"
    using assms recorded_length by (metis size_mset)
  then show ?thesis using False by (simp add: th_faults_info_compare_def)
qed

subsection \<open>What is printed\<close>

lemma log_loop_spec:
  assumes "distinct ks" and "\<forall>k \<in> set ks. k < length fs \<and> k < length rep \<and> (\<exists>s. pp (fs ! k) = Inr s)"
  shows "\<exists>out rep'. log_loop pp fs i d ft ks rep =
      Inr (out, filter (\<lambda>k. matches (fs ! k) i d ft \<and> \<not> rep ! k) ks, \<exists>k \<in> set ks. matches (fs ! k) i d ft, rep') \<and>
    length rep' = length rep \<and>
    (\<forall>k < length rep. rep' ! k \<longleftrightarrow> rep ! k \<or> (k \<in> set ks \<and> matches (fs ! k) i d ft))"
  using assms
proof (induction ks arbitrary: rep)
  case (Cons k ks)
  define rep1 where "rep1 = (if matches (fs ! k) i d ft then rep[k := True] else rep)"
  have len1: "length rep1 = length rep" by (simp add: rep1_def)
  have k: "k < length fs" "k < length rep" using Cons.prems(2) by auto
  obtain s where s: "pp (fs ! k) = Inr s" using Cons.prems(2) by auto
  have "distinct ks" and "\<forall>k \<in> set ks. k < length fs \<and> k < length rep1 \<and> (\<exists>s. pp (fs ! k) = Inr s)"
    using Cons.prems len1 by auto
  from Cons.IH [OF this] obtain out rep' where IH:
    "log_loop pp fs i d ft ks rep1 =
      Inr (out, filter (\<lambda>k. matches (fs ! k) i d ft \<and> \<not> rep1 ! k) ks, \<exists>k \<in> set ks. matches (fs ! k) i d ft, rep')"
    "length rep' = length rep1"
    "\<forall>k < length rep1. rep' ! k \<longleftrightarrow> rep1 ! k \<or> (k \<in> set ks \<and> matches (fs ! k) i d ft)"
    by blast
  have same: "filter (\<lambda>k. matches (fs ! k) i d ft \<and> \<not> rep1 ! k) ks = filter (\<lambda>k. matches (fs ! k) i d ft \<and> \<not> rep ! k) ks"
  proof (rule filter_cong [OF refl])
    fix x assume "x \<in> set ks"
    then have "x \<noteq> k" using Cons.prems(1) by auto
    then show "(matches (fs ! x) i d ft \<and> \<not> rep1 ! x) = (matches (fs ! x) i d ft \<and> \<not> rep ! x)"
      by (simp add: rep1_def)
  qed
  have reps: "\<forall>j < length rep. rep' ! j \<longleftrightarrow> rep ! j \<or> (j \<in> set (k # ks) \<and> matches (fs ! j) i d ft)"
    using IH(3) k len1 by (auto simp: rep1_def nth_list_update split: if_splits)
  have len: "length rep' = length rep" using IH(2) len1 by simp
  note loop = IH(1) [unfolded same]
  show ?case
  proof (cases "matches (fs ! k) i d ft")
    case False
    then show ?thesis using loop len reps k by (auto simp: rep1_def)
  next
    case True
    then show ?thesis
    proof (cases "rep ! k")
      case False
      then show ?thesis using True loop len reps k s by (auto simp: rep1_def)
    next
      case seen: True
      then have "rep[k := True] = rep" using k by (metis list_update_id)
      then show ?thesis using True seen loop len reps k by (auto simp: rep1_def)
    qed
  qed
qed simp

text \<open>The names that the entries and the requests refer to exist.\<close>

definition named :: "string list \<Rightarrow> string list \<Rightarrow> nat \<times> nat \<times> fault_type_t \<Rightarrow> bool" where
  "named inames dnames = (\<lambda>(i, d, ft). i < length inames \<and> d < length dnames)"

lemma pp_fault_total: "named inames dnames (i, d, ft) \<Longrightarrow> \<exists>s. pp_fault inames dnames proc i d ft = Inr s"
  by (cases ft) (auto simp: pp_fault_def named_def fault_type_names_def aget_def)

text \<open>The requests of a log, one after the other: what is printed for each, and the indices.\<close>

fun log_calls ::
  "string list \<Rightarrow> string list \<Rightarrow> th_faults_info_t \<Rightarrow> nat \<Rightarrow> (nat \<times> nat \<times> fault_type_t) list \<Rightarrow> bool list \<Rightarrow>
   (string \<times> nat list) res" where
  "log_calls inames dnames th proc [] rep = Inr ([], [])"
| "log_calls inames dnames th proc ((i, d, ft) # cs) rep =
     bind_res (pp_log_faults inames dnames th proc i d ft rep) (\<lambda>(out, idx, rep).
     bind_res (log_calls inames dnames th proc cs rep) (\<lambda>(out', idx'). Inr (out @ out', idx @ idx')))"

lemma pp_log_faults_spec:
  assumes "faults_ok th" and "length rep = MAX_FAULTS" and "named inames dnames (i, d, ft)"
    and "\<forall>f \<in> set (recorded th). named inames dnames (instr_symb f, data_symb f, ftype f)"
  shows "\<exists>out rep'. pp_log_faults inames dnames th proc i d ft rep =
      Inr (out, filter (\<lambda>k. matches (faults th ! k) i d ft \<and> \<not> rep ! k) [0..<n_faults th], rep') \<and>
    length rep' = MAX_FAULTS \<and>
    (\<forall>k < MAX_FAULTS. rep' ! k \<longleftrightarrow> rep ! k \<or> (k < n_faults th \<and> matches (faults th ! k) i d ft))"
proof -
  let ?pp = "\<lambda>flt. pp_fault inames dnames proc (instr_symb flt) (data_symb flt) (ftype flt)"
  have "\<forall>k \<in> set [0..<n_faults th]. k < length (faults th) \<and> k < length rep \<and> (\<exists>s. ?pp (faults th ! k) = Inr s)"
  proof
    fix k assume "k \<in> set [0..<n_faults th]"
    then have k: "k < n_faults th" by simp
    then have "faults th ! k \<in> set (recorded th)"
      using recorded_nth [OF k] recorded_length [OF assms(1)] by (metis nth_mem)
    then have "named inames dnames (instr_symb (faults th ! k), data_symb (faults th ! k), ftype (faults th ! k))"
      using assms(4) by blast
    then show "k < length (faults th) \<and> k < length rep \<and> (\<exists>s. ?pp (faults th ! k) = Inr s)"
      using pp_fault_total k assms(1,2) by (auto simp: faults_ok_def)
  qed
  from log_loop_spec [OF _ this, of i d ft]
  obtain out rep' where loop: "log_loop ?pp (faults th) i d ft [0..<n_faults th] rep =
      Inr (out, filter (\<lambda>k. matches (faults th ! k) i d ft \<and> \<not> rep ! k) [0..<n_faults th],
           \<exists>k \<in> set [0..<n_faults th]. matches (faults th ! k) i d ft, rep')"
    "length rep' = length rep"
    "\<forall>k < length rep. rep' ! k \<longleftrightarrow> rep ! k \<or> (k \<in> set [0..<n_faults th] \<and> matches (faults th ! k) i d ft)"
    by auto
  obtain s where "pp_fault inames dnames proc i d ft = Inr s" using pp_fault_total [OF assms(3)] by auto
  then show ?thesis using loop assms(2) unfolding pp_log_faults_def by auto
qed

lemma log_calls_spec:
  assumes "faults_ok th" and "\<forall>f \<in> set (recorded th). named inames dnames (instr_symb f, data_symb f, ftype f)"
    and "length rep = MAX_FAULTS" and "\<forall>c \<in> set cs. named inames dnames c"
  shows "\<exists>out idx. log_calls inames dnames th proc cs rep = Inr (out, idx) \<and> distinct idx \<and>
    set idx = {k. k < n_faults th \<and> \<not> rep ! k \<and> (\<exists>(i, d, ft) \<in> set cs. matches (faults th ! k) i d ft)}"
  using assms(3,4)
proof (induction cs arbitrary: rep)
  case (Cons c cs)
  obtain i d ft where c: "c = (i, d, ft)" by (cases c)
  have nm: "named inames dnames (i, d, ft)" using Cons.prems(2) c by simp
  obtain out rep' where call: "pp_log_faults inames dnames th proc i d ft rep =
      Inr (out, filter (\<lambda>k. matches (faults th ! k) i d ft \<and> \<not> rep ! k) [0..<n_faults th], rep')"
    "length rep' = MAX_FAULTS"
    "\<forall>k < MAX_FAULTS. rep' ! k \<longleftrightarrow> rep ! k \<or> (k < n_faults th \<and> matches (faults th ! k) i d ft)"
    using pp_log_faults_spec [OF assms(1) Cons.prems(1) nm assms(2)] by blast
  obtain out' idx' where rest: "log_calls inames dnames th proc cs rep' = Inr (out', idx')" "distinct idx'"
    "set idx' = {k. k < n_faults th \<and> \<not> rep' ! k \<and> (\<exists>(i, d, ft) \<in> set cs. matches (faults th ! k) i d ft)}"
    using Cons.IH [OF call(2)] Cons.prems(2) by auto
  have le: "n_faults th \<le> MAX_FAULTS" using assms(1) by (simp add: faults_ok_def)
  then have flags: "k < n_faults th \<Longrightarrow> rep' ! k \<longleftrightarrow> rep ! k \<or> matches (faults th ! k) i d ft" for k
    using call(3) by auto
  let ?new = "filter (\<lambda>k. matches (faults th ! k) i d ft \<and> \<not> rep ! k) [0..<n_faults th]"
  have "log_calls inames dnames th proc (c # cs) rep = Inr (out @ out', ?new @ idx')"
    using call(1) rest(1) by (simp add: c)
  moreover have "distinct (?new @ idx')" using rest(2,3) flags by auto
  moreover have "set (?new @ idx') =
      {k. k < n_faults th \<and> \<not> rep ! k \<and> (\<exists>(i, d, ft) \<in> set (c # cs). matches (faults th ! k) i d ft)}"
    using rest(3) flags by (auto simp: c)
  ultimately show ?case by blast
qed simp

subsection \<open>Properties\<close>

text \<open>
  \<open>get_fault_type\<close> classifies every value of the syndrome register, by bits 5 to 2 unless the exception class is
  the one of undefined instructions; the result has a name in \<open>fault_type_names\<close>.
\<close>

theorem get_fault_type_total:
  "code (get_fault_type ec_shift ec_unknown esr) =
     (if ucast (drop_bit ec_shift esr) = ec_unknown then 0 else min 6 (unat (esr AND 0x3f) div 4 + 1)) \<and>
   code (get_fault_type ec_shift ec_unknown esr) < length fault_type_names"
proof -
  define x where "x = unat (esr AND 0x3f) div 4"
  have "unat (esr AND 0x3f) < 64"
    using word_and_le1 [of "esr" "0x3f"] by (simp add: word_le_nat_alt)
  then have "unat (ucast (esr AND 0x3f) :: u32) = unat (esr AND 0x3f)"
    by (simp add: unsigned_ucast_eq take_bit_nat_eq_self_iff)
  then have x: "unat (drop_bit 2 (ucast (esr AND 0x3f) :: u32)) = x"
    by (simp add: x_def drop_bit_eq_div unat_div)
  have "code (fault_types ! (x + 1)) = x + 1" if "x + 1 \<le> 5"
  proof -
    have "x = 0 \<or> x = 1 \<or> x = 2 \<or> x = 3 \<or> x = 4" using that by auto
    then show ?thesis by (elim disjE) (simp_all add: fault_types_def)
  qed
  then have "code (get_fault_type ec_shift ec_unknown esr) =
      (if ucast (drop_bit ec_shift esr) = ec_unknown then 0 else min 6 (x + 1))"
    by (simp add: get_fault_type_def Let_def x)
  moreover have "min 6 (x + 1) < 7" by simp
  ultimately show ?thesis by (simp add: x_def fault_type_names_def numeral_eq_Suc [of Num.One] del: One_nat_def)
qed

text \<open>
  C30: The fault handler counts the fault, modulo \<open>2 ^ 32\<close>, and keeps the table of its thread within its eight entries
  and without duplicates.  It never drops an entry, and adds the fault exactly when the test looks at such faults
  (\<open>log_fault\<close>), no entry matches it, where an unknown symbol or kind of the new fault matches any, and the table is not
  full.  So a fault that the test looks at is represented in the table afterwards unless the table is full.
\<close>

theorem fault_handler_records:
  assumes "faults_ok (th_table s)" and "flt = new_fault env (reg_pc s) (ucast esr)"
  shows "\<exists>s'. fault_handler env mode proc esr s = Inr s' \<and> faults_ok (th_table s') \<and> nfaults s' = nfaults s + 1 \<and>
    recorded (th_table s') = recorded (th_table s) @
      (if log_fault env proc (instr_symb flt) (data_symb flt) (ftype flt) \<and> n_faults (th_table s) < MAX_FAULTS \<and>
         \<not> (\<exists>f \<in> set (recorded (th_table s)). matches f (instr_symb flt) (data_symb flt) (ftype flt)) then [flt] else []) \<and>
    (log_fault env proc (instr_symb flt) (data_symb flt) (ftype flt) \<longrightarrow>
       n_faults (th_table s') = MAX_FAULTS \<or>
       (\<exists>f \<in> set (recorded (th_table s')). matches f (instr_symb flt) (data_symb flt) (ftype flt)))"
proof -
  let ?app = "(if log_fault env proc (instr_symb flt) (data_symb flt) (ftype flt) \<and> n_faults (th_table s) < MAX_FAULTS \<and>
         \<not> (\<exists>f \<in> set (recorded (th_table s)). matches f (instr_symb flt) (data_symb flt) (ftype flt)) then [flt] else [])"
  obtain th where th: "record_fault env proc (reg_pc s) (ucast esr) (th_table s) = Inr th" "faults_ok th"
    "recorded th = recorded (th_table s) @ ?app"
    using record_fault_ok [OF assms, of proc] by blast
  have "n_faults th \<le> MAX_FAULTS" "n_faults (th_table s) \<le> MAX_FAULTS" using th(2) assms(1) by (simp_all add: faults_ok_def)
  moreover have "length (recorded th) = length (recorded (th_table s)) + length ?app" unfolding th(3) by simp
  ultimately have "log_fault env proc (instr_symb flt) (data_symb flt) (ftype flt) \<longrightarrow>
       n_faults th = MAX_FAULTS \<or> (\<exists>f \<in> set (recorded th). matches f (instr_symb flt) (data_symb flt) (ftype flt))"
    using th(3) recorded_length [OF th(2)] recorded_length [OF assms(1)] matches_self [of flt] by (auto split: if_splits)
  then show ?thesis using th(1-3) by (simp add: fault_handler_def Let_def)
qed

definition ex_env :: fault_env where
  "ex_env = \<lparr>get_instr_symb_id = \<lambda>pc. if pc = 0x1000 then 1 else 0, get_far = \<lambda>esr. Some 0x8000, idx_addr = \<lambda>a. 3,
     log_fault = \<lambda>p i d ft. p = 0, EC_SHIFT = 26, EC_UNKNOWN = 0\<rparr>"

definition ex_table :: "th_faults_info_t" where
  "ex_table = \<lparr>faults = replicate 8 \<lparr>instr_symb = 0, data_symb = 0, ftype = FaultUnknown\<rparr>, n_faults = 0\<rparr>"

lemma ex_table_ok: "faults_ok ex_table"
  by (simp add: faults_ok_def ex_table_def recorded_def MAX_FAULTS_def)

lemma ex_table_empty: "recorded ex_table = []" "n_faults ex_table < MAX_FAULTS" "log_fault ex_env 0 i d ft"
  by (simp_all add: ex_table_def recorded_def MAX_FAULTS_def ex_env_def)

theorem fault_handler_records_witness:
  "\<exists>s'. fault_handler ex_env Fault_skip 0 0x94000007 \<lparr>nfaults = 4, th_table = ex_table, reg_pc = 0x1000\<rparr> = Inr s' \<and>
    faults_ok (th_table s') \<and> nfaults s' = 5 \<and> recorded (th_table s') = [new_fault ex_env 0x1000 0x94000007]"
  using fault_handler_records [of "\<lparr>nfaults = 4, th_table = ex_table, reg_pc = 0x1000\<rparr>" _ ex_env "0x94000007" Fault_skip 0, OF _ refl]
  by (auto simp: ex_table_ok ex_table_empty)

text \<open>
  C31: \<open>eq_faults\<close>, with its two nested scans, decides whether every thread has recorded the same faults, in any
  order: on tables without duplicates it is equality of multisets, hence an equivalence.
\<close>

theorem eq_faults_iff:
  assumes "length as = length bs" and "\<forall>a \<in> set as. faults_ok a" and "\<forall>b \<in> set bs. faults_ok b"
  shows "eq_faults as bs = Inr (map (\<lambda>a. mset (recorded a)) as = map (\<lambda>b. mset (recorded b)) bs)"
  using assms by (induction as bs rule: list_induct2) (auto simp: compare_iff)

definition flt1 :: fault_info_t where "flt1 = \<lparr>instr_symb = 1, data_symb = 3, ftype = FaultMMUTranslation\<rparr>"
definition flt2 :: fault_info_t where "flt2 = \<lparr>instr_symb = 2, data_symb = 3, ftype = FaultMMUAccessFlag\<rparr>"

definition two_faults :: "fault_info_t \<Rightarrow> fault_info_t \<Rightarrow> th_faults_info_t" where
  "two_faults a b = \<lparr>faults = a # b # replicate 6 a, n_faults = 2\<rparr>"

theorem eq_faults_iff_witness:
  "eq_faults [two_faults flt1 flt2] [two_faults flt2 flt1] = Inr True"
  using eq_faults_iff [of "[two_faults flt1 flt2]" "[two_faults flt2 flt1]"]
  by (simp add: two_faults_def faults_ok_def recorded_def MAX_FAULTS_def flt1_def flt2_def)

text \<open>
  Over all the requests of a log, every recorded fault that some request matches is printed exactly once,
  and no request fails, as long as the symbols have names.
\<close>

theorem pp_log_faults_once:
  assumes "faults_ok th" and "\<forall>f \<in> set (recorded th). named inames dnames (instr_symb f, data_symb f, ftype f)"
    and "\<forall>c \<in> set cs. named inames dnames c"
  shows "\<exists>out idx. log_calls inames dnames th proc cs (pp_log_faults_init MAX_FAULTS) = Inr (out, idx) \<and> distinct idx \<and>
    set idx = {k. k < n_faults th \<and> (\<exists>(i, d, ft) \<in> set cs. matches (recorded th ! k) i d ft)}"
proof -
  have "length (pp_log_faults_init MAX_FAULTS) = MAX_FAULTS" by (simp add: pp_log_faults_init_def)
  from log_calls_spec [OF assms(1,2) this assms(3), of proc] obtain out idx where
    *: "log_calls inames dnames th proc cs (pp_log_faults_init MAX_FAULTS) = Inr (out, idx)" "distinct idx"
    "set idx = {k. k < n_faults th \<and> \<not> pp_log_faults_init MAX_FAULTS ! k \<and>
       (\<exists>(i, d, ft) \<in> set cs. matches (faults th ! k) i d ft)}" by blast
  have "(\<not> pp_log_faults_init MAX_FAULTS ! k \<and> P) = P" if "k < n_faults th" for k P
    using that assms(1) by (simp add: pp_log_faults_init_def faults_ok_def)
  then have "set idx = {k. k < n_faults th \<and> (\<exists>(i, d, ft) \<in> set cs. matches (recorded th ! k) i d ft)}"
    unfolding *(3) by (intro Collect_cong conj_cong refl) (simp add: recorded_nth)
  then show ?thesis using * by blast
qed

theorem pp_log_faults_once_witness:
  "\<exists>out idx. log_calls [''UNKNOWN'', ''L0'', ''L1''] [''UNKNOWN'', ''x'', ''y'', ''z''] (two_faults flt1 flt2) 0
      [(0, 3, FaultUnknown), (2, 0, FaultUnknown)] (pp_log_faults_init MAX_FAULTS) = Inr (out, idx) \<and>
    distinct idx \<and> set idx = {0, 1}"
proof -
  have ok: "faults_ok (two_faults flt1 flt2)" "recorded (two_faults flt1 flt2) = [flt1, flt2]"
    by (simp_all add: two_faults_def faults_ok_def recorded_def MAX_FAULTS_def flt1_def flt2_def)
  have n: "n_faults (two_faults flt1 flt2) = 2" by (simp add: two_faults_def)
  have "{k. k < (2 :: nat) \<and> (\<exists>(i, d, ft) \<in> set [(0, 3, FaultUnknown), (2, 0, FaultUnknown)].
      matches ([flt1, flt2] ! k) i d ft)} = {0, 1}"
    by (auto simp: matches_def flt1_def flt2_def less_Suc_eq numeral_2_eq_2)
  then show ?thesis
    using pp_log_faults_once [OF ok(1), of "[''UNKNOWN'', ''L0'', ''L1'']" "[''UNKNOWN'', ''x'', ''y'', ''z'']"
        "[(0, 3, FaultUnknown), (2, 0, FaultUnknown)]" 0]
    unfolding ok(2) n by (simp add: named_def flt1_def flt2_def)
qed

end
