(* ===== verification/OsAffinity.thy ===== *)
theory OsAffinity
  imports CStr Affinity
begin

section \<open>Processor affinity and the operating system (\<^verbatim>\<open>_linux_affinity.c\<close> and variants)\<close>

text \<open>
  Reading and setting the processors of the current thread.  The files for Linux, Android and FreeBSD
  contain the same functions around different system calls; AIX has a simpler one.  The system calls
  are a parameter, on a state \<open>'os\<close> of the system: they return the result of the call, 0 for success.
  A mask is the set of its processors; \<open>CPU_SET\<close> ignores numbers from \<open>CPU_SETSIZE\<close> on.
\<close>

definition CPU_SETSIZE :: nat where "CPU_SETSIZE = 1024"

text \<open>The calls that act on the current thread, and what \<open>warm_up\<close> with a number of threads does to the system.\<close>

record 'os sys =
  sched_getaffinity :: "nat \<Rightarrow> 'os \<Rightarrow> int \<times> nat set"
  sched_setaffinity :: "nat \<Rightarrow> nat set \<Rightarrow> 'os \<Rightarrow> int \<times> 'os"
  gettid :: nat
  pthread_getaffinity_np :: "nat \<Rightarrow> 'os \<Rightarrow> int \<times> nat set"
  pthread_setaffinity_np :: "nat \<Rightarrow> nat set \<Rightarrow> 'os \<Rightarrow> int \<times> 'os"
  pthread_self :: nat
  warm_up :: "int \<Rightarrow> 'os \<Rightarrow> 'os"
  present_file :: "'os \<Rightarrow> string option"

subsection \<open>The common code\<close>

text \<open>
  A mask is read twice, processor by processor: to count its processors, then to write them in an array of that size.  The
  array is allocated and not initialised: a cell that has not been written is \<open>None\<close>.
\<close>

function count_set :: "nat \<Rightarrow> nat set \<Rightarrow> nat \<Rightarrow> nat" where
  "count_set p msk sz =
     (if p < CPU_SETSIZE then count_set (p + 1) msk (if p \<in> msk then sz + 1 else sz) else sz)"
  by pat_completeness auto
termination by (relation "measure (\<lambda>(p, _). CPU_SETSIZE - p)") auto

function fill_set :: "nat \<Rightarrow> nat set \<Rightarrow> nat \<Rightarrow> int option list \<Rightarrow> int option list res" where
  "fill_set p msk q arr =
     (if p < CPU_SETSIZE then
        (if p \<in> msk then bind_res (aset arr (int q) (Some (int p))) (fill_set (p + 1) msk (q + 1))
         else fill_set (p + 1) msk q arr)
      else Inr arr)"
  by pat_completeness auto
termination by (relation "measure (\<lambda>(p, _). CPU_SETSIZE - p)") auto

declare count_set.simps [simp del] fill_set.simps [simp del]

definition mask_cpus :: "nat set \<Rightarrow> cpus_t res" where
  "mask_cpus msk =
     (let sz = count_set 0 msk 0
      in bind_res (fill_set 0 msk 0 (replicate sz None)) (\<lambda>arr.
         case those arr of Some cs \<Rightarrow> Inr \<lparr>cpu = cs\<rparr> | None \<Rightarrow> Inl Undefined))"


definition one_cpu :: "int \<Rightarrow> nat set" where
  "one_cpu a = (if nat a < CPU_SETSIZE then {nat a} else {})"

definition read_with :: "string \<Rightarrow> int \<times> nat set \<Rightarrow> cpus_t res" where
  "read_with msg = (\<lambda>(res, msk). if res \<noteq> 0 then Inl (Errexit msg) else mask_cpus msk)"


definition write_one_with :: "string \<Rightarrow> (nat set \<Rightarrow> 'os \<Rightarrow> int \<times> 'os) \<Rightarrow> int \<Rightarrow> 'os \<Rightarrow> 'os res" where
  "write_one_with msg setaff a s =
     (if a \<ge> 0 then (let (r, s) = setaff (one_cpu a) s in if r \<noteq> 0 then Inl (Errexit msg) else Inr s)
      else Inr s)"

text \<open>\<open>"%d-%d"\<close> on the contents of the file of the processors present.\<close>

definition scan_int :: "string \<Rightarrow> (int \<times> string) option" where
  "scan_int p =
     (let (neg, s) = read_sign (dropWhile isspace p)
      in if starts_digit s then (let (n, q) = read_digits 0 s in Some (if neg then - int n else int n, q)) else None)"

definition get_present :: "'os sys \<Rightarrow> 'os \<Rightarrow> int" where
  "get_present sys s =
     (case present_file sys s of
        None \<Rightarrow> -1
      | Some text \<Rightarrow>
          (case scan_int text of
             Some (r1, q) \<Rightarrow>
               (case q of
                  ch # q' \<Rightarrow> if ch = CHR ''-'' then (case scan_int q' of Some (r2, _) \<Rightarrow> r2 - r1 + 1 | None \<Rightarrow> -1) else -1
                | [] \<Rightarrow> -1)
           | None \<Rightarrow> -1))"

text \<open>
  The two loops that wait for sleeping processors may run for ever.  Messages are left out.
\<close>

partial_function (option) force_loop ::
  "'os sys \<Rightarrow> (nat set \<Rightarrow> 'os \<Rightarrow> int \<times> 'os) \<Rightarrow> int \<Rightarrow> int \<Rightarrow> 'os \<Rightarrow> 'os option" where
  "force_loop sys setaff a sz s =
     (let (r, s) = setaff (one_cpu a) s
      in if r \<noteq> 0 then
           (let nwarm = get_present sys s; nwarm = (if nwarm < 0 then sz + 1 else nwarm)
            in force_loop sys setaff a sz (warm_up sys nwarm s))
         else Some s)"

declare force_loop.simps [code]

definition force_with ::
  "'os sys \<Rightarrow> (nat set \<Rightarrow> 'os \<Rightarrow> int \<times> 'os) \<Rightarrow> int \<Rightarrow> int \<Rightarrow> 'os \<Rightarrow> 'os res" where
  "force_with sys setaff a sz s = (if a \<ge> 0 then of_option Diverges (force_loop sys setaff a sz s) else Inr s)"

partial_function (option) read_force_loop ::
  "'os sys \<Rightarrow> ('os \<Rightarrow> cpus_t res) \<Rightarrow> int \<Rightarrow> int \<Rightarrow> 'os \<Rightarrow> (cpus_t res \<times> 'os) option" where
  "read_force_loop sys rd n_avail sz s =
     (let s = warm_up sys (sz + 1) s
      in case rd s of
           Inl e \<Rightarrow> Some (Inl e, s)
         | Inr r \<Rightarrow> if n_avail \<le> int (length (cpu r)) then Some (Inr r, s) else read_force_loop sys rd n_avail sz s)"

declare read_force_loop.simps [code]

definition read_force_with :: "'os sys \<Rightarrow> ('os \<Rightarrow> cpus_t res) \<Rightarrow> int \<Rightarrow> 'os \<Rightarrow> (cpus_t \<times> 'os) res" where
  "read_force_with sys rd n_avail s =
     (let sz = (if n_avail \<le> 1 then 1 else n_avail)
      in bind_res (of_option Diverges (read_force_loop sys rd n_avail sz s)) (\<lambda>(r, s). bind_res r (\<lambda>c. Inr (c, s))))"

subsection \<open>The three systems\<close>

definition linux_get :: "'os sys \<Rightarrow> 'os \<Rightarrow> int \<times> nat set" where
  "linux_get sys = sched_getaffinity sys 0"
definition linux_set :: "'os sys \<Rightarrow> nat set \<Rightarrow> 'os \<Rightarrow> int \<times> 'os" where
  "linux_set sys = sched_setaffinity sys 0"

definition linux_read_affinity :: "'os sys \<Rightarrow> 'os \<Rightarrow> cpus_t res" where
  "linux_read_affinity sys s = read_with ''sched_getaffinity'' (linux_get sys s)"
definition linux_write_one_affinity :: "'os sys \<Rightarrow> int \<Rightarrow> 'os \<Rightarrow> 'os res" where
  "linux_write_one_affinity sys = write_one_with ''sched_setaffinity'' (linux_set sys)"
definition linux_force_one_affinity :: "'os sys \<Rightarrow> int \<Rightarrow> int \<Rightarrow> 'os \<Rightarrow> 'os res" where
  "linux_force_one_affinity sys = force_with sys (linux_set sys)"
definition linux_read_force_affinity :: "'os sys \<Rightarrow> int \<Rightarrow> 'os \<Rightarrow> (cpus_t \<times> 'os) res" where
  "linux_read_force_affinity sys = read_force_with sys (linux_read_affinity sys)"

definition android8_get :: "'os sys \<Rightarrow> 'os \<Rightarrow> int \<times> nat set" where
  "android8_get sys = sched_getaffinity sys (gettid sys)"
definition android8_set :: "'os sys \<Rightarrow> nat set \<Rightarrow> 'os \<Rightarrow> int \<times> 'os" where
  "android8_set sys = sched_setaffinity sys (gettid sys)"

definition android8_read_affinity :: "'os sys \<Rightarrow> 'os \<Rightarrow> cpus_t res" where
  "android8_read_affinity sys s = read_with ''sched_getaffinity'' (android8_get sys s)"
definition android8_write_one_affinity :: "'os sys \<Rightarrow> int \<Rightarrow> 'os \<Rightarrow> 'os res" where
  "android8_write_one_affinity sys = write_one_with ''sched_setaffinity'' (android8_set sys)"
definition android8_force_one_affinity :: "'os sys \<Rightarrow> int \<Rightarrow> int \<Rightarrow> 'os \<Rightarrow> 'os res" where
  "android8_force_one_affinity sys = force_with sys (android8_set sys)"
definition android8_read_force_affinity :: "'os sys \<Rightarrow> int \<Rightarrow> 'os \<Rightarrow> (cpus_t \<times> 'os) res" where
  "android8_read_force_affinity sys = read_force_with sys (android8_read_affinity sys)"

definition freebsd_get :: "'os sys \<Rightarrow> 'os \<Rightarrow> int \<times> nat set" where
  "freebsd_get sys = pthread_getaffinity_np sys (pthread_self sys)"
definition freebsd_set :: "'os sys \<Rightarrow> nat set \<Rightarrow> 'os \<Rightarrow> int \<times> 'os" where
  "freebsd_set sys = pthread_setaffinity_np sys (pthread_self sys)"

definition freebsd_read_affinity :: "'os sys \<Rightarrow> 'os \<Rightarrow> cpus_t res" where
  "freebsd_read_affinity sys s = read_with ''pthread_getaffinity_np'' (freebsd_get sys s)"
definition freebsd_write_one_affinity :: "'os sys \<Rightarrow> int \<Rightarrow> 'os \<Rightarrow> 'os res" where
  "freebsd_write_one_affinity sys = write_one_with ''pthread_setaffinity_np'' (freebsd_set sys)"
definition freebsd_force_one_affinity :: "'os sys \<Rightarrow> int \<Rightarrow> int \<Rightarrow> 'os \<Rightarrow> 'os res" where
  "freebsd_force_one_affinity sys = force_with sys (freebsd_set sys)"
definition freebsd_read_force_affinity :: "'os sys \<Rightarrow> int \<Rightarrow> 'os \<Rightarrow> (cpus_t \<times> 'os) res" where
  "freebsd_read_force_affinity sys = read_force_with sys (freebsd_read_affinity sys)"

subsection \<open>AIX\<close>

text \<open>The number of processors on line, and the binding of a thread, are system calls again.\<close>

record 'os aix =
  sysconf_online :: "'os \<Rightarrow> int"
  bindprocessor :: "int \<Rightarrow> 'os \<Rightarrow> int \<times> 'os"

definition aix_get_avail :: "'os aix \<Rightarrow> 'os \<Rightarrow> int res" where
  "aix_get_avail sys s =
     (let n_online = sysconf_online sys s in if n_online < 0 then Inl (Fatal ''sysconf'') else Inr n_online)"

definition aix_read_affinity :: "'os aix \<Rightarrow> 'os \<Rightarrow> cpus_t res" where
  "aix_read_affinity sys s = bind_res (aix_get_avail sys s) (\<lambda>sz. Inr \<lparr>cpu = map int [0..<nat sz]\<rparr>)"

definition aix_write_one_affinity :: "'os aix \<Rightarrow> int \<Rightarrow> 'os \<Rightarrow> 'os res" where
  "aix_write_one_affinity sys a s =
     (if a \<ge> 0 then (let (r, s) = bindprocessor sys a s in if r < 0 then Inl (Fatal ''bindprocessor'') else Inr s)
      else Inr s)"

partial_function (option) aix_force_loop :: "'os aix \<Rightarrow> int \<Rightarrow> 'os \<Rightarrow> 'os option" where
  "aix_force_loop sys a s =
     (let (r, s) = bindprocessor sys a s in if r < 0 then aix_force_loop sys a s else Some s)"

declare aix_force_loop.simps [code]

text \<open>The first parameter, the processor, is not used; the second is the number of processors in the callers.\<close>

definition aix_force_one_affinity :: "'os aix \<Rightarrow> int \<Rightarrow> int \<Rightarrow> 'os \<Rightarrow> 'os res" where
  "aix_force_one_affinity sys c a s = (if a \<ge> 0 then of_option Diverges (aix_force_loop sys a s) else Inr s)"

subsection \<open>Reading a mask\<close>

text \<open>The two loops agree on the size of the array, so every cell is written and none outside of it.\<close>

definition cpus_from :: "nat \<Rightarrow> nat set \<Rightarrow> nat list" where
  "cpus_from p msk = filter (\<lambda>p. p \<in> msk) [p..<CPU_SETSIZE]"

lemma cpus_from_step:
  "cpus_from p msk = (if p < CPU_SETSIZE then (if p \<in> msk then [p] else []) @ cpus_from (p + 1) msk else [])"
  by (simp add: cpus_from_def upt_conv_Cons)

lemma count_set_spec: "count_set p msk sz = sz + length (cpus_from p msk)"
proof (induction p msk sz rule: count_set.induct)
  case (1 p msk sz)
  then show ?case by (subst count_set.simps) (simp add: cpus_from_step [of p])
qed

lemma fill_set_spec:
  "length arr = q + length (cpus_from p msk) \<Longrightarrow>
   fill_set p msk q arr = Inr (take q arr @ map (\<lambda>p. Some (int p)) (cpus_from p msk))"
proof (induction p msk q arr rule: fill_set.induct)
  case (1 p msk q arr)
  consider "\<not> p < CPU_SETSIZE" | "p < CPU_SETSIZE" "p \<notin> msk" | "p < CPU_SETSIZE" "p \<in> msk" by blast
  then show ?case
  proof cases
    case 3
    have q: "q < length arr" using 1(3) 3 by (simp add: cpus_from_step [of p])
    have "fill_set (p + 1) msk (q + 1) (arr[q := Some (int p)]) =
        Inr (take (q + 1) (arr[q := Some (int p)]) @ map (\<lambda>p. Some (int p)) (cpus_from (p + 1) msk))"
      using 1(1) [OF 3] 1(3) 3 by (simp add: cpus_from_step [of p])
    then show ?thesis using 3 q
      by (subst fill_set.simps) (simp add: cpus_from_step [of p] take_Suc_conv_app_nth)
  qed (use 1(2,3) in \<open>subst fill_set.simps, simp add: cpus_from_step [of p]\<close>)+
qed

lemma those_Some: "those (map (\<lambda>x. Some (f x)) xs) = Some (map f xs)"
  by (induction xs) auto

lemma mask_cpus_eq: "mask_cpus msk = Inr \<lparr>cpu = map int (cpus_from 0 msk)\<rparr>"
  by (simp add: mask_cpus_def count_set_spec fill_set_spec those_Some)



subsection \<open>What the system calls promise\<close>

text \<open>
  The documented behaviour: a thread may run on the processors of the mask that the system allows it; a
  mask with none of them is refused and changes nothing; the mask in force is the one that is read.
\<close>

definition calls_ok ::
  "('os \<Rightarrow> int \<times> nat set) \<Rightarrow> (nat set \<Rightarrow> 'os \<Rightarrow> int \<times> 'os) \<Rightarrow> ('os \<Rightarrow> nat set) \<Rightarrow> bool" where
  "calls_ok getaff setaff allowed \<longleftrightarrow>
     (\<forall>s m. if m \<inter> allowed s = {} then fst (setaff m s) \<noteq> 0 \<and> snd (setaff m s) = s
            else \<exists>s'. setaff m s = (0, s') \<and> getaff s' = (0, m \<inter> allowed s) \<and> allowed s' = allowed s)"

lemma calls_refuse:
  "calls_ok getaff setaff allowed \<Longrightarrow> m \<inter> allowed s = {} \<Longrightarrow> \<exists>r. setaff m s = (r, s) \<and> r \<noteq> 0"
  unfolding calls_ok_def by (metis prod.collapse)

lemma calls_accept:
  "calls_ok getaff setaff allowed \<Longrightarrow> m \<inter> allowed s \<noteq> {} \<Longrightarrow>
   \<exists>s'. setaff m s = (0, s') \<and> getaff s' = (0, m \<inter> allowed s) \<and> allowed s' = allowed s"
  unfolding calls_ok_def by metis






subsection \<open>Waiting for a processor\<close>

definition one_warm_up :: "'os sys \<Rightarrow> int \<Rightarrow> 'os \<Rightarrow> 'os" where
  "one_warm_up sys sz s =
     (let nwarm = get_present sys s; nwarm = (if nwarm < 0 then sz + 1 else nwarm) in warm_up sys nwarm s)"

lemma force_loop_step:
  assumes "calls_ok getaff setaff allowed"
  shows "force_loop sys setaff a sz s =
    (if one_cpu a \<inter> allowed s = {} then force_loop sys setaff a sz (one_warm_up sys sz s)
     else Some (snd (setaff (one_cpu a) s)))"
proof (cases "one_cpu a \<inter> allowed s = {}")
  case True
  from calls_refuse [OF assms True] obtain r where "setaff (one_cpu a) s = (r, s)" "r \<noteq> 0" by blast
  then show ?thesis using True by (subst force_loop.simps) (simp add: one_warm_up_def Let_def)
next
  case False
  from calls_accept [OF assms False] obtain s' where "setaff (one_cpu a) s = (0, s')" by blast
  then show ?thesis using False by (subst force_loop.simps) simp
qed

lemma force_loop_reaches:
  assumes "calls_ok getaff setaff allowed"
    and "one_cpu a \<inter> allowed ((one_warm_up sys sz ^^ n) s) \<noteq> {}"
  shows "\<exists>k \<le> n. one_cpu a \<inter> allowed ((one_warm_up sys sz ^^ k) s) \<noteq> {} \<and>
    force_loop sys setaff a sz s = Some (snd (setaff (one_cpu a) ((one_warm_up sys sz ^^ k) s)))"
  using assms(2)
proof (induction n arbitrary: s)
  case 0
  then show ?case using force_loop_step [OF assms(1)] by (intro exI [of _ 0]) simp
next
  case (Suc n)
  show ?case
  proof (cases "one_cpu a \<inter> allowed s = {}")
    case True
    have "one_cpu a \<inter> allowed ((one_warm_up sys sz ^^ n) (one_warm_up sys sz s)) \<noteq> {}"
      using Suc.prems by (simp add: funpow_swap1)
    from Suc.IH [OF this] obtain k where "k \<le> n"
      "one_cpu a \<inter> allowed ((one_warm_up sys sz ^^ k) (one_warm_up sys sz s)) \<noteq> {}"
      "force_loop sys setaff a sz (one_warm_up sys sz s) =
        Some (snd (setaff (one_cpu a) ((one_warm_up sys sz ^^ k) (one_warm_up sys sz s))))" by blast
    then show ?thesis
      using True force_loop_step [OF assms(1), of sys a sz s]
      by (intro exI [of _ "Suc k"]) (simp add: funpow_swap1)
  next
    case False
    then show ?thesis using force_loop_step [OF assms(1), of sys a sz s] by (intro exI [of _ 0]) simp
  qed
qed

lemma force_loop_returns:
  assumes "calls_ok getaff setaff allowed" and "force_loop sys setaff a sz s = Some s'"
  shows "\<exists>n. one_cpu a \<inter> allowed ((one_warm_up sys sz ^^ n) s) \<noteq> {}"
proof -
  let ?P = "\<lambda>sys' setaff' a' sz' s s'. sys' = sys \<and> setaff' = setaff \<and> a' = a \<and> sz' = sz \<longrightarrow>
    (\<exists>n. one_cpu a \<inter> allowed ((one_warm_up sys sz ^^ n) s) \<noteq> {})"
  have "?P sys setaff a sz s s'"
  proof (rule force_loop.raw_induct [of ?P])
    fix f sys' setaff' a' sz' s s'
    assume IH: "\<And>sys' setaff' a' sz' s s'. f sys' setaff' a' sz' s = Some s' \<Longrightarrow> ?P sys' setaff' a' sz' s s'"
      and body: "(let (r, s) = setaff' (one_cpu a') s
        in if r \<noteq> 0 then
             (let nwarm = get_present sys' s; nwarm = (if nwarm < 0 then sz' + 1 else nwarm)
              in f sys' setaff' a' sz' (warm_up sys' nwarm s))
           else Some s) = Some s'"
    show "?P sys' setaff' a' sz' s s'"
    proof
      assume eqs: "sys' = sys \<and> setaff' = setaff \<and> a' = a \<and> sz' = sz"
      show "\<exists>n. one_cpu a \<inter> allowed ((one_warm_up sys sz ^^ n) s) \<noteq> {}"
      proof (cases "one_cpu a \<inter> allowed s = {}")
        case True
        then obtain r where "setaff (one_cpu a) s = (r, s)" "r \<noteq> 0" using calls_refuse [OF assms(1)] by blast
        then have "f sys setaff a sz (one_warm_up sys sz s) = Some s'"
          using body eqs by (auto simp: one_warm_up_def Let_def split: if_splits)
        then obtain n where "one_cpu a \<inter> allowed ((one_warm_up sys sz ^^ n) (one_warm_up sys sz s)) \<noteq> {}"
          using IH by blast
        then show ?thesis by (intro exI [of _ "Suc n"]) (simp add: funpow_swap1)
      next
        case False
        then show ?thesis by (intro exI [of _ 0]) simp
      qed
    qed
  qed (rule assms(2))
  then show ?thesis by simp
qed

subsection \<open>Properties\<close>


text \<open>A system with one thread: the mask in force and the processors on line.\<close>

definition ex_get :: "nat set \<times> nat set \<Rightarrow> int \<times> nat set" where "ex_get s = (0, fst s)"

definition ex_set :: "nat set \<Rightarrow> nat set \<times> nat set \<Rightarrow> int \<times> nat set \<times> nat set" where
  "ex_set m s = (if m \<inter> snd s = {} then (-1, s) else (0, m \<inter> snd s, snd s))"

definition ex_sys :: "(nat set \<times> nat set) sys" where
  "ex_sys = \<lparr>sched_getaffinity = \<lambda>_. ex_get, sched_setaffinity = \<lambda>_. ex_set, gettid = 7,
     pthread_getaffinity_np = \<lambda>_. ex_get, pthread_setaffinity_np = \<lambda>_. ex_set, pthread_self = 1,
     warm_up = \<lambda>k s. (fst s, insert (nat k) (snd s)), present_file = \<lambda>_. Some ''0-3''\<rparr>"

lemma ex_sys_ok:
  "calls_ok (linux_get ex_sys) (linux_set ex_sys) snd" "calls_ok (android8_get ex_sys) (android8_set ex_sys) snd"
  "calls_ok (freebsd_get ex_sys) (freebsd_set ex_sys) snd"
  by (simp_all add: calls_ok_def ex_sys_def ex_get_def ex_set_def linux_get_def linux_set_def android8_get_def
      android8_set_def freebsd_get_def freebsd_set_def)


lemma mask_one: "k < CPU_SETSIZE \<Longrightarrow> mask_cpus {k} = Inr \<lparr>cpu = [int k]\<rparr>"
proof -
  assume "k < CPU_SETSIZE"
  then have "[0..<CPU_SETSIZE] = [0..<k] @ k # [Suc k..<CPU_SETSIZE]"
    using upt_add_eq_append [of 0 k "CPU_SETSIZE - k"] by (simp add: upt_conv_Cons)
  then show ?thesis by (simp add: mask_cpus_eq cpus_from_def filter_empty_conv)
qed

text \<open>
  C38: \<open>force_one_affinity\<close> returns if and only if the processor it asks for is allowed after some number of
  warm-ups; then it is the only one the thread runs on.
\<close>

theorem force_one_affinity_returns_iff:
  assumes "calls_ok (linux_get sys) (linux_set sys) allowed" and "0 \<le> a" and "nat a < CPU_SETSIZE"
  shows "((\<exists>s'. linux_force_one_affinity sys a sz s = Inr s') \<longleftrightarrow>
      (\<exists>n. nat a \<in> allowed ((one_warm_up sys sz ^^ n) s))) \<and>
    (\<forall>s'. linux_force_one_affinity sys a sz s = Inr s' \<longrightarrow> linux_read_affinity sys s' = Inr \<lparr>cpu = [a]\<rparr>)"
proof -
  have one: "one_cpu a = {nat a}" using assms(3) by (simp add: one_cpu_def)
  have loop: "linux_force_one_affinity sys a sz s = Inr s' \<longleftrightarrow> force_loop sys (linux_set sys) a sz s = Some s'" for s'
    using assms(2) by (simp add: linux_force_one_affinity_def force_with_def res_simps)
  show ?thesis
  proof (intro conjI iffI allI impI; (elim exE)?)
    fix s' assume "linux_force_one_affinity sys a sz s = Inr s'"
    then show ex: "\<exists>n. nat a \<in> allowed ((one_warm_up sys sz ^^ n) s)"
      using force_loop_returns [OF assms(1), of sys a sz s s'] by (simp add: loop one)
    then obtain n where "one_cpu a \<inter> allowed ((one_warm_up sys sz ^^ n) s) \<noteq> {}" by (auto simp: one)
    from force_loop_reaches [OF assms(1) this] obtain k where
      k: "one_cpu a \<inter> allowed ((one_warm_up sys sz ^^ k) s) \<noteq> {}"
      "force_loop sys (linux_set sys) a sz s = Some (snd (linux_set sys (one_cpu a) ((one_warm_up sys sz ^^ k) s)))" by blast
    from calls_accept [OF assms(1) k(1)] obtain s'' where
      "linux_set sys (one_cpu a) ((one_warm_up sys sz ^^ k) s) = (0, s'')"
      "linux_get sys s'' = (0, one_cpu a \<inter> allowed ((one_warm_up sys sz ^^ k) s))" by blast
    moreover have "one_cpu a \<inter> allowed ((one_warm_up sys sz ^^ k) s) = {nat a}" using k(1) by (auto simp: one)
    ultimately show "linux_read_affinity sys s' = Inr \<lparr>cpu = [a]\<rparr>"
      using k(2) \<open>linux_force_one_affinity sys a sz s = Inr s'\<close> mask_one [OF assms(3)] assms(2)
      by (simp add: loop linux_read_affinity_def read_with_def)
  next
    fix n assume "nat a \<in> allowed ((one_warm_up sys sz ^^ n) s)"
    then have "one_cpu a \<inter> allowed ((one_warm_up sys sz ^^ n) s) \<noteq> {}" by (simp add: one)
    from force_loop_reaches [OF assms(1) this] show "\<exists>s'. linux_force_one_affinity sys a sz s = Inr s'"
      by (auto simp: loop)
  qed
qed

lemma ex_present: "get_present ex_sys s = 4"
proof -
  have "scan_int ''0-3'' = Some (0, ''-3'')" "scan_int ''3'' = Some (3, [])" by code_simp+
  then show ?thesis by (simp add: get_present_def ex_sys_def)
qed

theorem force_one_affinity_returns_iff_witness:
  "\<exists>s'. linux_force_one_affinity ex_sys 4 8 ({0}, {0}) = Inr s'"
proof -
  have "4 \<in> snd ((one_warm_up ex_sys 8 ^^ 1) ({0}, {0}))"
    by (simp add: one_warm_up_def ex_present) (simp add: ex_sys_def)
  then have "\<exists>n. nat 4 \<in> snd ((one_warm_up ex_sys 8 ^^ n) ({0}, {0}))" by (intro exI [of _ 1]) simp
  moreover have "nat 4 < CPU_SETSIZE" by (simp add: CPU_SETSIZE_def)
  ultimately show ?thesis
    using force_one_affinity_returns_iff [OF ex_sys_ok(1), of 4 8 "({0}, {0})"] by simp
qed

text \<open>
  On AIX \<open>force_one_affinity\<close> ignores the processor it is given: it binds the thread to the processor
  whose number is the second argument, for which the callers pass the number of processors.
\<close>

theorem aix_force_ignores_cpu:
  assumes "0 \<le> sz" and "bindprocessor sys sz s = (r, s')" and "0 \<le> r"
  shows "aix_force_one_affinity sys c sz s = Inr s'"
  using assms by (simp add: aix_force_one_affinity_def aix_force_loop.simps)

theorem aix_force_ignores_cpu_witness:
  "aix_force_one_affinity \<lparr>sysconf_online = \<lambda>s. 4, bindprocessor = \<lambda>k s. (0, k)\<rparr> 2 4 (0 :: int) = Inr 4"
  by (rule aix_force_ignores_cpu [where r = 0]) simp_all

end
