(* ===== verification/Instance.thy ===== *)
theory Instance
  imports Hash Perm Sense "HOL-Library.Signed_Division"
begin

section \<open>Instances of a test (\<^verbatim>\<open>_instance.c\<close>, \<^verbatim>\<open>_main.c\<close>)\<close>

text \<open>
  The bare-metal harness runs \<open>NEXE\<close> instances of a test in one block of memory, each with its own log,
  hash table, barrier and indirection of roles.  The macros that are generated with the test (sizes, number of threads)
  are the record \<open>conf\<close>.  Left out are the fields of the contexts whose types are generated
  (\<open>v\<close>, \<open>p\<close>, \<open>act\<close>) and the time base.
\<close>

record conf =
  n_th :: nat       \<comment> \<open>\<open>N\<close>, threads of an instance\<close>
  NEXE :: nat
  AVAIL :: nat
  NVARS :: nat
  LINE :: nat
  SCANSZ :: nat
  SCANLINE :: nat
  LOGSZ :: nat      \<comment> \<open>words of a log\<close>

subsection \<open>Layout of the memory\<close>

definition do_align :: "u64 \<Rightarrow> u64 \<Rightarrow> u64" where
  "do_align p sz = (let x = p; x = x + (sz - 1); x = x div sz; x = x * sz in x)"

text \<open>Pointers compare as unsigned numbers.\<close>

definition do_noalign :: "u64 \<Rightarrow> u64 \<Rightarrow> u64" where
  "do_noalign p sz = (let q = do_align p sz; r = q - sz div 2; r = (if r < p then q + sz div 2 else r) in r)"

text \<open>\<open>sizeof(intmax_t)\<close> is 8.  Sizes in words of that size.\<close>

definition LINESZ :: "conf \<Rightarrow> nat" where
  "LINESZ cf = LINE cf div 8"

definition MEMSZ :: "conf \<Rightarrow> nat" where
  "MEMSZ cf = (NVARS cf * NEXE cf + 1) * LINESZ cf"

record 'p ctx_t =
  ctx_id :: nat
  ctx_mem :: u64
  ctx_out :: log_t
  ctx_hash :: "'p hash_t"
  ctx_b :: sense_t
  ctx_ind :: "int list"

definition instance_init :: "conf \<Rightarrow> 'p ctx_t \<Rightarrow> nat \<Rightarrow> u64 \<Rightarrow> 'p ctx_t res" where
  "instance_init cf p k m =
     (let p = p\<lparr>ctx_id := k\<rparr>; p = p\<lparr>ctx_mem := m\<rparr>;
          p = p\<lparr>ctx_hash := hash_init (LOGSZ cf) (ctx_hash p)\<rparr>;
          p = p\<lparr>ctx_out := log_init (LOGSZ cf)\<rparr>;
          p = p\<lparr>ctx_b := barrier_init (n_th cf)\<rparr>
      in bind_res (of_option Undefined (interval_init (ctx_ind p) (n_th cf))) (\<lambda>ind. Inr (p\<lparr>ctx_ind := ind\<rparr>)))"

record 'p global_t =
  g_inst :: "int list"
  g_role :: "int list"
  g_mem :: u64
  g_nexe :: int
  g_fix :: bool
  g_ind :: "int list"
  g_gb :: sense_t
  g_ctx :: "'p ctx_t list"
  g_hash :: "'p hash_t"
  g_hash_ok :: bool

text \<open>The loop over the contexts; the pointer \<open>m\<close> advances by \<open>NVARS*LINESZ\<close> words.\<close>

fun init_ctxs :: "conf \<Rightarrow> 'p ctx_t list \<Rightarrow> nat \<Rightarrow> u64 \<Rightarrow> 'p ctx_t list res" where
  "init_ctxs cf [] k m = Inr []"
| "init_ctxs cf (c # cs) k m =
     bind_res (instance_init cf c k m) (\<lambda>c.
     bind_res (init_ctxs cf cs (k + 1) (m + of_nat (8 * (NVARS cf * LINESZ cf)))) (\<lambda>cs. Inr (c # cs)))"

definition init_global :: "conf \<Rightarrow> int list \<Rightarrow> int list \<Rightarrow> 'p global_t \<Rightarrow> 'p global_t res" where
  "init_global cf inst role g =
     (let g = g\<lparr>g_inst := inst\<rparr>; g = g\<lparr>g_role := role\<rparr>;
          g = g\<lparr>g_gb := barrier_init (AVAIL cf)\<rparr>;
          x = g_mem g; x = x + of_nat (LINE cf - 1); x = x div of_nat (LINE cf); x = x * of_nat (LINE cf)
      in bind_res (init_ctxs cf (g_ctx g) 0 x) (\<lambda>cs.
         let g = g\<lparr>g_ctx := cs\<rparr> in Inr (g\<lparr>g_hash_ok := True\<rparr>)))"

subsection \<open>The main function\<close>

text \<open>The number of instances that run, from the options.  The division of C cuts towards zero.\<close>

definition run_nexe :: "conf \<Rightarrow> int \<Rightarrow> int \<Rightarrow> int" where
  "run_nexe cf avail d_n_exe =
     (let n_exe = d_n_exe;
          n_exe = (if avail < int (AVAIL cf) then avail sdiv int (n_th cf) else n_exe);
          n_exe = (if n_exe < 1 then 1 else n_exe);
          n_exe = (if n_exe > int (NEXE cf) then int (NEXE cf) else n_exe)
      in n_exe)"

text \<open>After the run the tables of the instances are summed in the one of the global context.\<close>

fun sum_loop :: "(log_t \<Rightarrow> log_t \<Rightarrow> bool) \<Rightarrow> 'p ctx_t list \<Rightarrow> 'p global_t \<Rightarrow> 'p global_t" where
  "sum_loop eq_log [] g = g"
| "sum_loop eq_log (c # cs) g =
     (let (h, r) = hash_adds eq_log (g_hash g) (ctx_hash c)
      in sum_loop eq_log cs (g\<lparr>g_hash := h, g_hash_ok := (r \<and> g_hash_ok g)\<rparr>))"

definition sum_tables :: "conf \<Rightarrow> (log_t \<Rightarrow> log_t \<Rightarrow> bool) \<Rightarrow> 'p global_t \<Rightarrow> 'p global_t" where
  "sum_tables cf eq_log g =
     (let g = g\<lparr>g_hash := hash_init (LOGSZ cf) (g_hash g)\<rparr>
      in sum_loop eq_log (take (nat (g_nexe g)) (g_ctx g)) g)"

text \<open>The numbers of positive and of negative outcomes.\<close>

fun count_loop :: "'p entry_t list \<Rightarrow> u32 \<Rightarrow> u32 \<Rightarrow> u32 \<times> u32" where
  "count_loop [] p_true p_false = (p_true, p_false)"
| "count_loop (e # es) p_true p_false =
     (if e_ok e then count_loop es (p_true + e_c e) p_false
      else count_loop es p_true (p_false + e_c e))"

definition count_outcomes :: "'p hash_t \<Rightarrow> u32 \<times> u32" where
  "count_outcomes t = count_loop (slots t) 0 0"

subsection \<open>Alignment\<close>

lemma nat_word_small: "n < 2 ^ 64 \<Longrightarrow> unat (of_nat n :: u64) = n"
  by (simp add: unat_of_nat take_bit_nat_eq_self)

text \<open>Rounding up without wrap-around.\<close>

lemma round_up:
  assumes "0 < sz" and "unat p + (sz - 1) < 2 ^ 64" and "sz < 2 ^ 64"
  shows "unat ((p + of_nat (sz - 1)) div of_nat sz * of_nat sz :: u64) = (unat p + (sz - 1)) div sz * sz"
proof -
  let ?x = "p + of_nat (sz - 1) :: u64"
  have s: "unat (of_nat (sz - 1) :: u64) = sz - 1" "unat (of_nat sz :: u64) = sz"
    using assms(3) by (simp_all add: unat_of_nat take_bit_nat_eq_self)
  have x: "unat ?x = unat p + (sz - 1)" by (metis unat_add s(1) assms(2))
  have d: "unat (?x div of_nat sz) = unat ?x div sz" by (metis unat_div s(2))
  have "unat ?x div sz * sz < 2 ^ 64" using x assms(2) div_times_less_eq_dividend [of "unat ?x" sz] by linarith
  then have "unat (?x div of_nat sz) * unat (of_nat sz :: u64) < 2 ^ LENGTH(64)" by (simp only: d s) simp
  then have "unat (?x div of_nat sz * of_nat sz) = unat ?x div sz * sz" by (metis unat_mult_lem d s(2))
  then show ?thesis by (simp only: x)
qed

lemma ceiling_bounds:
  fixes a sz :: nat
  assumes "0 < sz"
  defines "y \<equiv> (a + (sz - 1)) div sz * sz"
  shows "sz dvd y" and "a \<le> y" and "y < a + sz"
proof -
  have e: "y + (a + (sz - 1)) mod sz = a + (sz - 1)" unfolding y_def by simp
  moreover have "(a + (sz - 1)) mod sz < sz" using assms(1) by simp
  ultimately show "a \<le> y" "y < a + sz" using assms(1) by linarith+
  show "sz dvd y" by (simp add: y_def)
qed

text \<open>
  \<open>do_align\<close> gives the first multiple of the size from the pointer on; \<open>do_noalign\<close> gives the middle of a line, so
  that data straddle it, and both stay within one line from the pointer.
\<close>

theorem align_correct:
  assumes "0 < unat sz" and "0 < unat p" and "unat p + 2 * unat sz < 2 ^ 64"
  shows "unat sz dvd unat (do_align p sz) \<and> unat p \<le> unat (do_align p sz) \<and> unat (do_align p sz) < unat p + unat sz \<and>
    (even (unat sz) \<longrightarrow> unat (do_noalign p sz) mod unat sz = unat sz div 2 \<and> unat p \<le> unat (do_noalign p sz) \<and>
      unat (do_noalign p sz) < unat p + unat sz)"
proof -
  let ?s = "unat sz" and ?q = "do_align p sz"
  have one: "sz - 1 = of_nat (?s - 1)" using assms(1) by simp
  have q: "unat ?q = (unat p + (?s - 1)) div ?s * ?s"
    unfolding do_align_def Let_def one using round_up [of ?s p] assms(1,3) by simp
  note b = ceiling_bounds [OF assms(1), of "unat p", folded q]
  have "unat (do_noalign p sz) mod ?s = ?s div 2 \<and> unat p \<le> unat (do_noalign p sz) \<and> unat (do_noalign p sz) < unat p + ?s"
    if "even ?s"
  proof -
    obtain h where h: "?s = 2 * h" using \<open>even ?s\<close> by (rule evenE)
    have half: "unat (sz div 2) = h" using h by (simp add: unat_div)
    obtain l where l: "unat ?q = ?s * l" using b(1) by (rule dvdE)
    have "l \<noteq> 0" using l b(2) assms(2) by (metis mult_0_right not_less)
    then obtain m where m: "l = Suc m" by (metis not0_implies_Suc)
    have le: "unat (sz div 2) \<le> unat ?q" using l m h half by simp
    then have sub: "unat (?q - sz div 2) = unat ?q - h" by (simp add: unat_sub word_le_nat_alt half)
    have add: "unat (?q + sz div 2) = unat ?q + h"
      using unat_add [of ?q "sz div 2"] half b(3) assms(3) h by simp
    show ?thesis
    proof (cases "?q - sz div 2 < p")
      case True
      then have "unat ?q - h < unat p" by (simp add: word_less_nat_alt sub)
      then show ?thesis using True add b(2) h l m assms(1) by (simp add: do_noalign_def Let_def)
    next
      case False
      then have p: "unat p \<le> unat ?q - h" by (simp add: word_less_nat_alt sub)
      have "unat ?q - h = h + ?s * m" using l m h by simp
      then have "(unat ?q - h) mod ?s = h" using h assms(1) by simp
      then show ?thesis using False p b(3) h sub assms(1) by (simp add: do_noalign_def Let_def)
    qed
  qed
  then show ?thesis using b by blast
qed

theorem align_correct_witness:
  "64 dvd unat (do_align 1000 64) \<and> unat (do_noalign 1000 64) mod 64 = 32 \<and> 1000 \<le> unat (do_noalign 1000 64)"
  using align_correct [of 64 1000] by simp

subsection \<open>The instances do not overlap\<close>

lemma interval_init_whole: "length p = sz \<Longrightarrow> interval_init p sz = Some (map int [0..<sz])"
  using interval_init_from_total [of p sz 0] by (simp add: interval_init_def)

text \<open>What an initialised context is.\<close>

definition fresh_ctx :: "conf \<Rightarrow> nat \<Rightarrow> u64 \<Rightarrow> 'p ctx_t \<Rightarrow> 'p ctx_t" where
  "fresh_ctx cf k m c =
     \<lparr>ctx_id = k, ctx_mem = m, ctx_out = log_init (LOGSZ cf), ctx_hash = hash_init (LOGSZ cf) (ctx_hash c),
      ctx_b = barrier_init (n_th cf), ctx_ind = map int [0..<n_th cf]\<rparr>"

lemma instance_init_fresh:
  "length (ctx_ind c) = n_th cf \<Longrightarrow> instance_init cf c k m = Inr (fresh_ctx cf k m c)"
  by (simp add: instance_init_def fresh_ctx_def interval_init_whole)

lemma init_ctxs_fresh:
  assumes "\<forall>c \<in> set cs. length (ctx_ind c) = n_th cf"
  shows "init_ctxs cf cs k m =
    Inr (map (\<lambda>i. fresh_ctx cf (k + i) (m + of_nat (i * (8 * (NVARS cf * LINESZ cf)))) (cs ! i)) [0..<length cs])"
  using assms
proof (induction cs arbitrary: k m)
  case Nil
  then show ?case by simp
next
  case (Cons c cs)
  let ?w = "8 * (NVARS cf * LINESZ cf)"
  have "map (\<lambda>i. fresh_ctx cf (k + i) (m + of_nat (i * ?w)) ((c # cs) ! i)) [0..<length (c # cs)] =
      fresh_ctx cf k m c # map (\<lambda>i. fresh_ctx cf (k + 1 + i) (m + of_nat ?w + of_nat (i * ?w)) (cs ! i)) [0..<length cs]"
    by (simp add: upt_rec [of 0 "Suc _"] map_Suc_upt [symmetric] algebra_simps del: upt_Suc)
  then show ?case using Cons by (simp add: instance_init_fresh)
qed

text \<open>The space that the contexts need, in bytes.\<close>

definition mem_ok :: "conf \<Rightarrow> 'p global_t \<Rightarrow> bool" where
  "mem_ok cf g \<longleftrightarrow> 0 < LINE cf \<and> LINE cf < 2 ^ 31 \<and> 8 dvd LINE cf \<and>
     unat (g_mem g) + 8 * MEMSZ cf \<le> 2 ^ 64 \<and> length (g_ctx g) = NEXE cf \<and>
     (\<forall>c \<in> set (g_ctx g). length (ctx_ind c) = n_th cf)"

text \<open>
  C15: \<open>init_global\<close> gives every instance its own lines of memory: the blocks of \<open>NVARS\<close> lines begin at multiples of the
  line, lie inside the allocated memory and do not overlap, whatever the address of the memory; tables, barriers and
  indirections are initial.
\<close>

theorem init_global_layout:
  assumes "mem_ok cf g"
  shows "\<exists>g'. init_global cf inst role g = Inr g' \<and> length (g_ctx g') = NEXE cf \<and>
    (\<forall>k < NEXE cf. \<exists>m. g_ctx g' ! k = fresh_ctx cf k m (g_ctx g ! k) \<and> LINE cf dvd unat m \<and>
       unat (g_mem g) \<le> unat m \<and> unat m + NVARS cf * LINE cf \<le> unat (g_mem g) + 8 * MEMSZ cf \<and>
       (\<forall>l < k. unat (ctx_mem (g_ctx g' ! l)) + NVARS cf * LINE cf \<le> unat m))"
proof -
  define x where "x = (g_mem g + of_nat (LINE cf - 1)) div of_nat (LINE cf) * of_nat (LINE cf)"
  define w where "w = NVARS cf * LINE cf"
  have L: "0 < LINE cf" "LINE cf < 2 ^ 31" "8 * LINESZ cf = LINE cf"
    using assms by (auto simp: mem_ok_def LINESZ_def)
  then have w: "8 * (NVARS cf * LINESZ cf) = w" by (simp add: w_def)
  have sz: "8 * MEMSZ cf = NEXE cf * w + LINE cf"
    using L(3) by (simp add: MEMSZ_def w_def algebra_simps)
  have fits: "unat (g_mem g) + (NEXE cf * w + LINE cf) \<le> 2 ^ 64" using assms sz by (simp add: mem_ok_def)
  have x: "unat x = (unat (g_mem g) + (LINE cf - 1)) div LINE cf * LINE cf"
    unfolding x_def using L(1,2) fits by (intro round_up) simp_all
  note b = ceiling_bounds [OF L(1), of "unat (g_mem g)", folded x]
  define m where "m i = x + of_nat (i * w)" for i
  have m: "unat (m i) = unat x + i * w" if "i < NEXE cf" for i
  proof -
    have "i * w \<le> NEXE cf * w" using that by simp
    then have "unat x + i * w < 2 ^ 64" using b(3) fits by linarith
    moreover from this have "unat (of_nat (i * w) :: u64) = i * w" by (intro nat_word_small) linarith
    ultimately show ?thesis unfolding m_def by (metis unat_add)
  qed
  define g' where "g' = g\<lparr>g_inst := inst, g_role := role, g_gb := barrier_init (AVAIL cf),
    g_ctx := map (\<lambda>i. fresh_ctx cf i (m i) (g_ctx g ! i)) [0..<NEXE cf], g_hash_ok := True\<rparr>"
  have "init_ctxs cf (g_ctx g) 0 x = Inr (map (\<lambda>i. fresh_ctx cf i (m i) (g_ctx g ! i)) [0..<NEXE cf])"
    using assms init_ctxs_fresh [of "g_ctx g" cf 0 x] by (simp add: mem_ok_def w m_def)
  then have "init_global cf inst role g = Inr g'"
    unfolding init_global_def Let_def g'_def by (simp add: x_def)
  moreover have "\<exists>m'. g_ctx g' ! k = fresh_ctx cf k m' (g_ctx g ! k) \<and> LINE cf dvd unat m' \<and>
       unat (g_mem g) \<le> unat m' \<and> unat m' + w \<le> unat (g_mem g) + 8 * MEMSZ cf \<and>
       (\<forall>l < k. unat (ctx_mem (g_ctx g' ! l)) + w \<le> unat m')" if k: "k < NEXE cf" for k
  proof (intro exI conjI allI impI)
    show "g_ctx g' ! k = fresh_ctx cf k (m k) (g_ctx g ! k)" using k by (simp add: g'_def)
    show "LINE cf dvd unat (m k)" using b(1) by (simp add: m [OF k] w_def)
    show "unat (g_mem g) \<le> unat (m k)" using b(2) by (simp add: m [OF k])
    have "Suc k * w \<le> NEXE cf * w" using k by (intro mult_le_mono1) simp
    then show "unat (m k) + w \<le> unat (g_mem g) + 8 * MEMSZ cf" using b(3) by (simp add: m [OF k] sz)
    fix l assume l: "l < k"
    then have "Suc l * w \<le> k * w" by (intro mult_le_mono1) simp
    then show "unat (ctx_mem (g_ctx g' ! l)) + w \<le> unat (m k)" using l k by (simp add: g'_def fresh_ctx_def m)
  qed
  ultimately show ?thesis unfolding w_def g'_def by (intro exI [of _ g']) (simp add: g'_def w_def)
qed

definition ex_conf :: conf where
  "ex_conf = \<lparr>n_th = 2, NEXE = 2, AVAIL = 4, NVARS = 3, LINE = 64, SCANSZ = 2, SCANLINE = 4, LOGSZ = 1\<rparr>"

definition ex_table :: "unit hash_t" where
  "ex_table = \<lparr>nhash = 0, slots = replicate 5 \<lparr>e_key = [0], e_p = (), e_c = 0, e_ok = False\<rparr>\<rparr>"

definition ex_global :: "unit global_t" where
  "ex_global = (let c = \<lparr>ctx_id = 0, ctx_mem = 0, ctx_out = [], ctx_hash = ex_table, ctx_b = barrier_init 0, ctx_ind = [0, 0]\<rparr>
     in \<lparr>g_inst = [], g_role = [], g_mem = 1000, g_nexe = 2, g_fix = False, g_ind = [0, 1, 2, 3], g_gb = barrier_init 0,
         g_ctx = [c, c], g_hash = ex_table, g_hash_ok = False\<rparr>)"

theorem init_global_layout_witness:
  "\<exists>g' m. init_global ex_conf [] [] ex_global = Inr g' \<and> g_ctx g' ! 1 = fresh_ctx ex_conf 1 m (g_ctx ex_global ! 1) \<and>
    64 dvd unat m \<and> unat m + 192 \<le> 1448 \<and> unat (ctx_mem (g_ctx g' ! 0)) + 192 \<le> unat m"
proof -
  have "mem_ok ex_conf ex_global" by (simp add: mem_ok_def ex_conf_def ex_global_def MEMSZ_def LINESZ_def Let_def)
  moreover have c: "NEXE ex_conf = 2" "LINE ex_conf = 64" "NVARS ex_conf = 3" "unat (g_mem ex_global) = 1000" "MEMSZ ex_conf = 56"
    by (simp_all add: ex_conf_def ex_global_def MEMSZ_def LINESZ_def Let_def)
  ultimately obtain g' where g': "init_global ex_conf [] [] ex_global = Inr g'"
    and all: "\<forall>k < 2. \<exists>m. g_ctx g' ! k = fresh_ctx ex_conf k m (g_ctx ex_global ! k) \<and> 64 dvd unat m \<and>
       1000 \<le> unat m \<and> unat m + 192 \<le> 1448 \<and> (\<forall>l < k. unat (ctx_mem (g_ctx g' ! l)) + 192 \<le> unat m)"
    using init_global_layout [of ex_conf ex_global "[]" "[]"] unfolding c by auto
  from all [rule_format, of 1] g' show ?thesis by (metis less_numeral_extra(1) one_less_numeral_iff semiring_norm(76))
qed

subsection \<open>The number of instances\<close>

text \<open>
  The number of instances that run is between 1 and \<open>NEXE\<close> for any options, negative ones included, and, when the
  number of available processors is reduced to at least one instance, their threads do not exceed it.
\<close>

theorem run_nexe_bounds:
  assumes "0 < n_th cf" and "0 < NEXE cf"
  shows "1 \<le> run_nexe cf avail d \<and> run_nexe cf avail d \<le> int (NEXE cf) \<and>
    (int (n_th cf) \<le> avail \<and> avail < int (AVAIL cf) \<longrightarrow> run_nexe cf avail d * int (n_th cf) \<le> avail)"
proof -
  let ?r = "run_nexe cf avail d" and ?q = "avail sdiv int (n_th cf)"
  have "?r * int (n_th cf) \<le> avail" if "int (n_th cf) \<le> avail" "avail < int (AVAIL cf)"
  proof -
    have "?q * int (n_th cf) \<le> avail"
      using that(1) assms(1) by (simp add: signed_divide_int_def sgn_if minus_mod_eq_div_mult [symmetric])
    moreover have "1 \<le> ?q"
      using that(1) assms(1) by (simp add: signed_divide_int_def sgn_if pos_imp_zdiv_pos_iff int_one_le_iff_zero_less)
    then have "?r \<le> ?q" using that(2) by (simp add: run_nexe_def Let_def)
    then have "?r * int (n_th cf) \<le> ?q * int (n_th cf)" by (intro mult_right_mono) simp_all
    ultimately show ?thesis by simp
  qed
  moreover have "1 \<le> ?r" "?r \<le> int (NEXE cf)" using assms(2) by (simp_all add: run_nexe_def Let_def)
  ultimately show ?thesis by blast
qed

theorem run_nexe_bounds_witness:
  "1 \<le> run_nexe ex_conf 3 7 \<and> run_nexe ex_conf 3 7 * 2 \<le> 3"
  using run_nexe_bounds [of ex_conf 3 7] by (simp add: ex_conf_def)

subsection \<open>The outcomes of the whole run\<close>

text \<open>
  Whether an outcome is interesting depends on the outcome only: the flags of the used entries agree with a predicate on
  logs.
\<close>

definition flags_ok :: "(log_t \<Rightarrow> bool) \<Rightarrow> 'p hash_t \<Rightarrow> bool" where
  "flags_ok P t \<longleftrightarrow> (\<forall>e \<in> set (slots t). e_c e \<noteq> 0 \<longrightarrow> e_ok e = P (e_key e))"

definition count_where :: "(log_t \<Rightarrow> bool) \<Rightarrow> 'p hash_t \<Rightarrow> nat" where
  "count_where P t = (\<Sum>e \<leftarrow> slots t. if P (e_key e) then unat (e_c e) else 0)"

lemma flags_init: "flags_ok P (hash_init sz t)"
  by (auto simp: flags_ok_def hash_init_def)

lemma where_init: "count_where P (hash_init sz t) = 0"
  by (simp add: count_where_def hash_init_def comp_def)

lemma where_le_total: "count_where P t \<le> hash_total t"
  unfolding count_where_def hash_total_def by (rule sum_list_mono) simp

lemma where_compl: "count_where P t + count_where (\<lambda>k. \<not> P k) t = hash_total t"
proof -
  have "(\<Sum>e \<leftarrow> es. if P (e_key e) then unat (e_c e) else 0) + (\<Sum>e \<leftarrow> es. if \<not> P (e_key e) then unat (e_c e) else 0) =
      (\<Sum>e \<leftarrow> es. unat (e_c e))" for es :: "'a entry_t list"
    by (induction es) auto
  then show ?thesis by (simp add: count_where_def hash_total_def)
qed

lemma flags_store:
  assumes "flags_ok P t" and "i < length (slots t)" and "P key = ok"
  shows "flags_ok P (store t i key v c ok)"
proof -
  have "e_c (slots t ! i) \<noteq> 0 \<Longrightarrow> e_ok (slots t ! i) = P (e_key (slots t ! i))"
    using assms(1,2) by (simp add: flags_ok_def)
  then show ?thesis using assms set_update_subset_insert [of "slots t" i]
    by (fastforce simp: flags_ok_def store_def Let_def)
qed

lemma where_store:
  assumes "\<forall>k \<in> L. \<forall>k' \<in> L. eq_log k k' \<longrightarrow> P k = P k'" and "table_inv L t" and "key \<in> L" and "i < length (slots t)" and "unat (e_c (slots t ! i)) + unat c < 2 ^ 32"
    and "e_c (slots t ! i) = 0 \<or> eq_log key (e_key (slots t ! i))"
  shows "count_where P (store t i key v c ok) = count_where P t + (if P key then unat c else 0)"
proof (cases "e_c (slots t ! i) = 0")
  case True
  then show ?thesis using assms(4)
    unfolding count_where_def store_def Let_def by (auto intro!: sum_list_map_update sum_list_map_same)
next
  case False
  then have "P (e_key (slots t ! i)) = P key"
    using assms(1,3,4,6) inv_key [OF assms(2)] by (metis used_def)
  moreover have "unat (e_c (slots t ! i) + c) = unat (e_c (slots t ! i)) + unat c"
    using assms(5) by (rule unat_add32)
  ultimately show ?thesis using assms(4) False
    unfolding count_where_def store_def Let_def by (auto intro!: sum_list_map_update sum_list_map_same)
qed

lemma add_where:
  assumes "\<forall>k \<in> L. \<forall>k' \<in> L. eq_log k k' \<longrightarrow> P k = P k'" and "table_inv L t" and "key \<in> L" and "hash_total t + unat c < 2 ^ 32"
    and "flags_ok P t" and "P key = ok" and "hash_add eq_log t key v c ok = (t', True)"
  shows "flags_ok P t' \<and> count_where P t' = count_where P t + (if P key then unat c else 0)"
proof (rule add_cases [OF inv_ne [OF assms(2)], where key = key and eq_log = eq_log and v = v and c = c and ok = ok])
  fix d
  let ?i = "probe t (home t key) d"
  assume d: "d < length (slots t)" and stop: "\<not> passes eq_log t key ?i"
    and "hash_add eq_log t key v c ok = (store t ?i key v c ok, True)"
  then have t': "t' = store t ?i key v c ok" using assms(7) by simp
  have i: "?i < length (slots t)" using assms(2) by (intro probe_lt inv_ne)
  have "unat (e_c (slots t ! ?i)) + unat c < 2 ^ 32" using count_le_total [OF i] assms(4) by simp
  moreover have "e_c (slots t ! ?i) = 0 \<or> eq_log key (e_key (slots t ! ?i))"
    using stop by (simp add: passes_def)
  ultimately show ?thesis using flags_store [OF assms(5) i assms(6)] where_store [OF assms(1,2,3) i] unfolding t' by blast
qed (use assms(7) in simp)

lemma adds_loop_where:
  assumes ok: "log_eq_on L eq_log" and P: "\<forall>k \<in> L. \<forall>k' \<in> L. eq_log k k' \<longrightarrow> P k = P k'"
    and "table_inv L t" and "flags_ok P t" and "\<forall>e \<in> set es. e_c e \<noteq> 0 \<longrightarrow> e_ok e = P (e_key e) \<and> e_key e \<in> L"
    and "hash_total t + (\<Sum>e \<leftarrow> es. unat (e_c e)) < 2 ^ 32" and "hash_adds_loop eq_log t es r = (t', True)"
  shows "flags_ok P t' \<and> count_where P t' = count_where P t + (\<Sum>e \<leftarrow> es. if P (e_key e) then unat (e_c e) else 0)"
  using assms(3-)
proof (induction es arbitrary: t r)
  case Nil
  then show ?case by simp
next
  case (Cons e es)
  show ?case
  proof (cases "e_c e > 0")
    case False
    then have "e_c e = 0" by (simp add: word_gt_0)
    then show ?thesis using Cons.IH [of t r] Cons.prems by simp
  next
    case True
    obtain t1 r1 where add: "hash_add eq_log t (e_key e) (e_p e) (e_c e) (e_ok e) = (t1, r1)" by force
    have rest: "hash_adds_loop eq_log t1 es (r \<and> r1) = (t', True)" using Cons.prems(5) True add by simp
    then have "r1" using hash_adds_loop_eq [of eq_log t1 es "r \<and> r1"] by (simp split: prod.splits)
    then have add: "hash_add eq_log t (e_key e) (e_p e) (e_c e) (e_ok e) = (t1, True)" using add by simp
    have c: "e_c e \<noteq> 0" "hash_total t + unat (e_c e) < 2 ^ 32" using True Cons.prems(4) by (auto simp: word_gt_0)
    have k: "e_key e \<in> L" using Cons.prems(3) c(1) by simp
    have "table_inv L t1 \<and> hash_total t1 = hash_total t + unat (e_c e)"
      using add_correct [OF ok Cons.prems(1) k c add] by blast
    moreover have "flags_ok P t1 \<and> count_where P t1 = count_where P t + (if P (e_key e) then unat (e_c e) else 0)"
      using add_where [OF P Cons.prems(1) k c(2) Cons.prems(2) _ add] Cons.prems(3) c(1) by simp
    ultimately show ?thesis using Cons.IH [of t1 "r \<and> r1"] Cons.prems(3,4) rest by simp
  qed
qed

lemma adds_where:
  assumes "log_eq_on L eq_log" and "\<forall>k \<in> L. \<forall>k' \<in> L. eq_log k k' \<longrightarrow> P k = P k'"
    and "table_inv L t" and "flags_ok P t" and "flags_ok P f" and "logs_in L f"
    and "hash_total t + hash_total f < 2 ^ 32" and "hash_adds eq_log t f = (t', True)"
  shows "flags_ok P t' \<and> count_where P t' = count_where P t + count_where P f"
  using adds_loop_where [OF assms(1-4), of "slots f" True t'] assms(5-)
  by (simp add: hash_adds_def flags_ok_def logs_in_def hash_total_def count_where_def)

text \<open>One flag that is lost stays lost.\<close>

lemma sum_loop_flag: "g_hash_ok (sum_loop eq_log cs g) \<Longrightarrow> g_hash_ok g"
proof (induction cs arbitrary: g)
  case (Cons c cs)
  obtain h r where "hash_adds eq_log (g_hash g) (ctx_hash c) = (h, r)" by force
  then show ?case using Cons.IH [of "g\<lparr>g_hash := h, g_hash_ok := (r \<and> g_hash_ok g)\<rparr>"] Cons.prems by simp
qed simp

lemma sum_loop_sums:
  assumes ok: "log_eq_on L eq_log" and P: "\<forall>k \<in> L. \<forall>k' \<in> L. eq_log k k' \<longrightarrow> P k = P k'"
    and "table_inv L (g_hash g)" and "flags_ok P (g_hash g)"
    and "\<forall>c \<in> set cs. flags_ok P (ctx_hash c) \<and> logs_in L (ctx_hash c)"
    and "hash_total (g_hash g) + (\<Sum>c \<leftarrow> cs. hash_total (ctx_hash c)) < 2 ^ 32"
    and "g_hash_ok (sum_loop eq_log cs g)"
  shows "let h = g_hash (sum_loop eq_log cs g) in table_inv L h \<and> flags_ok P h \<and>
    hash_total h = hash_total (g_hash g) + (\<Sum>c \<leftarrow> cs. hash_total (ctx_hash c)) \<and>
    count_where P h = count_where P (g_hash g) + (\<Sum>c \<leftarrow> cs. count_where P (ctx_hash c)) \<and>
    (\<forall>k \<in> L. count_of eq_log h k = count_of eq_log (g_hash g) k + (\<Sum>c \<leftarrow> cs. count_of eq_log (ctx_hash c) k))"
  using assms(3-)
proof (induction cs arbitrary: g)
  case Nil
  then show ?case by simp
next
  case (Cons c cs)
  obtain h r where h: "hash_adds eq_log (g_hash g) (ctx_hash c) = (h, r)" by force
  define g1 where "g1 = g\<lparr>g_hash := h, g_hash_ok := (r \<and> g_hash_ok g)\<rparr>"
  have s: "sum_loop eq_log (c # cs) g = sum_loop eq_log cs g1" by (simp add: h g1_def)
  then have "g_hash_ok g1" using Cons.prems(5) sum_loop_flag by metis
  then have h: "hash_adds eq_log (g_hash g) (ctx_hash c) = (h, True)" using h by (simp add: g1_def)
  have room: "hash_total (g_hash g) + hash_total (ctx_hash c) < 2 ^ 32" using Cons.prems(4) by simp
  have c: "flags_ok P (ctx_hash c)" "logs_in L (ctx_hash c)" using Cons.prems(3) by simp_all
  note add = adds_correct [OF ok Cons.prems(1) c(2) room h] and wh = adds_where [OF ok P Cons.prems(1,2) c room h]
  have "g_hash g1 = h" by (simp add: g1_def)
  then show ?case using Cons.IH [of g1] Cons.prems(3-5) add wh unfolding s by (simp add: Let_def add.assoc)
qed

text \<open>The two sums do not depend on the flags of free entries, which count nothing.\<close>

lemma count_loop_where:
  assumes "\<forall>e \<in> set es. e_c e \<noteq> 0 \<longrightarrow> e_ok e = P (e_key e)"
  shows "count_loop es a b =
    (a + of_nat (\<Sum>e \<leftarrow> es. if P (e_key e) then unat (e_c e) else 0),
     b + of_nat (\<Sum>e \<leftarrow> es. if \<not> P (e_key e) then unat (e_c e) else 0))"
  using assms
proof (induction es arbitrary: a b)
  case (Cons e es)
  then show ?case by (cases "e_c e = 0") (auto simp: add.assoc)
qed simp

lemma count_outcomes_where:
  "flags_ok P t \<Longrightarrow> count_outcomes t = (of_nat (count_where P t), of_nat (count_where (\<lambda>k. \<not> P k) t))"
  using count_loop_where [of "slots t" P 0 0] by (simp add: count_outcomes_def flags_ok_def count_where_def)

text \<open>
  If \<open>hash_ok\<close> is still set when the tables of the instances have been summed, the global table has for
  every log the sum of its counts in the instances that run, and the numbers of positive and negative outcomes
  are those of all of them together, as long as the sum of all counts is below \<open>2 ^ 32\<close>.
\<close>

theorem run_counts_outcomes:
  assumes "log_eq_on L eq_log" and "\<forall>k \<in> L. \<forall>k' \<in> L. eq_log k k' \<longrightarrow> P k = P k'"
    and "slots (g_hash g) \<noteq> []" and "cs = take (nat (g_nexe g)) (g_ctx g)"
    and "\<forall>c \<in> set cs. flags_ok P (ctx_hash c) \<and> logs_in L (ctx_hash c)" and "(\<Sum>c \<leftarrow> cs. hash_total (ctx_hash c)) < 2 ^ 32"
    and "g' = sum_tables cf eq_log g" and "g_hash_ok g'"
  shows "(\<forall>k \<in> L. count_of eq_log (g_hash g') k = (\<Sum>c \<leftarrow> cs. count_of eq_log (ctx_hash c) k)) \<and>
    map_prod unat unat (count_outcomes (g_hash g')) =
      (\<Sum>c \<leftarrow> cs. count_where P (ctx_hash c), \<Sum>c \<leftarrow> cs. count_where (\<lambda>k. \<not> P k) (ctx_hash c))"
proof -
  define g0 where "g0 = g\<lparr>g_hash := hash_init (LOGSZ cf) (g_hash g)\<rparr>"
  have g': "g' = sum_loop eq_log cs g0" using assms(4,7) by (simp add: sum_tables_def g0_def Let_def)
  have g0: "g_hash g0 = hash_init (LOGSZ cf) (g_hash g)" by (simp add: g0_def)
  let ?h = "g_hash g'"
  have h: "flags_ok P ?h" "hash_total ?h = (\<Sum>c \<leftarrow> cs. hash_total (ctx_hash c))"
      "count_where P ?h = (\<Sum>c \<leftarrow> cs. count_where P (ctx_hash c))"
      "\<forall>k \<in> L. count_of eq_log ?h k = (\<Sum>c \<leftarrow> cs. count_of eq_log (ctx_hash c) k)"
    using sum_loop_sums [OF assms(1,2), of g0 cs] assms(3,5,6,8)
    by (simp_all add: g' g0 Let_def table_inv_init flags_init hash_total_init where_init count_init)
  have "(\<Sum>c \<leftarrow> cs. count_where P (ctx_hash c)) + (\<Sum>c \<leftarrow> cs. count_where (\<lambda>k. \<not> P k) (ctx_hash c)) = hash_total ?h"
    unfolding h(2) sum_list_addf [symmetric] where_compl ..
  then have neg: "count_where (\<lambda>k. \<not> P k) ?h = (\<Sum>c \<leftarrow> cs. count_where (\<lambda>k. \<not> P k) (ctx_hash c))"
    using where_compl [of P ?h] h(3) by linarith
  have "count_where P ?h < 2 ^ 32" "count_where (\<lambda>k. \<not> P k) ?h < 2 ^ 32"
    using where_le_total [of P ?h] where_le_total [of "\<lambda>k. \<not> P k" ?h] h(2) assms(6) by linarith+
  then have "map_prod unat unat (count_outcomes ?h) = (count_where P ?h, count_where (\<lambda>k. \<not> P k) ?h)"
    by (simp add: count_outcomes_where [OF h(1)] unat_of_nat take_bit_nat_eq_self)
  then show ?thesis using h(3,4) neg by simp
qed

definition ex_counts :: "unit global_t" where
  "ex_counts =
     (let free = slot 0 0; neg = (slot 8 4)\<lparr>e_ok := False\<rparr>; c = g_ctx ex_global ! 0;
          c1 = c\<lparr>ctx_hash := \<lparr>nhash = 2, slots = [free, slot 7 10, neg]\<rparr>\<rparr>;
          c2 = c\<lparr>ctx_hash := \<lparr>nhash = 1, slots = [free, slot 7 5, free]\<rparr>\<rparr>
      in ex_global\<lparr>g_ctx := [c1, c2], g_hash := ex_free, g_hash_ok := True\<rparr>)"

lemma ex_counts_sum:
  "g_hash_ok (sum_tables ex_conf (=) ex_counts)"
  by (simp add: sum_tables_def ex_counts_def ex_global_def ex_conf_def hash_init_def log_init_def hash_adds_def ex_add)

theorem run_counts_outcomes_witness:
  "count_of (=) (g_hash (sum_tables ex_conf (=) ex_counts)) [7] = 15 \<and>
   map_prod unat unat (count_outcomes (g_hash (sum_tables ex_conf (=) ex_counts))) = (15, 4)"
proof -
  let ?cs = "take (nat (g_nexe ex_counts)) (g_ctx ex_counts)" and ?P = "\<lambda>k. k = [7 :: u32]"
  note defs = ex_counts_def ex_global_def ex_defs Let_def
  have "slots (g_hash ex_counts) \<noteq> []" by (simp add: defs)
  moreover have "\<forall>c \<in> set ?cs. flags_ok ?P (ctx_hash c) \<and> logs_in UNIV (ctx_hash c)"
    by (simp add: defs flags_ok_def logs_in_def)
  moreover have "(\<Sum>c \<leftarrow> ?cs. hash_total (ctx_hash c)) < 2 ^ 32" by (simp add: defs hash_total_def)
  moreover have "(\<Sum>c \<leftarrow> ?cs. count_of (=) (ctx_hash c) [7]) = 15" "(\<Sum>c \<leftarrow> ?cs. count_where ?P (ctx_hash c)) = 15"
      "(\<Sum>c \<leftarrow> ?cs. count_where (\<lambda>k. \<not> ?P k) (ctx_hash c)) = 4"
    by (simp_all add: defs count_of_def count_where_def)
  ultimately show ?thesis
    using run_counts_outcomes [OF log_eq_on_eq _ _ refl _ _ refl ex_counts_sum, of UNIV ?P] by simp
qed

end
