(* ===== verification/Roles.thy ===== *)
theory Roles
  imports Instance
begin

section \<open>Giving out the roles (\<^verbatim>\<open>_instance.c\<close>, \<open>set_role\<close>)\<close>

text \<open>
  Before each run all the threads call \<open>set_role\<close>: a row of the topology tables gives each an instance and a role, the
  thread with role 0 of an instance shuffles the indirection of the instance, and after a barrier each thread of the
  instance takes its role from it.

  The threads run interleaved, a thread between two barriers in the pieces that touch shared data.  A call of
  \<open>barrier_wait\<close> is two steps, the call and the return; it returns when as many threads have made the call as the barrier was
  initialised with, which is what theory \<open>Barriers\<close> proves of it.  What the function writes for the fault
  handler under the hypervisor is in theory \<open>KvmRoles\<close>.
\<close>

record thread_ctx_t =
  t_id :: nat
  t_seed :: st_t
  t_role :: int
  t_inst :: int
  t_ctx :: "nat option"   \<comment> \<open>index in \<open>g->ctx\<close>, or \<open>NULL\<close>\<close>

datatype phase = Enter | Wait_gb | Choose | Shuffle | Arrive | Wait_b | Pick | Leave | Wait_end | Returned

fun rank :: "phase \<Rightarrow> nat" where
  "rank Enter = 0" | "rank Wait_gb = 1" | "rank Choose = 2" | "rank Shuffle = 3" | "rank Arrive = 4"
| "rank Wait_b = 5" | "rank Pick = 6" | "rank Leave = 7" | "rank Wait_end = 8" | "rank Returned = 9"

record rstate =
  threads :: "(phase \<times> thread_ctx_t) list"
  inds :: "int list list"   \<comment> \<open>the fields \<open>ind\<close> of the contexts\<close>

definition reshuffles :: "conf \<Rightarrow> 'p global_t \<Rightarrow> bool" where
  "reshuffles cf g \<longleftrightarrow> SCANSZ cf > 1 \<and> \<not> g_fix g"

definition choose_ctx :: "conf \<Rightarrow> 'p global_t \<Rightarrow> int \<Rightarrow> thread_ctx_t \<Rightarrow> thread_ctx_t res" where
  "choose_ctx cf g part c =
     bind_res (aget (g_ind g) (int (t_id c))) (\<lambda>j.
       let idx = int (SCANLINE cf) * part + j
       in bind_res (aget (g_inst g) idx) (\<lambda>inst.
          if 0 \<le> inst \<and> inst < g_nexe g then
            bind_res (aget (g_role g) idx) (\<lambda>role.
              Inr (c\<lparr>t_inst := inst, t_ctx := Some (nat inst), t_role := role\<rparr>))
          else Inr (c\<lparr>t_ctx := None, t_role := -1\<rparr>)))"

definition shuffle_role :: "conf \<Rightarrow> thread_ctx_t \<Rightarrow> int list list \<Rightarrow> (thread_ctx_t \<times> int list list) res" where
  "shuffle_role cf c is =
     (case t_ctx c of None \<Rightarrow> Inl Undefined
      | Some k \<Rightarrow>
         (if t_role c = 0 then
            bind_res (aget is (int k)) (\<lambda>ind.
            bind_res (of_option Undefined (interval_shuffle (t_seed c) ind (n_th cf))) (\<lambda>(ind, seed).
              Inr (c\<lparr>t_seed := seed\<rparr>, is[k := ind])))
          else Inr (c, is)))"

definition pick_role :: "thread_ctx_t \<Rightarrow> int list list \<Rightarrow> thread_ctx_t res" where
  "pick_role c is =
     (case t_ctx c of None \<Rightarrow> Inl Undefined
      | Some k \<Rightarrow>
         bind_res (aget is (int k)) (\<lambda>ind.
         bind_res (aget ind (t_role c)) (\<lambda>r. Inr (c\<lparr>t_role := r\<rparr>))))"

text \<open>The number of threads that have called the barrier \<open>gb\<close> for the first and for the second time, and the barrier of
  an instance.\<close>

definition calls :: "nat \<Rightarrow> rstate \<Rightarrow> nat" where
  "calls r s = length (filter (\<lambda>(p, c). r \<le> rank p) (threads s))"

definition calls_b :: "nat \<Rightarrow> rstate \<Rightarrow> nat" where
  "calls_b k s = length (filter (\<lambda>(p, c). rank Wait_b \<le> rank p \<and> t_ctx c = Some k) (threads s))"

text \<open>The next piece of the code for a thread; \<open>None\<close> if it waits or has returned.\<close>

definition role_next :: "conf \<Rightarrow> 'p global_t \<Rightarrow> int \<Rightarrow> rstate \<Rightarrow> nat \<Rightarrow> (phase \<times> thread_ctx_t \<times> int list list) res option"
where
  "role_next cf g part s t =
     (let (p, c) = threads s ! t; is = inds s in
      case p of
        Enter \<Rightarrow> Some (Inr (Wait_gb, c, is))
      | Wait_gb \<Rightarrow> if calls (rank Wait_gb) s = AVAIL cf then Some (Inr (Choose, c, is)) else None
      | Choose \<Rightarrow> Some (bind_res (choose_ctx cf g part c) (\<lambda>c.
          Inr (if t_ctx c \<noteq> None \<and> reshuffles cf g then Shuffle else Leave, c, is)))
      | Shuffle \<Rightarrow> Some (bind_res (shuffle_role cf c is) (\<lambda>(c, is). Inr (Arrive, c, is)))
      | Arrive \<Rightarrow> Some (Inr (Wait_b, c, is))
      | Wait_b \<Rightarrow> if calls_b (the (t_ctx c)) s = n_th cf then Some (Inr (Pick, c, is)) else None
      | Pick \<Rightarrow> Some (bind_res (pick_role c is) (\<lambda>c. Inr (Leave, c, is)))
      | Leave \<Rightarrow> Some (Inr (Wait_end, c, is))
      | Wait_end \<Rightarrow> if calls (rank Wait_end) s = AVAIL cf then Some (Inr (Returned, c, is)) else None
      | Returned \<Rightarrow> None)"

inductive role_step :: "conf \<Rightarrow> 'p global_t \<Rightarrow> int \<Rightarrow> rstate \<Rightarrow> rstate \<Rightarrow> bool" for cf g part where
  step: "t < length (threads s) \<Longrightarrow> role_next cf g part s t = Some (Inr (p, c, is)) \<Longrightarrow>
    role_step cf g part s (s\<lparr>threads := (threads s)[t := (p, c)], inds := is\<rparr>)"

inductive_cases role_step_cases: "role_step cf g part s s'"

lemmas role_next_simps = role_next_def Let_def

subsection \<open>What the tables promise\<close>

text \<open>
  The generated tables: the cells of the row for \<open>i < AVAIL\<close> exist, and for each instance that runs the roles \<open>0\<close> to
  \<open>N-1\<close> occur once each among the cells of the instance.
\<close>

definition cell :: "conf \<Rightarrow> 'p global_t \<Rightarrow> int \<Rightarrow> int \<Rightarrow> int \<times> int" where
  "cell cf g part i = (let idx = nat (int (SCANLINE cf) * part + i) in (g_inst g ! idx, g_role g ! idx))"

definition roles :: "nat \<Rightarrow> int multiset" where
  "roles n = mset (map int [0..<n])"

definition row_ok :: "conf \<Rightarrow> 'p global_t \<Rightarrow> int \<Rightarrow> bool" where
  "row_ok cf g part \<longleftrightarrow> 0 \<le> part \<and>
     int (SCANLINE cf) * part + int (AVAIL cf) \<le> int (length (g_inst g)) \<and>
     int (SCANLINE cf) * part + int (AVAIL cf) \<le> int (length (g_role g)) \<and>
     (\<forall>k < nat (g_nexe g).
        mset (map snd (filter (\<lambda>x. fst x = int k) (map (\<lambda>i. cell cf g part (int i)) [0..<AVAIL cf]))) = roles (n_th cf))"

definition setup_ok :: "conf \<Rightarrow> 'p global_t \<Rightarrow> int \<Rightarrow> bool" where
  "setup_ok cf g part \<longleftrightarrow> row_ok cf g part \<and> 0 < n_th cf \<and> n_th cf < 2 ^ 31 \<and>
     mset (g_ind g) = roles (AVAIL cf) \<and> 0 \<le> g_nexe g \<and> g_nexe g \<le> int (length (g_ctx g)) \<and>
     (\<forall>d \<in> set (g_ctx g). mset (ctx_ind d) = roles (n_th cf))"

definition at_entry :: "conf \<Rightarrow> 'p global_t \<Rightarrow> rstate \<Rightarrow> bool" where
  "at_entry cf g s \<longleftrightarrow> length (threads s) = AVAIL cf \<and> inds s = map ctx_ind (g_ctx g) \<and>
     (\<forall>t < AVAIL cf. fst (threads s ! t) = Enter \<and> t_id (snd (threads s ! t)) = t)"

subsection \<open>The invariant\<close>

text \<open>The cell of the row that belongs to a thread, through the indirection of the threads.\<close>

definition place :: "conf \<Rightarrow> 'p global_t \<Rightarrow> int \<Rightarrow> nat \<Rightarrow> int \<times> int" where
  "place cf g part t = cell cf g part (g_ind g ! t)"

definition placed :: "conf \<Rightarrow> 'p global_t \<Rightarrow> int \<Rightarrow> nat \<Rightarrow> bool" where
  "placed cf g part t \<longleftrightarrow> 0 \<le> fst (place cf g part t) \<and> fst (place cf g part t) < g_nexe g"

text \<open>What is known of thread \<open>t\<close> at each point of the function.\<close>

definition thread_ok :: "conf \<Rightarrow> 'p global_t \<Rightarrow> int \<Rightarrow> int list list \<Rightarrow> nat \<Rightarrow> phase \<times> thread_ctx_t \<Rightarrow> bool" where
  "thread_ok cf g part is t = (\<lambda>(p, c). t_id c = t \<and>
     (3 \<le> rank p \<and> rank p \<le> 6 \<longrightarrow> placed cf g part t \<and> reshuffles cf g \<and> t_role c = snd (place cf g part t)) \<and>
     (3 \<le> rank p \<and> placed cf g part t \<longrightarrow> t_ctx c = Some (nat (fst (place cf g part t)))) \<and>
     (7 \<le> rank p \<and> placed cf g part t \<longrightarrow> t_role c =
        (if reshuffles cf g then is ! nat (fst (place cf g part t)) ! nat (snd (place cf g part t)) else snd (place cf g part t))) \<and>
     (3 \<le> rank p \<and> \<not> placed cf g part t \<longrightarrow> t_ctx c = None \<and> t_role c = -1))"

definition role_inv :: "conf \<Rightarrow> 'p global_t \<Rightarrow> int \<Rightarrow> rstate \<Rightarrow> bool" where
  "role_inv cf g part s \<longleftrightarrow> length (threads s) = AVAIL cf \<and> length (inds s) = length (g_ctx g) \<and>
     (\<forall>ind \<in> set (inds s). mset ind = roles (n_th cf)) \<and>
     (\<forall>t < AVAIL cf. thread_ok cf g part (inds s) t (threads s ! t)) \<and>
     (\<forall>t < AVAIL cf. \<forall>u < AVAIL cf. reshuffles cf g \<and> placed cf g part t \<and>
        fst (place cf g part t) = fst (place cf g part u) \<and> 6 \<le> rank (fst (threads s ! t)) \<longrightarrow> 5 \<le> rank (fst (threads s ! u)))"

lemma roles_member: "r \<in># roles n \<longleftrightarrow> 0 \<le> r \<and> r < int n"
  by (auto simp: roles_def image_iff) (metis atLeast0LessThan lessThan_iff nat_0_le nat_less_iff of_nat_0_le_iff)

lemma size_roles [simp]: "size (roles n) = n"
  by (simp add: roles_def)

text \<open>The threads of an instance, with the roles of their cells.\<close>

lemma map_place:
  assumes "length (g_ind g) = AVAIL cf"
  shows "map (place cf g part) [0..<AVAIL cf] = map (cell cf g part) (g_ind g)"
  using map_nth [of "g_ind g"] assms by (intro nth_equalityI) (simp_all add: place_def)

definition mates :: "conf \<Rightarrow> 'p global_t \<Rightarrow> int \<Rightarrow> nat \<Rightarrow> nat set" where
  "mates cf g part k = {t \<in> {0..<AVAIL cf}. fst (place cf g part t) = int k}"

lemma place_roles:
  assumes "setup_ok cf g part" and "k < nat (g_nexe g)"
  shows "image_mset (\<lambda>t. snd (place cf g part t)) (mset_set (mates cf g part k)) = roles (n_th cf)"
proof -
  let ?cell = "cell cf g part"
  have ind: "mset (g_ind g) = mset (map int [0..<AVAIL cf])" using assms(1) by (simp add: setup_ok_def roles_def)
  then have len: "length (g_ind g) = AVAIL cf" using mset_eq_length by fastforce
  have "mset (map (place cf g part) [0..<AVAIL cf]) = image_mset ?cell (mset (g_ind g))"
    unfolding map_place [OF len] by (rule mset_map)
  also have "\<dots> = mset (map (\<lambda>i. ?cell (int i)) [0..<AVAIL cf])"
    unfolding ind by (simp add: image_mset.compositionality comp_def)
  finally have all: "mset (map (place cf g part) [0..<AVAIL cf]) = mset (map (\<lambda>i. ?cell (int i)) [0..<AVAIL cf])" .
  have "image_mset (\<lambda>t. snd (place cf g part t)) (mset_set (mates cf g part k)) =
      image_mset snd (filter_mset (\<lambda>x. fst x = int k) (mset (map (place cf g part) [0..<AVAIL cf])))"
    by (simp add: mates_def filter_mset_image_mset image_mset.compositionality comp_def filter_mset_mset_set [symmetric])
  also have "\<dots> = mset (map snd (filter (\<lambda>x. fst x = int k) (map (\<lambda>i. ?cell (int i)) [0..<AVAIL cf])))"
    unfolding all by (simp only: mset_filter mset_map)
  also have "\<dots> = roles (n_th cf)" using assms by (simp add: setup_ok_def row_ok_def)
  finally show ?thesis .
qed

lemma mates_size:
  assumes "setup_ok cf g part" and "k < nat (g_nexe g)"
  shows "card (mates cf g part k) = n_th cf"
  using arg_cong [OF place_roles [OF assms], of size] by simp

lemma role_in_range:
  assumes "setup_ok cf g part" and "t < AVAIL cf" and "placed cf g part t"
  shows "0 \<le> snd (place cf g part t) \<and> snd (place cf g part t) < int (n_th cf)"
proof -
  let ?k = "nat (fst (place cf g part t))"
  have "?k < nat (g_nexe g)" "fst (place cf g part t) = int ?k" using assms(3) by (auto simp: placed_def)
  moreover from this have "snd (place cf g part t) \<in># roles (n_th cf)"
    unfolding place_roles [OF assms(1) \<open>?k < nat (g_nexe g)\<close>, symmetric] using assms(2) by (simp add: mates_def)
  ultimately show ?thesis by (simp add: roles_member)
qed

subsection \<open>The pieces of the function\<close>

lemma roles_length: "mset ind = roles n \<Longrightarrow> length ind = n"
  using size_roles by (metis size_mset)

lemma shuffle_total:
  assumes "mset ind = roles n" and "0 < n" and "n < 2 ^ 31"
  shows "\<exists>ind' st'. interval_shuffle st ind n = Some (ind', st') \<and> mset ind' = roles n"
  using lcg.perm_from_total [of "n - 1" n ind 0 st] assms roles_length [OF assms(1)] limit_pos [OF assms(2,3)]
  by (auto simp: interval_shuffle_def)

lemma choose_places:
  assumes "setup_ok cf g part" and "t < AVAIL cf" and "t_id c = t"
  shows "choose_ctx cf g part c = Inr
    (if placed cf g part t then
       c\<lparr>t_inst := fst (place cf g part t), t_ctx := Some (nat (fst (place cf g part t))), t_role := snd (place cf g part t)\<rparr>
     else c\<lparr>t_ctx := None, t_role := -1\<rparr>)"
proof -
  let ?j = "g_ind g ! t" and ?b = "int (SCANLINE cf) * part"
  have ind: "mset (g_ind g) = roles (AVAIL cf)" using assms(1) by (simp add: setup_ok_def)
  then have len: "length (g_ind g) = AVAIL cf" by (rule roles_length)
  then have "?j \<in># roles (AVAIL cf)" using assms(2) ind [symmetric] by simp
  then have j: "0 \<le> ?j" "?j < int (AVAIL cf)" by (simp_all add: roles_member)
  have "0 \<le> ?b" "?b + int (AVAIL cf) \<le> int (length (g_inst g))" "?b + int (AVAIL cf) \<le> int (length (g_role g))"
    using assms(1) by (simp_all add: setup_ok_def row_ok_def)
  then have "aget (g_inst g) (?b + ?j) = Inr (fst (place cf g part t))" "aget (g_role g) (?b + ?j) = Inr (snd (place cf g part t))"
    using j by (simp_all add: aget_def place_def cell_def Let_def)
  then show ?thesis using assms(2,3) len by (simp add: choose_ctx_def placed_def Let_def)
qed

lemma inv_update:
  assumes "role_inv cf g part s" and "t < AVAIL cf" and "length is = length (inds s)"
    and "\<forall>ind \<in> set is. mset ind = roles (n_th cf)"
    and "thread_ok cf g part is t (p, c)"
    and "\<And>u. u < AVAIL cf \<Longrightarrow> u \<noteq> t \<Longrightarrow> thread_ok cf g part is u (threads s ! u)"
    and "rank (fst (threads s ! t)) \<le> rank p"
    and "\<And>u. 6 \<le> rank p \<Longrightarrow> \<not> 6 \<le> rank (fst (threads s ! t)) \<Longrightarrow> reshuffles cf g \<Longrightarrow> placed cf g part t \<Longrightarrow> u < AVAIL cf \<Longrightarrow>
      fst (place cf g part t) = fst (place cf g part u) \<Longrightarrow> 5 \<le> rank (fst (threads s ! u))"
  shows "role_inv cf g part (s\<lparr>threads := (threads s)[t := (p, c)], inds := is\<rparr>)"
proof -
  have len: "length (threads s) = AVAIL cf" using assms(1) by (simp add: role_inv_def)
  have "thread_ok cf g part is u ((threads s)[t := (p, c)] ! u)" if "u < AVAIL cf" for u
    using that assms(5,6) len by (cases "u = t") auto
  moreover have "5 \<le> rank (fst ((threads s)[t := (p, c)] ! u))"
    if *: "v < AVAIL cf" "u < AVAIL cf" "reshuffles cf g" "placed cf g part v" "fst (place cf g part v) = fst (place cf g part u)"
      "6 \<le> rank (fst ((threads s)[t := (p, c)] ! v))" for u v
  proof -
    have old: "5 \<le> rank (fst (threads s ! u))"
    proof (cases "6 \<le> rank (fst (threads s ! v))")
      case True
      then show ?thesis using * assms(1) by (simp add: role_inv_def)
    next
      case False
      then have "v = t" using * len by (metis nth_list_update_neq)
      then show ?thesis using assms(8) * False len by simp
    qed
    then show ?thesis using assms(7) len that(2) by (cases "u = t") auto
  qed
  ultimately show ?thesis using assms(1,3,4) by (simp add: role_inv_def)
qed

text \<open>A thread that takes a step which does not write the indirections.\<close>

lemma inv_local:
  assumes "role_inv cf g part s" and "t < AVAIL cf" and "thread_ok cf g part (inds s) t (p, c)"
    and "rank (fst (threads s ! t)) \<le> rank p" and "\<not> 6 \<le> rank p \<or> 6 \<le> rank (fst (threads s ! t)) \<or> \<not> reshuffles cf g \<or> \<not> placed cf g part t"
  shows "role_inv cf g part (s\<lparr>threads := (threads s)[t := (p, c)]\<rparr>)"
proof -
  have "role_inv cf g part (s\<lparr>threads := (threads s)[t := (p, c)], inds := inds s\<rparr>)"
    using assms by (intro inv_update) (auto simp: role_inv_def)
  then show ?thesis by simp
qed

text \<open>The barrier of an instance opens when all its threads have called it.\<close>

lemma calls_b_group:
  assumes "role_inv cf g part s" and "reshuffles cf g"
  shows "calls_b k s = card {u \<in> mates cf g part k. 5 \<le> rank (fst (threads s ! u)) \<and> placed cf g part u}"
proof -
  have len: "length (threads s) = AVAIL cf" and ok: "\<And>u. u < AVAIL cf \<Longrightarrow> thread_ok cf g part (inds s) u (threads s ! u)"
    using assms(1) by (simp_all add: role_inv_def)
  define Q where "Q u = (case threads s ! u of (p, c) \<Rightarrow> rank Wait_b \<le> rank p \<and> t_ctx c = Some k)" for u
  have "Q u \<longleftrightarrow> fst (place cf g part u) = int k \<and> 5 \<le> rank (fst (threads s ! u)) \<and> placed cf g part u" if "u < AVAIL cf" for u
    using ok [OF that] by (auto simp: Q_def thread_ok_def placed_def split: prod.splits)
  then have "{u. u < AVAIL cf \<and> Q u} = {u \<in> mates cf g part k. 5 \<le> rank (fst (threads s ! u)) \<and> placed cf g part u}"
    by (auto simp: mates_def)
  then show ?thesis by (simp add: calls_b_def length_filter_conv_card len Q_def)
qed

lemma barrier_open:
  assumes "setup_ok cf g part" and "role_inv cf g part s" and "reshuffles cf g" and "t < AVAIL cf" and "placed cf g part t"
    and "calls_b (nat (fst (place cf g part t))) s = n_th cf"
    and "u < AVAIL cf" and "fst (place cf g part t) = fst (place cf g part u)"
  shows "5 \<le> rank (fst (threads s ! u))"
proof -
  let ?k = "nat (fst (place cf g part t))"
  let ?A = "{u \<in> mates cf g part ?k. 5 \<le> rank (fst (threads s ! u)) \<and> placed cf g part u}"
  have k: "?k < nat (g_nexe g)" "fst (place cf g part t) = int ?k" using assms(5) by (auto simp: placed_def)
  have "card ?A = card (mates cf g part ?k)"
    using assms(6) calls_b_group [OF assms(2,3)] mates_size [OF assms(1) k(1)] by simp
  then have "?A = mates cf g part ?k" by (intro card_subset_eq) (auto simp: mates_def)
  moreover have "u \<in> mates cf g part ?k" using assms(7,8) k(2) by (simp add: mates_def)
  ultimately show ?thesis by blast
qed

lemma shuffle_parts:
  assumes "setup_ok cf g part" and "role_inv cf g part s" and "shuffle_role cf c (inds s) = Inr (c1, is)" and "t_ctx c = Some k"
  shows "t_id c1 = t_id c \<and> t_role c1 = t_role c \<and> t_ctx c1 = t_ctx c \<and> length is = length (inds s) \<and>
    (\<forall>ind \<in> set is. mset ind = roles (n_th cf)) \<and> (\<forall>l. l \<noteq> k \<longrightarrow> is ! l = inds s ! l)"
proof (cases "t_role c = 0")
  case False
  then show ?thesis using assms(2-4) by (auto simp: shuffle_role_def role_inv_def)
next
  case True
  then obtain ind' st where k: "k < length (inds s)" and sh: "interval_shuffle (t_seed c) (inds s ! k) (n_th cf) = Some (ind', st)"
      and r: "c1 = c\<lparr>t_seed := st\<rparr>" "is = (inds s)[k := ind']"
    using assms(3,4) by (auto simp: shuffle_role_def res_simps)
  have all: "\<forall>ind \<in> set (inds s). mset ind = roles (n_th cf)" using assms(2) by (simp add: role_inv_def)
  then have "mset ind' = roles (n_th cf)"
    using shuffle_total [of "inds s ! k" "n_th cf" "t_seed c"] assms(1) k sh by (auto simp: setup_ok_def)
  then show ?thesis using r all set_update_subset_insert [of "inds s" k ind'] by auto
qed

lemma inv_step:
  assumes tab: "setup_ok cf g part" and inv: "role_inv cf g part s" and t: "t < AVAIL cf"
    and nx: "role_next cf g part s t = Some (Inr (p', c', is))"
  shows "role_inv cf g part (s\<lparr>threads := (threads s)[t := (p', c')], inds := is\<rparr>) \<and>
    rank (fst (threads s ! t)) < rank p'"
proof -
  obtain p c where pc: "threads s ! t = (p, c)" by force
  have ok: "thread_ok cf g part (inds s) t (p, c)" using inv t pc by (auto simp: role_inv_def)
  have tid: "t_id c = t" using ok by (simp add: thread_ok_def)
  have fin: ?thesis if "is = inds s" "thread_ok cf g part (inds s) t (p', c')" "rank p < rank p'"
      "\<not> 6 \<le> rank p' \<or> 6 \<le> rank p \<or> \<not> reshuffles cf g \<or> \<not> placed cf g part t"
    using that inv_local [OF inv t that(2)] pc by simp
  have plain: ?thesis if p: "p \<in> {Enter, Wait_gb, Arrive, Leave, Wait_end}"
  proof -
    have "is = inds s" "c' = c" "rank p' = Suc (rank p)"
      using nx p by (cases p; simp add: role_next_simps pc split: if_splits)+
    then show ?thesis using ok p by (intro fin) (cases p; simp add: thread_ok_def)+
  qed
  show ?thesis
  proof (cases p)
    case Choose
    have "is = inds s" "(placed cf g part t \<and> c' = c\<lparr>t_inst := fst (place cf g part t),
          t_ctx := Some (nat (fst (place cf g part t))), t_role := snd (place cf g part t)\<rparr> \<and> p' = (if reshuffles cf g then Shuffle else Leave)) \<or>
        (\<not> placed cf g part t \<and> c' = c\<lparr>t_ctx := None, t_role := -1\<rparr> \<and> p' = Leave)"
      using nx by (simp_all add: role_next_simps pc Choose choose_places [OF tab t tid] split: if_splits) auto
    then show ?thesis using ok Choose by (intro fin) (auto simp: thread_ok_def)
  next
    case Shuffle
    let ?k = "nat (fst (place cf g part t))"
    have here: "placed cf g part t" "reshuffles cf g" "t_role c = snd (place cf g part t)" "t_ctx c = Some ?k"
      using ok Shuffle by (auto simp: thread_ok_def)
    obtain c1 where sh: "shuffle_role cf c (inds s) = Inr (c1, is)" "p' = Arrive" "c' = c1"
      using nx pc Shuffle by (auto simp: role_next_simps res_simps)
    have same: "t_id c1 = t_id c" "t_role c1 = t_role c" "t_ctx c1 = t_ctx c" "length is = length (inds s)"
        "\<forall>ind \<in> set is. mset ind = roles (n_th cf)" "\<forall>l. l \<noteq> ?k \<longrightarrow> is ! l = inds s ! l"
      using shuffle_parts [OF tab inv sh(1) here(4)] by auto
    have others: "thread_ok cf g part is u (threads s ! u)" if u: "u < AVAIL cf" for u
    proof -
      have old: "thread_ok cf g part (inds s) u (threads s ! u)" using inv u by (simp add: role_inv_def)
      have "\<not> 6 \<le> rank (fst (threads s ! u))" if "placed cf g part u" "nat (fst (place cf g part u)) = ?k"
      proof
        assume "6 \<le> rank (fst (threads s ! u))"
        moreover have "fst (place cf g part u) = fst (place cf g part t)"
          using that here(1) unfolding placed_def by (metis nat_0_le)
        ultimately have "5 \<le> rank (fst (threads s ! t))" using inv u t that(1) here(2) unfolding role_inv_def by metis
        then show False using pc Shuffle by simp
      qed
      then have "is ! nat (fst (place cf g part u)) = inds s ! nat (fst (place cf g part u))"
        if "7 \<le> rank (fst (threads s ! u))" "placed cf g part u"
        using that same(6) by fastforce
      then show ?thesis using old by (cases "threads s ! u") (auto simp: thread_ok_def)
    qed
    have "thread_ok cf g part is t (p', c')" using here same sh tid by (simp add: thread_ok_def)
    then show ?thesis using inv t same(4,5) others sh(2) pc Shuffle by (auto intro!: inv_update)
  next
    case Wait_b
    then have here: "placed cf g part t" "reshuffles cf g" "the (t_ctx c) = nat (fst (place cf g part t))"
      using ok by (auto simp: thread_ok_def)
    have opened: "calls_b (nat (fst (place cf g part t))) s = n_th cf" "p' = Pick" "c' = c" "is = inds s"
      using nx pc Wait_b here(3) by (auto simp: role_next_simps split: if_splits)
    have "thread_ok cf g part is t (p', c')" using ok Wait_b opened by (simp add: thread_ok_def)
    moreover have "5 \<le> rank (fst (threads s ! u))" if "u < AVAIL cf" "fst (place cf g part t) = fst (place cf g part u)" for u
      using barrier_open [OF tab inv here(2) t here(1) opened(1)] that by simp
    ultimately have "role_inv cf g part (s\<lparr>threads := (threads s)[t := (p', c')], inds := inds s\<rparr>)"
      by (intro inv_update [OF inv t]) (use inv opened pc Wait_b in \<open>simp_all add: role_inv_def\<close>)
    then show ?thesis using opened pc Wait_b by simp
  next
    case Pick
    then have here: "placed cf g part t" "reshuffles cf g" "t_role c = snd (place cf g part t)"
        "t_ctx c = Some (nat (fst (place cf g part t)))"
      using ok by (auto simp: thread_ok_def)
    then have "c' = c\<lparr>t_role := inds s ! nat (fst (place cf g part t)) ! nat (snd (place cf g part t))\<rparr>" "p' = Leave" "is = inds s"
      using nx pc Pick by (auto simp: role_next_simps pick_role_def res_simps Let_def)
    then show ?thesis using ok here Pick by (intro fin) (auto simp: thread_ok_def)
  qed (use plain nx pc in \<open>simp_all add: role_next_simps\<close>)
qed

lemma inv_entry: "setup_ok cf g part \<Longrightarrow> at_entry cf g s \<Longrightarrow> role_inv cf g part s"
  by (auto simp: role_inv_def at_entry_def thread_ok_def setup_ok_def split: prod.splits)

lemma role_step_thread:
  assumes "role_step cf g part s s'"
  obtains t p c "is" where "t < length (threads s)" and "role_next cf g part s t = Some (Inr (p, c, is))"
    and "s' = s\<lparr>threads := (threads s)[t := (p, c)], inds := is\<rparr>"
  using assms by (elim role_step_cases) blast

lemma role_inv_step:
  assumes "setup_ok cf g part" and "role_inv cf g part s" and "role_step cf g part s s'"
  shows "role_inv cf g part s'"
proof -
  obtain t p c "is" where st: "t < length (threads s)" "role_next cf g part s t = Some (Inr (p, c, is))"
      "s' = s\<lparr>threads := (threads s)[t := (p, c)], inds := is\<rparr>"
    using assms(3) by (rule role_step_thread)
  then have "t < AVAIL cf" using assms(2) by (simp add: role_inv_def)
  then show ?thesis using inv_step [OF assms(1,2) _ st(2)] st(3) by simp
qed

lemma role_inv_reach:
  assumes "setup_ok cf g part" and "(role_step cf g part)\<^sup>*\<^sup>* s s'" and "role_inv cf g part s"
  shows "role_inv cf g part s'"
  using assms(2,3) by (induction rule: rtranclp_induct) (auto intro: role_inv_step [OF assms(1)])

subsection \<open>Every thread returns\<close>

definition all_returned :: "rstate \<Rightarrow> bool" where
  "all_returned s \<longleftrightarrow> (\<forall>x \<in> set (threads s). fst x = Returned)"

lemma role_never_fails:
  assumes "setup_ok cf g part" and "role_inv cf g part s" and "t < AVAIL cf"
  shows "role_next cf g part s t \<noteq> Some (Inl e)"
proof -
  obtain p c where pc: "threads s ! t = (p, c)" by force
  have ok: "thread_ok cf g part (inds s) t (p, c)" using assms(2,3) pc by (auto simp: role_inv_def)
  then have tid: "t_id c = t" by (simp add: thread_ok_def)
  define k where "k = nat (fst (place cf g part t))"
  have here: "placed cf g part t" "t_role c = snd (place cf g part t)" "t_ctx c = Some k" if "p = Shuffle \<or> p = Pick"
    using ok that by (auto simp: thread_ok_def k_def)
  have in_k: "k < length (inds s)" "mset (inds s ! k) = roles (n_th cf)" if "placed cf g part t"
  proof -
    show "k < length (inds s)" using that assms(1,2) by (simp add: k_def placed_def setup_ok_def role_inv_def) linarith
    then show "mset (inds s ! k) = roles (n_th cf)" using assms(2) by (simp add: role_inv_def)
  qed
  show ?thesis
  proof (cases p)
    case Choose
    then show ?thesis by (simp add: role_next_simps pc choose_places [OF assms(1,3) tid])
  next
    case Shuffle
    then obtain ind st where "interval_shuffle (t_seed c) (inds s ! k) (n_th cf) = Some (ind, st)"
      using shuffle_total [OF in_k(2)] here(1) assms(1) unfolding setup_ok_def by blast
    then show ?thesis using Shuffle here in_k(1) by (simp add: role_next_simps pc shuffle_role_def)
  next
    case Pick
    then have "0 \<le> t_role c" "t_role c < int (length (inds s ! k))"
      using role_in_range [OF assms(1,3)] here in_k(2) roles_length by metis+
    then show ?thesis using Pick here in_k(1) by (simp add: role_next_simps pc pick_role_def aget_def)
  qed (simp_all add: role_next_simps pc)
qed

lemma calls_all:
  assumes "length (threads s) = AVAIL cf" and "\<And>u. u < AVAIL cf \<Longrightarrow> r \<le> rank (fst (threads s ! u))"
  shows "calls r s = AVAIL cf"
proof -
  have "\<forall>x \<in> set (threads s). (case x of (p, c) \<Rightarrow> r \<le> rank p)"
    using assms by (fastforce simp: in_set_conv_nth)
  then show ?thesis by (simp add: calls_def assms(1) filter_True)
qed

lemma role_progress:
  assumes "setup_ok cf g part" and inv: "role_inv cf g part s" and stuck: "\<And>t. t < AVAIL cf \<Longrightarrow> role_next cf g part s t = None"
  shows "all_returned s"
proof -
  have len: "length (threads s) = AVAIL cf" using inv by (simp add: role_inv_def)
  define ph where "ph t = fst (threads s ! t)" for t
  have waits: "ph t = Wait_gb \<and> calls 1 s \<noteq> AVAIL cf \<or> ph t = Wait_b \<or> ph t = Wait_end \<and> calls 8 s \<noteq> AVAIL cf \<or> ph t = Returned"
    if "t < AVAIL cf" for t
  proof -
    obtain p c where "threads s ! t = (p, c)" by force
    then show ?thesis using stuck [OF that] by (cases p) (auto simp: role_next_simps ph_def split: if_splits)
  qed
  have "1 \<le> rank (ph t)" if "t < AVAIL cf" for t using waits [OF that] by auto
  then have "calls 1 s = AVAIL cf" using calls_all [OF len, of 1] by (simp add: ph_def)
  then have b: "ph t = Wait_b \<or> ph t = Wait_end \<and> calls 8 s \<noteq> AVAIL cf \<or> ph t = Returned" if "t < AVAIL cf" for t
    using waits [OF that] by blast
  have "ph t \<noteq> Wait_b" if t: "t < AVAIL cf" for t
  proof
    assume "ph t = Wait_b"
    then obtain c where c: "threads s ! t = (Wait_b, c)" by (metis ph_def prod.collapse)
    then have "thread_ok cf g part (inds s) t (Wait_b, c)" using inv t by (auto simp: role_inv_def)
    then have here: "placed cf g part t" "reshuffles cf g" "t_ctx c = Some (nat (fst (place cf g part t)))"
      by (auto simp: thread_ok_def)
    let ?k = "nat (fst (place cf g part t))"
    have k: "?k < nat (g_nexe g)" "fst (place cf g part t) = int ?k" using here(1) by (auto simp: placed_def)
    have "5 \<le> rank (ph u) \<and> placed cf g part u" if "u \<in> mates cf g part ?k" for u
      using b [of u] that here(1) by (auto simp: mates_def placed_def)
    then have "{u \<in> mates cf g part ?k. 5 \<le> rank (fst (threads s ! u)) \<and> placed cf g part u} = mates cf g part ?k"
      by (auto simp: ph_def)
    then have "calls_b ?k s = n_th cf"
      using calls_b_group [OF inv here(2), of ?k] mates_size [OF assms(1) k(1)] by simp
    then show False using stuck [OF t] c here(3) by (simp add: role_next_simps)
  qed
  then have e: "ph t = Wait_end \<and> calls 8 s \<noteq> AVAIL cf \<or> ph t = Returned" if "t < AVAIL cf" for t using b that by blast
  have "8 \<le> rank (ph t)" if "t < AVAIL cf" for t using e [OF that] by auto
  then have "calls 8 s = AVAIL cf" using calls_all [OF len, of 8] by (simp add: ph_def)
  then have "ph t = Returned" if "t < AVAIL cf" for t using e [OF that] by blast
  then show ?thesis by (simp add: all_returned_def all_set_conv_all_nth len ph_def)
qed

definition work :: "rstate \<Rightarrow> nat" where
  "work s = (\<Sum>x \<leftarrow> threads s. rank (fst x))"

lemma rank_le: "rank p \<le> 9"
  by (cases p) auto

lemma work_le: "work s \<le> 9 * length (threads s)"
proof -
  have "(\<Sum>x \<leftarrow> xs. rank (fst x)) \<le> 9 * length xs" for xs :: "(phase \<times> thread_ctx_t) list"
  proof (induction xs)
    case (Cons x xs)
    then show ?case using rank_le [of "fst x"] by simp
  qed simp
  then show ?thesis by (simp add: work_def)
qed

lemma work_step:
  assumes "setup_ok cf g part" and "role_inv cf g part s" and "role_step cf g part s s'"
  shows "work s < work s'"
proof -
  obtain t p c "is" where st: "t < length (threads s)" "role_next cf g part s t = Some (Inr (p, c, is))"
      "s' = s\<lparr>threads := (threads s)[t := (p, c)], inds := is\<rparr>"
    using assms(3) by (rule role_step_thread)
  then have "t < AVAIL cf" using assms(2) by (simp add: role_inv_def)
  then have up: "rank (fst (threads s ! t)) < rank p" using inv_step [OF assms(1,2) _ st(2)] by simp
  then have "(\<Sum>x \<leftarrow> (threads s)[t := (p, c)]. rank (fst x)) =
      (\<Sum>x \<leftarrow> threads s. rank (fst x)) + (rank p - rank (fst (threads s ! t)))"
    using st(1) by (intro sum_list_map_update) simp_all
  then show ?thesis using st(3) up by (simp add: work_def)
qed

lemma work_steps:
  assumes "setup_ok cf g part" and "(role_step cf g part ^^ n) s s'" and "role_inv cf g part s"
  shows "work s + n \<le> work s' \<and> role_inv cf g part s'"
  using assms(2)
proof (induction n arbitrary: s')
  case 0
  then show ?case using assms(3) by simp
next
  case (Suc n)
  then obtain s1 where s1: "(role_step cf g part ^^ n) s s1" "role_step cf g part s1 s'" by auto
  then show ?case
    using Suc.IH [OF s1(1)] work_step [OF assms(1) _ s1(2)] role_inv_step [OF assms(1) _ s1(2)] by fastforce
qed

lemma role_steps_on:
  assumes "setup_ok cf g part" and "role_inv cf g part s" and "\<not> all_returned s"
  shows "\<exists>s'. role_step cf g part s s'"
proof -
  obtain t r where t: "t < AVAIL cf" "role_next cf g part s t = Some r"
    using role_progress [OF assms(1,2)] assms(3) by (metis not_Some_eq)
  then obtain x where "r = Inr x" using role_never_fails [OF assms(1,2) t(1)] by (cases r) auto
  moreover obtain p c "is" where "x = (p, c, is)" by (rule prod_cases3)
  moreover have "t < length (threads s)" using t(1) assms(2) by (simp add: role_inv_def)
  ultimately show ?thesis using role_step.step [of t s cf g part p c "is"] t(2) by blast
qed

lemma role_finishes:
  assumes "setup_ok cf g part" and "role_inv cf g part s"
  shows "\<exists>s'. (role_step cf g part)\<^sup>*\<^sup>* s s' \<and> all_returned s'"
  using assms(2)
proof (induction "9 * AVAIL cf - work s" arbitrary: s rule: less_induct)
  case less
  show ?case
  proof (cases "all_returned s")
    case False
    then obtain s1 where s1: "role_step cf g part s s1" using role_steps_on [OF assms(1) less.prems] by blast
    have inv: "role_inv cf g part s1" by (rule role_inv_step [OF assms(1) less.prems s1])
    then have "work s1 \<le> 9 * AVAIL cf" using work_le [of s1] by (simp add: role_inv_def)
    then have "9 * AVAIL cf - work s1 < 9 * AVAIL cf - work s" using work_step [OF assms(1) less.prems s1] by simp
    then show ?thesis using less.hyps [of s1] inv s1 by (meson converse_rtranclp_into_rtranclp)
  qed blast
qed

subsection \<open>Properties\<close>

text \<open>The roles that the threads of an instance hold.\<close>

definition held :: "nat \<Rightarrow> rstate \<Rightarrow> int multiset" where
  "held k s = mset (map (\<lambda>(p, c). t_role c) (filter (\<lambda>(p, c). t_ctx c = Some k) (threads s)))"

lemma roles_permuted:
  assumes "mset ind = roles n"
  shows "image_mset (\<lambda>r. ind ! nat r) (roles n) = roles n"
proof -
  have "image_mset (\<lambda>r. ind ! nat r) (roles n) = mset (map ((!) ind) [0..<n])"
    by (simp add: roles_def image_mset.compositionality comp_def)
  also have "\<dots> = mset ind" using map_nth [of ind] roles_length [OF assms] by simp
  finally show ?thesis using assms by simp
qed

lemma mset_filter_index:
  "mset (map f (filter P xs)) = image_mset (\<lambda>i. f (xs ! i)) (mset_set {i \<in> {0..<length xs}. P (xs ! i)})"
proof -
  have "mset (map f (filter P xs)) = image_mset f (filter_mset P (mset (map ((!) xs) [0..<length xs])))"
    unfolding map_nth by simp
  then show ?thesis
    by (simp add: filter_mset_image_mset image_mset.compositionality comp_def filter_mset_mset_set [symmetric])
qed

lemma held_roles:
  assumes "setup_ok cf g part" and inv: "role_inv cf g part s" and ret: "all_returned s" and k: "k < nat (g_nexe g)"
  shows "held k s = roles (n_th cf)"
proof -
  have len: "length (threads s) = AVAIL cf" using inv by (simp add: role_inv_def)
  let ?c = "\<lambda>t. snd (threads s ! t)" and ?pl = "place cf g part"
  have fin: "fst (threads s ! t) = Returned" if "t < AVAIL cf" for t
    using ret that len by (simp add: all_returned_def)
  have ok: "thread_ok cf g part (inds s) t (Returned, ?c t)" if "t < AVAIL cf" for t
    using inv that fin [OF that] unfolding role_inv_def by (metis prod.collapse)
  have "t_ctx (?c t) = Some k \<longleftrightarrow> fst (?pl t) = int k" if "t < AVAIL cf" for t
    using ok [OF that] k by (cases "placed cf g part t") (auto simp: thread_ok_def placed_def)
  then have "{t \<in> {0..<AVAIL cf}. t_ctx (?c t) = Some k} = mates cf g part k" by (auto simp: mates_def)
  then have "held k s = image_mset (\<lambda>t. t_role (?c t)) (mset_set (mates cf g part k))"
    unfolding held_def case_prod_unfold mset_filter_index len by simp
  also have "\<dots> = image_mset (\<lambda>t. if reshuffles cf g then inds s ! k ! nat (snd (?pl t)) else snd (?pl t)) (mset_set (mates cf g part k))"
  proof (rule image_mset_cong)
    fix t assume "t \<in># mset_set (mates cf g part k)"
    then have t: "t < AVAIL cf" "fst (?pl t) = int k" by (simp_all add: mates_def)
    moreover from this have "placed cf g part t" using k by (simp add: placed_def)
    ultimately show "t_role (?c t) = (if reshuffles cf g then inds s ! k ! nat (snd (?pl t)) else snd (?pl t))"
      using ok [OF t(1)] by (simp add: thread_ok_def)
  qed
  also have "\<dots> = roles (n_th cf)"
  proof (cases "reshuffles cf g")
    case False
    then show ?thesis using place_roles [OF assms(1) k] by simp
  next
    case True
    have "int k < g_nexe g" using k by simp
    then have "k < length (inds s)" using assms(1) inv by (simp add: setup_ok_def role_inv_def)
    then have ind: "mset (inds s ! k) = roles (n_th cf)" using inv by (simp add: role_inv_def)
    have "image_mset (\<lambda>t. inds s ! k ! nat (snd (?pl t))) (mset_set (mates cf g part k)) =
        image_mset (\<lambda>r. inds s ! k ! nat r) (roles (n_th cf))"
      unfolding place_roles [OF assms(1) k, symmetric] by (simp add: image_mset.compositionality comp_def)
    then show ?thesis using True roles_permuted [OF ind] by simp
  qed
  finally show ?thesis .
qed

text \<open>
  C7: Whatever the interleaving and the random choices, when all the threads have returned from \<open>set_role\<close> each instance that
  runs has exactly one thread in each of the roles \<open>0\<close> to \<open>N-1\<close>, and the threads without an instance have role \<open>-1\<close>.
\<close>

theorem set_role_assigns:
  assumes "setup_ok cf g part" and "at_entry cf g s0" and "(role_step cf g part)\<^sup>*\<^sup>* s0 s" and "all_returned s"
  shows "(\<forall>k < nat (g_nexe g). held k s = mset (map int [0..<n_th cf])) \<and>
    (\<forall>(p, c) \<in> set (threads s). t_ctx c = None \<longrightarrow> t_role c = -1) \<and>
    (\<forall>(p, c) \<in> set (threads s). \<forall>k. t_ctx c = Some k \<longrightarrow> k < nat (g_nexe g))"
proof -
  have inv: "role_inv cf g part s" using role_inv_reach [OF assms(1,3) inv_entry [OF assms(1,2)]] .
  have len: "length (threads s) = AVAIL cf" using inv by (simp add: role_inv_def)
  have "(t_ctx c = None \<longrightarrow> t_role c = -1) \<and> (\<forall>k. t_ctx c = Some k \<longrightarrow> k < nat (g_nexe g))"
    if pc: "(p, c) \<in> set (threads s)" for p c
  proof -
    obtain t where t: "t < AVAIL cf" "threads s ! t = (p, c)" using pc len by (metis in_set_conv_nth)
    then have "thread_ok cf g part (inds s) t (p, c)" using inv by (auto simp: role_inv_def)
    moreover have "p = Returned" using assms(4) pc by (force simp: all_returned_def)
    ultimately show ?thesis by (cases "placed cf g part t") (auto simp: thread_ok_def placed_def)
  qed
  then show ?thesis using held_roles [OF assms(1) inv assms(4)] by (auto simp: roles_def)
qed

text \<open>
  C8: No interleaving deadlocks or accesses a table out of its bounds: in every state that the threads can reach, none
  fails, a thread can take a step unless all have returned, and no execution has more than nine steps for each thread.
\<close>

theorem set_role_returns:
  assumes "setup_ok cf g part" and "at_entry cf g s0" and "(role_step cf g part)\<^sup>*\<^sup>* s0 s"
  shows "(\<forall>t < AVAIL cf. \<forall>e. role_next cf g part s t \<noteq> Some (Inl e)) \<and>
    (all_returned s \<or> (\<exists>s'. role_step cf g part s s')) \<and>
    (\<forall>n s'. (role_step cf g part ^^ n) s0 s' \<longrightarrow> n \<le> 9 * AVAIL cf)"
proof -
  have inv0: "role_inv cf g part s0" by (rule inv_entry [OF assms(1,2)])
  have inv: "role_inv cf g part s" by (rule role_inv_reach [OF assms(1,3) inv0])
  note fails = role_never_fails [OF assms(1) inv]
  have "n \<le> 9 * AVAIL cf" if "(role_step cf g part ^^ n) s0 s'" for n s'
    using work_steps [OF assms(1) that inv0] work_le [of s'] by (simp add: role_inv_def)
  then show ?thesis using fails role_steps_on [OF assms(1) inv] by blast
qed

subsection \<open>An example\<close>

text \<open>Two rows for two instances of two threads; the second row is used, with the threads in another order.\<close>

definition ex_roles :: "unit global_t" where
  "ex_roles = ex_global\<lparr>g_inst := [0, 0, 1, 1, 0, 1, 1, 0], g_role := [0, 1, 0, 1, 0, 1, 0, 1], g_ind := [2, 0, 3, 1],
     g_ctx := map (ctx_ind_update (\<lambda>_. [0, 1])) (g_ctx ex_global)\<rparr>"

definition ex_start :: rstate where
  "ex_start = \<lparr>threads = map (\<lambda>t. (Enter, \<lparr>t_id = t, t_seed = of_nat t, t_role = 7, t_inst = 7, t_ctx = Some 1\<rparr>)) [0, 1, 2, 3],
     inds = [[0, 1], [0, 1]]\<rparr>"

lemma ex_setup: "setup_ok ex_conf ex_roles 1"
proof -
  have "[0..<AVAIL ex_conf] = [0, 1, 2, 3]" "[0..<n_th ex_conf] = [0, 1]" by (simp_all add: ex_conf_def upt_rec)
  moreover have "k = 0 \<or> k = 1" if "k < nat (g_nexe ex_roles)" for k
    using that by (auto simp: ex_roles_def ex_global_def Let_def)
  ultimately show ?thesis
    by (fastforce simp: setup_ok_def row_ok_def roles_def cell_def ex_roles_def ex_global_def ex_conf_def Let_def)
qed

lemma ex_at_entry: "at_entry ex_conf ex_roles ex_start"
proof -
  have "t = 0 \<or> t = 1 \<or> t = 2 \<or> t = 3" if "t < AVAIL ex_conf" for t using that by (auto simp: ex_conf_def)
  then show ?thesis by (fastforce simp: at_entry_def ex_start_def ex_roles_def ex_global_def ex_conf_def Let_def)
qed

theorem set_role_assigns_witness:
  "\<exists>s. (role_step ex_conf ex_roles 1)\<^sup>*\<^sup>* ex_start s \<and> all_returned s \<and> held 0 s = {#0, 1#} \<and> held 1 s = {#0, 1#}"
proof -
  obtain s where s: "(role_step ex_conf ex_roles 1)\<^sup>*\<^sup>* ex_start s" "all_returned s"
    using role_finishes [OF ex_setup inv_entry [OF ex_setup ex_at_entry]] by blast
  have "nat (g_nexe ex_roles) = 2" "map int [0..<n_th ex_conf] = [0, 1]"
    by (simp_all add: ex_roles_def ex_global_def ex_conf_def Let_def upt_rec)
  then show ?thesis using set_role_assigns [OF ex_setup ex_at_entry s] s by (intro exI [of _ s]) simp
qed

theorem set_role_returns_witness:
  "(\<exists>s. role_step ex_conf ex_roles 1 ex_start s) \<and> \<not> (\<exists>s. (role_step ex_conf ex_roles 1 ^^ 37) ex_start s)"
proof -
  have "\<not> all_returned ex_start" "9 * AVAIL ex_conf = 36" by (simp_all add: all_returned_def ex_start_def ex_conf_def)
  then show ?thesis using set_role_returns [OF ex_setup ex_at_entry rtranclp.rtrancl_refl] by fastforce
qed

end
