(* ===== verification/SelfMod.thy ===== *)
theory SelfMod
  imports Pte
begin

section \<open>Self-modifying code (\<^verbatim>\<open>_find_ins.c\<close>, \<^verbatim>\<open>_prelude_size.c\<close>, \<^verbatim>\<open>_aarch64/*self.c\<close>)\<close>

text \<open>
  A test that modifies its own code works on copies of the code of its threads.  The size of a code is found by looking for
  its last return instruction; after copying, data and instruction caches are made coherent line by line, and under the
  hypervisor the pages of the copy are closed to user mode.

  Instructions are words of 32 bits.  \<open>selfbar(p)\<close> cleans the data line and invalidates the instruction line at \<open>p\<close>: the
  model records the addresses it is called with.
\<close>

subsection \<open>Looking for an instruction\<close>

fun find_loop :: "u32 \<Rightarrow> u32 list \<Rightarrow> int \<Rightarrow> nat \<Rightarrow> nat res" where
  "find_loop opcode [] skip k = Inl Undefined"
| "find_loop opcode (q # qs) skip k =
     (if q \<noteq> opcode then find_loop opcode qs skip (k + 1)
      else if skip > 0 then find_loop opcode qs (skip - 1) (k + 1)
      else Inr k)"

definition find_ins :: "u32 \<Rightarrow> u32 list \<Rightarrow> int \<Rightarrow> nat res" where
  "find_ins opcode p skip = find_loop opcode p skip 0"

definition prelude_size :: "u32 \<Rightarrow> u32 list \<Rightarrow> nat res" where
  "prelude_size nop p = find_ins nop p 0"

text \<open>The size in bytes; \<open>getret()\<close> reads the encoding of the return instruction.\<close>

definition code_size :: "u32 \<Rightarrow> u32 list \<Rightarrow> int \<Rightarrow> nat res" where
  "code_size getret p skip = bind_res (find_ins getret p skip) (\<lambda>k. Inr ((k + 1) * 4))"

subsection \<open>Cache lines\<close>

text \<open>The argument is the value of the register \<open>CTR_EL0\<close>.\<close>

definition getcachelinesize :: "u64 \<Rightarrow> u32" where
  "getcachelinesize csz =
     (let sz1 = csz AND 0xf; sz2 = drop_bit 16 csz AND 0xf; x = (if sz1 \<ge> sz2 then sz1 else sz2)
      in push_bit (unat x) 1 * 4)"

text \<open>The result is false when the program stops for lack of a feature.\<close>

definition check_dic_idc :: "int \<Rightarrow> int \<Rightarrow> u64 \<Rightarrow> bool" where
  "check_dic_idc need_dic need_idc ctr_el0 =
     (let idc = drop_bit 28 ctr_el0 AND 1; dic = drop_bit 29 ctr_el0 AND 1
      in \<not> (need_dic \<noteq> 0 \<and> dic = 0 \<or> need_idc \<noteq> 0 \<and> idc = 0))"

text \<open>The loop may run for ever (on a line of size 0, or at the end of the address space).\<close>

partial_function (option) litmus_icache_sync :: "u32 \<Rightarrow> u64 \<Rightarrow> u64 \<Rightarrow> u64 list \<Rightarrow> u64 list option" where
  "litmus_icache_sync cache_line_size vaddr vaddr_end done =
     (if vaddr < vaddr_end then
        litmus_icache_sync cache_line_size (vaddr + ucast cache_line_size) vaddr_end (done @ [vaddr])
      else Some done)"

subsection \<open>Copying code\<close>

text \<open>Memory by bytes; the areas do not overlap.\<close>

fun memcpy :: "u64 \<Rightarrow> u64 \<Rightarrow> nat \<Rightarrow> (u64 \<Rightarrow> 8 word) \<Rightarrow> u64 \<Rightarrow> 8 word" where
  "memcpy dst src 0 m = m"
| "memcpy dst src (Suc n) m = (memcpy dst src n m) (dst + of_nat n := m (src + of_nat n))"

definition presi_code_init ::
  "u32 \<Rightarrow> u64 \<Rightarrow> u64 \<Rightarrow> nat \<Rightarrow> (u64 \<Rightarrow> 8 word) \<Rightarrow> ((u64 \<Rightarrow> 8 word) \<times> u64 list) option" where
  "presi_code_init cache_line_size cod src sz m =
     (let m = memcpy cod src sz m
      in map_option (Pair m) (litmus_icache_sync cache_line_size cod (cod + of_nat sz) []))"

text \<open>
  The entries of the page tables are a map from the pages; \<open>litmus_tr_pte\<close> walks the tables to the entry of the page.
  \<open>litmus_set_pte_safe\<close> leaves the new value in the entry, up to the flags that the hardware manages (see \<open>Pte\<close>).
\<close>

partial_function (option) litmus_pte_unset_el0 ::
  "u64 \<Rightarrow> u64 \<Rightarrow> u64 \<Rightarrow> (u64 \<Rightarrow> u64) \<Rightarrow> (u64 \<Rightarrow> u64) option" where
  "litmus_pte_unset_el0 page vaddr vaddr_end ptes =
     (if vaddr < vaddr_end then
        (let pte = vaddr div page
         in litmus_pte_unset_el0 page (vaddr + page) vaddr_end (ptes(pte := ptes pte AND NOT msk_el0)))
      else Some ptes)"

definition kvm_code_init ::
  "u32 \<Rightarrow> u64 \<Rightarrow> u64 \<Rightarrow> u64 \<Rightarrow> nat \<Rightarrow> (u64 \<Rightarrow> 8 word) \<Rightarrow> (u64 \<Rightarrow> u64) \<Rightarrow>
    ((u64 \<Rightarrow> 8 word) \<times> u64 list \<times> (u64 \<Rightarrow> u64)) option" where
  "kvm_code_init cache_line_size page cod src sz m ptes =
     (let sz_pages = (of_nat sz - 1) div page + 1;
          m = memcpy cod src sz m
      in case litmus_icache_sync cache_line_size cod (cod + of_nat sz) [] of
           None \<Rightarrow> None
         | Some synced \<Rightarrow>
             map_option (\<lambda>ptes. (m, synced, ptes)) (litmus_pte_unset_el0 page cod (cod + sz_pages) ptes))"

subsection \<open>The place of an instruction\<close>

lemma find_loop_spec:
  "find_loop opcode p skip k = Inr j \<longleftrightarrow>
    k \<le> j \<and> j - k < length p \<and> p ! (j - k) = opcode \<and> count_list (take (j - k) p) opcode = nat skip"
proof (induction opcode p skip k rule: find_loop.induct)
  case (2 opcode q qs skip k)
  have step: "(k \<le> j \<and> j - k < length (q # qs) \<and> (q # qs) ! (j - k) = opcode \<and> count_list (take (j - k) (q # qs)) opcode = n) \<longleftrightarrow>
      j = k \<and> q = opcode \<and> n = 0 \<or>
      k + 1 \<le> j \<and> j - (k + 1) < length qs \<and> qs ! (j - (k + 1)) = opcode \<and>
        count_list (take (j - (k + 1)) qs) opcode + (if q = opcode then 1 else 0) = n" for n
  proof (cases "j = k")
    case False
    show ?thesis
    proof (cases "k + 1 \<le> j")
      case True
      then have "j - k = Suc (j - (k + 1))" by simp
      then show ?thesis using True False by auto
    qed (use False in auto)
  qed auto
  show ?case using 2 unfolding step by (auto simp: nat_diff_distrib)
qed simp

lemma find_loop_fails:
  "find_loop opcode p skip k = Inl e \<Longrightarrow> e = Undefined"
  by (induction opcode p skip k rule: find_loop.induct) (auto split: if_splits)

text \<open>
  \<open>find_ins\<close> gives the index of an instruction after skipping \<open>skip\<close> occurrences of it, and \<open>code_size\<close> the bytes up
  to and including it; they leave the code exactly when it has too few occurrences.
\<close>

theorem find_ins_correct:
  "(find_ins opcode p skip = Inr j \<longleftrightarrow>
      j < length p \<and> p ! j = opcode \<and> count_list (take j p) opcode = nat skip) \<and>
   (find_ins opcode p skip = Inl Undefined \<longleftrightarrow> count_list p opcode \<le> nat skip) \<and>
   (code_size opcode p skip = Inr (4 * (j + 1)) \<longleftrightarrow> find_ins opcode p skip = Inr j)"
proof -
  have one: "find_ins opcode p skip = Inr j \<longleftrightarrow> j < length p \<and> p ! j = opcode \<and> count_list (take j p) opcode = nat skip" for j
    by (simp add: find_ins_def find_loop_spec)
  have "find_loop opcode p skip k = Inl Undefined \<longleftrightarrow> count_list p opcode \<le> nat skip" for k
    by (induction opcode p skip k rule: find_loop.induct) auto
  then show ?thesis using one by (auto simp: find_ins_def code_size_def res_simps)
qed

subsection \<open>Synchronising the lines\<close>

lemma sync_addresses:
  assumes "0 < unat L" and "unat e + unat L \<le> 2 ^ 64"
  shows "\<exists>ps. litmus_icache_sync L v e acc = Some (acc @ ps) \<and>
    unat ` set ps = {a. unat v \<le> a \<and> a < unat e \<and> unat L dvd (a - unat v)}"
proof (induction "unat e - unat v" arbitrary: v acc rule: less_induct)
  case less
  show ?case
  proof (cases "v < e")
    case False
    then have "unat e \<le> unat v" by (simp add: word_less_nat_alt)
    then show ?thesis using False by (subst litmus_icache_sync.simps) auto
  next
    case True
    then have lt: "unat v < unat e" by (simp add: word_less_nat_alt)
    have "unat L < 2 ^ 64" using unsigned_less [of L] by (rule less_trans) simp
    then have w: "unat (ucast L :: u64) = unat L" by (simp add: unsigned_ucast_eq take_bit_nat_eq_self)
    have v: "unat (v + ucast L) = unat v + unat L"
      using unat_add [of v "ucast L"] lt assms(2) by (simp add: w)
    then obtain ps where ps: "litmus_icache_sync L (v + ucast L) e (acc @ [v]) = Some (acc @ [v] @ ps)"
        "unat ` set ps = {a. unat v + unat L \<le> a \<and> a < unat e \<and> unat L dvd (a - (unat v + unat L))}"
      using less [of "v + ucast L" "acc @ [v]"] lt assms(1) by fastforce
    have "litmus_icache_sync L v e acc = Some (acc @ (v # ps))"
      using True ps(1) by (subst litmus_icache_sync.simps) simp
    moreover have "a = unat v \<or> unat v + unat L \<le> a \<and> unat L dvd (a - (unat v + unat L))"
      if "unat v \<le> a" "unat L dvd (a - unat v)" for a
    proof (cases "a = unat v")
      case False
      then have "unat L \<le> a - unat v" using that by (intro dvd_imp_le) auto
      moreover from this have "unat v + unat L \<le> a" using that(1) assms(1) by linarith
      ultimately show ?thesis using dvd_diff_nat [OF that(2) dvd_refl] by simp
    qed simp
    moreover have "unat L dvd (a - unat v)" if "unat v + unat L \<le> a" "unat L dvd (a - (unat v + unat L))" for a
      using dvd_add [OF that(2) dvd_refl] that(1) by simp
    ultimately show ?thesis using lt by (intro exI [of _ "v # ps"]) (auto simp: ps(2))
  qed
qed

text \<open>Addresses in steps of \<open>L\<close> hit every line of size \<open>l\<close> only if the steps are not longer than the lines.\<close>

lemma strided_lines:
  fixes v e l L :: nat
  assumes "0 < l" and "l dvd L" and "L dvd v" and "v < e" and "0 < L"
  shows "(\<forall>a. v \<le> a \<and> a < e \<longrightarrow> (\<exists>p. v \<le> p \<and> p < e \<and> L dvd (p - v) \<and> p div l = a div l)) \<longleftrightarrow> l = L \<or> e \<le> v + l"
proof -
  have lv: "l dvd v" using assms(2,3) by (rule dvd_trans)
  have "\<exists>p. v \<le> p \<and> p < e \<and> L dvd (p - v) \<and> p div L = a div L" if "v \<le> a" "a < e" for a
  proof (intro exI conjI)
    let ?p = "a div L * L"
    show "v \<le> ?p" using div_le_mono [OF that(1), of L] assms(3) by (metis dvd_div_mult_self mult_le_mono1)
    show "?p < e" using that(2) div_times_less_eq_dividend [of a L] by linarith
    show "L dvd (?p - v)" using assms(3) by simp
    show "?p div L = a div L" using assms(5) by simp
  qed
  moreover have "\<exists>p. v \<le> p \<and> p < e \<and> L dvd (p - v) \<and> p div l = a div l" if "v \<le> a" "a < e" "e \<le> v + l" for a
  proof (intro exI conjI)
    obtain c where c: "v = l * c" using lv by (rule dvdE)
    have r: "a = v + (a - v)" "a - v < l" using that by auto
    show "v div l = a div l" by (subst r(1)) (use c r(2) in simp)
  qed (use that in auto)
  moreover have False
    if all: "\<forall>a. v \<le> a \<and> a < e \<longrightarrow> (\<exists>p. v \<le> p \<and> p < e \<and> L dvd (p - v) \<and> p div l = a div l)" and "l \<noteq> L" "\<not> e \<le> v + l"
  proof -
    obtain p where p: "v \<le> p" "L dvd (p - v)" "p div l = (v + l) div l" using all \<open>\<not> e \<le> v + l\<close> by (metis le_add1 not_le)
    obtain c where c: "v = l * c" using lv by (rule dvdE)
    obtain k where k: "L = l * k" using assms(2) by (rule dvdE)
    obtain j where j: "p - v = L * j" using p(2) by (rule dvdE)
    have "p = l * (c + k * j)" using p(1) c k j by (simp add: algebra_simps)
    then have "c + k * j = c + 1" using p(3) c assms(1) by simp
    then show False using k \<open>l \<noteq> L\<close> by auto
  qed
  ultimately show ?thesis by blast
qed

text \<open>The sizes of the lines of the two caches, in bytes.\<close>

definition iline :: "u64 \<Rightarrow> nat" where
  "iline ctr = 4 * 2 ^ unat (ctr AND 0xf)"

definition dline :: "u64 \<Rightarrow> nat" where
  "dline ctr = 4 * 2 ^ unat (drop_bit 16 ctr AND 0xf)"

definition line_done :: "nat \<Rightarrow> u64 list \<Rightarrow> nat \<Rightarrow> bool" where
  "line_done L ps a \<longleftrightarrow> (\<exists>p \<in> set ps. unat p div L = a div L)"

lemma low_four: "unat (x AND 0xf :: u64) \<le> 15"
proof -
  have "x AND 0xf \<le> 0xf" by (rule word_and_le1)
  then show ?thesis by (simp add: word_le_nat_alt)
qed

lemma line_size_max: "unat (getcachelinesize ctr) = max (iline ctr) (dline ctr)"
proof -
  have one: "unat (push_bit n 1 * 4 :: u32) = 4 * 2 ^ n" if "n \<le> 15" for n :: nat
  proof -
    have "(2 :: nat) ^ n \<le> 2 ^ 15" using that by (intro power_increasing) simp_all
    then have "4 * 2 ^ n < (2 :: nat) ^ 32" by simp
    moreover have "push_bit n 1 * 4 = (of_nat (4 * 2 ^ n) :: u32)" by (simp add: push_bit_eq_mult)
    ultimately show ?thesis by (simp only: unat_of_nat) (simp add: take_bit_nat_eq_self)
  qed
  let ?i = "ctr AND 0xf" and ?d = "drop_bit 16 ctr AND 0xf"
  have "max (4 * 2 ^ unat ?i) (4 * 2 ^ unat ?d) = (4 * 2 ^ (if ?i \<ge> ?d then unat ?i else unat ?d) :: nat)"
    by (auto simp: word_le_nat_alt max_def)
  then show ?thesis using one low_four by (simp add: getcachelinesize_def iline_def dline_def Let_def)
qed

lemma lines_dvd: "min (iline ctr) (dline ctr) dvd max (iline ctr) (dline ctr)"
proof -
  have "iline ctr dvd dline ctr \<or> dline ctr dvd iline ctr"
    using linear [of "unat (ctr AND 0xf)" "unat (drop_bit 16 ctr AND 0xf)"]
    by (auto simp: iline_def dline_def intro: le_imp_power_dvd)
  moreover have "0 < iline ctr" "0 < dline ctr" by (simp_all add: iline_def dline_def)
  ultimately show ?thesis unfolding min_def max_def by (metis dvd_imp_le order_antisym)
qed

text \<open>
  C34: The loop over the lines returns and stays within the code.  It makes every byte of the code coherent in both caches if and
  only if their lines have the same size (or the code fits in one line): it advances by the larger of the two
  sizes, so that lines of the other cache are left out.
\<close>

theorem icache_sync_covers_iff:
  assumes "getcachelinesize ctr = L" and "unat L dvd unat v" and "v < e" and "unat e + unat L \<le> 2 ^ 64"
  shows "\<exists>ps. litmus_icache_sync L v e [] = Some ps \<and> (\<forall>p \<in> set ps. v \<le> p \<and> p < e) \<and>
    ((\<forall>a. unat v \<le> a \<and> a < unat e \<longrightarrow> line_done (iline ctr) ps a \<and> line_done (dline ctr) ps a) \<longleftrightarrow>
      iline ctr = dline ctr \<or> unat e \<le> unat v + min (iline ctr) (dline ctr))"
proof -
  let ?i = "iline ctr" and ?d = "dline ctr"
  let ?l = "min ?i ?d"
  have L: "unat L = max ?i ?d" using line_size_max assms(1) by blast
  have pos: "0 < ?i" "0 < ?d" by (simp_all add: iline_def dline_def)
  then have Lpos: "0 < unat L" by (simp add: L less_max_iff_disj)
  have lt: "unat v < unat e" using assms(3) by (simp add: word_less_nat_alt)
  obtain ps where ps: "litmus_icache_sync L v e [] = Some ps"
      "unat ` set ps = {a. unat v \<le> a \<and> a < unat e \<and> unat L dvd (a - unat v)}"
    using sync_addresses [OF Lpos assms(4), of v "[]"] by auto
  have done1: "line_done l ps a \<longleftrightarrow> (\<exists>p. unat v \<le> p \<and> p < unat e \<and> unat L dvd (p - unat v) \<and> p div l = a div l)" for l a
  proof -
    have "line_done l ps a \<longleftrightarrow> (\<exists>p \<in> unat ` set ps. p div l = a div l)" by (simp add: line_done_def)
    then show ?thesis by (simp add: ps(2))
  qed
  have cover: "(\<forall>a. unat v \<le> a \<and> a < unat e \<longrightarrow> line_done l ps a) \<longleftrightarrow> l = unat L \<or> unat e \<le> unat v + l"
    if "0 < l" "l dvd unat L" for l
    unfolding done1 using strided_lines [OF that assms(2) lt Lpos] by blast
  have "?i dvd unat L" "?d dvd unat L" using lines_dvd [of ctr] by (auto simp: L min_def max_def split: if_splits)
  note ci = cover [OF pos(1) this(1)] and cd = cover [OF pos(2) this(2)]
  have "(\<forall>a. unat v \<le> a \<and> a < unat e \<longrightarrow> line_done ?i ps a \<and> line_done ?d ps a) \<longleftrightarrow>
      (?i = unat L \<or> unat e \<le> unat v + ?i) \<and> (?d = unat L \<or> unat e \<le> unat v + ?d)"
    using ci cd by blast
  also have "\<dots> \<longleftrightarrow> ?i = ?d \<or> unat e \<le> unat v + ?l" by (auto simp: L min_def max_def)
  finally have iff: "(\<forall>a. unat v \<le> a \<and> a < unat e \<longrightarrow> line_done ?i ps a \<and> line_done ?d ps a) \<longleftrightarrow>
      ?i = ?d \<or> unat e \<le> unat v + ?l" .
  have "v \<le> p \<and> p < e" if "p \<in> set ps" for p
  proof -
    have "unat p \<in> unat ` set ps" using that by (rule imageI)
    then show ?thesis unfolding ps(2) by (simp add: word_le_nat_alt word_less_nat_alt)
  qed
  then show ?thesis using ps(1) iff by blast
qed

theorem icache_sync_covers_iff_witness:
  "\<exists>ps a. litmus_icache_sync 64 0x1000 0x1100 [] = Some ps \<and> 0x1000 \<le> a \<and> a < 0x1100 \<and>
    \<not> (line_done 64 ps a \<and> line_done 32 ps a)"
proof -
  have c: "getcachelinesize 0x30004 = 64" "iline 0x30004 = 64" "dline 0x30004 = 32"
    by (simp_all add: getcachelinesize_def iline_def dline_def)
  have "(0x1000 :: u64) < 0x1100" "unat (64 :: u32) dvd unat (0x1000 :: u64)" "unat (0x1100 :: u64) + unat (64 :: u32) \<le> 2 ^ 64"
    by simp_all
  from icache_sync_covers_iff [OF c(1) this(2,1,3)] show ?thesis unfolding c by auto
qed

subsection \<open>Copies\<close>

lemma memcpy_other: "\<forall>i < n. a \<noteq> dst + of_nat i \<Longrightarrow> memcpy dst src n m a = m a"
  by (induction n) auto

lemma memcpy_copies:
  assumes "i < n" and "n \<le> 2 ^ 64"
  shows "memcpy dst src n m (dst + of_nat i) = m (src + of_nat i)"
  using assms
proof (induction n)
  case (Suc n)
  have "of_nat i \<noteq> (of_nat n :: u64)" if "i < n"
  proof -
    have "unat (of_nat i :: u64) = i" "unat (of_nat n :: u64) = n"
      using that Suc.prems(2) by (simp_all add: unat_of_nat take_bit_nat_eq_self)
    then show ?thesis using that by (metis less_irrefl)
  qed
  then show ?case using Suc by (cases "i = n") auto
qed simp

lemma code_end:
  assumes "unat cod + sz < 2 ^ 64"
  shows "unat (cod + of_nat sz :: u64) = unat cod + sz"
proof -
  have "unat (of_nat sz :: u64) = sz" using assms by (simp add: unat_of_nat take_bit_nat_eq_self)
  then show ?thesis using unat_add [of cod "of_nat sz"] assms by simp
qed

text \<open>
  On the machines whose caches have lines of the same size \<open>code_init\<close> leaves an exact copy of the code, coherent in both
  caches, and changes no byte outside of the copy.
\<close>

theorem code_init_copies:
  assumes "getcachelinesize ctr = L" and "iline ctr = dline ctr" and "unat L dvd unat cod" and "0 < sz"
    and "unat cod + sz + unat L \<le> 2 ^ 64"
  shows "\<exists>m' ps. presi_code_init L cod src sz m = Some (m', ps) \<and>
    (\<forall>i < sz. m' (cod + of_nat i) = m (src + of_nat i) \<and> line_done (iline ctr) ps (unat (cod + of_nat i))) \<and>
    (\<forall>a. (\<forall>i < sz. a \<noteq> cod + of_nat i) \<longrightarrow> m' a = m a)"
proof -
  have "unat L = iline ctr" using line_size_max [of ctr] assms(1,2) by simp
  moreover have "0 < iline ctr" by (simp add: iline_def)
  ultimately have L: "0 < unat L" "unat L = iline ctr" by simp_all
  have e: "unat (cod + of_nat i) = unat cod + i" if "i \<le> sz" for i
    using that assms(5) L(1) by (intro code_end) linarith
  have lt: "cod < cod + of_nat sz" using e [of sz] assms(4) by (simp add: word_less_nat_alt)
  obtain ps where ps: "litmus_icache_sync L cod (cod + of_nat sz) [] = Some ps"
      "unat ` set ps = {a. unat cod \<le> a \<and> a < unat cod + sz \<and> unat L dvd (a - unat cod)}"
    using sync_addresses [OF L(1), of "cod + of_nat sz" cod "[]"] e [of sz] assms(5) by auto
  have "line_done (iline ctr) ps a" if "unat cod \<le> a" "a < unat cod + sz" for a
  proof -
    have "\<exists>p. unat cod \<le> p \<and> p < unat cod + sz \<and> unat L dvd (p - unat cod) \<and> p div unat L = a div unat L"
      using strided_lines [OF L(1) dvd_refl assms(3) _ L(1), of "unat cod + sz"] that assms(4) by simp
    then have "\<exists>q \<in> unat ` set ps. q div unat L = a div unat L" by (auto simp: ps(2))
    then show ?thesis by (simp add: line_done_def L(2))
  qed
  then have "line_done (iline ctr) ps (unat (cod + of_nat i))" if "i < sz" for i
    using that by (simp add: e)
  moreover have "sz \<le> 2 ^ 64" using assms(5) by linarith
  ultimately show ?thesis using ps(1) memcpy_copies [of _ sz cod src m] memcpy_other [of sz _ cod src m]
    by (simp add: presi_code_init_def)
qed

theorem code_init_copies_witness:
  "\<exists>m' ps. presi_code_init 64 0x2000 0x1000 100 (\<lambda>a. ucast a) = Some (m', ps) \<and> m' 0x2042 = 0x42 \<and> line_done 64 ps 0x2042 \<and>
    m' 0x3007 = 7"
proof -
  have c: "getcachelinesize 0x40004 = 64" "iline 0x40004 = 64" "dline 0x40004 = 64"
    by (simp_all add: getcachelinesize_def iline_def dline_def)
  obtain m' ps where m: "presi_code_init 64 0x2000 0x1000 100 (\<lambda>a. ucast a) = Some (m', ps)"
    and copied: "\<And>i. i < 100 \<Longrightarrow> m' (0x2000 + of_nat i) = ucast (0x1000 + of_nat i :: u64) \<and>
      line_done 64 ps (unat (0x2000 + of_nat i :: u64))"
    and rest: "\<And>a. (\<forall>i < 100. a \<noteq> 0x2000 + of_nat i) \<Longrightarrow> m' a = ucast a"
    using code_init_copies [OF c(1), where cod = "0x2000" and sz = 100 and src = "0x1000" and m = "\<lambda>a. ucast a"] unfolding c by auto
  have "(0x3007 :: u64) \<noteq> 0x2000 + of_nat i" if "i < 100" for i
  proof
    assume "(0x3007 :: u64) = 0x2000 + of_nat i"
    moreover have "unat (0x2000 + of_nat i :: u64) = 0x2000 + i" using code_end [of "0x2000" i] that by simp
    ultimately have "unat (0x3007 :: u64) = 0x2000 + i" by (simp only:)
    then show False using that by simp
  qed
  then have "m' 0x3007 = 7" using rest [of "0x3007"] by simp
  moreover have "m' 0x2042 = 0x42" "line_done 64 ps 0x2042" using copied [of "0x42"] by simp_all
  ultimately show ?thesis using m by blast
qed

text \<open>
  Under the hypervisor only the first page of the copy is closed to user mode, whatever the size of the code: the end of the
  loop is the address of the copy plus the number of its pages, not of its bytes.
\<close>

theorem kvm_code_init_first_page:
  assumes "0 < unat L" and "0 < sz" and "unat cod + sz + unat L \<le> 2 ^ 64" and "0 < unat page" and "unat cod + unat page < 2 ^ 64"
    and "sz \<le> unat page * unat page"
  shows "\<exists>m' ps. kvm_code_init L page cod src sz m ptes =
    Some (m', ps, ptes(cod div page := ptes (cod div page) AND NOT msk_el0))"
proof -
  define s where "s = (of_nat sz - 1) div page + 1"
  have sz: "unat (of_nat sz :: u64) = sz" using assms(1,3) by (simp add: unat_of_nat take_bit_nat_eq_self)
  have "unat (of_nat sz - 1 :: u64) = sz - 1" using sz assms(2) by (subst unat_sub) (simp_all add: word_le_nat_alt)
  then have d: "unat ((of_nat sz - 1) div page) = (sz - 1) div unat page" by (simp add: unat_div)
  have less: "(sz - 1) div unat page < unat page" using assms(2,6) by (simp add: less_mult_imp_div_less)
  have s: "unat s = (sz - 1) div unat page + 1"
    unfolding s_def using unat_add [of "(of_nat sz - 1) div page" 1] d less assms(5) by simp
  then have e: "unat (cod + s) = unat cod + unat s" using unat_add [of cod s] less assms(5) by simp
  have "cod < cod + s" using e s by (simp add: word_less_nat_alt)
  moreover have "\<not> cod + page < cod + s"
    using e s less unat_add [of cod page] assms(5) by (simp add: word_less_nat_alt)
  ultimately have "litmus_pte_unset_el0 page cod (cod + s) ptes = Some (ptes(cod div page := ptes (cod div page) AND NOT msk_el0))"
    by (subst litmus_pte_unset_el0.simps) (simp add: Let_def litmus_pte_unset_el0.simps)
  moreover obtain ps where "litmus_icache_sync L cod (cod + of_nat sz) [] = Some ps"
    using sync_addresses [OF assms(1), of "cod + of_nat sz" cod "[]"] code_end [of cod sz] assms(1,3) by auto
  ultimately show ?thesis by (simp add: kvm_code_init_def s_def Let_def)
qed

theorem kvm_code_init_first_page_witness:
  "\<exists>m' ps ptes'. kvm_code_init 64 0x1000 0x8000 0x4000 0x2001 (\<lambda>_. 0) (\<lambda>_. 0x43) = Some (m', ps, ptes') \<and>
    ptes' 8 = 0x3 \<and> ptes' 9 = 0x43 \<and> ptes' 0xa = 0x43"
  using kvm_code_init_first_page [where L = 64 and sz = "0x2001" and cod = "0x8000" and page = "0x1000" and src = "0x4000" and m = "\<lambda>_. 0"
    and ptes = "\<lambda>_. 0x43"]
  by (auto simp: msk_el0_def)

end
