(* ===== verification/Timebase.thy ===== *)
theory Timebase
  imports Litmus_Base
begin

section \<open>Clocks (\<^verbatim>\<open>_ppc/timebase32.c\<close>, \<^verbatim>\<open>_utils.c\<close>)\<close>

text \<open>
  A 32-bit Power processor reads its 64-bit time base in two halves.  \<open>clock k\<close> is the value of the time base when the
  \<open>k\<close>-th instruction from some moment on is executed; the loop has five instructions.
\<close>

definition mftbu :: "u64 \<Rightarrow> u32" where
  "mftbu tb = ucast (drop_bit 32 tb)"

definition mftb :: "u64 \<Rightarrow> u32" where
  "mftb tb = ucast tb"

text \<open>The result is the value read and the number of the next instruction; the loop may not end.\<close>

partial_function (option) read_loop :: "(nat \<Rightarrow> u64) \<Rightarrow> nat \<Rightarrow> (u32 \<times> u32 \<times> nat) option" where
  "read_loop clock k =
     (let r1 = mftbu (clock k); r2 = mftb (clock (k + 1)); r3 = mftbu (clock (k + 2))
      in if r1 = r3 then Some (r1, r2, k + 5) else read_loop clock (k + 5))"

definition read_timebase :: "(nat \<Rightarrow> u64) \<Rightarrow> nat \<Rightarrow> (u64 \<times> nat) option" where
  "read_timebase clock k =
     map_option (\<lambda>(r1, r2, k). let r = ucast r2; r = r OR push_bit 32 (ucast r1) in (r, k)) (read_loop clock k)"

text \<open>\<open>gettimeofday\<close> gives seconds and microseconds, or fails.\<close>

definition timeofday :: "(int \<times> int) option \<Rightarrow> u64 res" where
  "timeofday tv = (case tv of None \<Rightarrow> Inl (Errexit ''gettimeoday'')
     | Some (tv_sec, tv_usec) \<Rightarrow> Inr (of_int tv_sec * 1000000 + of_int tv_usec))"

subsection \<open>The halves of a word\<close>

lemma mftbu_unat: "unat (mftbu w) = unat w div 2 ^ 32"
proof -
  have lt: "unat w < 2 ^ 64" by (rule order_less_le_trans [OF unsigned_less]) simp
  have "unat (mftbu w) = take_bit 32 (unat (drop_bit 32 w))" by (simp add: mftbu_def unsigned_ucast_eq)
  also have "unat (drop_bit 32 w) = unat w div 2 ^ 32"
    using lt by (simp only: unsigned_drop_bit_eq) (simp add: drop_bit_eq_div take_bit_nat_eq_self)
  also have "take_bit 32 (unat w div 2 ^ 32) = unat w div 2 ^ 32"
  proof (rule take_bit_nat_eq_self)
    show "unat w div 2 ^ 32 < 2 ^ 32" using lt by (simp add: less_mult_imp_div_less)
  qed
  finally show ?thesis .
qed

lemma join_halves: "ucast (mftb w) OR push_bit 32 (ucast (mftbu w)) = w"
  by (rule bit_word_eqI) (auto simp: mftb_def mftbu_def bit_simps)

text \<open>If the upper half is the same before and after, it is the upper half in between.\<close>

lemma upper_between:
  assumes "a \<le> b" and "b \<le> c" and "mftbu a = mftbu c"
  shows "mftbu b = mftbu a"
proof -
  have "unat (mftbu a) \<le> unat (mftbu b)" "unat (mftbu b) \<le> unat (mftbu c)"
    using assms(1,2) by (simp_all add: mftbu_unat word_le_nat_alt div_le_mono)
  then show ?thesis using assms(3) by (simp add: word_unat_eq_iff)
qed

definition never_back :: "(nat \<Rightarrow> u64) \<Rightarrow> bool" where
  "never_back clock \<longleftrightarrow> (\<forall>i j. i \<le> j \<longrightarrow> clock i \<le> clock j)"

lemma one_read:
  assumes "never_back clock" and "mftbu (clock k) = mftbu (clock (k + 2))"
  shows "mftbu (clock (k + 1)) = mftbu (clock k)"
  by (rule upper_between [of _ _ "clock (k + 2)"]) (use assms in \<open>simp_all add: never_back_def\<close>)

text \<open>The result comes from the first iteration in which the upper half does not change.\<close>

definition read_at :: "(nat \<Rightarrow> u64) \<Rightarrow> nat \<Rightarrow> u32 \<times> u32 \<times> nat \<Rightarrow> bool" where
  "read_at clock k = (\<lambda>(r1, r2, k'). \<exists>n. k' = k + 5 * n + 5 \<and> mftbu (clock (k + 5 * n)) = mftbu (clock (k + 5 * n + 2)) \<and>
     r1 = mftbu (clock (k + 5 * n)) \<and> r2 = mftb (clock (k + 5 * n + 1)))"

lemma read_at_later:
  assumes "read_at clock (k + 5) res"
  shows "read_at clock k res"
proof -
  obtain r1 r2 k' where res: "res = (r1, r2, k')" by (rule prod_cases3)
  have shift: "k + 5 + 5 * n = k + 5 * Suc n" for n by simp
  show ?thesis using assms unfolding res read_at_def prod.case shift by blast
qed

lemma read_loop_reads:
  assumes "read_loop clock k = Some res"
  shows "read_at clock k res"
proof (rule read_loop.raw_induct [where P = read_at, OF _ assms])
  fix f :: "(nat \<Rightarrow> u64) \<Rightarrow> nat \<Rightarrow> (u32 \<times> u32 \<times> nat) option" and clock k res
  assume ih: "\<And>clock k res. f clock k = Some res \<Longrightarrow> read_at clock k res"
    and res: "(let r1 = mftbu (clock k); r2 = mftb (clock (k + 1)); r3 = mftbu (clock (k + 2))
      in if r1 = r3 then Some (r1, r2, k + 5) else f clock (k + 5)) = Some res"
  show "read_at clock k res"
  proof (cases "mftbu (clock k) = mftbu (clock (k + 2))")
    case True
    then have "res = (mftbu (clock k), mftb (clock (k + 1)), k + 5)" using res by (simp add: Let_def)
    then show ?thesis using True by (simp add: read_at_def)
  next
    case False
    then have "f clock (k + 5) = Some res" using res by (simp add: Let_def)
    then show ?thesis by (rule read_at_later [OF ih])
  qed
qed

lemma read_loop_returns:
  "mftbu (clock (k + 5 * n)) = mftbu (clock (k + 5 * n + 2)) \<Longrightarrow> \<exists>res. read_loop clock k = Some res"
proof (induction n arbitrary: k)
  case 0
  then show ?case by (subst read_loop.simps) (simp add: Let_def)
next
  case (Suc n)
  have "k + 5 * Suc n = (k + 5) + 5 * n" by simp
  then have "\<exists>res. read_loop clock (k + 5) = Some res" using Suc.IH [of "k + 5"] Suc.prems by (simp only:)
  then show ?case by (subst read_loop.simps) (simp add: Let_def)
qed

text \<open>
  C33: As long as the time base does not go back, what \<open>read_timebase\<close> puts together from its three reads is a value that
  the time base really had while the function ran, also when the lower half wraps around in between; and the
  function returns if and only if in some iteration the upper half stays the same.
\<close>

theorem read_timebase_exact:
  assumes "never_back clock"
  shows "(\<forall>r k'. read_timebase clock k = Some (r, k') \<longrightarrow> (\<exists>j. k \<le> j \<and> j < k' \<and> r = clock j)) \<and>
    ((\<exists>r k'. read_timebase clock k = Some (r, k')) \<longleftrightarrow>
      (\<exists>n. mftbu (clock (k + 5 * n)) = mftbu (clock (k + 5 * n + 2))))"
proof -
  have "\<exists>j. k \<le> j \<and> j < k' \<and> r = clock j" if ret: "read_timebase clock k = Some (r, k')" for r k'
  proof -
    obtain r1 r2 where l: "read_loop clock k = Some (r1, r2, k')" "r = ucast r2 OR push_bit 32 (ucast r1)"
      using ret by (auto simp: read_timebase_def Let_def)
    obtain n where n: "k' = k + 5 * n + 5" "mftbu (clock (k + 5 * n)) = mftbu (clock (k + 5 * n + 2))"
        "r1 = mftbu (clock (k + 5 * n))" "r2 = mftb (clock (k + 5 * n + 1))"
      using read_loop_reads [OF l(1)] unfolding read_at_def by blast
    have "r = clock (k + 5 * n + 1)"
      unfolding l(2) n(3,4) one_read [OF assms n(2), symmetric] by (rule join_halves)
    then show ?thesis using n(1) by (intro exI [of _ "k + 5 * n + 1"]) simp
  qed
  moreover have "(\<exists>r k'. read_timebase clock k = Some (r, k')) \<longleftrightarrow> (\<exists>res. read_loop clock k = Some res)"
    by (auto simp: read_timebase_def Let_def)
  moreover have "(\<exists>res. read_loop clock k = Some res) \<longleftrightarrow> (\<exists>n. mftbu (clock (k + 5 * n)) = mftbu (clock (k + 5 * n + 2)))"
    using read_loop_returns [of clock k] read_loop_reads [of clock k] by (auto simp: read_at_def)
  ultimately show ?thesis by blast
qed

text \<open>A clock whose lower half wraps around between the two instructions after the first.\<close>

definition ex_clock :: "nat \<Rightarrow> u64" where
  "ex_clock k = (if k < 2 then 0x1FFFFFFFF else 0x200000000)"

theorem read_timebase_exact_witness:
  "\<exists>r k' j. read_timebase ex_clock 0 = Some (r, k') \<and> j < k' \<and> r = ex_clock j"
proof -
  have "never_back ex_clock" by (auto simp: never_back_def ex_clock_def)
  moreover have "mftbu (ex_clock (0 + 5 * 1)) = mftbu (ex_clock (0 + 5 * 1 + 2))" by (simp add: ex_clock_def)
  ultimately show ?thesis using read_timebase_exact [of ex_clock 0] by blast
qed

subsection \<open>The other clocks\<close>

text \<open>
  \<open>rdtsc\<close> gives the two halves of the counter of x86 in one instruction; 64-bit Power and AArch64 read their counter
  at once.
\<close>

definition rdtsc :: "u64 \<Rightarrow> u32 \<times> u32" where
  "rdtsc tsc = (ucast tsc, ucast (drop_bit 32 tsc))"

definition x86_read_timebase :: "u64 \<Rightarrow> u64" where
  "x86_read_timebase tsc = (let (a, d) = rdtsc tsc in ucast a OR push_bit 32 (ucast d))"

definition kvm_x86_read_timebase :: "u64 \<Rightarrow> u64" where
  "kvm_x86_read_timebase tsc = (let (a, d) = rdtsc tsc; r = ucast a OR push_bit 32 (ucast d) in r)"

definition ppc64_read_timebase :: "u64 \<Rightarrow> u64" where
  "ppc64_read_timebase tb = tb"

definition kvm_aarch64_read_timebase :: "u64 \<Rightarrow> u64" where
  "kvm_aarch64_read_timebase cntpct = cntpct"

text \<open>Without an operating system the time in microseconds comes from the counters; a frequency of 0 is undefined.\<close>

definition kvm_x86_gettimeofday :: "u64 \<Rightarrow> u64" where
  "kvm_x86_gettimeofday tsc = (let (a, d) = rdtsc tsc; r = ucast a OR push_bit 32 (ucast d) in r div 2200)"

definition kvm_aarch64_gettimeofday :: "u64 \<Rightarrow> u64 \<Rightarrow> u64 res" where
  "kvm_aarch64_gettimeofday cycles freq = (if freq = 0 then Inl Undefined else Inr ((cycles * 1000000) div freq))"

text \<open>The halves are those of one value, so the time base is exact.\<close>

theorem x86_timebase_exact: "x86_read_timebase tsc = tsc" "kvm_x86_read_timebase tsc = tsc" "kvm_x86_gettimeofday tsc = tsc div 2200"
  using join_halves [of tsc]
  by (simp_all add: x86_read_timebase_def kvm_x86_read_timebase_def kvm_x86_gettimeofday_def rdtsc_def mftb_def mftbu_def Let_def)

text \<open>
  On AArch64 the product of the counter by a million is exact up to \<open>2 ^ 64\<close>; a counter at 62.5 MHz goes beyond within 82 hours, and
  the time falls back to 0.
\<close>

theorem kvm_aarch64_time_exact:
  assumes "unat cycles * 1000000 < 2 ^ 64" and "freq \<noteq> 0"
  shows "\<exists>t. kvm_aarch64_gettimeofday cycles freq = Inr t \<and> unat t = unat cycles * 1000000 div unat freq"
proof -
  have "unat (cycles * 1000000) = unat cycles * unat (1000000 :: u64)"
    using assms(1) by (subst unat_mult_lem [symmetric]) simp
  then show ?thesis using assms(2) by (simp add: kvm_aarch64_gettimeofday_def unat_div)
qed

theorem kvm_aarch64_time_wraps:
  "\<exists>c c'. c < c' \<and> kvm_aarch64_gettimeofday c 62500000 = Inr 295147905179 \<and> kvm_aarch64_gettimeofday c' 62500000 = Inr 0"
  by (rule exI [of _ "18446744073709"], rule exI [of _ "18446744073710"]) (simp add: kvm_aarch64_gettimeofday_def)

subsection \<open>Waking processors up\<close>

text \<open>
  \<open>warm_up\<close> (\<^verbatim>\<open>_linux_affinity.c\<close>) keeps \<open>n\<close> threads busy for a while: each reads the clock until it is past the
  deadline.  \<open>clock j k\<close> is the \<open>k\<close>-th reading of thread \<open>j\<close>; the result is the number of readings of each thread.
\<close>

partial_function (option) busy_loop :: "(nat \<Rightarrow> u64) \<Rightarrow> u64 \<Rightarrow> nat \<Rightarrow> nat option" where
  "busy_loop clock d k = (if clock k < d then busy_loop clock d (Suc k) else Some (Suc k))"

fun join_all :: "nat option list \<Rightarrow> nat list option" where
  "join_all [] = Some []"
| "join_all (x # xs) = (case x of None \<Rightarrow> None | Some n \<Rightarrow> map_option (Cons n) (join_all xs))"

definition warm_up :: "(nat \<Rightarrow> nat \<Rightarrow> u64) \<Rightarrow> u64 \<Rightarrow> nat \<Rightarrow> u64 \<Rightarrow> nat list option" where
  "warm_up clock now n d = (let d = d + now in join_all (map (\<lambda>j. busy_loop (clock j) d 0) [0..<n]))"

lemma busy_loop_waits: "\<forall>i<n. clock (k + i) < d \<Longrightarrow> busy_loop clock d k = busy_loop clock d (k + n)"
proof (induction n arbitrary: k)
  case (Suc n)
  have "clock k < d" using Suc.prems by (auto dest: spec [of _ 0])
  then have "busy_loop clock d k = busy_loop clock d (Suc k)" by (simp add: busy_loop.simps [of clock d k])
  also have "\<dots> = busy_loop clock d (Suc k + n)" using Suc.prems by (intro Suc.IH) auto
  finally show ?case by simp
qed simp

lemma busy_loop_runs: "busy_loop clock d k = Some n \<Longrightarrow> k < n \<and> d \<le> clock (n - 1)"
proof (induction rule: busy_loop.raw_induct [rotated, consumes 1, case_names step])
  case (step f clock d k n)
  then show ?case by (auto split: if_splits) (use Suc_lessD in blast)
qed

theorem busy_loop_returns_iff: "(\<exists>n. busy_loop clock d 0 = Some n) \<longleftrightarrow> (\<exists>k. d \<le> clock k)"
proof
  assume "\<exists>k. d \<le> clock k"
  then have "d \<le> clock (LEAST k. d \<le> clock k)" "\<forall>i < (LEAST k. d \<le> clock k). clock (0 + i) < d"
    by (auto intro: LeastI_ex dest: not_less_Least simp: not_le)
  then show "\<exists>n. busy_loop clock d 0 = Some n"
    using busy_loop_waits [of "LEAST k. d \<le> clock k" clock 0 d] busy_loop.simps [of clock d "LEAST k. d \<le> clock k"] by auto
qed (auto dest: busy_loop_runs)

lemma join_all_returns: "(\<exists>ns. join_all xs = Some ns) \<longleftrightarrow> None \<notin> set xs"
  by (induction xs) (auto split: option.splits)

text \<open>\<open>warm_up\<close> returns if and only if the clock of each thread gets past the deadline.\<close>

theorem warm_up_returns_iff: "(\<exists>ns. warm_up clock now n d = Some ns) \<longleftrightarrow> (\<forall>j<n. \<exists>k. d + now \<le> clock j k)"
proof -
  have "(\<exists>ns. warm_up clock now n d = Some ns) \<longleftrightarrow> (\<forall>j<n. busy_loop (clock j) (d + now) 0 \<noteq> None)"
    unfolding warm_up_def Let_def join_all_returns by (auto simp: image_iff) (metis atLeastLessThan_iff option.exhaust zero_le)
  then show ?thesis using busy_loop_returns_iff by auto
qed

end
