(* ===== verification/Klitmus.thy ===== *)
theory Klitmus
  imports Litmus_Base
begin

section \<open>Memory types (\<^verbatim>\<open>_x86_64/klitmus_memory_type.c\<close>)\<close>

text \<open>
  Tests that run as a kernel module allocate their variables in pages of a given memory type.  The functions of the kernel
  are a parameter, on a state \<open>'k\<close> of the kernel; a page is identified with its address, so that \<open>virt_to_page\<close> is the
  identity.  \<open>store_page\<close> is the assignment to a cell of an array of pages, which is in the memory of the kernel.
\<close>

datatype pat_t = PAT_UC | PAT_WC | PAT_WT | PAT_WP | PAT_WB

record 'k kernel =
  page_size :: u64
  set_memory_uc :: "u64 \<Rightarrow> nat \<Rightarrow> 'k \<Rightarrow> int \<times> 'k"
  set_memory_wc :: "u64 \<Rightarrow> nat \<Rightarrow> 'k \<Rightarrow> int \<times> 'k"
  set_memory_wb :: "u64 \<Rightarrow> nat \<Rightarrow> 'k \<Rightarrow> int \<times> 'k"
  set_pages_array_wt :: "u64 \<Rightarrow> nat \<Rightarrow> 'k \<Rightarrow> int \<times> 'k"
  kmalloc_array :: "nat \<Rightarrow> 'k \<Rightarrow> u64 \<times> 'k"
  store_page :: "u64 \<Rightarrow> nat \<Rightarrow> u64 \<Rightarrow> 'k \<Rightarrow> 'k"
  kfree :: "u64 \<Rightarrow> 'k \<Rightarrow> 'k"
  get_free_pages :: "nat \<Rightarrow> 'k \<Rightarrow> u64 \<times> 'k"
  free_pages :: "u64 \<Rightarrow> nat \<Rightarrow> 'k \<Rightarrow> 'k"

text \<open>The order of a block: the loop does not end when \<open>max\<close> overflows before it reaches \<open>sz\<close>.\<close>

partial_function (option) opages_loop :: "u64 \<Rightarrow> u64 \<Rightarrow> nat \<Rightarrow> nat option" where
  "opages_loop sz mx r = (if sz > mx then opages_loop sz (mx * 2) (r + 1) else Some r)"

definition opages :: "u64 \<Rightarrow> u64 \<Rightarrow> nat option" where
  "opages page sz = opages_loop sz page 0"

text \<open>\<open>1 << op\<close> on \<open>int\<close>.\<close>

definition shl_one :: "nat \<Rightarrow> nat res" where
  "shl_one k = (if k < 31 then Inr (2 ^ k) else Inl Undefined)"

text \<open>The loop that fills the array \<open>pages\<close>, with the number of turns left.\<close>

fun fill_pages :: "'k kernel \<Rightarrow> u64 \<Rightarrow> nat \<Rightarrow> nat \<Rightarrow> u64 \<Rightarrow> 'k \<Rightarrow> 'k" where
  "fill_pages K pages 0 k addr s = s"
| "fill_pages K pages (Suc n) k addr s =
     fill_pages K pages n (k + 1) (addr + page_size K) (store_page K pages k addr s)"

definition klitmus_set_memory :: "'k kernel \<Rightarrow> pat_t \<Rightarrow> u64 \<Rightarrow> nat \<Rightarrow> 'k \<Rightarrow> int \<times> 'k" where
  "klitmus_set_memory K pat addr numpages s =
     (case pat of
        PAT_UC \<Rightarrow> set_memory_uc K addr numpages s
      | PAT_WC \<Rightarrow> set_memory_wc K addr numpages s
      | PAT_WT \<Rightarrow>
          (let (pages, s) = kmalloc_array K numpages s
           in if pages = 0 then (-1, s)
              else (let s = fill_pages K pages numpages 0 addr s;
                        (ret, s) = set_pages_array_wt K pages numpages s
                    in (ret, kfree K pages s)))
      | PAT_WB \<Rightarrow> set_memory_wb K addr numpages s
      | PAT_WP \<Rightarrow> (-1, s))"

definition klitmus_free_pat :: "'k kernel \<Rightarrow> u64 \<Rightarrow> u64 \<Rightarrow> 'k \<Rightarrow> 'k res" where
  "klitmus_free_pat K p sz s =
     bind_res (of_option Diverges (opages (page_size K) sz)) (\<lambda>op1.
     bind_res (shl_one op1) (\<lambda>n.
       let s = snd (set_memory_wb K p n s) in Inr (free_pages K p op1 s)))"

definition klitmus_alloc_pat :: "'k kernel \<Rightarrow> pat_t \<Rightarrow> u64 \<Rightarrow> 'k \<Rightarrow> (u64 \<times> 'k) res" where
  "klitmus_alloc_pat K pat sz s =
     bind_res (of_option Diverges (opages (page_size K) sz)) (\<lambda>op1.
       let (r, s) = get_free_pages K op1 s
       in if r = 0 then Inr (r, s)
          else bind_res (shl_one op1) (\<lambda>n.
            let (ret, s) = klitmus_set_memory K pat r n s
            in if ret \<noteq> 0 then bind_res (klitmus_free_pat K r sz s) (\<lambda>s. Inr (0, s))
               else Inr (r, s)))"

subsection \<open>The order of a block\<close>

lemma double_power:
  assumes "unat mx = 2 ^ c" and "c < 63"
  shows "unat (mx * 2 :: u64) = 2 ^ Suc c"
proof -
  have "(2 :: nat) ^ Suc c \<le> 2 ^ 63" using assms(2) by (intro power_increasing) simp_all
  then have "unat mx * unat (2 :: u64) < 2 ^ LENGTH(64)" using assms(1) by simp
  then have "unat (mx * 2) = unat mx * unat (2 :: u64)" by (metis unat_mult_lem)
  then show ?thesis using assms(1) by simp
qed

lemma opages_loop_least:
  assumes "unat mx = 2 ^ c" and "c \<le> 63" and "unat sz \<le> 2 ^ 63"
  shows "\<exists>j. opages_loop sz mx r = Some (r + j) \<and> unat sz \<le> 2 ^ (c + j) \<and> (\<forall>i < j. 2 ^ (c + i) < unat sz)"
  using assms(1,2)
proof (induction "63 - c" arbitrary: c mx r)
  case 0
  then have "c = 63" by simp
  then have "\<not> sz > mx" using 0 assms(3) by (simp add: word_less_nat_alt)
  then show ?case using 0 assms(3) \<open>c = 63\<close> by (subst opages_loop.simps) (auto intro!: exI [of _ 0])
next
  case (Suc d)
  show ?case
  proof (cases "sz > mx")
    case False
    then show ?thesis using Suc.prems by (subst opages_loop.simps) (auto simp: word_less_nat_alt intro!: exI [of _ 0])
  next
    case True
    have c: "c < 63" using Suc.hyps(2) by simp
    obtain j where j: "opages_loop sz (mx * 2) (r + 1) = Some (r + 1 + j)" "unat sz \<le> 2 ^ (Suc c + j)"
        "\<forall>i < j. 2 ^ (Suc c + i) < unat sz"
    proof -
      have "d = 63 - Suc c" "Suc c \<le> 63" using Suc.hyps(2) c by simp_all
      then show thesis using Suc.hyps(1) [OF _ double_power [OF Suc.prems(1) c], of "r + 1"] that by blast
    qed
    have "2 ^ (c + i) < unat sz" if "i < Suc j" for i
      using j(3) that True Suc.prems(1) by (cases i) (auto simp: word_less_nat_alt)
    then show ?thesis using True j(1,2) by (subst opages_loop.simps) (auto intro!: exI [of _ "Suc j"])
  qed
qed

definition power_or_zero :: "u64 \<Rightarrow> bool" where
  "power_or_zero mx \<longleftrightarrow> mx = 0 \<or> (\<exists>c \<le> 63. unat mx = 2 ^ c)"

lemma power_or_zero_double: "power_or_zero mx \<Longrightarrow> power_or_zero (mx * 2)"
proof (unfold power_or_zero_def, elim disjE exE conjE)
  fix c assume c: "c \<le> 63" "unat mx = 2 ^ c"
  show "mx * 2 = 0 \<or> (\<exists>c \<le> 63. unat (mx * 2) = 2 ^ c)"
  proof (cases "c = 63")
    case False
    then have "c < 63" using c(1) by simp
    then show ?thesis using double_power [OF c(2)] by (intro disjI2 exI [of _ "Suc c"]) simp
  next
    case True
    then have "mx = of_nat (2 ^ 63)" using c(2) by (simp add: word_unat_eq_iff)
    then show ?thesis by simp
  qed
qed simp

lemma power_or_zero_le: "power_or_zero mx \<Longrightarrow> unat mx \<le> 2 ^ 63"
  using power_increasing [of _ 63 "2 :: nat"] by (auto simp: power_or_zero_def)

lemma opages_loop_bound:
  assumes "opages_loop sz mx r = Some y"
  shows "power_or_zero mx \<longrightarrow> unat sz \<le> 2 ^ 63"
proof (rule opages_loop.raw_induct [where P = "\<lambda>sz mx r y. power_or_zero mx \<longrightarrow> unat sz \<le> 2 ^ 63", OF _ assms])
  fix f sz mx r y
  assume "\<And>sz mx r y. f sz mx r = Some y \<Longrightarrow> power_or_zero mx \<longrightarrow> unat sz \<le> 2 ^ 63"
    and "(if mx < sz then f sz (mx * 2) (r + 1) else Some r) = Some y"
  then show "power_or_zero mx \<longrightarrow> unat sz \<le> 2 ^ 63"
    using power_or_zero_double power_or_zero_le by (fastforce simp: word_less_nat_alt split: if_splits)
qed

text \<open>
  \<open>opages\<close> gives the least order of a block that has room for the size; it returns exactly for the sizes
  up to \<open>2 ^ 63\<close>, beyond which its bound overflows to zero.
\<close>

theorem opages_least:
  assumes "unat page = 2 ^ b" and "b \<le> 63"
  shows "((\<exists>r. opages page sz = Some r) \<longleftrightarrow> unat sz \<le> 2 ^ 63) \<and>
    (\<forall>r. opages page sz = Some r \<longrightarrow> unat sz \<le> unat page * 2 ^ r \<and> (\<forall>i < r. unat page * 2 ^ i < unat sz))"
proof -
  have "power_or_zero page" using assms by (auto simp: power_or_zero_def)
  then have "unat sz \<le> 2 ^ 63" if "opages page sz = Some r" for r
    using opages_loop_bound that by (auto simp: opages_def)
  then show ?thesis using opages_loop_least [OF assms, of sz 0] assms(1)
    by (auto simp: opages_def power_add)
qed

theorem opages_least_witness:
  "(\<exists>r. opages 4096 10000 = Some r \<and> 10000 \<le> 4096 * (2 :: nat) ^ r) \<and> opages 4096 (2 ^ 63 + 1) = None"
proof -
  have p: "unat (4096 :: u64) = 2 ^ 12" "(12 :: nat) \<le> 63" by simp_all
  obtain r where r: "opages 4096 10000 = Some r" using opages_least [OF p, of 10000] by auto
  then have "10000 \<le> 4096 * (2 :: nat) ^ r" using opages_least [OF p, of 10000] by auto
  moreover have "opages 4096 (2 ^ 63 + 1) = None" using opages_least [OF p, of "2 ^ 63 + 1"] by auto
  ultimately show ?thesis using r by blast
qed

subsection \<open>What the kernel promises\<close>

text \<open>
  The observers \<open>blocks\<close> (the blocks of pages in use, with their orders), \<open>attr\<close> (the memory type of a page) and \<open>objs\<close>
  (the arrays that \<open>kmalloc_array\<close> has given out and \<open>kfree\<close> has not taken back, with their contents).  A block is fresh, a
  change of type that succeeds changes the pages it is asked for, one that fails may have changed some of them.
\<close>

fun page_list :: "u64 \<Rightarrow> nat \<Rightarrow> u64 \<Rightarrow> u64 list" where
  "page_list page 0 addr = []"
| "page_list page (Suc n) addr = addr # page_list page n (addr + page)"

definition in_block :: "u64 \<Rightarrow> (u64 \<Rightarrow> nat option) \<Rightarrow> u64 \<Rightarrow> bool" where
  "in_block page bs p \<longleftrightarrow> (\<exists>b k. bs b = Some k \<and> p \<in> set (page_list page (2 ^ k) b))"

lemma in_block_upd:
  assumes "bs r = None"
  shows "in_block page (bs(r \<mapsto> k)) p \<longleftrightarrow> in_block page bs p \<or> p \<in> set (page_list page (2 ^ k) r)" (is "?l \<longleftrightarrow> ?r")
proof
  show "?l \<Longrightarrow> ?r" by (auto simp: in_block_def split: if_splits)
  assume ?r
  then show ?l
  proof
    assume "in_block page bs p"
    then obtain b m where b: "bs b = Some m" "p \<in> set (page_list page (2 ^ m) b)" by (auto simp: in_block_def)
    then have "b \<noteq> r" using assms by auto
    then show ?l using b by (auto simp: in_block_def intro!: exI [of _ b])
  qed (auto simp: in_block_def intro!: exI [of _ r])
qed

record 'k observers =
  blocks :: "'k \<Rightarrow> u64 \<Rightarrow> nat option"
  attr :: "'k \<Rightarrow> u64 \<Rightarrow> pat_t"
  objs :: "'k \<Rightarrow> u64 \<Rightarrow> u64 list option"

definition sets_type :: "'k observers \<Rightarrow> pat_t \<Rightarrow> u64 list \<Rightarrow> 'k \<Rightarrow> int \<times> 'k \<Rightarrow> bool" where
  "sets_type B pat ps s = (\<lambda>(ret, s'). blocks B s' = blocks B s \<and> objs B s' = objs B s \<and>
     (\<forall>p. p \<notin> set ps \<longrightarrow> attr B s' p = attr B s p) \<and> (ret = 0 \<longrightarrow> (\<forall>p \<in> set ps. attr B s' p = pat)))"

definition same_pages :: "'k observers \<Rightarrow> 'k \<Rightarrow> 'k \<Rightarrow> bool" where
  "same_pages B s s' \<longleftrightarrow> blocks B s' = blocks B s \<and> attr B s' = attr B s"

definition kernel_ok :: "'k kernel \<Rightarrow> 'k observers \<Rightarrow> bool" where
  "kernel_ok K B \<longleftrightarrow>
     (\<forall>a n s. sets_type B PAT_UC (page_list (page_size K) n a) s (set_memory_uc K a n s)) \<and>
     (\<forall>a n s. sets_type B PAT_WC (page_list (page_size K) n a) s (set_memory_wc K a n s)) \<and>
     (\<forall>a n s. sets_type B PAT_WB (page_list (page_size K) n a) s (set_memory_wb K a n s)) \<and>
     (\<forall>q ps s. objs B s q = Some ps \<longrightarrow> sets_type B PAT_WT ps s (set_pages_array_wt K q (length ps) s)) \<and>
     (\<forall>n s q s'. kmalloc_array K n s = (q, s') \<longrightarrow> same_pages B s s' \<and>
        (if q = 0 then objs B s' = objs B s
         else objs B s q = None \<and> (\<exists>ps. length ps = n \<and> objs B s' = (objs B s)(q \<mapsto> ps)))) \<and>
     (\<forall>q ps k p s. objs B s q = Some ps \<longrightarrow> k < length ps \<longrightarrow>
        same_pages B s (store_page K q k p s) \<and> objs B (store_page K q k p s) = (objs B s)(q \<mapsto> ps[k := p])) \<and>
     (\<forall>q s. objs B s q \<noteq> None \<longrightarrow> same_pages B s (kfree K q s) \<and> objs B (kfree K q s) = (objs B s)(q := None)) \<and>
     (\<forall>k s r s'. get_free_pages K k s = (r, s') \<longrightarrow> attr B s' = attr B s \<and> objs B s' = objs B s \<and>
        (if r = 0 then blocks B s' = blocks B s
         else blocks B s r = None \<and> blocks B s' = (blocks B s)(r \<mapsto> k) \<and>
           (\<forall>p \<in> set (page_list (page_size K) (2 ^ k) r). \<not> in_block (page_size K) (blocks B s) p))) \<and>
     (\<forall>b k s. blocks B s b = Some k \<longrightarrow> blocks B (free_pages K b k s) = (blocks B s)(b := None) \<and>
        attr B (free_pages K b k s) = attr B s \<and> objs B (free_pages K b k s) = objs B s)"

lemma kernel_laws:
  assumes "kernel_ok K B"
  shows "sets_type B PAT_WB (page_list (page_size K) n a) s (set_memory_wb K a n s)"
    and "objs B s q = Some ps \<Longrightarrow> sets_type B PAT_WT ps s (set_pages_array_wt K q (length ps) s)"
    and "kmalloc_array K n s = (q, s') \<Longrightarrow> same_pages B s s'"
    and "kmalloc_array K n s = (0, s') \<Longrightarrow> objs B s' = objs B s"
    and "kmalloc_array K n s = (q, s') \<Longrightarrow> q \<noteq> 0 \<Longrightarrow> objs B s q = None \<and> (\<exists>ps. length ps = n \<and> objs B s' = (objs B s)(q \<mapsto> ps))"
    and "objs B s q = Some ps \<Longrightarrow> k < length ps \<Longrightarrow>
      same_pages B s (store_page K q k p s) \<and> objs B (store_page K q k p s) = (objs B s)(q \<mapsto> ps[k := p])"
    and "objs B s q = Some ps \<Longrightarrow> same_pages B s (kfree K q s) \<and> objs B (kfree K q s) = (objs B s)(q := None)"
    and "get_free_pages K m s = (r, s') \<Longrightarrow> attr B s' = attr B s \<and> objs B s' = objs B s"
    and "get_free_pages K m s = (0, s') \<Longrightarrow> blocks B s' = blocks B s"
    and "get_free_pages K m s = (r, s') \<Longrightarrow> r \<noteq> 0 \<Longrightarrow> blocks B s r = None \<and> blocks B s' = (blocks B s)(r \<mapsto> m) \<and>
      (\<forall>p \<in> set (page_list (page_size K) (2 ^ m) r). \<not> in_block (page_size K) (blocks B s) p)"
    and "blocks B s b = Some m \<Longrightarrow> blocks B (free_pages K b m s) = (blocks B s)(b := None) \<and>
        attr B (free_pages K b m s) = attr B s \<and> objs B (free_pages K b m s) = objs B s"
  using assms unfolding kernel_ok_def by (blast | metis (no_types, lifting))+

lemma length_page_list [simp]: "length (page_list page n a) = n"
  by (induction n arbitrary: a) auto

lemma sets_type_fails: "sets_type B pat ps s (-1, s') \<longleftrightarrow>
    blocks B s' = blocks B s \<and> objs B s' = objs B s \<and> (\<forall>p. p \<notin> set ps \<longrightarrow> attr B s' p = attr B s p)"
  by (simp add: sets_type_def)

text \<open>The loop writes the pages of the block in the array, each in its cell.\<close>

lemma fill_pages_fills:
  assumes K: "kernel_ok K B"
  shows "objs B s q = Some ps \<Longrightarrow> k + n = length ps \<Longrightarrow>
    same_pages B s (fill_pages K q n k a s) \<and>
    objs B (fill_pages K q n k a s) = (objs B s)(q \<mapsto> take k ps @ page_list (page_size K) n a)"
proof (induction n arbitrary: k a s ps)
  case 0
  then show ?case by (auto simp: same_pages_def)
next
  case (Suc n)
  let ?s = "store_page K q k a s" and ?ps = "ps[k := a]"
  have k: "k < length ps" using Suc.prems(2) by simp
  note st = kernel_laws(6) [OF K Suc.prems(1) k, of a]
  have "objs B ?s q = Some ?ps" "k + 1 + n = length ?ps" using st Suc.prems(2) by simp_all
  from Suc.IH [OF this, of "a + page_size K"] st show ?case
    using k by (auto simp: same_pages_def take_Suc_conv_app_nth)
qed

lemma set_memory_sets:
  assumes "kernel_ok K B"
  shows "sets_type B pat (page_list (page_size K) n a) s (klitmus_set_memory K pat a n s) \<and>
    (pat = PAT_WP \<longrightarrow> fst (klitmus_set_memory K pat a n s) \<noteq> 0)"
proof (cases pat)
  case PAT_WT
  let ?ps = "page_list (page_size K) n a"
  obtain q s1 where m: "kmalloc_array K n s = (q, s1)" by force
  note same = kernel_laws(3) [OF assms m]
  show ?thesis
  proof (cases "q = 0")
    case True
    then show ?thesis
      using PAT_WT m same kernel_laws(4) [OF assms, of n s s1]
      by (simp add: klitmus_set_memory_def sets_type_fails same_pages_def)
  next
    case False
    obtain ps where ps: "objs B s q = None" "length ps = n" "objs B s1 = (objs B s)(q \<mapsto> ps)"
      using kernel_laws(5) [OF assms m False] by blast
    define s2 where "s2 = fill_pages K q n 0 a s1"
    have s2: "same_pages B s1 s2" "objs B s2 = (objs B s1)(q \<mapsto> ?ps)"
      using fill_pages_fills [OF assms, of s1 q ps 0 n a] ps(2,3) by (simp_all add: s2_def)
    obtain ret s3 where w: "set_pages_array_wt K q n s2 = (ret, s3)" by force
    have t3: "sets_type B PAT_WT ?ps s2 (ret, s3)"
      using kernel_laws(2) [OF assms, of s2 q ?ps] s2(2) w by simp
    then have "objs B s3 q = Some ?ps" using s2(2) by (simp add: sets_type_def)
    from kernel_laws(7) [OF assms this] have k: "same_pages B s3 (kfree K q s3)" "objs B (kfree K q s3) = (objs B s3)(q := None)"
      by simp_all
    have "klitmus_set_memory K pat a n s = (ret, kfree K q s3)"
      using PAT_WT m w False by (simp add: klitmus_set_memory_def s2_def)
    moreover have "objs B (kfree K q s3) = objs B s"
      using k(2) t3 s2(2) ps(1,3) by (auto simp: sets_type_def)
    moreover have "sets_type B PAT_WT ?ps s (ret, kfree K q s3)"
      using t3 k(1) s2(1) same calculation(2) by (simp add: sets_type_def same_pages_def)
    ultimately show ?thesis using PAT_WT by simp
  qed
qed (use assms in \<open>simp_all add: klitmus_set_memory_def kernel_ok_def sets_type_fails\<close>)

text \<open>
  Pages that are in no block are write-back, as the rest of the kernel expects of free pages.  The code does not look at the result
  of \<open>set_memory_wb\<close>: if it failed, pages of another type would be given back.
\<close>

definition free_wb :: "'k kernel \<Rightarrow> 'k observers \<Rightarrow> 'k \<Rightarrow> bool" where
  "free_wb K B s \<longleftrightarrow> (\<forall>p. \<not> in_block (page_size K) (blocks B s) p \<longrightarrow> attr B s p = PAT_WB)"

definition wb_works :: "'k kernel \<Rightarrow> bool" where
  "wb_works K \<longleftrightarrow> (\<forall>a n s. fst (set_memory_wb K a n s) = 0)"

lemma free_pat_frees:
  assumes "kernel_ok K B" and "opages (page_size K) sz = Some k" and "k < 31" and "blocks B s b = Some k"
  shows "\<exists>s'. klitmus_free_pat K b sz s = Inr s' \<and> blocks B s' = (blocks B s)(b := None) \<and> objs B s' = objs B s \<and>
    (\<forall>p. p \<notin> set (page_list (page_size K) (2 ^ k) b) \<longrightarrow> attr B s' p = attr B s p) \<and>
    (wb_works K \<longrightarrow> (\<forall>p \<in> set (page_list (page_size K) (2 ^ k) b). attr B s' p = PAT_WB))"
proof -
  obtain ret s1 where w: "set_memory_wb K b (2 ^ k) s = (ret, s1)" by force
  have s1: "sets_type B PAT_WB (page_list (page_size K) (2 ^ k) b) s (ret, s1)"
    using kernel_laws(1) [OF assms(1), of "2 ^ k" b s] w by simp
  then have "blocks B s1 b = Some k" using assms(4) by (simp add: sets_type_def)
  note fr = kernel_laws(11) [OF assms(1) this]
  have "wb_works K \<Longrightarrow> ret = 0" using w unfolding wb_works_def by (metis fst_conv)
  then show ?thesis using assms(2,3) s1 fr by (simp add: klitmus_free_pat_def shl_one_def w sets_type_def)
qed

text \<open>
  C37: \<open>klitmus_alloc_pat\<close> gives a fresh block with room for the size, all of whose pages have the memory type asked for, or
  \<open>NULL\<close>, and then no block is lost.  In both cases the array of pages it uses for the type \<open>PAT_WT\<close> is given back, and the pages of
  the other blocks keep their types.  Freeing the block gives it back.  When \<open>set_memory_wb\<close> works, all pages that go back to the kernel,
  by \<open>klitmus_free_pat\<close> or after a refusal, are write-back again.
\<close>

theorem alloc_pat_correct:
  assumes "kernel_ok K B" and "unat (page_size K) = 2 ^ b" and "b \<le> 63"
    and "opages (page_size K) sz = Some k" and "k < 31"
  shows "\<exists>r s'. klitmus_alloc_pat K pat sz s = Inr (r, s') \<and> objs B s' = objs B s \<and>
    (\<forall>p. in_block (page_size K) (blocks B s) p \<longrightarrow> attr B s' p = attr B s p) \<and>
    (wb_works K \<and> free_wb K B s \<longrightarrow> free_wb K B s') \<and>
    (if r = 0 then blocks B s' = blocks B s
     else pat \<noteq> PAT_WP \<and> blocks B s r = None \<and> blocks B s' = (blocks B s)(r \<mapsto> k) \<and> unat sz \<le> unat (page_size K) * 2 ^ k \<and>
       (\<forall>p \<in> set (page_list (page_size K) (2 ^ k) r). attr B s' p = pat) \<and>
       (\<exists>s''. klitmus_free_pat K r sz s' = Inr s'' \<and> blocks B s'' = blocks B s \<and> objs B s'' = objs B s \<and>
          (wb_works K \<and> free_wb K B s \<longrightarrow> free_wb K B s'')))"
proof -
  obtain r s1 where get: "get_free_pages K k s = (r, s1)" by force
  have g: "attr B s1 = attr B s" "objs B s1 = objs B s" using kernel_laws(8) [OF assms(1) get] by simp_all
  show ?thesis
  proof (cases "r = 0")
    case True
    then have "blocks B s1 = blocks B s" using kernel_laws(9) [OF assms(1), of k s s1] get by simp
    then show ?thesis using True g get assms(4) by (simp add: klitmus_alloc_pat_def free_wb_def)
  next
    case False
    let ?ps = "page_list (page_size K) (2 ^ k) r"
    have g1: "blocks B s r = None" "blocks B s1 = (blocks B s)(r \<mapsto> k)" "\<forall>p \<in> set ?ps. \<not> in_block (page_size K) (blocks B s) p"
      using kernel_laws(10) [OF assms(1) get False] by simp_all
    obtain ret s2 where set1: "klitmus_set_memory K pat r (2 ^ k) s1 = (ret, s2)" by force
    have s2: "blocks B s2 = blocks B s1" "objs B s2 = objs B s" "\<forall>p. p \<notin> set ?ps \<longrightarrow> attr B s2 p = attr B s p"
        "ret = 0 \<longrightarrow> (\<forall>p \<in> set ?ps. attr B s2 p = pat)" "pat = PAT_WP \<longrightarrow> ret \<noteq> 0"
      using set_memory_sets [OF assms(1), of pat "2 ^ k" r s1] g unfolding set1 sets_type_def by simp_all
    have b2: "blocks B s2 r = Some k" using s2(1) g1(2) by simp
    obtain s3 where s3: "klitmus_free_pat K r sz s2 = Inr s3" "blocks B s3 = (blocks B s2)(r := None)" "objs B s3 = objs B s2"
        "\<forall>p. p \<notin> set ?ps \<longrightarrow> attr B s3 p = attr B s2 p" "wb_works K \<longrightarrow> (\<forall>p \<in> set ?ps. attr B s3 p = PAT_WB)"
      using free_pat_frees [OF assms(1,4,5) b2] by blast
    have freed: "blocks B s3 = blocks B s" "objs B s3 = objs B s" using s3(2,3) s2(1,2) g1 by auto
    have same: "p \<notin> set ?ps" if "in_block (page_size K) (blocks B s) p" for p using g1(3) that by blast
    have wb3: "free_wb K B s3" if "wb_works K" "free_wb K B s"
      using that s3(4,5) s2(3) unfolding free_wb_def freed(1) by metis
    have room: "unat sz \<le> unat (page_size K) * 2 ^ k"
      using opages_loop_least [OF assms(2,3), of sz 0] opages_loop_bound [of sz "page_size K" 0 k] assms(2-4)
      by (auto simp: opages_def power_or_zero_def power_add)
    show ?thesis
    proof (cases "ret = 0")
      case True
      then have "klitmus_alloc_pat K pat sz s = Inr (r, s2)"
        using False get set1 assms(4,5) by (simp add: klitmus_alloc_pat_def shl_one_def)
      moreover have bs: "blocks B s2 = (blocks B s)(r \<mapsto> k)" using g1(2) s2(1) by simp
      moreover have "pat \<noteq> PAT_WP" "\<forall>p \<in> set ?ps. attr B s2 p = pat" using s2(4,5) True by blast+
      moreover have "\<forall>p. in_block (page_size K) (blocks B s) p \<longrightarrow> attr B s2 p = attr B s p" using same s2(3) by simp
      moreover have "free_wb K B s2" if "free_wb K B s"
      proof -
        have "in_block (page_size K) (blocks B s2) p \<longleftrightarrow> in_block (page_size K) (blocks B s) p \<or> p \<in> set ?ps" for p
          unfolding bs by (rule in_block_upd) (rule g1(1))
        then show ?thesis using that s2(3) by (simp add: free_wb_def)
      qed
      ultimately show ?thesis using False room s3(1) freed g1(1) s2(2) wb3 by (intro exI [of _ r] exI [of _ s2]) simp
    next
      case False
      then have "klitmus_alloc_pat K pat sz s = Inr (0, s3)"
        using \<open>r \<noteq> 0\<close> get set1 s3(1) assms(4,5) by (simp add: klitmus_alloc_pat_def shl_one_def)
      then show ?thesis using freed same s2(3) s3(4) wb3 by (intro exI [of _ 0] exI [of _ s3]) simp
    qed
  qed
qed

text \<open>
  A kernel with one block at a fixed address and one array at another; the types of pages can always be set, but not all
  of an array at once: the first three pages become write-through, then the call fails if there are more.
\<close>

record one_block =
  blk :: "nat option"
  types :: "u64 \<Rightarrow> pat_t"
  arr :: "u64 list option"

definition paint :: "pat_t \<Rightarrow> u64 list \<Rightarrow> one_block \<Rightarrow> int \<times> one_block" where
  "paint pat ps s = (0, s\<lparr>types := \<lambda>p. if p \<in> set ps then pat else types s p\<rparr>)"

definition paint_three :: "u64 list \<Rightarrow> one_block \<Rightarrow> int \<times> one_block" where
  "paint_three ps s = (if length ps \<le> 3 then 0 else -12, snd (paint PAT_WT (take 3 ps) s))"

definition ex_kernel :: "one_block kernel" where
  "ex_kernel = \<lparr>page_size = 4096, set_memory_uc = \<lambda>a n. paint PAT_UC (page_list 4096 n a),
     set_memory_wc = \<lambda>a n. paint PAT_WC (page_list 4096 n a), set_memory_wb = \<lambda>a n. paint PAT_WB (page_list 4096 n a),
     set_pages_array_wt = \<lambda>q n s. (case arr s of Some ps \<Rightarrow> paint_three ps s | None \<Rightarrow> (-22, s)),
     kmalloc_array = \<lambda>n s. (if arr s = None then (0x200000, s\<lparr>arr := Some (replicate n 7)\<rparr>) else (0, s)),
     store_page = \<lambda>q k p s. s\<lparr>arr := map_option (\<lambda>ps. ps[k := p]) (arr s)\<rparr>, kfree = \<lambda>q s. s\<lparr>arr := None\<rparr>,
     get_free_pages = \<lambda>k s. (if blk s = None \<and> k < 10 then (0x100000, s\<lparr>blk := Some k\<rparr>) else (0, s)),
     free_pages = \<lambda>b k s. s\<lparr>blk := None\<rparr>\<rparr>"

definition ex_obs :: "one_block observers" where
  "ex_obs = \<lparr>blocks = \<lambda>s b. if b = 0x100000 then blk s else None, attr = types,
     objs = \<lambda>s q. if q = 0x200000 then arr s else None\<rparr>"

lemma ex_kernel_ok: "kernel_ok ex_kernel ex_obs"
proof -
  have paint: "sets_type ex_obs pat ps s (paint pat ps s)" for pat ps s
    by (simp add: sets_type_def paint_def ex_obs_def fun_eq_iff)
  have three: "sets_type ex_obs PAT_WT ps s (paint_three ps s)" for ps s
    using set_take_subset [of 3 ps] by (auto simp: sets_type_def paint_three_def paint_def ex_obs_def fun_eq_iff)
  note defs = ex_kernel_def same_pages_def ex_obs_def in_block_def fun_eq_iff
  show ?thesis
    unfolding kernel_ok_def
  proof (intro conjI)
    show "\<forall>a n s. sets_type ex_obs PAT_UC (page_list (page_size ex_kernel) n a) s (set_memory_uc ex_kernel a n s)"
        "\<forall>a n s. sets_type ex_obs PAT_WC (page_list (page_size ex_kernel) n a) s (set_memory_wc ex_kernel a n s)"
        "\<forall>a n s. sets_type ex_obs PAT_WB (page_list (page_size ex_kernel) n a) s (set_memory_wb ex_kernel a n s)"
      using paint by (simp_all add: ex_kernel_def)
    show "\<forall>q ps s. objs ex_obs s q = Some ps \<longrightarrow> sets_type ex_obs PAT_WT ps s (set_pages_array_wt ex_kernel q (length ps) s)"
      using three by (simp add: ex_kernel_def ex_obs_def)
    show "\<forall>n s q s'. kmalloc_array ex_kernel n s = (q, s') \<longrightarrow> same_pages ex_obs s s' \<and>
        (if q = 0 then objs ex_obs s' = objs ex_obs s
         else objs ex_obs s q = None \<and> (\<exists>ps. length ps = n \<and> objs ex_obs s' = (objs ex_obs s)(q \<mapsto> ps)))"
      by (auto simp: defs split: if_splits intro!: exI [of _ "replicate n 7" for n])
  qed (auto simp: defs split: if_splits)
qed

lemma opages_10000: "opages 4096 10000 = Some 2"
  unfolding opages_def by (simp add: opages_loop.simps)

theorem alloc_pat_correct_witness:
  "\<exists>s' s''. klitmus_alloc_pat ex_kernel PAT_WC 10000 \<lparr>blk = None, types = \<lambda>_. PAT_WB, arr = None\<rparr> = Inr (0x100000, s') \<and>
    types s' 0x100000 = PAT_WC \<and> klitmus_free_pat ex_kernel 0x100000 10000 s' = Inr s'' \<and> blk s'' = None \<and> types s'' 0x100000 = PAT_WB"
proof -
  let ?s = "\<lparr>blk = None, types = \<lambda>_. PAT_WB, arr = None\<rparr> :: one_block"
  have p: "page_size ex_kernel = 4096" by (simp add: ex_kernel_def)
  then have "unat (page_size ex_kernel) = 2 ^ 12" "opages (page_size ex_kernel) 10000 = Some 2" by (simp_all add: opages_10000)
  note al = alloc_pat_correct [OF ex_kernel_ok this(1) _ this(2), of PAT_WC ?s]
  have wb: "wb_works ex_kernel" "free_wb ex_kernel ex_obs ?s"
    by (simp_all add: wb_works_def ex_kernel_def paint_def free_wb_def ex_obs_def)
  have r: "\<exists>s'. klitmus_alloc_pat ex_kernel PAT_WC 10000 ?s = Inr (0x100000, s')"
    by (simp add: klitmus_alloc_pat_def klitmus_set_memory_def ex_kernel_def paint_def opages_10000 shl_one_def)
  then obtain s' where s': "klitmus_alloc_pat ex_kernel PAT_WC 10000 ?s = Inr (0x100000, s')" by blast
  then obtain s'' where "\<forall>p \<in> set (page_list 4096 4 0x100000). types s' p = PAT_WC"
      "klitmus_free_pat ex_kernel 0x100000 10000 s' = Inr s''" "blocks ex_obs s'' = blocks ex_obs ?s" "free_wb ex_kernel ex_obs s''"
    using al wb by (auto simp: p ex_obs_def)
  moreover have "0x100000 \<in> set (page_list 4096 4 0x100000)" by (simp add: eval_nat_numeral)
  moreover have "blk s'' = None" using fun_cong [OF calculation(3), of "0x100000"] by (simp add: ex_obs_def)
  moreover have "types s'' 0x100000 = PAT_WB"
    using calculation(3,4) by (simp add: free_wb_def in_block_def ex_obs_def)
  ultimately show ?thesis using s' by blast
qed

text \<open>When the array is refused in part, the block and the array are given back and the pages are write-back again.\<close>

lemma alloc_pat_refused:
  "fst (projr (klitmus_alloc_pat ex_kernel PAT_WT 16384 \<lparr>blk = None, types = \<lambda>_. PAT_WB, arr = None\<rparr>)) = 0"
proof -
  have "opages 4096 16384 = Some 2" unfolding opages_def by (simp add: opages_loop.simps)
  then show ?thesis
    by (simp add: klitmus_alloc_pat_def klitmus_free_pat_def klitmus_set_memory_def ex_kernel_def paint_def paint_three_def
      shl_one_def eval_nat_numeral)
qed

end
