(* ===== verification/Detached.thy ===== *)
theory Detached
  imports Pool
begin

section \<open>Detached threads and their buffers (\<^verbatim>\<open>_utils.c\<close>)\<close>

text \<open>
  \<open>launch_detached\<close> gives its thread a one-place buffer, which \<open>join_detached\<close> reads and frees.  Each buffer has a condition
  variable, and freed ones are kept in a list for the next buffers (option \<open>CACHE\<close>).  Buffers and condition
  variables are numbered; a new buffer may have any number that is not in use.  A thread that joins sleeps on the condition variable
  of the buffer until it is signalled.
\<close>

subsection \<open>Condition variables\<close>

record conds =
  pc_list :: "nat list"
  pc_made :: nat   \<comment> \<open>how many \<open>do_pc_create\<close> has made\<close>

definition do_pc_create :: "conds \<Rightarrow> nat \<times> conds" where
  "do_pc_create c = (pc_made c, c\<lparr>pc_made := pc_made c + 1\<rparr>)"

definition pc_create :: "conds \<Rightarrow> nat \<times> conds" where
  "pc_create c = (case pc_list c of [] \<Rightarrow> do_pc_create c | r # rs \<Rightarrow> (r, c\<lparr>pc_list := rs\<rparr>))"

definition pc_free :: "nat \<Rightarrow> conds \<Rightarrow> conds" where
  "pc_free p c = c\<lparr>pc_list := p # pc_list c\<rparr>"

subsection \<open>Launching and joining\<close>

text \<open>
  Started threads have not yet set their buffers; \<open>task_of\<close> (the task a buffer was made for) and \<open>joined\<close> (the tasks with the
  values their joins have returned) are ghosts.
\<close>

record ('a, 'v) dworld =
  conds :: conds
  bufs :: "nat \<Rightarrow> (nat \<times> 'v op_t) option"
  started :: "(('a, 'v) detarg_t \<times> nat) list"
  task_of :: "nat \<Rightarrow> ('a, 'v) detarg_t"
  joined :: "(('a, 'v) detarg_t \<times> 'v option) list"

definition launch_detached :: "nat \<Rightarrow> ('a \<Rightarrow> 'v) \<Rightarrow> 'a \<Rightarrow> ('a, 'v) dworld \<Rightarrow> ('a, 'v) dworld" where
  "launch_detached buf f a w =
     (let (c, cs) = pc_create (conds w); b = \<lparr>det_f = f, det_a = a\<rparr>
      in w\<lparr>conds := cs, bufs := (bufs w)(buf \<mapsto> (c, op_create)), started := (b, buf) # started w,
           task_of := (task_of w)(buf := b)\<rparr>)"

text \<open>A started thread runs its function and sets the buffer; the buffer must exist.\<close>

definition run_detached :: "nat \<Rightarrow> ('a, 'v) dworld \<Rightarrow> ('a, 'v) dworld res" where
  "run_detached i w =
     (let (b, buf) = started w ! i
      in case bufs w buf of
           None \<Rightarrow> Inl Undefined
         | Some (c, p) \<Rightarrow> bind_res (zyva_det b p) (\<lambda>p.
             Inr (w\<lparr>bufs := (bufs w)(buf \<mapsto> (c, p)), started := take i (started w) @ drop (Suc i) (started w)\<rparr>)))"

text \<open>\<open>op_free\<close>: the condition variable goes to the list.\<close>

definition op_free :: "nat \<Rightarrow> nat \<Rightarrow> ('a, 'v) dworld \<Rightarrow> ('a, 'v) dworld" where
  "op_free buf c w = w\<lparr>conds := pc_free c (conds w), bufs := (bufs w)(buf := None)\<rparr>"

text \<open>\<open>join_detached\<close>, up to the point where it returns (\<open>True\<close>) or sleeps in \<open>pc_wait\<close>.\<close>

definition join_op :: "nat \<Rightarrow> ('a, 'v) dworld \<Rightarrow> (bool \<times> ('a, 'v) dworld) res" where
  "join_op buf w =
     (case bufs w buf of
        None \<Rightarrow> Inl Undefined
      | Some (c, p) \<Rightarrow>
          (case op_get p of
             (None, p) \<Rightarrow> Inr (False, w\<lparr>bufs := (bufs w)(buf \<mapsto> (c, p))\<rparr>)
           | (Some r, p) \<Rightarrow> Inr (True, op_free buf c (w\<lparr>joined := (task_of w buf, r) # joined w\<rparr>))))"

text \<open>
  The program joins buffers that it has launched, each in one thread.  The thread runs while it does not sleep; \<open>pc_wait\<close>
  may return without a signal.
\<close>

inductive dstep :: "('a, 'v) dworld \<Rightarrow> ('a, 'v) dworld \<Rightarrow> bool" where
  launch: "bufs w buf = None \<Longrightarrow> dstep w (launch_detached buf f a w)"
| run: "i < length (started w) \<Longrightarrow> run_detached i w = Inr w' \<Longrightarrow> dstep w w'"
| join: "bufs w buf = Some (c, p) \<Longrightarrow> getter p \<noteq> Asleep \<Longrightarrow> join_op buf w = Inr (r, w') \<Longrightarrow> dstep w w'"
| spurious: "bufs w buf = Some (c, p) \<Longrightarrow> getter p = Asleep \<Longrightarrow>
    dstep w (w\<lparr>bufs := (bufs w)(buf \<mapsto> (c, p\<lparr>getter := Woken\<rparr>))\<rparr>)"

definition dstart :: "('a, 'v) dworld \<Rightarrow> bool" where
  "dstart w \<longleftrightarrow> conds w = \<lparr>pc_list = [], pc_made = 0\<rparr> \<and> bufs w = (\<lambda>_. None) \<and> started w = [] \<and> joined w = []"

subsection \<open>The invariant\<close>

text \<open>
  Condition variables are either in the list or used by one buffer; a started thread owns an empty buffer, its own;
  a buffer without a thread holds the value of its task, and no one sleeps on it.
\<close>

definition conds_ok :: "conds \<Rightarrow> (nat \<Rightarrow> (nat \<times> 'v op_t) option) \<Rightarrow> bool" where
  "conds_ok cs bs \<longleftrightarrow> distinct (pc_list cs) \<and> (\<forall>c \<in> set (pc_list cs). c < pc_made cs) \<and>
     (\<forall>b c p. bs b = Some (c, p) \<longrightarrow> c < pc_made cs \<and> c \<notin> set (pc_list cs)) \<and>
     (\<forall>b b' c p p'. bs b = Some (c, p) \<longrightarrow> bs b' = Some (c, p') \<longrightarrow> b = b')"

definition value_of :: "('a, 'v) detarg_t \<Rightarrow> 'v" where
  "value_of b = det_f b (det_a b)"

definition det_inv :: "('a, 'v) dworld \<Rightarrow> bool" where
  "det_inv w \<longleftrightarrow> conds_ok (conds w) (bufs w) \<and> distinct (map snd (started w)) \<and>
     (\<forall>(b, buf) \<in> set (started w). task_of w buf = b \<and> (\<exists>c p. bufs w buf = Some (c, p) \<and> \<not> some p)) \<and>
     (\<forall>buf c p. bufs w buf = Some (c, p) \<longrightarrow> buf \<notin> snd ` set (started w) \<longrightarrow>
        op_val p = Some (value_of (task_of w buf)) \<and> some p \<and> getter p \<noteq> Asleep) \<and>
     (\<forall>(b, r) \<in> set (joined w). r = Some (value_of b))"

lemma conds_create:
  assumes "conds_ok cs bs" and "pc_create cs = (c, cs')" and "bs buf = None"
  shows "conds_ok cs' (bs(buf \<mapsto> (c, p)))"
  using assms
  by (cases "pc_list cs") (fastforce simp: conds_ok_def pc_create_def do_pc_create_def split: if_splits)+

lemma conds_set:
  assumes "conds_ok cs bs" and "bs buf = Some (c, p)"
  shows "conds_ok cs (bs(buf \<mapsto> (c, p')))"
  using assms unfolding conds_ok_def by (auto split: if_splits)

lemma conds_free:
  assumes "conds_ok cs bs" and "bs buf = Some (c, p)"
  shows "conds_ok (pc_free c cs) (bs(buf := None))"
  using assms unfolding conds_ok_def pc_free_def by (auto split: if_splits)

lemma set_without:
  assumes "distinct (map f xs)" and "i < length xs"
  shows "distinct (map f (take i xs @ drop (Suc i) xs)) \<and> f ` set (take i xs @ drop (Suc i) xs) = f ` set xs - {f (xs ! i)}"
proof -
  have xs: "xs = take i xs @ xs ! i # drop (Suc i) xs" using assms(2) by (rule id_take_nth_drop)
  have "distinct (map f (take i xs @ xs ! i # drop (Suc i) xs))" using assms(1) xs by metis
  moreover have "f ` set xs = f ` set (take i xs @ xs ! i # drop (Suc i) xs)" using xs by metis
  ultimately show ?thesis by (simp add: image_Un)
qed

lemma create_empty [simp]: "\<not> some op_create"
  by (simp add: op_create_def)

lemma det_invI:
  assumes "conds_ok (conds w) (bufs w)" and "distinct (map snd (started w))"
    and "\<And>b buf. (b, buf) \<in> set (started w) \<Longrightarrow> task_of w buf = b \<and> (\<exists>c p. bufs w buf = Some (c, p) \<and> \<not> some p)"
    and "\<And>buf c p. bufs w buf = Some (c, p) \<Longrightarrow> buf \<notin> snd ` set (started w) \<Longrightarrow>
      op_val p = Some (value_of (task_of w buf)) \<and> some p \<and> getter p \<noteq> Asleep"
    and "\<forall>(b, r) \<in> set (joined w). r = Some (value_of b)"
  shows "det_inv w"
  unfolding det_inv_def using assms(1,2,5) by (intro conjI allI impI ballI) (blast dest: assms(3,4))+

text \<open>What the invariant says of a buffer: whether its thread is still to run.\<close>

lemma inv_bufs:
  assumes "det_inv w" and "bufs w buf = Some (c, p)"
  shows "some p \<longleftrightarrow> buf \<notin> snd ` set (started w)"
    and "some p \<Longrightarrow> op_val p = Some (value_of (task_of w buf)) \<and> getter p \<noteq> Asleep"
  using assms by (fastforce simp: det_inv_def)+

lemma inv_launch:
  assumes "det_inv w" and "bufs w buf = None"
  shows "det_inv (launch_detached buf f a w)"
proof -
  obtain c cs where c: "pc_create (conds w) = (c, cs)" by force
  have "conds_ok cs ((bufs w)(buf \<mapsto> (c, op_create)))"
    using assms c by (intro conds_create) (simp_all add: det_inv_def)
  moreover have "buf \<notin> snd ` set (started w)" using assms by (auto simp: det_inv_def)
  ultimately show ?thesis using assms c unfolding det_inv_def launch_detached_def Let_def by (auto split: prod.splits)
qed

text \<open>A buffer that stays empty may change the state of its getter.\<close>

lemma inv_getter:
  assumes "det_inv w" and "bufs w buf = Some (c, p)" and "\<not> some p" and "\<not> some q"
  shows "det_inv (w\<lparr>bufs := (bufs w)(buf \<mapsto> (c, q))\<rparr>)"
proof -
  have buf: "buf \<in> snd ` set (started w)" using inv_bufs(1) [OF assms(1,2)] assms(3) by simp
  show ?thesis
  proof (rule det_invI)
    show "conds_ok (conds (w\<lparr>bufs := (bufs w)(buf \<mapsto> (c, q))\<rparr>)) (bufs (w\<lparr>bufs := (bufs w)(buf \<mapsto> (c, q))\<rparr>))"
      using assms(1,2) by (simp add: det_inv_def conds_set)
    fix b x
    assume "(b, x) \<in> set (started (w\<lparr>bufs := (bufs w)(buf \<mapsto> (c, q))\<rparr>))"
    then have "task_of w x = b \<and> (\<exists>c p. bufs w x = Some (c, p) \<and> \<not> some p)" using assms(1) by (auto simp: det_inv_def)
    then show "task_of (w\<lparr>bufs := (bufs w)(buf \<mapsto> (c, q))\<rparr>) x = b \<and>
        (\<exists>c' p'. bufs (w\<lparr>bufs := (bufs w)(buf \<mapsto> (c, q))\<rparr>) x = Some (c', p') \<and> \<not> some p')"
      using assms(4) by simp
  next
    fix x c' p'
    assume x: "bufs (w\<lparr>bufs := (bufs w)(buf \<mapsto> (c, q))\<rparr>) x = Some (c', p')"
      "x \<notin> snd ` set (started (w\<lparr>bufs := (bufs w)(buf \<mapsto> (c, q))\<rparr>))"
    then have "x \<noteq> buf" using buf by auto
    then show "op_val p' = Some (value_of (task_of (w\<lparr>bufs := (bufs w)(buf \<mapsto> (c, q))\<rparr>) x)) \<and> some p' \<and> getter p' \<noteq> Asleep"
      using x assms(1) by (simp add: det_inv_def)
  qed (use assms(1) in \<open>simp_all add: det_inv_def\<close>)
qed

lemma inv_run:
  assumes "det_inv w" and "i < length (started w)"
  shows "\<exists>w'. run_detached i w = Inr w' \<and> det_inv w'"
proof -
  obtain b buf where bb: "started w ! i = (b, buf)" by force
  then have "(b, buf) \<in> set (started w)" using assms(2) by (metis nth_mem)
  then obtain c p where c: "task_of w buf = b" "bufs w buf = Some (c, p)" "\<not> some p" using assms(1) by (fastforce simp: det_inv_def)
  define q where "q = op_signal (p\<lparr>op_val := Some (value_of b), some := True\<rparr>)"
  have q: "op_val q = Some (value_of b)" "some q" "getter q \<noteq> Asleep" by (simp_all add: q_def op_signal_def)
  define rest where "rest = take i (started w) @ drop (Suc i) (started w)"
  define bs where "bs = (bufs w)(buf \<mapsto> (c, q))"
  let ?w = "w\<lparr>bufs := bs, started := rest\<rparr>"
  have run: "run_detached i w = Inr ?w"
    using bb c(2,3) by (simp add: rest_def bs_def q_def run_detached_def zyva_det_def op_set_def value_of_def Let_def)
  moreover have r: "distinct (map snd rest)" "snd ` set rest = snd ` set (started w) - {buf}"
    using set_without [of snd "started w" i] assms bb by (auto simp: det_inv_def rest_def)
  moreover have "conds_ok (conds w) bs"
    using assms(1) c(2) unfolding bs_def by (intro conds_set) (simp_all add: det_inv_def)
  moreover have "task_of w x = b' \<and> (\<exists>c' p'. bs x = Some (c', p') \<and> \<not> some p')" if "(b', x) \<in> set rest" for b' x
  proof -
    have "x \<in> snd ` set rest" using that by force
    then have "x \<noteq> buf" unfolding r(2) by blast
    moreover have "(b', x) \<in> set (started w)" using that by (auto simp: rest_def dest: in_set_takeD in_set_dropD)
    ultimately show ?thesis using assms(1) by (fastforce simp: det_inv_def bs_def)
  qed
  moreover have "op_val p' = Some (value_of (task_of w x)) \<and> some p' \<and> getter p' \<noteq> Asleep"
    if "bs x = Some (c', p')" "x \<notin> snd ` set rest" for x c' p'
  proof (cases "x = buf")
    case True
    then show ?thesis using that(1) c(1) q by (simp add: bs_def)
  next
    case False
    then have "x \<notin> snd ` set (started w)" using that(2) unfolding r(2) by blast
    then show ?thesis using that(1) False assms(1) by (simp add: det_inv_def bs_def)
  qed
  moreover have "\<forall>(b, r) \<in> set (joined w). r = Some (value_of b)" using assms(1) by (simp add: det_inv_def)
  ultimately have "det_inv ?w" by (intro det_invI) simp_all
  then show ?thesis using run by blast
qed

lemma inv_join:
  assumes "det_inv w" and "bufs w buf = Some (c, p)"
  shows "\<exists>w'. det_inv w' \<and>
    (if buf \<in> snd ` set (started w) then join_op buf w = Inr (False, w') \<and> joined w' = joined w
     else join_op buf w = Inr (True, w') \<and> joined w' = (task_of w buf, Some (value_of (task_of w buf))) # joined w)"
proof (cases "buf \<in> snd ` set (started w)")
  case True
  then have p: "\<not> some p" using inv_bufs(1) [OF assms] by simp
  then have "det_inv (w\<lparr>bufs := (bufs w)(buf \<mapsto> (c, op_sleep p))\<rparr>)"
    by (intro inv_getter [OF assms]) (simp_all add: op_sleep_def)
  then show ?thesis using True p by (simp add: join_op_def op_get_def assms(2))
next
  case False
  let ?v = "Some (value_of (task_of w buf))"
  have p: "some p" "op_val p = ?v" using inv_bufs [OF assms] False by simp_all
  let ?w = "op_free buf c (w\<lparr>joined := (task_of w buf, ?v) # joined w\<rparr>)"
  have "join_op buf w = Inr (True, ?w)" using p by (simp add: join_op_def op_get_def assms(2) Let_def)
  moreover have "conds_ok (pc_free c (conds w)) ((bufs w)(buf := None))"
    using assms by (intro conds_free) (simp_all add: det_inv_def)
  moreover have "\<forall>(b, x) \<in> set (started w). x \<noteq> buf" using False by force
  ultimately have "det_inv ?w"
    using assms(1) unfolding det_inv_def op_free_def by (fastforce split: if_splits)
  then show ?thesis using False \<open>join_op buf w = Inr (True, ?w)\<close> by (intro exI [of _ ?w]) (simp add: op_free_def)
qed

lemma inv_dstep:
  assumes "dstep w w'" and "det_inv w"
  shows "det_inv w'"
  using assms
proof (induction rule: dstep.induct)
  case (launch w buf f a)
  then show ?case by (intro inv_launch)
next
  case (run i w w')
  then show ?case using inv_run [of w i] by fastforce
next
  case (join w buf c p r w')
  then show ?case using inv_join [of w buf c p] by (auto split: if_splits)
next
  case (spurious w buf c p)
  then have "\<not> some p" using inv_bufs(2) [of w buf c p] by blast
  then show ?case using spurious by (intro inv_getter [where p = p]) simp_all
qed

lemma inv_dstart: "dstart w \<Longrightarrow> det_inv w"
  by (simp add: dstart_def det_inv_def conds_ok_def)

lemma inv_dreach:
  assumes "dstart w0" and "dstep\<^sup>*\<^sup>* w0 w"
  shows "det_inv w"
  using assms(2,1) by (induction rule: rtranclp_induct) (auto intro: inv_dstart inv_dstep)

subsection \<open>Properties\<close>

text \<open>
  C22: Whatever the order of launches, runs and joins, a thread that has been launched always finds its buffer and sets it without an
  error; a join waits exactly while the thread of its buffer has not run, and then returns the value of the function that was
  launched with it; two live buffers never share a condition variable, although these are used again.  No wake-up is lost: a join
  that sleeps has a thread that is still to run, and will be signalled by it.
\<close>

theorem detached_joins:
  assumes "dstart w0" and "dstep\<^sup>*\<^sup>* w0 w"
  shows "(\<forall>i < length (started w). \<exists>w'. run_detached i w = Inr w') \<and>
    (\<forall>buf. bufs w buf \<noteq> None \<longrightarrow> ((\<exists>w'. join_op buf w = Inr (False, w')) \<longleftrightarrow> buf \<in> snd ` set (started w)) \<and>
       (\<forall>w'. join_op buf w = Inr (True, w') \<longrightarrow>
          joined w' = (task_of w buf, Some (det_f (task_of w buf) (det_a (task_of w buf)))) # joined w) \<and>
       (\<exists>r w'. join_op buf w = Inr (r, w'))) \<and>
    (\<forall>b b' c p p'. bufs w b = Some (c, p) \<and> bufs w b' = Some (c, p') \<longrightarrow> b = b') \<and>
    (\<forall>buf c p. bufs w buf = Some (c, p) \<and> getter p = Asleep \<longrightarrow> buf \<in> snd ` set (started w))"
proof -
  have inv: "det_inv w" by (rule inv_dreach [OF assms])
  have joins: "((\<exists>w'. join_op buf w = Inr (False, w')) \<longleftrightarrow> buf \<in> snd ` set (started w)) \<and>
      (\<forall>w'. join_op buf w = Inr (True, w') \<longrightarrow>
          joined w' = (task_of w buf, Some (det_f (task_of w buf) (det_a (task_of w buf)))) # joined w) \<and>
      (\<exists>r w'. join_op buf w = Inr (r, w'))" if buf: "bufs w buf \<noteq> None" for buf
  proof -
    obtain c p where "bufs w buf = Some (c, p)" using buf by auto
    from inv_join [OF inv this] show ?thesis by (auto simp: value_of_def split: if_splits)
  qed
  have conds: "\<forall>b b' c p p'. bufs w b = Some (c, p) \<and> bufs w b' = Some (c, p') \<longrightarrow> b = b'"
  proof (intro allI impI)
    fix b b' c p p' assume "bufs w b = Some (c, p) \<and> bufs w b' = Some (c, p')"
    then show "b = b'" using inv unfolding det_inv_def conds_ok_def by blast
  qed
  have sleeps: "\<forall>buf c p. bufs w buf = Some (c, p) \<and> getter p = Asleep \<longrightarrow> buf \<in> snd ` set (started w)"
  proof (intro allI impI)
    fix buf c p assume a: "bufs w buf = Some (c, p) \<and> getter p = Asleep"
    then show "buf \<in> snd ` set (started w)" using inv_bufs [OF inv, of buf c p] by blast
  qed
  have "\<forall>i < length (started w). \<exists>w'. run_detached i w = Inr w'" using inv_run [OF inv] by blast
  then show ?thesis using joins conds sleeps by (intro conjI allI impI) simp_all
qed

definition ex_none :: "(nat, nat) dworld" where
  "ex_none = \<lparr>conds = \<lparr>pc_list = [], pc_made = 0\<rparr>, bufs = \<lambda>_. None, started = [], task_of = \<lambda>_. \<lparr>det_f = Suc, det_a = 0\<rparr>, joined = []\<rparr>"

definition ex_two :: "(nat, nat) dworld" where
  "ex_two = launch_detached 9 (\<lambda>x. 2 * x) 21 (launch_detached 4 Suc 10 ex_none)"

text \<open>The first join sleeps; the second one finds its value.\<close>

theorem detached_joins_witness:
  "\<exists>w1 w w'. join_op 4 ex_two = Inr (False, w1) \<and> run_detached 0 w1 = Inr w \<and> join_op 9 w = Inr (True, w') \<and>
    map snd (joined w') = [Some 42] \<and> (\<exists>c p. bufs w 4 = Some (c, p) \<and> getter p = Asleep \<and> 4 \<in> snd ` set (started w))"
proof -
  have 0: "dstart ex_none" by (simp add: dstart_def ex_none_def)
  note eval = zyva_det_def op_set_def op_create_def op_signal_def op_sleep_def op_get_def ex_two_def launch_detached_def
    ex_none_def pc_create_def do_pc_create_def Let_def
  have two: "bufs ex_two 4 = Some (0, op_create)" by (simp add: eval)
  have "dstep\<^sup>*\<^sup>* ex_none ex_two"
  proof -
    have "dstep ex_none (launch_detached 4 Suc 10 ex_none)" by (rule dstep.launch) (simp add: ex_none_def)
    moreover have "dstep (launch_detached 4 Suc 10 ex_none) ex_two"
      unfolding ex_two_def by (rule dstep.launch) (simp add: launch_detached_def ex_none_def pc_create_def do_pc_create_def Let_def)
    ultimately show ?thesis by auto
  qed
  moreover obtain w1 where w1: "join_op 4 ex_two = Inr (False, w1)" "started w1 = started ex_two" "0 < length (started ex_two)"
      "w1 = ex_two\<lparr>bufs := (bufs ex_two)(4 \<mapsto> (0, op_sleep op_create))\<rparr>"
    by (simp add: join_op_def eval)
  moreover have "dstep ex_two w1"
    using dstep.join [OF two _ w1(1)] by (simp add: op_create_def)
  moreover obtain w where w: "run_detached 0 w1 = Inr w" "bufs w 4 = Some (0, op_sleep op_create)"
      "bufs w 9 = Some (1, \<lparr>op_val = Some 42, some = True, getter = Absent\<rparr>)" "joined w = []"
    by (simp add: run_detached_def w1(4) eval)
  moreover have "dstep w1 w" using w(1) w1(2,3) by (intro dstep.run) simp_all
  ultimately have "dstep\<^sup>*\<^sup>* ex_none w" by (meson rtranclp.rtrancl_into_rtrancl)
  note at_w = detached_joins [OF 0 this]
  have "getter (op_sleep op_create :: nat op_t) = Asleep" by (simp add: op_sleep_def)
  then have "4 \<in> snd ` set (started w)" using at_w w(2) by blast
  moreover obtain w' where "join_op 9 w = Inr (True, w')" "map snd (joined w') = [Some 42]"
    using w(3,4) by (simp add: join_op_def op_get_def op_free_def)
  ultimately show ?thesis using w(1,2) w1(1) \<open>getter (op_sleep op_create :: nat op_t) = Asleep\<close>
    by (intro exI [of _ w1] exI [of _ w] exI [of _ w'] conjI exI [of _ 0] exI [of _ "op_sleep op_create"]) simp_all
qed

end
