(* ===== verification/BarrierLab.thy ===== *)
theory BarrierLab
  imports Barriers
begin

section \<open>The barrier with private senses (\<^verbatim>\<open>_ppc/barrier_lab.c\<close>)\<close>

text \<open>
  In this variant a thread does not read the sense of the round in the shared struct but keeps its own, in a variable
  \<open>mySense\<close> of which it passes the address, and reverses it when it leaves.  It is \<open>0\<close> at first, like the shared one.  The struct has no field for
  the number of threads: the program has it as a constant, and \<open>s_n\<close> is not accessed here.

  The program runs on the machine of theory \<open>Barriers\<close>, with the private variable of each thread added.  It is proved
  that the private sense of a thread that is not inside the barrier equals the shared one, so that the
  program does the same as one that reads the shared sense, for which the method of \<open>Barriers\<close> applies.
\<close>

subsection \<open>The program\<close>

datatype lab_instr = Shared instr | LdMy reg | StMy reg

fun exec_lab :: "bool \<Rightarrow> lab_instr \<Rightarrow> u32 \<times> tstate \<times> sense_t \<times> bool \<Rightarrow> u32 \<times> tstate \<times> sense_t \<times> bool" where
  "exec_lab ok (Shared i) (my, x) = (my, exec ok i x)"
| "exec_lab ok (LdMy r) (my, ts, m, rv) = (my, advance (setr r my ts), m, rv)"
| "exec_lab ok (StMy r) (my, ts, m, rv) = (regs ts r, advance ts, m, rv)"

text \<open>The register \<open>r2\<close> is \<open>Ms\<close>; the labels \<open>LBW0\<close>, \<open>LBW1\<close>, \<open>LBW2\<close> are the indices 3, 16, 20.\<close>

definition lab_wait :: "nat \<Rightarrow> lab_instr list" where
  "lab_wait N =
    [Shared Mbar, LdMy Ms, Shared Mbar,
     Shared (LdX R1 FC), Shared (AddI R1 R1 (-1)), Shared (StX InFlag R1 FC), Shared (Branch Ne 3),
     Shared (CmpI R1 0), Shared (Branch Ne 16),
     Shared Mbar, Shared (MovI R1 (of_nat N)), Shared (St R1 FC), Shared Mbar, Shared (NotR R1 Ms), Shared (St R1 FS),
     Shared (Branch Always 20),
     Shared Mbar, Shared (Ld R1 FS), Shared (CmpR R1 Ms), Shared (Branch Eq 16),
     Shared Mbar, Shared (NotR R1 Ms), StMy R1, Shared Mbar]"

record lstate =
  world :: cstate
  senses :: "nat \<Rightarrow> u32"

definition linit :: "nat \<Rightarrow> (nat \<Rightarrow> tstate) \<Rightarrow> lstate" where
  "linit N ts = \<lparr>world = \<lparr>cmem = barrier_init N, threads = \<lambda>t. ts t\<lparr>ip := length (lab_wait N)\<rparr>,
     resv = \<lambda>_. False, calls = \<lambda>_. 0\<rparr>, senses = \<lambda>_. 0\<rparr>"

definition run_lab :: "nat \<Rightarrow> bool \<Rightarrow> nat \<Rightarrow> lstate \<Rightarrow> lstate" where
  "run_lab N ok t s =
     (let w = world s; (my, ts, m, rv) = exec_lab ok (lab_wait N ! ip (threads w t)) (senses s t, threads w t, cmem w, resv w t)
      in s\<lparr>world := w\<lparr>cmem := m, threads := (threads w)(t := ts),
             resv := (\<lambda>u. if u = t then rv else resv w u \<and> s_c m = s_c (cmem w))\<rparr>,
           senses := (senses s)(t := my)\<rparr>)"

inductive lstep :: "nat \<Rightarrow> lstate \<Rightarrow> lstate \<Rightarrow> bool" for N where
  call: "t < N \<Longrightarrow> ip (threads (world s) t) = length (lab_wait N) \<Longrightarrow> ip ts = 0 \<Longrightarrow>
    lstep N s (s\<lparr>world := (world s)\<lparr>threads := (threads (world s))(t := ts), calls := (calls (world s))(t := calls (world s) t + 1)\<rparr>\<rparr>)"
| instr: "t < N \<Longrightarrow> ip (threads (world s) t) < length (lab_wait N) \<Longrightarrow> lstep N s (run_lab N ok t s)"

definition lreach :: "nat \<Rightarrow> lstate \<Rightarrow> bool" where
  "lreach N s \<longleftrightarrow> (\<exists>ts. (lstep N)\<^sup>*\<^sup>* (linit N ts) s)"

subsection \<open>The same program with the shared sense\<close>

definition lab_shared :: "instr list" where
  "lab_shared =
    [Mbar, Ld Ms FS, Mbar,
     LdX R1 FC, AddI R1 R1 (-1), StX InFlag R1 FC, Branch Ne 3, CmpI R1 0, Branch Ne 16,
     Mbar, Ld R1 FN, St R1 FC, Mbar, NotR R1 Ms, St R1 FS, Branch Always 20,
     Mbar, Ld R1 FS, CmpR R1 Ms, Branch Eq 16,
     Mbar, NotR R1 Ms, Mbar, Mbar]"

definition lab_notes :: notes_t where
  "lab_notes =
    [(SBefore, []), (SBefore, []), (SDec, []),
     (SDec, []), (SDec, [Linked R1 0]), (SDec, [Linked R1 1]), (SStat Ne 0, []), (STest 0, []), (SCond Eq, []),
     (SReset, []), (SReset, []), (SReset, [IsN R1]), (SFlip, []), (SFlip, []), (SFlip, [Reversed]), (SAfter, []),
     (SSpin, []), (SSpin, []), (SCheck (Same R1 Ms), []), (SCheck Eq, []),
     (SAfter, []), (SAfter, []), (SAfter, []), (SAfter, []), (SAfter, [])]"

lemma below_24:
  assumes "k < 24"
  obtains "k = 0" | "k = 1" | "k = 2" | "k = 3" | "k = 4" | "k = 5" | "k = 6" | "k = 7" | "k = 8"
    | "k = 9" | "k = 10" | "k = 11" | "k = 12" | "k = 13" | "k = 14" | "k = 15" | "k = 16" | "k = 17"
    | "k = 18" | "k = 19" | "k = 20" | "k = 21" | "k = 22" | "k = (23 :: nat)"
proof (cases "k < 21")
  case False
  then have "k = 21 \<or> k = 22 \<or> k = 23" using assms by arith
  then show thesis using that by blast
qed (cases rule: below_21, (blast intro: that)+)

lemma lab_checked:
  assumes "i < length lab_shared"
  shows "instr_checked arm_flip zero_last lab_shared lab_notes i"
proof -
  have "i < 24" using assms by (simp add: lab_shared_def)
  then show ?thesis
    by (cases rule: below_24) (simp_all add: check lab_shared_def lab_notes_def arm_flip_def zero_last_def)
qed

interpretation lab: barrier_code arm_flip zero_last "nthreads k" lab_shared
  "ann_of arm_flip zero_last lab_notes" "good_of arm_flip lab_notes" for k
  by (rule code_from_notes [OF all_sense_ok(3) [OF nthreads_range] _ _ lab_checked])
    (simp_all add: lab_notes_def lab_shared_def)


subsection \<open>The private senses\<close>

abbreviation lab_ann :: "tstate \<Rightarrow> ann" where
  "lab_ann \<equiv> ann_of arm_flip zero_last lab_notes"

text \<open>
  A thread that is before the barrier or past it (from index 23, once it has stored the new value) has the shared sense; in
  between, the register \<open>r2\<close> has the sense of the round, and when the round is over its opposite is the shared one.
\<close>

definition private_ok :: "u32 \<Rightarrow> tstate \<Rightarrow> u32 \<Rightarrow> bool" where
  "private_ok my ts x \<longleftrightarrow>
     (case lab_ann ts of
        Before \<Rightarrow> my = x
      | During p \<Rightarrow> regs ts Ms \<in> {0, NOT 0}
      | After \<Rightarrow> (if ip ts \<le> 22 then NOT (regs ts Ms) = x else my = x) \<and> (ip ts = 22 \<longrightarrow> regs ts R1 = x))"

lemmas lab_defs = private_ok_def ann_of_def lab_notes_def lab_shared_def lab_wait_def machine

lemma lab_instr_same:
  assumes "ip ts < 24" and "private_ok my ts (s_sense m)" and "s_n m = of_nat N"
    and "exec_lab ok (lab_wait N ! ip ts) (my, ts, m, rv) = (my', ts', m', rv')"
  shows "exec ok (lab_shared ! ip ts) (ts, m, rv) = (ts', m', rv')"
  using assms(2-4) by (cases rule: below_24 [OF assms(1)]; clarsimp simp: lab_defs)

lemma lab_instr_private:
  assumes "ip ts < 24" and "private_ok my ts (s_sense m)" and "s_sense m \<in> {0, NOT 0}" and "good_of arm_flip lab_notes ts m rv"
    and "exec_lab ok (lab_wait N ! ip ts) (my, ts, m, rv) = (my', ts', m', rv')"
  shows "private_ok my' ts' (s_sense m')"
  using assms(2-5) by (cases rule: below_24 [OF assms(1)]; (clarsimp simp: lab_defs good_of_def arm_flip_def split: if_splits, fastforce?))

lemma lab_sense_kept:
  assumes "ip ts < 24" and "ip ts \<noteq> 14" and "exec_lab ok (lab_wait N ! ip ts) (my, ts, m, rv) = (my', ts', m', rv')"
  shows "s_sense m' = s_sense m"
  using assms(2-3) by (cases rule: below_24 [OF assms(1)]; clarsimp simp: lab_defs split: if_splits)


definition lab_inv :: "nat \<Rightarrow> lstate \<Rightarrow> bool" where
  "lab_inv N s \<longleftrightarrow> creach lab_shared N (world s) \<and>
     (\<forall>t < N. private_ok (senses s t) (threads (world s) t) (s_sense (cmem (world s))))"

text \<open>
  What the abstract barrier gives: the values of the sense, and that all the other threads spin when one is about to reverse it.
\<close>

lemma lab_facts:
  assumes "0 < N" and "N < 2 ^ 31" and "creach lab_shared N w"
  shows "s_n (cmem w) = of_nat N" and "s_sense (cmem w) \<in> {0, NOT 0}"
    and "t < N \<Longrightarrow> good_of arm_flip lab_notes (threads w t) (cmem w) (resv w t) \<and> ip (threads w t) \<le> 24"
    and "t < N \<Longrightarrow> u < N \<Longrightarrow> u \<noteq> t \<Longrightarrow> ip (threads w t) = 14 \<Longrightarrow> \<exists>ms. lab_ann (threads w u) = During (Spin ms)"
proof -
  define k where "k = N - 1"
  have N: "nthreads k = N" using nthreads_any [OF assms(1,2)] by (simp add: k_def)
  obtain a where a: "areach arm_flip zero_last N a" "lab.sim k w a"
    using lab.implements [of k w] assms(3) unfolding N by blast
  have inv: "ainv arm_flip N a"
    by (rule sense_barrier.ainv_reach [OF _ a(1)]) (use all_sense_ok(3) assms(1,2) in \<open>simp add: sense_barrier_iff\<close>)
  have mem: "cmem w = mem a" and loc: "\<And>t. t < N \<Longrightarrow> lab.linked (lab_ann (threads w t)) a t (calls w t) \<and>
      good_of arm_flip lab_notes (threads w t) (cmem w) (resv w t) \<and> ip (threads w t) \<le> 24"
    using a(2) lab.sim_def [of k w a] unfolding N by (auto simp: lab_shared_def)
  show "s_n (cmem w) = of_nat N" "s_sense (cmem w) \<in> {0, NOT 0}"
    using inv mem by (simp_all add: ainv_def arm_flip_def)
  show "t < N \<Longrightarrow> good_of arm_flip lab_notes (threads w t) (cmem w) (resv w t) \<and> ip (threads w t) \<le> 24" using loc by blast
  show "\<exists>ms. lab_ann (threads w u) = During (Spin ms)" if t: "t < N" "u < N" "u \<noteq> t" "ip (threads w t) = 14"
  proof -
    have "lab_ann (threads w t) = During (Flip (regs (threads w t) Ms))" using t(4) by (simp add: ann_of_def lab_notes_def)
    then have "pc a t = Flip (regs (threads w t) Ms)" using loc [OF t(1)] by simp
    then have "alone N a t" using inv t(1) unfolding ainv_def by (metis local_ok.simps(5))
    then have "pc a u = Spin (s_sense (mem a))" using t(2,3) by (simp add: alone_def)
    then show ?thesis using loc [OF t(2)] by (cases "lab_ann (threads w u)") (auto dest: sym)
  qed
qed

lemma lab_inv_step:
  assumes N: "0 < N" "N < 2 ^ 31" and inv: "lab_inv N s" and "lstep N s s'"
  shows "lab_inv N s'"
  using assms(4)
proof cases
  case (call t ts)
  let ?w = "(world s)\<lparr>threads := (threads (world s))(t := ts), calls := (calls (world s))(t := calls (world s) t + 1)\<rparr>"
  have "cstep lab_shared N (world s) ?w"
    using call by (intro cstep.call) (simp_all add: lab_wait_def lab_shared_def)
  then have "creach lab_shared N ?w" using inv unfolding lab_inv_def creach_def by (meson rtranclp.rtrancl_into_rtrancl)
  moreover have "private_ok (senses s t) ts (s_sense (cmem (world s)))"
  proof -
    have "private_ok (senses s t) (threads (world s) t) (s_sense (cmem (world s)))" using inv call(2) by (simp add: lab_inv_def)
    then show ?thesis using call(3,4) by (simp add: lab_defs)
  qed
  ultimately show ?thesis using inv call(1) by (simp add: lab_inv_def)
next
  case (instr t ok)
  define w where "w = world s"
  have reach: "creach lab_shared N w" and priv: "\<And>u. u < N \<Longrightarrow> private_ok (senses s u) (threads w u) (s_sense (cmem w))"
    using inv by (simp_all add: lab_inv_def w_def)
  note facts = lab_facts [OF N reach]
  have ip: "ip (threads w t) < 24" using instr(3) by (simp add: w_def lab_wait_def)
  obtain my ts m rv where ex: "exec_lab ok (lab_wait N ! ip (threads w t)) (senses s t, threads w t, cmem w, resv w t) = (my, ts, m, rv)"
    by (metis prod_cases4)
  have same: "exec ok (lab_shared ! ip (threads w t)) (threads w t, cmem w, resv w t) = (ts, m, rv)"
    by (rule lab_instr_same [OF ip priv [OF instr(2)] facts(1) ex])
  have s': "world s' = run_instr lab_shared ok t w" "senses s' = (senses s)(t := my)"
    using ex same by (simp_all add: instr(1) run_lab_def run_instr_def w_def [symmetric] Let_def)
  have w': "cmem (world s') = m" "threads (world s') = (threads w)(t := ts)" using same by (simp_all add: s'(1) run_instr_def)
  have "cstep lab_shared N w (world s')"
    unfolding s'(1) using instr(2) ip by (intro cstep.instr) (simp_all add: lab_shared_def)
  then have "creach lab_shared N (world s')" using reach unfolding creach_def by (meson rtranclp.rtrancl_into_rtrancl)
  moreover have "private_ok (senses s' u) (threads (world s') u) (s_sense (cmem (world s')))" if u: "u < N" for u
  proof (cases "u = t")
    case True
    then show ?thesis
      using lab_instr_private [OF ip priv [OF instr(2)] facts(2) _ ex] facts(3) [OF instr(2)] by (simp add: s'(2) w')
  next
    case False
    show ?thesis
    proof (cases "ip (threads w t) = 14")
      case True
      then obtain ms where "lab_ann (threads w u) = During (Spin ms)" using facts(4) [OF instr(2) u False] by blast
      then show ?thesis using priv [OF u] False by (simp add: private_ok_def s'(2) w')
    next
      case False
      then show ?thesis using lab_sense_kept [OF ip _ ex] priv [OF u] \<open>u \<noteq> t\<close> by (simp add: s'(2) w')
    qed
  qed
  ultimately show ?thesis by (simp add: lab_inv_def)
qed

lemma lab_inv_reach:
  assumes "0 < N" and "N < 2 ^ 31" and "lreach N s"
  shows "lab_inv N s"
proof -
  obtain ts where "(lstep N)\<^sup>*\<^sup>* (linit N ts) s" using assms(3) by (auto simp: lreach_def)
  then show ?thesis
  proof (induction rule: rtranclp_induct)
    case base
    have "world (linit N ts) = cinit lab_shared N ts" by (simp add: linit_def cinit_def lab_wait_def lab_shared_def)
    then have "creach lab_shared N (world (linit N ts))" unfolding creach_def by (metis rtranclp.rtrancl_refl)
    then show ?case by (simp add: lab_inv_def linit_def lab_defs barrier_init_def)
  next
    case (step s s')
    then show ?case using lab_inv_step [OF assms(1,2)] by blast
  qed
qed

subsection \<open>Properties\<close>

text \<open>
  C23: The variant with private senses is a barrier too: with any number of threads and any interleaving it refines the abstract barrier,
  no call returns before every thread has made as many calls, and every thread that is outside has the shared sense in its own.
\<close>

theorem lab_refines:
  assumes "0 < N" and "N < 2 ^ 31" and "lreach N s"
  shows "(\<exists>a. areach arm_flip zero_last N a \<and> mem a = cmem (world s) \<and>
      (\<forall>t < N. returned lab_shared (world s) t \<le> left a t \<and> entered a t \<le> calls (world s) t)) \<and>
    (\<forall>t < N. \<forall>u < N. returned lab_shared (world s) t \<le> calls (world s) u) \<and>
    (\<forall>t < N. ip (threads (world s) t) = length (lab_wait N) \<longrightarrow> senses s t = s_sense (cmem (world s)))"
proof -
  have N: "nthreads (N - 1) = N" by (rule nthreads_any [OF assms(1,2)])
  have inv: "lab_inv N s" by (rule lab_inv_reach [OF assms])
  have reach: "creach lab_shared N (world s)" using inv by (simp add: lab_inv_def)
  have "senses s t = s_sense (cmem (world s))" if "t < N" "ip (threads (world s) t) = length (lab_wait N)" for t
  proof -
    have "private_ok (senses s t) (threads (world s) t) (s_sense (cmem (world s)))" using inv that(1) by (simp add: lab_inv_def)
    then show ?thesis using that(2) by (simp add: lab_defs)
  qed
  then show ?thesis
    using lab.refines [of "N - 1" "world s"] lab.no_early_return [of "N - 1" "world s"] reach unfolding N by blast
qed


text \<open>One thread, one call.\<close>

fun run_local :: "nat \<Rightarrow> nat \<Rightarrow> u32 \<times> tstate \<times> sense_t \<times> bool \<Rightarrow> (u32 \<times> tstate \<times> sense_t \<times> bool) option" where
  "run_local N 0 x = Some x"
| "run_local N (Suc k) (my, ts, m, rv) =
     (if ip ts < length (lab_wait N) then run_local N k (exec_lab True (lab_wait N ! ip ts) (my, ts, m, rv)) else None)"

lemma run_local_steps:
  assumes "t < N" and "lreach N s"
    and "run_local N k (senses s t, threads (world s) t, cmem (world s), resv (world s) t) = Some (my, ts, m, rv)"
  shows "\<exists>s'. lreach N s' \<and> senses s' t = my \<and> threads (world s') t = ts \<and> cmem (world s') = m \<and> calls (world s') = calls (world s)"
  using assms(2,3)
proof (induction k arbitrary: s)
  case (Suc k)
  then have ip: "ip (threads (world s) t) < length (lab_wait N)" by (simp split: if_splits)
  let ?s = "run_lab N True t s"
  have "lreach N ?s"
    using Suc.prems(1) lstep.instr [OF assms(1) ip] unfolding lreach_def by (meson rtranclp.rtrancl_into_rtrancl)
  moreover have "(senses ?s t, threads (world ?s) t, cmem (world ?s), resv (world ?s) t) =
      exec_lab True (lab_wait N ! ip (threads (world s) t)) (senses s t, threads (world s) t, cmem (world s), resv (world s) t)"
    "calls (world ?s) = calls (world s)"
    by (simp_all add: run_lab_def Let_def split: prod.splits)
  ultimately show ?case using Suc.IH [of ?s] Suc.prems(2) ip by simp
qed auto

definition ex_lab_called :: lstate where
  "ex_lab_called = (let s = linit 1 (\<lambda>_. ex_thread); w = world s
     in s\<lparr>world := w\<lparr>threads := (threads w)(0 := ex_thread), calls := (calls w)(0 := calls w 0 + 1)\<rparr>\<rparr>)"

lemma ex_lab_called_reach: "lreach 1 ex_lab_called"
proof -
  have "lstep 1 (linit 1 (\<lambda>_. ex_thread)) ex_lab_called"
    unfolding ex_lab_called_def Let_def by (rule lstep.call) (simp_all add: linit_def ex_thread_def)
  then show ?thesis unfolding lreach_def by blast
qed

lemma ex_lab_run:
  "\<exists>ts rv. run_local 1 20 (0, ex_thread, barrier_init 1, False) = Some (- 1, ts, \<lparr>s_c = 1, s_sense = - 1, s_n = 1\<rparr>, rv) \<and> ip ts = 24"
  by (simp add: barrier_init_def lab_wait_def ex_thread_def numeral_eq_Suc machine) (rule exI [of _ False], simp)

theorem lab_refines_witness:
  "\<exists>s :: lstate. returned lab_shared (world s) 0 = 1 \<and> senses s 0 = - 1 \<and> s_sense (cmem (world s)) = - 1 \<and>
   (\<exists>a. areach arm_flip zero_last 1 a \<and> mem a = cmem (world s) \<and> 1 \<le> left a 0)"
proof -
  obtain ts rv where "run_local 1 20 (0, ex_thread, barrier_init 1, False) = Some (- 1, ts, \<lparr>s_c = 1, s_sense = - 1, s_n = 1\<rparr>, rv)" "ip ts = 24"
    using ex_lab_run by blast
  moreover have "senses ex_lab_called 0 = 0" "threads (world ex_lab_called) 0 = ex_thread" "cmem (world ex_lab_called) = barrier_init 1"
      "resv (world ex_lab_called) 0 = False" "calls (world ex_lab_called) 0 = 1"
    by (simp_all add: ex_lab_called_def linit_def Let_def)
  ultimately obtain s where s: "lreach 1 s" "ip (threads (world s) 0) = 24" "s_sense (cmem (world s)) = - 1" "calls (world s) 0 = 1"
    using run_local_steps [OF _ ex_lab_called_reach, of 0 20] by fastforce
  note * = lab_refines [OF _ _ s(1)]
  have "returned lab_shared (world s) 0 = 1" using s by (simp add: returned_def lab_shared_def)
  moreover have "ip (threads (world s) 0) = length (lab_wait 1)" using s(2) by (simp add: lab_wait_def)
  ultimately show ?thesis using * s(3) by (intro exI [of _ s]) auto
qed

end
