(* ===== verification/KvmRoles.thy ===== *)
theory KvmRoles
  imports Roles Faults
begin

section \<open>Roles and faults under the hypervisor (\<^verbatim>\<open>_instance.c\<close>, \<^verbatim>\<open>_aarch64/kvm_fault_handler.c\<close>)\<close>

text \<open>
  Under \<open>KVM\<close>, \<open>set_role\<close> also writes, before its last barrier, the tables that the fault handler reads:
  \<open>whoami\<close>, indexed by processors, \<open>vars_ptr\<close> and \<open>th_faults\<close>, indexed by instances.  The state and the steps extend
  those of theory \<open>Roles\<close>, and the handler is the one of theory \<open>Faults\<close>, which these tables lead to the record of
  a thread.  A pointer to the variables or to the faults of a context is the index of the context, or \<open>None\<close> for \<open>NULL\<close>.
  The options \<open>HAVE_FAULT_HANDLER\<close> and \<open>SEE_FAULTS\<close> are set, and \<open>who_t\<close> is declared in the generated code.  The calls of the
  hypervisor (\<open>set_feature\<close>, \<open>set_fault_vector\<close>) are left out.
\<close>

subsection \<open>The model\<close>

record who_t =
  w_instance :: int
  w_proc :: int

record kstate = rstate +
  whoami :: "who_t list"
  vars_ptr :: "nat option list"
  th_faults :: "nat option list"

text \<open>\<open>SOME_VARS\<close> is defined when the test has variables.\<close>

definition kvm_ids :: "bool \<Rightarrow> thread_ctx_t \<Rightarrow> kstate \<Rightarrow> kstate res" where
  "kvm_ids SOME_VARS c s =
     (case t_ctx c of
        None \<Rightarrow> Inr s
      | Some k \<Rightarrow>
          bind_res (aset (whoami s) (int (t_id c)) \<lparr>w_instance = t_inst c, w_proc = t_role c\<rparr>) (\<lambda>w.
          let s = s\<lparr>whoami := w\<rparr> in
          if t_role c = 0 then
            bind_res (aset (vars_ptr s) (t_inst c) (if SOME_VARS then Some k else None)) (\<lambda>v.
            bind_res (aset (th_faults s) (t_inst c) (Some k)) (\<lambda>f. Inr (s\<lparr>vars_ptr := v, th_faults := f\<rparr>)))
          else Inr s))"

text \<open>The tables are written on the way to the last barrier.\<close>

definition kvm_next :: "conf \<Rightarrow> 'p global_t \<Rightarrow> int \<Rightarrow> bool \<Rightarrow> kstate \<Rightarrow> nat \<Rightarrow> kstate res option" where
  "kvm_next cf g part SOME_VARS s t =
     (case role_next cf g part (rstate.truncate s) t of
        None \<Rightarrow> None
      | Some r \<Rightarrow> Some (bind_res r (\<lambda>(p, c, is).
          bind_res (if fst (threads s ! t) = Leave then kvm_ids SOME_VARS c s else Inr s) (\<lambda>s.
          Inr (s\<lparr>threads := (threads s)[t := (p, c)], inds := is\<rparr>)))))"

inductive kvm_step :: "conf \<Rightarrow> 'p global_t \<Rightarrow> int \<Rightarrow> bool \<Rightarrow> kstate \<Rightarrow> kstate \<Rightarrow> bool" for cf g part SOME_VARS where
  step: "t < length (threads s) \<Longrightarrow> kvm_next cf g part SOME_VARS s t = Some (Inr s') \<Longrightarrow>
    kvm_step cf g part SOME_VARS s s'"

inductive_cases kvm_step_cases: "kvm_step cf g part SOME_VARS s s'"

text \<open>
  The faults that the contexts have recorded, by instance and role, and the counters of faults, by role.  The
  processor \<open>cpu\<close> faults at \<open>addr\<close>; the result has the address where it goes on.  One call of the handler is one
  step: the counter, of 32 bits, is incremented atomically and no other thread has the same record, as is proved below.
\<close>

record fault_mem =
  ctx_faults :: "th_faults_info_t list list"
  fault_counts :: "u32 list"

definition handle ::
  "(nat \<Rightarrow> fault_env) \<Rightarrow> (nat \<Rightarrow> int \<Rightarrow> fault_mode) \<Rightarrow> kstate \<Rightarrow> nat \<Rightarrow> u32 \<Rightarrow> u64 \<Rightarrow> fault_mem \<Rightarrow> (fault_mem \<times> u64) res" where
  "handle env mode s cpu esr addr m =
     bind_res (aget (whoami s) (int cpu)) (\<lambda>w.
     bind_res (aget (fault_counts m) (w_proc w)) (\<lambda>n.
     bind_res (aget (th_faults s) (w_instance w)) (\<lambda>fp.
     bind_res (aget (vars_ptr s) (w_instance w)) (\<lambda>vp.
     case (fp, vp) of
       (Some k, Some v) \<Rightarrow>
         bind_res (aget (ctx_faults m) (int k)) (\<lambda>row.
         bind_res (aget row (w_proc w)) (\<lambda>th.
         bind_res (fault_handler (env v) (mode v (w_proc w)) (nat (w_proc w)) esr \<lparr>nfaults = n, th_table = th, reg_pc = addr\<rparr>) (\<lambda>r.
           Inr (m\<lparr>ctx_faults := (ctx_faults m)[k := row[nat (w_proc w) := th_table r]],
                  fault_counts := (fault_counts m)[nat (w_proc w) := nfaults r]\<rparr>, reg_pc r))))
     | _ \<Rightarrow> Inl Undefined))))"

text \<open>Faults of any processors, in the order in which they happen.\<close>

fun handle_all ::
  "(nat \<Rightarrow> fault_env) \<Rightarrow> (nat \<Rightarrow> int \<Rightarrow> fault_mode) \<Rightarrow> kstate \<Rightarrow> (nat \<times> u32 \<times> u64) list \<Rightarrow> fault_mem \<Rightarrow> fault_mem res" where
  "handle_all env mode s [] m = Inr m"
| "handle_all env mode s ((cpu, esr, addr) # es) m =
     bind_res (handle env mode s cpu esr addr m) (\<lambda>(m, _). handle_all env mode s es m)"

subsection \<open>The steps of \<open>Roles\<close>\<close>

lemma truncate_simps [simp]: "threads (rstate.truncate s) = threads s" "inds (rstate.truncate s) = inds s"
  by (simp_all add: rstate.truncate_def)

lemma kvm_ids_threads: "kvm_ids sv c s = Inr s' \<Longrightarrow> threads s' = threads s \<and> inds s' = inds s"
  by (auto simp: kvm_ids_def res_simps Let_def split: option.splits if_splits)

lemma kvm_step_parts:
  assumes "kvm_step cf g part sv s s'"
  obtains t p c "is" s1 where "t < length (threads s)" "role_next cf g part (rstate.truncate s) t = Some (Inr (p, c, is))"
    "(if fst (threads s ! t) = Leave then kvm_ids sv c s else Inr s) = Inr s1" "threads s1 = threads s" "inds s1 = inds s"
    "s' = s1\<lparr>threads := (threads s)[t := (p, c)], inds := is\<rparr>"
proof -
  obtain t where t: "t < length (threads s)" "kvm_next cf g part sv s t = Some (Inr s')"
    using assms by (rule kvm_step_cases)
  then obtain p c "is" s1 where *: "role_next cf g part (rstate.truncate s) t = Some (Inr (p, c, is))"
      "(if fst (threads s ! t) = Leave then kvm_ids sv c s else Inr s) = Inr s1"
      "s' = s1\<lparr>threads := (threads s1)[t := (p, c)], inds := is\<rparr>"
    by (auto simp: kvm_next_def res_simps split: option.splits)
  then have "threads s1 = threads s" "inds s1 = inds s" using kvm_ids_threads by (auto split: if_splits)
  then show thesis using that [OF t(1) *(1,2)] *(3) by simp
qed

lemma kvm_step_refines:
  assumes "kvm_step cf g part sv s s'"
  shows "role_step cf g part (rstate.truncate s) (rstate.truncate s')"
  using assms
proof (rule kvm_step_parts)
  fix t p c "is" s1
  assume *: "t < length (threads s)" "role_next cf g part (rstate.truncate s) t = Some (Inr (p, c, is))"
    "threads s1 = threads s" "inds s1 = inds s" "s' = s1\<lparr>threads := (threads s)[t := (p, c)], inds := is\<rparr>"
  then have "rstate.truncate s' = (rstate.truncate s)\<lparr>threads := (threads s)[t := (p, c)], inds := is\<rparr>"
    by (simp add: rstate.truncate_def)
  then show ?thesis using role_step.step [of t "rstate.truncate s" cf g part p c "is"] *(1,2) by simp
qed

lemma kvm_reach_refines:
  "(kvm_step cf g part sv)\<^sup>*\<^sup>* s s' \<Longrightarrow> (role_step cf g part)\<^sup>*\<^sup>* (rstate.truncate s) (rstate.truncate s')"
  by (induction rule: rtranclp_induct) (auto dest: kvm_step_refines)


subsection \<open>The tables identify the threads\<close>

definition var_ptr :: "bool \<Rightarrow> nat \<Rightarrow> nat option" where
  "var_ptr SOME_VARS k = (if SOME_VARS then Some k else None)"

text \<open>What the tables hold for a thread that has written them.\<close>

definition identified :: "bool \<Rightarrow> kstate \<Rightarrow> nat \<Rightarrow> thread_ctx_t \<Rightarrow> nat \<Rightarrow> bool" where
  "identified sv s t c k \<longleftrightarrow> whoami s ! t = \<lparr>w_instance = int k, w_proc = t_role c\<rparr> \<and>
     (t_role c = 0 \<longrightarrow> vars_ptr s ! k = var_ptr sv k \<and> th_faults s ! k = Some k)"

definition ids_ok :: "bool \<Rightarrow> kstate \<Rightarrow> nat \<Rightarrow> phase \<times> thread_ctx_t \<Rightarrow> bool" where
  "ids_ok sv s t = (\<lambda>(p, c). \<forall>k. 3 \<le> rank p \<and> t_ctx c = Some k \<longrightarrow>
     t_inst c = int k \<and> (8 \<le> rank p \<longrightarrow> identified sv s t c k))"

definition tables_ok :: "conf \<Rightarrow> 'p global_t \<Rightarrow> kstate \<Rightarrow> bool" where
  "tables_ok cf g s \<longleftrightarrow> length (whoami s) = AVAIL cf \<and> length (vars_ptr s) = NEXE cf \<and> length (th_faults s) = NEXE cf \<and>
     length (g_ctx g) = NEXE cf"

definition kvm_entry :: "conf \<Rightarrow> 'p global_t \<Rightarrow> kstate \<Rightarrow> bool" where
  "kvm_entry cf g s \<longleftrightarrow> at_entry cf g (rstate.truncate s) \<and> tables_ok cf g s"

definition kvm_inv :: "conf \<Rightarrow> 'p global_t \<Rightarrow> int \<Rightarrow> bool \<Rightarrow> kstate \<Rightarrow> bool" where
  "kvm_inv cf g part sv s \<longleftrightarrow> role_inv cf g part (rstate.truncate s) \<and> tables_ok cf g s \<and>
     (\<forall>t < AVAIL cf. ids_ok sv s t (threads s ! t))"

lemma kvm_inv_entry: "setup_ok cf g part \<Longrightarrow> kvm_entry cf g s \<Longrightarrow> kvm_inv cf g part sv s"
  using inv_entry [of cf g part "rstate.truncate s"]
  by (auto simp: kvm_inv_def kvm_entry_def at_entry_def ids_ok_def split: prod.splits)

text \<open>A running instance has its cells in the tables.\<close>

lemma ctx_in_tables:
  assumes "setup_ok cf g part" and "tables_ok cf g s" and "thread_ok cf g part is t (p, c)" and "3 \<le> rank p" and "t_ctx c = Some k"
  shows "k < nat (g_nexe g) \<and> k < NEXE cf"
proof -
  have "placed cf g part t" "k = nat (fst (place cf g part t))"
    using assms(3-5) by (cases "placed cf g part t"; force simp: thread_ok_def)+
  then have "k < nat (g_nexe g)" by (auto simp: placed_def)
  moreover have "g_nexe g \<le> int (NEXE cf)" using assms(1,2) by (simp add: setup_ok_def tables_ok_def)
  ultimately show ?thesis by linarith
qed

text \<open>The instance of a thread, once chosen, is the index of its context.\<close>

lemma inst_is_ctx:
  assumes "setup_ok cf g part" and "t < AVAIL cf" and "role_next cf g part s t = Some (Inr (p', c', is))"
    and "threads s ! t = (p, c)" and "t_id c = t" and "3 \<le> rank p \<Longrightarrow> \<forall>k. t_ctx c = Some k \<longrightarrow> t_inst c = int k"
  shows "3 \<le> rank p' \<Longrightarrow> t_ctx c' = Some k \<Longrightarrow> t_inst c' = int k"
  using assms(3-6)
  by (cases p) (auto simp: role_next_simps choose_places [OF assms(1,2)] shuffle_role_def pick_role_def res_simps placed_def
      split: option.splits if_splits)

lemma kvm_ids_total:
  assumes "tables_ok cf g s" and "t_id c < AVAIL cf" and "\<And>k. t_ctx c = Some k \<Longrightarrow> k < NEXE cf \<and> t_inst c = int k"
  shows "\<exists>s'. kvm_ids sv c s = Inr s' \<and> tables_ok cf g s' \<and> (\<forall>k. t_ctx c = Some k \<longrightarrow> identified sv s' (t_id c) c k) \<and>
    (\<forall>u d k. u \<noteq> t_id c \<longrightarrow> identified sv s u d k \<longrightarrow> identified sv s' u d k)"
  using assms
  by (cases "t_ctx c") (auto simp: kvm_ids_def tables_ok_def identified_def var_ptr_def Let_def nth_list_update)

lemma kvm_step_ok:
  assumes tab: "setup_ok cf g part" and inv: "kvm_inv cf g part sv s" and t: "t < AVAIL cf"
    and nx: "role_next cf g part (rstate.truncate s) t = Some (Inr (p', c', is))"
  shows "\<exists>s1. (if fst (threads s ! t) = Leave then kvm_ids sv c' s else Inr s) = Inr s1 \<and>
    kvm_inv cf g part sv (s1\<lparr>threads := (threads s)[t := (p', c')], inds := is\<rparr>)"
proof -
  let ?s = "rstate.truncate s"
  obtain p c where pc: "threads s ! t = (p, c)" by force
  have ri: "role_inv cf g part ?s" and tabs: "tables_ok cf g s" and ids: "\<And>u. u < AVAIL cf \<Longrightarrow> ids_ok sv s u (threads s ! u)"
    using inv by (simp_all add: kvm_inv_def)
  have len: "length (threads s) = AVAIL cf" and ok: "thread_ok cf g part (inds s) t (p, c)"
    using ri t pc by (auto simp: role_inv_def)
  have tid: "t_id c = t" using ok by (simp add: thread_ok_def)
  have inst: "t_inst c' = int k" if "3 \<le> rank p'" "t_ctx c' = Some k" for k
    using inst_is_ctx [OF tab t nx _ tid _ that] ids [OF t] pc by (simp add: ids_ok_def)
  have ri': "role_inv cf g part (?s\<lparr>threads := (threads s)[t := (p', c')], inds := is\<rparr>)" and up: "rank p < rank p'"
    using inv_step [OF tab ri t nx] pc by simp_all
  have build: "kvm_inv cf g part sv (s1\<lparr>threads := (threads s)[t := (p', c')], inds := is\<rparr>)"
    if s1: "rstate.truncate s1 = ?s" "tables_ok cf g s1" "\<And>k. 8 \<le> rank p' \<Longrightarrow> t_ctx c' = Some k \<Longrightarrow> identified sv s1 t c' k"
      "\<And>u d k. u \<noteq> t \<Longrightarrow> identified sv s u d k \<Longrightarrow> identified sv s1 u d k" for s1
  proof -
    let ?s' = "s1\<lparr>threads := (threads s)[t := (p', c')], inds := is\<rparr>"
    have same: "identified sv ?s' = identified sv s1" by (intro ext) (simp add: identified_def)
    have "ids_ok sv ?s' u (threads ?s' ! u)" if u: "u < AVAIL cf" for u
    proof (cases "u = t")
      case True
      then show ?thesis using inst s1(3) t len by (simp add: ids_ok_def same)
    next
      case False
      then show ?thesis using ids [OF u] s1(4) [OF False] by (auto simp: ids_ok_def same split: prod.splits)
    qed
    moreover have "rstate.truncate ?s' = ?s\<lparr>threads := (threads s)[t := (p', c')], inds := is\<rparr>"
      using s1(1) by (simp add: rstate.truncate_def)
    moreover have "tables_ok cf g ?s'" using s1(2) by (simp add: tables_ok_def)
    ultimately show ?thesis using ri' by (simp only: kvm_inv_def) blast
  qed
  show ?thesis
  proof (cases "p = Leave")
    case False
    have "identified sv s t c' k" if "8 \<le> rank p'" "t_ctx c' = Some k" for k
    proof -
      have "p = Wait_end" using that(1) nx pc False by (cases p) (auto simp: role_next_simps res_simps split: if_splits)
      then have "c' = c" using nx pc by (simp add: role_next_simps split: if_splits)
      then show ?thesis using ids [OF t] pc that \<open>p = Wait_end\<close> by (simp add: ids_ok_def)
    qed
    then show ?thesis using build [of s] tabs pc False by simp
  next
    case True
    then have c': "c' = c" "p' = Wait_end" using nx pc by (simp_all add: role_next_simps)
    have "k < NEXE cf \<and> t_inst c = int k" if "t_ctx c = Some k" for k
      using ctx_in_tables [OF tab tabs ok, of k] that inst [of k] c' True by simp
    then obtain s1 where s1: "kvm_ids sv c s = Inr s1" "tables_ok cf g s1" "\<And>k. t_ctx c = Some k \<Longrightarrow> identified sv s1 t c k"
        "\<And>u d k. u \<noteq> t \<Longrightarrow> identified sv s u d k \<Longrightarrow> identified sv s1 u d k"
      using kvm_ids_total [OF tabs, of c sv] tid t by metis
    have "rstate.truncate s1 = ?s" using kvm_ids_threads [OF s1(1)] by (simp add: rstate.truncate_def)
    then show ?thesis using build [OF _ s1(2)] s1 pc True c' by simp
  qed
qed


lemma kvm_inv_step:
  assumes "setup_ok cf g part" and inv: "kvm_inv cf g part sv s" and "kvm_step cf g part sv s s'"
  shows "kvm_inv cf g part sv s'"
  using assms(3)
proof (rule kvm_step_parts)
  fix t p c "is" s1
  assume *: "t < length (threads s)" "role_next cf g part (rstate.truncate s) t = Some (Inr (p, c, is))"
    "(if fst (threads s ! t) = Leave then kvm_ids sv c s else Inr s) = Inr s1"
    "s' = s1\<lparr>threads := (threads s)[t := (p, c)], inds := is\<rparr>"
  have "t < AVAIL cf" using inv *(1) by (simp add: kvm_inv_def role_inv_def)
  then show ?thesis using kvm_step_ok [OF assms(1,2) _ *(2)] *(3,4) by auto
qed

lemma kvm_inv_reach:
  assumes "setup_ok cf g part" and "(kvm_step cf g part sv)\<^sup>*\<^sup>* s s'" and "kvm_inv cf g part sv s"
  shows "kvm_inv cf g part sv s'"
  using assms(2,3) by (induction rule: rtranclp_induct) (auto intro: kvm_inv_step [OF assms(1)])

lemma kvm_never_fails:
  assumes "setup_ok cf g part" and inv: "kvm_inv cf g part sv s" and "t < AVAIL cf"
  shows "kvm_next cf g part sv s t \<noteq> Some (Inl e)"
proof
  assume fail: "kvm_next cf g part sv s t = Some (Inl e)"
  then obtain r where r: "role_next cf g part (rstate.truncate s) t = Some r" by (auto simp: kvm_next_def split: option.splits)
  have "role_inv cf g part (rstate.truncate s)" using inv by (simp add: kvm_inv_def)
  then obtain x where "r = Inr x" using role_never_fails [OF assms(1) _ assms(3)] r by (cases r) blast+
  moreover obtain p c "is" where "x = (p, c, is)" by (rule prod_cases3)
  ultimately have nx: "role_next cf g part (rstate.truncate s) t = Some (Inr (p, c, is))" using r by simp
  then obtain s1 where "(if fst (threads s ! t) = Leave then kvm_ids sv c s else Inr s) = Inr s1"
    using kvm_step_ok [OF assms nx] by blast
  then show False using fail nx by (simp add: kvm_next_def)
qed

lemma kvm_steps_on:
  assumes "setup_ok cf g part" and inv: "kvm_inv cf g part sv s" and "role_step cf g part (rstate.truncate s) r"
  shows "\<exists>s'. kvm_step cf g part sv s s'"
proof -
  obtain t where t: "t < length (threads s)" "role_next cf g part (rstate.truncate s) t \<noteq> None"
    using assms(3) by (elim role_step_thread) simp
  then have "t < AVAIL cf" using inv by (simp add: kvm_inv_def role_inv_def)
  moreover have "kvm_next cf g part sv s t \<noteq> None" using t(2) by (auto simp: kvm_next_def split: option.splits)
  ultimately obtain s' where "kvm_next cf g part sv s t = Some (Inr s')"
    using kvm_never_fails [OF assms(1,2)] by (metis not_None_eq obj_sumE)
  then show ?thesis using t(1) kvm_step.step by blast
qed

lemma kvm_finishes:
  assumes "setup_ok cf g part" and "kvm_inv cf g part sv s"
  shows "\<exists>s'. (kvm_step cf g part sv)\<^sup>*\<^sup>* s s' \<and> all_returned (rstate.truncate s')"
  using assms(2)
proof (induction "9 * AVAIL cf - work (rstate.truncate s)" arbitrary: s rule: less_induct)
  case less
  have ri: "role_inv cf g part (rstate.truncate s)" using less.prems by (simp add: kvm_inv_def)
  show ?case
  proof (cases "all_returned (rstate.truncate s)")
    case False
    then obtain s1 where s1: "kvm_step cf g part sv s s1"
      using role_steps_on [OF assms(1) ri] kvm_steps_on [OF assms(1) less.prems] by blast
    have inv: "kvm_inv cf g part sv s1" by (rule kvm_inv_step [OF assms(1) less.prems s1])
    then have "work (rstate.truncate s1) \<le> 9 * AVAIL cf"
      using work_le [of "rstate.truncate s1"] by (simp add: kvm_inv_def role_inv_def)
    then have "9 * AVAIL cf - work (rstate.truncate s1) < 9 * AVAIL cf - work (rstate.truncate s)"
      using work_step [OF assms(1) ri kvm_step_refines [OF s1]] by simp
    then show ?thesis using less.hyps [of s1] inv s1 by (meson converse_rtranclp_into_rtranclp)
  qed blast
qed

lemma image_roles_inj:
  assumes "finite A" and "image_mset f (mset_set A) = roles n"
  shows "inj_on f A"
proof -
  have "card A = n" using arg_cong [OF assms(2), of size] by simp
  moreover have "f ` A = int ` {0..<n}"
    using arg_cong [OF assms(2), of set_mset] assms(1) by (simp add: roles_def)
  moreover have "card (int ` {0..<n}) = n" by (simp add: card_image)
  ultimately show ?thesis using assms(1) by (metis eq_card_imp_inj_on)
qed

text \<open>The threads that take part, their instances and their roles.\<close>

definition running :: "kstate \<Rightarrow> nat set" where
  "running s = {t. t < length (threads s) \<and> t_ctx (snd (threads s ! t)) \<noteq> None}"

definition inst_of :: "kstate \<Rightarrow> nat \<Rightarrow> nat" where
  "inst_of s t = the (t_ctx (snd (threads s ! t)))"

definition role_of :: "kstate \<Rightarrow> nat \<Rightarrow> int" where
  "role_of s t = t_role (snd (threads s ! t))"

lemma held_image:
  "held k (rstate.truncate s) =
    image_mset (role_of s) (mset_set {t \<in> {0..<length (threads s)}. t_ctx (snd (threads s ! t)) = Some k})"
  unfolding held_def case_prod_unfold truncate_simps mset_filter_index role_of_def ..

lemma running_facts:
  assumes "setup_ok cf g part" and inv: "kvm_inv cf g part sv s" and ret: "all_returned (rstate.truncate s)"
  shows "t \<in> running s \<Longrightarrow> inst_of s t < nat (g_nexe g) \<and> inst_of s t < NEXE cf \<and> 0 \<le> role_of s t \<and> role_of s t < int (n_th cf) \<and>
      whoami s ! t = \<lparr>w_instance = int (inst_of s t), w_proc = role_of s t\<rparr>"
    and "k < nat (g_nexe g) \<Longrightarrow> vars_ptr s ! k = var_ptr sv k \<and> th_faults s ! k = Some k"
    and "inj_on (\<lambda>t. (inst_of s t, role_of s t)) (running s)"
proof -
  let ?A = "\<lambda>k. {t \<in> {0..<length (threads s)}. t_ctx (snd (threads s ! t)) = Some k}"
  have ri: "role_inv cf g part (rstate.truncate s)" and tabs: "tables_ok cf g s"
    and ids: "\<And>u. u < AVAIL cf \<Longrightarrow> ids_ok sv s u (threads s ! u)"
    using inv by (simp_all add: kvm_inv_def)
  have len: "length (threads s) = AVAIL cf" using ri by (simp add: role_inv_def)
  have full: "k < nat (g_nexe g) \<and> k < NEXE cf \<and> identified sv s t (snd (threads s ! t)) k"
    if t: "t < AVAIL cf" "t_ctx (snd (threads s ! t)) = Some k" for t k
  proof -
    obtain p c where pc: "threads s ! t = (p, c)" by force
    have "(p, c) \<in> set (threads s)" using t(1) len pc by (metis nth_mem)
    then have "p = Returned" using ret by (auto simp: all_returned_def)
    moreover have "thread_ok cf g part (inds s) t (p, c)" using ri t(1) pc by (auto simp: role_inv_def)
    ultimately show ?thesis using ctx_in_tables [OF assms(1) tabs, of "inds s" t p c k] t ids [OF t(1)] pc
      by (simp add: ids_ok_def)
  qed
  have roles: "image_mset (role_of s) (mset_set (?A k)) = roles (n_th cf)" if "k < nat (g_nexe g)" for k
    using held_roles [OF assms(1) ri ret that] by (simp add: held_image)
  have run: "t < AVAIL cf \<and> t_ctx (snd (threads s ! t)) = Some (inst_of s t)" if "t \<in> running s" for t
    using that len by (auto simp: running_def inst_of_def)
  show facts: "inst_of s t < nat (g_nexe g) \<and> inst_of s t < NEXE cf \<and> 0 \<le> role_of s t \<and> role_of s t < int (n_th cf) \<and>
      whoami s ! t = \<lparr>w_instance = int (inst_of s t), w_proc = role_of s t\<rparr>" if "t \<in> running s" for t
  proof -
    have k: "inst_of s t < nat (g_nexe g)" using full run [OF that] by blast
    have "role_of s t \<in># image_mset (role_of s) (mset_set (?A (inst_of s t)))" using run [OF that] len by simp
    then have "role_of s t \<in># roles (n_th cf)" unfolding roles [OF k] .
    then show ?thesis using full [of t "inst_of s t"] run [OF that] by (simp add: roles_member identified_def role_of_def)
  qed
  show "vars_ptr s ! k = var_ptr sv k \<and> th_faults s ! k = Some k" if k: "k < nat (g_nexe g)"
  proof -
    have "0 < n_th cf" using assms(1) by (simp add: setup_ok_def)
    then have "0 \<in># image_mset (role_of s) (mset_set (?A k))" unfolding roles [OF k] by (simp add: roles_member)
    then obtain t where t: "t < AVAIL cf" "t_ctx (snd (threads s ! t)) = Some k" "role_of s t = 0" using len by auto
    then show ?thesis using full by (auto simp: identified_def role_of_def)
  qed
  show "inj_on (\<lambda>t. (inst_of s t, role_of s t)) (running s)"
  proof (rule inj_onI)
    fix t u assume tu: "t \<in> running s" "u \<in> running s" "(inst_of s t, role_of s t) = (inst_of s u, role_of s u)"
    then have "inj_on (role_of s) (?A (inst_of s t))"
      using image_roles_inj [OF _ roles] facts [OF tu(1)] by simp
    moreover have "t \<in> ?A (inst_of s t)" "u \<in> ?A (inst_of s t)" using run [OF tu(1)] run [OF tu(2)] tu(3) len by simp_all
    ultimately show "t = u" using tu(3) by (simp add: inj_on_eq_iff)
  qed
qed


subsection \<open>Each fault is recorded for its thread\<close>

definition fault_mem_ok :: "conf \<Rightarrow> fault_mem \<Rightarrow> bool" where
  "fault_mem_ok cf m \<longleftrightarrow> length (ctx_faults m) = NEXE cf \<and> length (fault_counts m) = n_th cf \<and>
     (\<forall>row \<in> set (ctx_faults m). length row = n_th cf \<and> (\<forall>th \<in> set row. faults_ok th))"

text \<open>The record of thread \<open>t\<close>.\<close>

definition record_of :: "kstate \<Rightarrow> fault_mem \<Rightarrow> nat \<Rightarrow> th_faults_info_t" where
  "record_of s m t = ctx_faults m ! inst_of s t ! nat (role_of s t)"

text \<open>The faults of one thread, recorded one after the other in a record of its own.\<close>

fun record_all :: "fault_env \<Rightarrow> nat \<Rightarrow> (nat \<times> u32 \<times> u64) list \<Rightarrow> th_faults_info_t \<Rightarrow> th_faults_info_t res" where
  "record_all env proc [] th = Inr th"
| "record_all env proc ((cpu, esr, addr) # es) th =
     bind_res (record_fault env proc addr (ucast esr) th) (record_all env proc es)"

lemma handle_correct:
  assumes tab: "setup_ok cf g part" and inv: "kvm_inv cf g part True s" and ret: "all_returned (rstate.truncate s)"
    and ok: "fault_mem_ok cf m" and t: "t \<in> running s"
  shows "\<exists>m' a. handle env mode s t esr addr m = Inr (m', a) \<and> fault_mem_ok cf m' \<and>
    record_fault (env (inst_of s t)) (nat (role_of s t)) addr (ucast esr) (record_of s m t) = Inr (record_of s m' t) \<and>
    (\<forall>u \<in> running s. u \<noteq> t \<longrightarrow> record_of s m' u = record_of s m u) \<and>
    fault_counts m' = (fault_counts m)[nat (role_of s t) := fault_counts m ! nat (role_of s t) + 1]"
proof -
  note facts = running_facts [OF tab inv ret]
  define k r where "k = inst_of s t" and "r = nat (role_of s t)"
  have k: "k < nat (g_nexe g)" "k < NEXE cf" and r: "role_of s t = int r" "r < n_th cf"
    and who: "whoami s ! t = \<lparr>w_instance = int k, w_proc = int r\<rparr>"
    using facts(1) [OF t] by (auto simp: k_def r_def)
  have tabs: "tables_ok cf g s" and "length (threads s) = AVAIL cf" using inv by (simp_all add: kvm_inv_def role_inv_def)
  then have tl: "t < length (whoami s)" using t by (simp add: running_def tables_ok_def)
  have row: "length (ctx_faults m ! k) = n_th cf" "\<And>th. th \<in> set (ctx_faults m ! k) \<Longrightarrow> faults_ok th"
    using ok k(2) by (auto simp: fault_mem_ok_def)
  then have "faults_ok (ctx_faults m ! k ! r)" using r(2) by simp
  then obtain th where th: "record_fault (env k) r addr (ucast esr) (ctx_faults m ! k ! r) = Inr th" "faults_ok th"
    using record_fault_ok by blast
  let ?m = "m\<lparr>ctx_faults := (ctx_faults m)[k := (ctx_faults m ! k)[r := th]],
    fault_counts := (fault_counts m)[r := fault_counts m ! r + 1]\<rparr>"
  have "\<exists>a. handle env mode s t esr addr m = Inr (?m, a)"
    using tl who facts(2) [OF k(1)] tabs ok k(2) r(2) row(1) th(1)
    by (simp add: handle_def tables_ok_def fault_mem_ok_def var_ptr_def fault_handler_def Let_def)
  moreover have "fault_mem_ok cf ?m"
    using ok row th(2) by (auto simp: fault_mem_ok_def dest!: set_update_subset_insert [THEN subsetD])
  moreover have "record_of s ?m t = th"
    using ok k(2) r row(1) by (simp add: record_of_def k_def [symmetric] fault_mem_ok_def)
  moreover have "record_of s ?m u = record_of s m u" if u: "u \<in> running s" "u \<noteq> t" for u
  proof -
    have "\<not> (inst_of s u = k \<and> role_of s u = int r)"
      using inj_onD [OF facts(3) _ u(1) t] u(2) by (auto simp: k_def r)
    moreover have "0 \<le> role_of s u" using facts(1) [OF u(1)] by simp
    ultimately have "inst_of s u \<noteq> k \<or> nat (role_of s u) \<noteq> r" by auto
    then show ?thesis using ok k(2) by (auto simp: record_of_def fault_mem_ok_def nth_list_update)
  qed
  ultimately show ?thesis using th(1) by (auto simp: record_of_def k_def [symmetric] r)
qed

lemma handle_all_correct:
  assumes tab: "setup_ok cf g part" and inv: "kvm_inv cf g part True s" and ret: "all_returned (rstate.truncate s)"
    and "fault_mem_ok cf m" and "\<forall>e \<in> set es. fst e \<in> running s"
  shows "\<exists>m'. handle_all env mode s es m = Inr m' \<and> fault_mem_ok cf m' \<and>
    (\<forall>u \<in> running s. record_all (env (inst_of s u)) (nat (role_of s u)) (filter (\<lambda>e. fst e = u) es) (record_of s m u) =
       Inr (record_of s m' u)) \<and>
    (\<forall>r < n_th cf. fault_counts m' ! r = fault_counts m ! r + of_nat (length (filter (\<lambda>e. role_of s (fst e) = int r) es)))"
  using assms(4,5)
proof (induction es arbitrary: m)
  case (Cons e es)
  obtain t esr addr where e: "e = (t, esr, addr)" by (rule prod_cases3)
  have t: "t \<in> running s" using Cons.prems(2) e by simp
  obtain m1 a where m1: "handle env mode s t esr addr m = Inr (m1, a)" "fault_mem_ok cf m1"
      "record_fault (env (inst_of s t)) (nat (role_of s t)) addr (ucast esr) (record_of s m t) = Inr (record_of s m1 t)"
      "\<And>u. u \<in> running s \<Longrightarrow> u \<noteq> t \<Longrightarrow> record_of s m1 u = record_of s m u"
      "fault_counts m1 = (fault_counts m)[nat (role_of s t) := fault_counts m ! nat (role_of s t) + 1]"
    using handle_correct [OF tab inv ret Cons.prems(1) t] by blast
  obtain m' where m': "handle_all env mode s es m1 = Inr m'" "fault_mem_ok cf m'"
      "\<And>u. u \<in> running s \<Longrightarrow> record_all (env (inst_of s u)) (nat (role_of s u)) (filter (\<lambda>e. fst e = u) es) (record_of s m1 u) =
         Inr (record_of s m' u)"
      "\<And>r. r < n_th cf \<Longrightarrow> fault_counts m' ! r = fault_counts m1 ! r + of_nat (length (filter (\<lambda>e. role_of s (fst e) = int r) es))"
    using Cons.IH [OF m1(2)] Cons.prems(2) by auto
  have "record_all (env (inst_of s u)) (nat (role_of s u)) (filter (\<lambda>e. fst e = u) (e # es)) (record_of s m u) =
      Inr (record_of s m' u)" if "u \<in> running s" for u
    using m'(3) [OF that] m1(3) m1(4) [OF that] by (cases "u = t") (simp_all add: e)
  moreover have "fault_counts m' ! r = fault_counts m ! r + of_nat (length (filter (\<lambda>e. role_of s (fst e) = int r) (e # es)))"
    if r: "r < n_th cf" for r
  proof -
    have "0 \<le> role_of s t" "length (fault_counts m) = n_th cf"
      using running_facts(1) [OF tab inv ret t] Cons.prems(1) by (simp_all add: fault_mem_ok_def)
    then show ?thesis using m'(4) [OF r] m1(5) r by (auto simp: e nth_list_update)
  qed
  ultimately show ?case using m'(1,2) m1(1) by (auto simp: e)
qed simp

subsection \<open>Properties\<close>

text \<open>
  C10: Under the hypervisor \<open>set_role\<close> does what it does without it, never leaves its tables, can always finish, and at its end \<open>whoami\<close> gives each thread
  that takes part its instance and its role, no two threads the same, and \<open>vars_ptr\<close> and \<open>th_faults\<close> point to
  the data of each running instance.
\<close>

theorem kvm_set_role_identifies:
  assumes "setup_ok cf g part" and "kvm_entry cf g s0" and "(kvm_step cf g part SOME_VARS)\<^sup>*\<^sup>* s0 s"
  shows "(role_step cf g part)\<^sup>*\<^sup>* (rstate.truncate s0) (rstate.truncate s) \<and>
    (\<forall>t < AVAIL cf. \<forall>e. kvm_next cf g part SOME_VARS s t \<noteq> Some (Inl e)) \<and>
    (\<exists>s'. (kvm_step cf g part SOME_VARS)\<^sup>*\<^sup>* s s' \<and> all_returned (rstate.truncate s')) \<and>
    (all_returned (rstate.truncate s) \<longrightarrow>
      (\<forall>t \<in> running s. whoami s ! t = \<lparr>w_instance = int (inst_of s t), w_proc = role_of s t\<rparr>) \<and>
      inj_on ((!) (whoami s)) (running s) \<and>
      (\<forall>k < nat (g_nexe g). vars_ptr s ! k = (if SOME_VARS then Some k else None) \<and> th_faults s ! k = Some k))"
proof -
  have inv: "kvm_inv cf g part SOME_VARS s"
    by (rule kvm_inv_reach [OF assms(1,3) kvm_inv_entry [OF assms(1,2)]])
  have "inj_on ((!) (whoami s)) (running s)" if "all_returned (rstate.truncate s)"
    using running_facts(1,3) [OF assms(1) inv that] by (simp add: inj_on_def)
  then show ?thesis
    using kvm_reach_refines [OF assms(3)] kvm_never_fails [OF assms(1) inv] kvm_finishes [OF assms(1) inv] running_facts(1,2) [OF assms(1) inv]
    by (simp add: var_ptr_def)
qed

text \<open>
  C9: Once the roles are given out, and whatever the order in which the processors fault, each record of faults holds what recording
  the faults of its own thread alone would have left there, and each counter has counted the faults of its role, modulo
  \<open>2 ^ 32\<close>, where \<open>count_t\<close> wraps around.
\<close>

theorem faults_reach_their_role:
  assumes "setup_ok cf g part" and "kvm_entry cf g s0" and "(kvm_step cf g part True)\<^sup>*\<^sup>* s0 s"
    and "all_returned (rstate.truncate s)" and "fault_mem_ok cf m" and "\<forall>e \<in> set es. fst e \<in> running s"
  shows "\<exists>m'. handle_all env mode s es m = Inr m' \<and> fault_mem_ok cf m' \<and>
    (\<forall>u \<in> running s. record_all (env (inst_of s u)) (nat (role_of s u)) (filter (\<lambda>e. fst e = u) es) (record_of s m u) =
       Inr (record_of s m' u)) \<and>
    (\<forall>r < n_th cf. fault_counts m' ! r = fault_counts m ! r + of_nat (length (filter (\<lambda>e. role_of s (fst e) = int r) es)))"
  by (rule handle_all_correct [OF assms(1) kvm_inv_reach [OF assms(1,3) kvm_inv_entry [OF assms(1,2)]] assms(4-6)])


subsection \<open>An example\<close>

text \<open>The two instances of two threads of theory \<open>Roles\<close>.\<close>

definition ex_kvm :: kstate where
  "ex_kvm = \<lparr>threads = threads ex_start, inds = inds ex_start, whoami = replicate 4 \<lparr>w_instance = 5, w_proc = 5\<rparr>,
     vars_ptr = [None, None], th_faults = [None, None]\<rparr>"

definition ex_faults :: fault_mem where
  "ex_faults = \<lparr>ctx_faults = replicate 2 (replicate 2 ex_table), fault_counts = [0, 0]\<rparr>"

lemma ex_kvm_entry: "kvm_entry ex_conf ex_roles ex_kvm"
proof -
  have "rstate.truncate ex_kvm = ex_start" by (simp add: ex_kvm_def rstate.truncate_def)
  then have "at_entry ex_conf ex_roles (rstate.truncate ex_kvm)" using ex_at_entry by simp
  moreover have "tables_ok ex_conf ex_roles ex_kvm"
    by (simp add: tables_ok_def ex_kvm_def ex_conf_def ex_roles_def ex_global_def Let_def)
  ultimately show ?thesis by (simp add: kvm_entry_def)
qed

lemma ex_faults_ok: "fault_mem_ok ex_conf ex_faults"
  using ex_table_ok by (auto simp: fault_mem_ok_def ex_faults_def ex_conf_def)

lemma ex_running:
  assumes inv: "kvm_inv ex_conf ex_roles 1 sv s" and ret: "all_returned (rstate.truncate s)" and "t \<in> {0, 1, 2, 3}"
  shows "t \<in> running s"
proof -
  have ri: "role_inv ex_conf ex_roles 1 (rstate.truncate s)" using inv by (simp add: kvm_inv_def)
  then have len: "length (threads s) = 4" by (simp add: role_inv_def ex_conf_def)
  obtain p c where pc: "threads s ! t = (p, c)" by force
  have t: "t < 4" using assms(3) by auto
  then have "(p, c) \<in> set (threads s)" using pc len by (metis nth_mem)
  then have "p = Returned" using ret by (auto simp: all_returned_def)
  moreover have "thread_ok ex_conf ex_roles 1 (inds s) t (p, c)"
    using ri t pc by (auto simp: role_inv_def ex_conf_def)
  moreover have "placed ex_conf ex_roles 1 t"
    using assms(3) by (auto simp: placed_def place_def cell_def ex_roles_def ex_global_def ex_conf_def Let_def)
  ultimately show ?thesis using pc t len by (simp add: running_def thread_ok_def)
qed

lemma ex_kvm_run: "\<exists>s. (kvm_step ex_conf ex_roles 1 sv)\<^sup>*\<^sup>* ex_kvm s \<and> all_returned (rstate.truncate s) \<and> {0, 1, 2, 3} \<subseteq> running s"
proof -
  have inv: "kvm_inv ex_conf ex_roles 1 sv ex_kvm" by (rule kvm_inv_entry [OF ex_setup ex_kvm_entry])
  then obtain s where s: "(kvm_step ex_conf ex_roles 1 sv)\<^sup>*\<^sup>* ex_kvm s" "all_returned (rstate.truncate s)"
    using kvm_finishes [OF ex_setup] by blast
  then show ?thesis using ex_running [OF kvm_inv_reach [OF ex_setup s(1) inv] s(2)] by blast
qed

theorem kvm_set_role_identifies_witness:
  "\<exists>s. (kvm_step ex_conf ex_roles 1 True)\<^sup>*\<^sup>* ex_kvm s \<and> all_returned (rstate.truncate s) \<and> whoami s ! 0 \<noteq> whoami s ! 3 \<and>
    vars_ptr s ! 1 = Some 1 \<and> th_faults s ! 1 = Some 1"
proof -
  obtain s where s: "(kvm_step ex_conf ex_roles 1 True)\<^sup>*\<^sup>* ex_kvm s" "all_returned (rstate.truncate s)" "{0, 1, 2, 3} \<subseteq> running s"
    using ex_kvm_run by blast
  have "1 < nat (g_nexe ex_roles)" by (simp add: ex_roles_def ex_global_def Let_def)
  then show ?thesis
    using kvm_set_role_identifies [OF ex_setup ex_kvm_entry s(1)] s by (auto simp: inj_on_eq_iff intro!: exI [of _ s])
qed

theorem faults_reach_their_role_witness:
  "\<exists>s m. (kvm_step ex_conf ex_roles 1 True)\<^sup>*\<^sup>* ex_kvm s \<and>
    handle_all (\<lambda>k. ex_env) (\<lambda>k r. Fault_skip) s [(1, 0x94000007, 0x1000), (0, 0x94000007, 0x1004), (1, 0x9400000b, 0x1000)] ex_faults = Inr m \<and>
    record_of s m 3 = record_of s ex_faults 3 \<and> fault_mem_ok ex_conf m"
proof -
  obtain s where s: "(kvm_step ex_conf ex_roles 1 True)\<^sup>*\<^sup>* ex_kvm s" "all_returned (rstate.truncate s)" "{0, 1, 2, 3} \<subseteq> running s"
    using ex_kvm_run by blast
  let ?es = "[(1, 0x94000007, 0x1000), (0, 0x94000007, 0x1004), (1, 0x9400000b, 0x1000)]"
  have "\<forall>e \<in> set ?es. fst e \<in> running s" using s(3) by auto
  from faults_reach_their_role [OF ex_setup ex_kvm_entry s(1,2) ex_faults_ok this, of "\<lambda>k. ex_env" "\<lambda>k r. Fault_skip"]
  obtain m where m: "handle_all (\<lambda>k. ex_env) (\<lambda>k r. Fault_skip) s ?es ex_faults = Inr m" "fault_mem_ok ex_conf m"
      "record_all ex_env (nat (role_of s 3)) (filter (\<lambda>e. fst e = 3) ?es) (record_of s ex_faults 3) = Inr (record_of s m 3)"
    using s(3) by blast
  then show ?thesis using s(1) by (intro exI [of _ s] exI [of _ m]) simp
qed

end
