(* ===== verification/Run.thy ===== *)
theory Run
  imports Roles PreSi
begin

section \<open>The main function of the bare-metal harness (\<^verbatim>\<open>_main.c\<close>)\<close>

text \<open>
  \<open>RUN\<close> puts the parts together: the instances and their memory (\<open>Instance\<close>), the options and parameters (\<open>PreSi\<close>), the
  threads, which take roles (\<open>Roles\<close>) and fill the tables of their instances, and the sum of the tables.  What
  the threads do is generated with the test, and so are the tables: \<open>zyvas\<close> and the record \<open>run_cfg\<close> are parameters.  The
  clock is left out.
\<close>

record run_cfg =
  feature_check :: bool
  inst_tab :: "int list"
  role_tab :: "int list"
  parse_tab :: "parse_param_t list"
  NUMBER_OF_RUN :: int
  SIZE_OF_TEST :: int
  HAVE_TIMEBASE :: bool
  DELTA_TB :: int
  NSTEPS :: int

text \<open>The fields of \<open>global_t\<close> that only the generated functions read.\<close>

record run_opts =
  r_verbose :: int
  r_nruns :: int
  r_size :: int
  r_delay :: int
  r_step :: int

definition default_opts :: "conf \<Rightarrow> run_cfg \<Rightarrow> opt_t" where
  "default_opts cf rc =
     (let delta_tb = (if HAVE_TIMEBASE rc then DELTA_TB rc else 0)
      in \<lparr>o_verbose = 0, o_max_run = NUMBER_OF_RUN rc, o_size_of_test = SIZE_OF_TEST rc, o_avail = int (AVAIL cf),
          o_n_exe = int (NEXE cf), o_delay = delta_tb, o_fix = 0\<rparr>)"

definition run_message :: "string \<Rightarrow> int \<Rightarrow> run_opts \<Rightarrow> string" where
  "run_message prog nexe ro =
     (if r_verbose ro \<noteq> 0 then
        prog @ '': n='' @ show_int nexe @ '', r='' @ show_int (r_nruns ro) @ '', s='' @ show_int (r_size ro) @ [CHR 0x0A]
      else [])"

text \<open>
  Up to the launch of the threads.  The result has the global context, the parameters of the test and what is printed.
\<close>

definition prepare ::
  "conf \<Rightarrow> run_cfg \<Rightarrow> bool \<Rightarrow> string \<Rightarrow> string list \<Rightarrow> int list \<Rightarrow> 'p global_t \<Rightarrow>
   ('p global_t \<times> run_opts \<times> int list \<times> string) res" where
  "prepare cf rc errno prog args param g =
     bind_res (init_global cf (inst_tab rc) (role_tab rc) g) (\<lambda>g.
     let dft = default_opts cf rc; d = dft in
     bind_res (parse_opt errno args dft d) (\<lambda>(d, p).
     let nexe = run_nexe cf (o_avail d) (o_n_exe d);
         d = (if HAVE_TIMEBASE rc \<and> o_delay d < NSTEPS rc - 1 then d\<lparr>o_delay := NSTEPS rc - 1\<rparr> else d) in
     bind_res (if HAVE_TIMEBASE rc then
                 if NSTEPS rc = 1 then Inl Undefined else Inr (o_delay d, o_delay d sdiv (NSTEPS rc - 1))
               else Inr (0, 0)) (\<lambda>(delay, stp).
     let ro = \<lparr>r_verbose = o_verbose d, r_nruns = o_max_run d, r_size = o_size_of_test d, r_delay = delay, r_step = stp\<rparr>;
         g = g\<lparr>g_nexe := nexe\<rparr>; g = g\<lparr>g_fix := o_fix d \<noteq> 0\<rparr> in
     bind_res (of_option Undefined (interval_init (g_ind g) (AVAIL cf))) (\<lambda>ind.
     let g = g\<lparr>g_ind := ind\<rparr> in
     bind_res (parse_param (parse_tab rc) p param) (\<lambda>param.
     Inr (g, ro, param, run_message prog nexe ro))))))"

text \<open>
  \<open>zyvas\<close> is what all the threads do until they are joined.  The result is the value returned and, when the test has run,
  the global context, the numbers of positive and negative outcomes and the message.
\<close>

definition RUN ::
  "conf \<Rightarrow> run_cfg \<Rightarrow> (log_t \<Rightarrow> log_t \<Rightarrow> bool) \<Rightarrow> (run_opts \<Rightarrow> int list \<Rightarrow> 'p global_t \<Rightarrow> 'p global_t res) \<Rightarrow>
   bool \<Rightarrow> string \<Rightarrow> string list \<Rightarrow> int list \<Rightarrow> 'p global_t \<Rightarrow> (int \<times> ('p global_t \<times> u32 \<times> u32 \<times> string) option) res" where
  "RUN cf rc eq_log zyvas errno prog args param g =
     (if \<not> feature_check rc then Inr (-1, None)
      else
        bind_res (prepare cf rc errno prog args param g) (\<lambda>(g, ro, param, msg).
        bind_res (zyvas ro param g) (\<lambda>g.
        let g = sum_tables cf eq_log g; (p_true, p_false) = count_outcomes (g_hash g)
        in Inr (0, Some (g, p_true, p_false, msg)))))"

subsection \<open>The preparation\<close>

text \<open>The sizes the generator guarantees.\<close>

definition sizes_ok :: "conf \<Rightarrow> run_cfg \<Rightarrow> 'p global_t \<Rightarrow> bool" where
  "sizes_ok cf rc g \<longleftrightarrow> mem_ok cf g \<and> 0 < n_th cf \<and> n_th cf < 2 ^ 31 \<and> 0 < NEXE cf \<and> length (g_ind g) = AVAIL cf \<and>
     (HAVE_TIMEBASE rc \<longrightarrow> 1 < NSTEPS rc)"

lemma init_global_fields:
  assumes "mem_ok cf g"
  shows "\<exists>g'. init_global cf inst role g = Inr g' \<and> length (g_ctx g') = NEXE cf \<and> g_ind g' = g_ind g \<and>
    g_inst g' = inst \<and> g_role g' = role \<and> (\<forall>c \<in> set (g_ctx g'). ctx_ind c = map int [0..<n_th cf]) \<and> g_hash_ok g'"
  using assms init_ctxs_fresh [of "g_ctx g" cf 0]
  by (auto simp: init_global_def mem_ok_def Let_def fresh_ctx_def)

lemma step_positive: "0 < b \<Longrightarrow> b \<le> a \<Longrightarrow> 1 \<le> a sdiv (b :: int)"
  by (simp add: signed_divide_int_def sgn_if int_one_le_iff_zero_less pos_imp_zdiv_pos_iff)

lemma fewer_instances:
  assumes "row_ok cf (g\<lparr>g_nexe := n\<rparr>) part" and "m \<le> n"
  shows "row_ok cf (g\<lparr>g_nexe := m\<rparr>) part"
  using assms by (auto simp: row_ok_def cell_def)


lemma prepare_correct:
  assumes "sizes_ok cf rc g"
  shows "case parse_opt errno args (default_opts cf rc) (default_opts cf rc) of
      Inl x \<Rightarrow> prepare cf rc errno prog args param g = Inl x
    | Inr (d, p) \<Rightarrow>
        (case parse_param (parse_tab rc) p param of
          Inl x \<Rightarrow> prepare cf rc errno prog args param g = Inl x
        | Inr param' \<Rightarrow> \<exists>g' ro. prepare cf rc errno prog args param g = Inr (g', ro, param', run_message prog (g_nexe g') ro) \<and>
            g_nexe g' = run_nexe cf (o_avail d) (o_n_exe d) \<and> 1 \<le> g_nexe g' \<and> g_nexe g' \<le> int (NEXE cf) \<and> g_hash_ok g' \<and> g_fix g' = (o_fix d \<noteq> 0) \<and>
            r_nruns ro = o_max_run d \<and> r_size ro = o_size_of_test d \<and> (HAVE_TIMEBASE rc \<longrightarrow> 1 \<le> r_step ro) \<and>
            (\<forall>part. row_ok cf (g'\<lparr>g_nexe := int (NEXE cf)\<rparr>) part \<longrightarrow> setup_ok cf g' part))"
proof -
  obtain g1 where g1: "init_global cf (inst_tab rc) (role_tab rc) g = Inr g1" "length (g_ctx g1) = NEXE cf" "g_ind g1 = g_ind g"
      "\<forall>c \<in> set (g_ctx g1). ctx_ind c = map int [0..<n_th cf]" "g_hash_ok g1"
    using init_global_fields assms unfolding sizes_ok_def by metis
  have ind: "interval_init (g_ind g1) (AVAIL cf) = Some (map int [0..<AVAIL cf])"
    using assms g1(3) by (intro interval_init_whole) (simp add: sizes_ok_def)
  have steps: "NSTEPS rc \<noteq> 1" if "HAVE_TIMEBASE rc" using assms that by (simp add: sizes_ok_def)
  show ?thesis
  proof (cases "parse_opt errno args (default_opts cf rc) (default_opts cf rc)")
    case (Inr x)
    obtain d p where d: "x = (d, p)" by force
    define nexe where "nexe = run_nexe cf (o_avail d) (o_n_exe d)"
    define g2 where "g2 = g1\<lparr>g_nexe := nexe, g_fix := o_fix d \<noteq> 0, g_ind := map int [0..<AVAIL cf]\<rparr>"
    have n: "1 \<le> nexe" "nexe \<le> int (NEXE cf)"
      using run_nexe_bounds [of cf] assms by (simp_all add: nexe_def sizes_ok_def)
    have "setup_ok cf g2 part" if "row_ok cf (g2\<lparr>g_nexe := int (NEXE cf)\<rparr>) part" for part
    proof -
      have "row_ok cf (g2\<lparr>g_nexe := nexe\<rparr>) part" by (rule fewer_instances [OF that n(2)])
      moreover have "g2\<lparr>g_nexe := nexe\<rparr> = g2" by (cases g1) (simp add: g2_def)
      ultimately have "row_ok cf g2 part" by simp
      then show ?thesis using assms n g1(2,4) by (simp add: setup_ok_def sizes_ok_def g2_def roles_def)
    qed
    moreover have "1 \<le> (if o_delay d < NSTEPS rc - 1 then NSTEPS rc - 1 else o_delay d) sdiv (NSTEPS rc - 1)" if "HAVE_TIMEBASE rc"
      using assms that by (intro step_positive) (simp_all add: sizes_ok_def)
    ultimately show ?thesis
      using n g1(1,5) ind Inr d steps
      by (auto simp: prepare_def Let_def nexe_def [symmetric] g2_def split: sum.splits)
  qed (simp add: prepare_def g1(1) Let_def)
qed

text \<open>
  C14: The preparation fails exactly when the options or the parameters are refused, with their error.  Otherwise, whatever the options, between 1 and
  \<open>NEXE\<close> instances run and, for every row of the topology that is good for all the instances, what \<open>set_role\<close> needs holds; the step
  of the delays is positive.
\<close>

theorem run_prepares:
  assumes "sizes_ok cf rc g"
  shows "case parse_opt errno args (default_opts cf rc) (default_opts cf rc) of
      Inl x \<Rightarrow> prepare cf rc errno prog args param g = Inl x
    | Inr (d, p) \<Rightarrow>
        (case parse_param (parse_tab rc) p param of
          Inl x \<Rightarrow> prepare cf rc errno prog args param g = Inl x
        | Inr param' \<Rightarrow> \<exists>g' ro. prepare cf rc errno prog args param g = Inr (g', ro, param', run_message prog (g_nexe g') ro) \<and>
            g_nexe g' = run_nexe cf (o_avail d) (o_n_exe d) \<and> 1 \<le> g_nexe g' \<and> g_nexe g' \<le> int (NEXE cf) \<and> g_hash_ok g' \<and> g_fix g' = (o_fix d \<noteq> 0) \<and>
            r_nruns ro = o_max_run d \<and> r_size ro = o_size_of_test d \<and> (HAVE_TIMEBASE rc \<longrightarrow> 1 \<le> r_step ro) \<and>
            (\<forall>part. row_ok cf (g'\<lparr>g_nexe := int (NEXE cf)\<rparr>) part \<longrightarrow> setup_ok cf g' part))"
  by (rule prepare_correct [OF assms])

subsection \<open>The whole run\<close>

text \<open>
  C13: When the threads return, \<open>RUN\<close> returns 0 and, if no table was full, has counted every outcome of the instances that run: the
  global table has the sum of their counts for every log, and the numbers of positive and negative outcomes are
  those of all of them.  This holds as long as the sum of all the counts is below \<open>2 ^ 32\<close>, where \<open>count_t\<close> wraps around.  The
  comparison of logs is an equivalence on the logs \<open>L\<close> that the tables hold, and equal logs are all positive or all negative.
\<close>

theorem run_reports_outcomes:
  assumes "log_eq_on L eq_log" and "\<forall>k \<in> L. \<forall>k' \<in> L. eq_log k k' \<longrightarrow> P k = P k'" and "feature_check rc"
    and "prepare cf rc errno prog args param g = Inr (g1, ro, param1, msg)" and "zyvas ro param1 g1 = Inr g2"
    and "slots (g_hash g2) \<noteq> []" and "cs = take (nat (g_nexe g2)) (g_ctx g2)"
    and "\<forall>c \<in> set cs. flags_ok P (ctx_hash c) \<and> logs_in L (ctx_hash c)" and "(\<Sum>c \<leftarrow> cs. hash_total (ctx_hash c)) < 2 ^ 32"
  shows "\<exists>g' p_true p_false. RUN cf rc eq_log zyvas errno prog args param g = Inr (0, Some (g', p_true, p_false, msg)) \<and>
    (g_hash_ok g' \<longrightarrow>
       (\<forall>k \<in> L. count_of eq_log (g_hash g') k = (\<Sum>c \<leftarrow> cs. count_of eq_log (ctx_hash c) k)) \<and>
       unat p_true = (\<Sum>c \<leftarrow> cs. count_where P (ctx_hash c)) \<and>
       unat p_false = (\<Sum>c \<leftarrow> cs. count_where (\<lambda>k. \<not> P k) (ctx_hash c)))"
proof -
  let ?g = "sum_tables cf eq_log g2"
  obtain p_true p_false where c: "count_outcomes (g_hash ?g) = (p_true, p_false)" by force
  have "RUN cf rc eq_log zyvas errno prog args param g = Inr (0, Some (?g, p_true, p_false, msg))"
    by (simp add: RUN_def assms(3-5) c Let_def)
  moreover have "(\<forall>k \<in> L. count_of eq_log (g_hash ?g) k = (\<Sum>c \<leftarrow> cs. count_of eq_log (ctx_hash c) k)) \<and>
       unat p_true = (\<Sum>c \<leftarrow> cs. count_where P (ctx_hash c)) \<and>
       unat p_false = (\<Sum>c \<leftarrow> cs. count_where (\<lambda>k. \<not> P k) (ctx_hash c))" if "g_hash_ok ?g"
    using run_counts_outcomes [OF assms(1,2,6-9) refl that] c by simp
  ultimately show ?thesis by blast
qed

subsection \<open>An example\<close>

text \<open>Two instances; the options ask for one, on a machine with three processors; the threads record three outcomes.\<close>

definition ex_run :: run_cfg where
  "ex_run = \<lparr>feature_check = True, inst_tab = [0, 0, 1, 1], role_tab = [0, 1, 0, 1], parse_tab = ex_params,
     NUMBER_OF_RUN = 10, SIZE_OF_TEST = 100, HAVE_TIMEBASE = True, DELTA_TB = 8, NSTEPS = 5\<rparr>"

definition ex_args :: "string list" where
  "ex_args = [''-v'', ''-a'', ''3'', ''-s'', ''2k'', ''xy=0x3'']"

lemma ex_run_sizes: "sizes_ok ex_conf ex_run ex_global"
  by (simp add: sizes_ok_def mem_ok_def ex_conf_def ex_run_def ex_global_def Let_def MEMSZ_def LINESZ_def)

lemma ex_run_options:
  "parse_opt False ex_args (default_opts ex_conf ex_run) (default_opts ex_conf ex_run) =
    Inr (\<lparr>o_verbose = 1, o_max_run = 10, o_size_of_test = 2000, o_avail = 3, o_n_exe = 2, o_delay = 8, o_fix = 0\<rparr>, [''xy=0x3''])"
  by code_simp

lemma ex_run_params: "parse_param (parse_tab ex_run) [''xy=0x3''] [0, 0] = Inr [0, 6]"
  by code_simp

lemma ex_nexe: "run_nexe ex_conf 3 2 = 1"
  by (simp add: run_nexe_def ex_conf_def Let_def)

lemma ex_timebase: "HAVE_TIMEBASE ex_run"
  by (simp add: ex_run_def)

theorem run_prepares_witness:
  "\<exists>g ro. prepare ex_conf ex_run False ''t'' ex_args [0, 0] ex_global = Inr (g, ro, [0, 6], run_message ''t'' 1 ro) \<and>
    g_nexe g = 1 \<and> g_hash_ok g \<and> r_size ro = 2000 \<and> 1 \<le> r_step ro"
  using run_prepares [OF ex_run_sizes, of False "''t''" ex_args "[0, 0]"]
  by (simp only: ex_run_options ex_run_params sum.case prod.case) (auto simp: ex_nexe ex_timebase)

definition ex_zyvas :: "run_opts \<Rightarrow> int list \<Rightarrow> unit global_t \<Rightarrow> unit global_t res" where
  "ex_zyvas ro param g = Inr (g\<lparr>g_ctx := g_ctx ex_counts, g_hash := ex_free\<rparr>)"

lemma ex_prepared:
  "\<exists>g ro. prepare ex_conf ex_run False ''t'' ex_args [0, 0] ex_global = Inr (g, ro, [0, 6], run_message ''t'' 1 ro) \<and>
    g_nexe g = 1 \<and> g_hash_ok g"
  using prepare_correct [OF ex_run_sizes, of False "''t''" ex_args "[0, 0]"]
  by (simp only: ex_run_options ex_run_params sum.case prod.case) (auto simp: ex_nexe ex_timebase)

theorem run_reports_outcomes_witness:
  "\<exists>g p_true p_false msg. RUN ex_conf ex_run (=) ex_zyvas False ''t'' ex_args [0, 0] ex_global = Inr (0, Some (g, p_true, p_false, msg)) \<and>
    count_of (=) (g_hash g) [7] = 10 \<and> unat p_true = 10 \<and> unat p_false = 4"
proof -
  obtain g1 ro where g1: "prepare ex_conf ex_run False ''t'' ex_args [0, 0] ex_global = Inr (g1, ro, [0, 6], run_message ''t'' 1 ro)"
      "g_nexe g1 = 1" "g_hash_ok g1"
    using ex_prepared by blast
  define g2 where "g2 = g1\<lparr>g_ctx := g_ctx ex_counts, g_hash := ex_free\<rparr>"
  let ?cs = "take (nat (g_nexe g2)) (g_ctx g2)" and ?P = "\<lambda>k. k = [7 :: u32]"
  note defs = g2_def g1(2,3) ex_counts_def ex_global_def ex_defs Let_def
  have "feature_check ex_run" by (simp add: ex_run_def)
  moreover have "ex_zyvas ro [0, 6] g1 = Inr g2" by (simp add: ex_zyvas_def g2_def)
  moreover have "slots (g_hash g2) \<noteq> []" by (simp add: defs)
  moreover have "\<forall>c \<in> set ?cs. flags_ok ?P (ctx_hash c) \<and> logs_in UNIV (ctx_hash c)"
    by (simp add: defs flags_ok_def logs_in_def)
  moreover have "(\<Sum>c \<leftarrow> ?cs. hash_total (ctx_hash c)) < 2 ^ 32" by (simp add: defs hash_total_def)
  ultimately obtain g' p_true p_false where
      r: "RUN ex_conf ex_run (=) ex_zyvas False ''t'' ex_args [0, 0] ex_global = Inr (0, Some (g', p_true, p_false, run_message ''t'' 1 ro))" and
      c: "g_hash_ok g' \<Longrightarrow> count_of (=) (g_hash g') [7] = (\<Sum>c \<leftarrow> ?cs. count_of (=) (ctx_hash c) [7]) \<and>
        unat p_true = (\<Sum>c \<leftarrow> ?cs. count_where ?P (ctx_hash c)) \<and> unat p_false = (\<Sum>c \<leftarrow> ?cs. count_where (\<lambda>k. \<not> ?P k) (ctx_hash c))"
    using run_reports_outcomes [OF log_eq_on_eq _ _ g1(1) _ _ refl, of UNIV ?P ex_zyvas g2] by blast
  have "g' = sum_tables ex_conf (=) g2"
    using r g1(1) by (simp add: RUN_def ex_zyvas_def g2_def [symmetric] Let_def ex_run_def split: prod.splits)
  then have "g_hash_ok g'"
    by (simp add: defs sum_tables_def ex_conf_def hash_init_def log_init_def hash_adds_def ex_add)
  moreover have "(\<Sum>c \<leftarrow> ?cs. count_of (=) (ctx_hash c) [7]) = 10" "(\<Sum>c \<leftarrow> ?cs. count_where ?P (ctx_hash c)) = 10"
      "(\<Sum>c \<leftarrow> ?cs. count_where (\<lambda>k. \<not> ?P k) (ctx_hash c)) = 4"
    by (simp_all add: defs count_of_def count_where_def)
  ultimately show ?thesis using r c by auto
qed

end
