(* ===== verification/Cached.thy ===== *)
theory Cached
  imports Detached
begin

section \<open>Detached tasks on cached threads (\<^verbatim>\<open>_utils.c\<close>)\<close>

text \<open>
  \<open>launch_cached\<close> does what \<open>launch_detached\<close> does, with the pool of threads of theory \<open>Pool\<close>: the task is put into the pool
  with its buffer, a cached thread runs it, sets the buffer and asks the pool for another task.  The
  cache makes no difference to the program: its executions are executions of theory \<open>Detached\<close>.
\<close>

subsection \<open>The model\<close>

type_synonym ('a, 'v) task = "('a, 'v) detarg_t \<times> nat"

text \<open>
  The buffers are those of \<open>Detached\<close>, whose list \<open>started\<close> stays empty here: the threads are those of the pool.  \<open>told\<close> are the
  threads that have set the buffer of their task and not yet called \<open>pool_get\<close>.
\<close>

record ('a, 'v) cworld =
  cpool :: "('a, 'v) task world"
  cdet :: "('a, 'v) dworld"
  told :: "nat set"

definition set_pool :: "'d pool_t option \<Rightarrow> 'd pool_t" where
  "set_pool pool = (case pool of None \<Rightarrow> pool_create | Some p \<Rightarrow> p)"

definition launch_cached ::
  "bool \<Rightarrow> (nat \<Rightarrow> ('a, 'v) task) \<Rightarrow> nat \<Rightarrow> ('a \<Rightarrow> 'v) \<Rightarrow> 'a \<Rightarrow> ('a, 'v) cworld \<Rightarrow> ('a, 'v) cworld res" where
  "launch_cached verb fresh buf f a s =
     (let w = cpool s; d = cdet s; (c, cs) = pc_create (conds d); b = \<lparr>det_f = f, det_a = a\<rparr>;
          d = d\<lparr>conds := cs, bufs := (bufs d)(buf \<mapsto> (c, op_create)), task_of := (task_of d)(buf := b)\<rparr>
      in bind_res (pool_put verb fresh (the_pool w) (b, buf)) (\<lambda>(p, launch).
         Inr (s\<lparr>cdet := d, cpool := w\<lparr>the_pool := p,
            workers := (if launch then workers w @ [Starting (b, buf)] else wake_all (workers w)),
            submitted := (b, buf) # submitted w\<rparr>\<rparr>)))"

text \<open>The body of the loop of \<open>zyva_cache\<close>, before \<open>pool_get\<close>.\<close>

definition set_result :: "nat \<Rightarrow> ('a, 'v) task \<Rightarrow> ('a, 'v) cworld \<Rightarrow> ('a, 'v) cworld res" where
  "set_result i t s =
     (let (b, buf) = t
      in case bufs (cdet s) buf of
           None \<Rightarrow> Inl Undefined
         | Some (c, p) \<Rightarrow> bind_res (zyva_det b p) (\<lambda>p.
             Inr (s\<lparr>cdet := (cdet s)\<lparr>bufs := (bufs (cdet s))(buf \<mapsto> (c, p))\<rparr>, told := insert i (told s)\<rparr>)))"

inductive cstep :: "bool \<Rightarrow> (nat \<Rightarrow> ('a, 'v) task) \<Rightarrow> ('a, 'v) cworld \<Rightarrow> ('a, 'v) cworld \<Rightarrow> bool" for verb fresh where
  launch: "bufs (cdet s) buf = None \<Longrightarrow> launch_cached verb fresh buf f a s = Inr s' \<Longrightarrow> cstep verb fresh s s'"
| run: "i < length (workers (cpool s)) \<Longrightarrow> workers (cpool s) ! i = Starting d \<Longrightarrow>
    cstep verb fresh s (s\<lparr>cpool := (cpool s)\<lparr>workers := (workers (cpool s))[i := Running d]\<rparr>\<rparr>)"
| set: "i < length (workers (cpool s)) \<Longrightarrow> workers (cpool s) ! i = Running d \<Longrightarrow> i \<notin> told s \<Longrightarrow>
    set_result i d s = Inr s' \<Longrightarrow> cstep verb fresh s s'"
| finish: "i < length (workers (cpool s)) \<Longrightarrow> workers (cpool s) ! i = Running d \<Longrightarrow> i \<in> told s \<Longrightarrow>
    pool_get_enter verb (the_pool (cpool s)) = Inr p \<Longrightarrow> pool_get_take p = Inr r \<Longrightarrow>
    cstep verb fresh s (s\<lparr>cpool := next_task i r p ((cpool s)\<lparr>finished := d # finished (cpool s)\<rparr>), told := told s - {i}\<rparr>)"
| spurious: "i < length (workers (cpool s)) \<Longrightarrow> workers (cpool s) ! i = Blocked \<Longrightarrow>
    cstep verb fresh s (s\<lparr>cpool := (cpool s)\<lparr>workers := (workers (cpool s))[i := Awake]\<rparr>\<rparr>)"
| resume: "i < length (workers (cpool s)) \<Longrightarrow> workers (cpool s) ! i = Awake \<Longrightarrow>
    pool_get_take (the_pool (cpool s)) = Inr r \<Longrightarrow>
    cstep verb fresh s (s\<lparr>cpool := next_task i r (the_pool (cpool s)) (cpool s)\<rparr>)"
| join: "bufs (cdet s) buf = Some (c, q) \<Longrightarrow> getter q \<noteq> Asleep \<Longrightarrow> join_op buf (cdet s) = Inr (b, d) \<Longrightarrow>
    cstep verb fresh s (s\<lparr>cdet := d\<rparr>)"
| join_spurious: "bufs (cdet s) buf = Some (c, q) \<Longrightarrow> getter q = Asleep \<Longrightarrow>
    cstep verb fresh s (s\<lparr>cdet := (cdet s)\<lparr>bufs := (bufs (cdet s))(buf \<mapsto> (c, q\<lparr>getter := Woken\<rparr>))\<rparr>\<rparr>)"

definition cstart :: "('a, 'v) cworld \<Rightarrow> bool" where
  "cstart s \<longleftrightarrow> cpool s = world_init\<lparr>the_pool := set_pool None\<rparr> \<and> dstart (cdet s) \<and> told s = {}"

subsection \<open>The tasks that have not set their buffers\<close>

definition pend :: "'d worker list \<Rightarrow> nat set \<Rightarrow> 'd multiset" where
  "pend ws T = (\<Sum>i \<in> {..<length ws} - T. mset (busy (ws ! i)))"

definition todo :: "('a, 'v) cworld \<Rightarrow> ('a, 'v) task multiset" where
  "todo s = mset (stack_of (tasks (the_pool (cpool s)))) + pend (workers (cpool s)) (told s)"

lemma pend_other:
  assumes "T' - {i} = T - {i}" and "i < length ws"
  obtains M where "pend ws T = (if i \<in> T then {#} else mset (busy (ws ! i))) + M"
    and "\<And>w. pend (ws[i := w]) T' = (if i \<in> T' then {#} else mset (busy w)) + M"
proof -
  define M where "M = (\<Sum>j \<in> {..<length ws} - T - {i}. mset (busy (ws ! j)))"
  have split: "pend vs U = (if i \<in> U then {#} else mset (busy (vs ! i))) + M"
    if "length vs = length ws" "U - {i} = T - {i}" "\<And>j. j \<noteq> i \<Longrightarrow> vs ! j = ws ! j" for vs U
  proof -
    have "(\<Sum>j \<in> {..<length vs} - U - {i}. mset (busy (vs ! j))) = M"
      unfolding M_def using that by (intro sum.cong) auto
    moreover have "pend vs U = (if i \<in> U then {#} else mset (busy (vs ! i))) + (\<Sum>j \<in> {..<length vs} - U - {i}. mset (busy (vs ! j)))"
      using assms(2) that(1) by (simp add: pend_def sum.remove [of _ i])
    ultimately show ?thesis by simp
  qed
  show thesis
  proof (rule that)
    show "pend ws T = (if i \<in> T then {#} else mset (busy (ws ! i))) + M" by (rule split) simp_all
    show "pend (ws[i := w]) T' = (if i \<in> T' then {#} else mset (busy w)) + M" for w
      using split [of "ws[i := w]" T'] assms by simp
  qed
qed

lemma pend_wake [simp]: "pend (wake_all ws) T = pend ws T"
  unfolding pend_def wake_all_def by (intro sum.cong) (auto split: worker.split)

lemma pend_append: "T \<subseteq> {..<length ws} \<Longrightarrow> pend (ws @ [w]) T = pend ws T + mset (busy w)"
proof -
  assume T: "T \<subseteq> {..<length ws}"
  then have "{..<length (ws @ [w])} - T = insert (length ws) ({..<length ws} - T)" by auto
  moreover have "(\<Sum>i \<in> {..<length ws} - T. mset (busy ((ws @ [w]) ! i))) = pend ws T"
    unfolding pend_def by (intro sum.cong) (simp_all add: nth_append)
  ultimately show ?thesis by (simp add: pend_def)
qed


lemma next_task_todo:
  assumes "table_inv (tasks p)" and "pool_get_take p = Inr r" and "i < length (workers w)"
    and "T' = T - {i}" and "i \<in> T \<or> workers w ! i = Awake"
  shows "mset (stack_of (tasks (the_pool (next_task i r p w)))) + pend (workers (next_task i r p w)) T' =
    mset (stack_of (tasks p)) + pend (workers w) T"
proof -
  obtain M where "pend (workers w) T = (if i \<in> T then {#} else mset (busy (workers w ! i))) + M"
      "\<And>v. pend ((workers w)[i := v]) T' = (if i \<in> T' then {#} else mset (busy v)) + M"
    by (rule pend_other [of T' i T "workers w"]) (use assms(3,4) in auto)
  then have M: "pend (workers w) T = M" "\<And>v. pend ((workers w)[i := v]) T' = mset (busy v) + M"
    using assms(4,5) by auto
  from assms(1) show ?thesis
  proof (cases rule: take_cases)
    case empty
    then show ?thesis using assms(2) M by simp
  next
    case (task x t)
    then have "r = Some (x, p\<lparr>tasks := t, n_out := n_out p + 1\<rparr>)" using assms(2) by simp
    then show ?thesis using task(2) M by simp
  qed
qed

lemma enter_tasks: "pool_get_enter verb p = Inr q \<Longrightarrow> tasks q = tasks p"
  by (auto simp: pool_get_enter_def pool_status_def Let_def split: if_splits)

lemma next_task_workers:
  "workers (next_task i r p w) = (workers w)[i := (case r of None \<Rightarrow> Blocked | Some (x, _) \<Rightarrow> Running x)]"
  by (cases "(i, r, p, w)" rule: next_task.cases) simp_all

subsection \<open>The invariant and the simulation\<close>

definition told_ok :: "('a, 'v) cworld \<Rightarrow> bool" where
  "told_ok s \<longleftrightarrow> (\<forall>i \<in> told s. i < length (workers (cpool s)) \<and> (\<exists>d. workers (cpool s) ! i = Running d))"

definition simulates :: "('a, 'v) dworld \<Rightarrow> ('a, 'v) cworld \<Rightarrow> bool" where
  "simulates d0 s \<longleftrightarrow> pool_inv (cpool s) \<and> told_ok s \<and>
     (\<exists>xs. mset xs = todo s \<and> dstep\<^sup>*\<^sup>* d0 ((cdet s)\<lparr>started := xs\<rparr>))"

lemma simulatesE:
  assumes "simulates d0 s"
  obtains xs where "mset xs = todo s" "dstep\<^sup>*\<^sup>* d0 ((cdet s)\<lparr>started := xs\<rparr>)" "pool_inv (cpool s)" "told_ok s"
  using assms by (auto simp: simulates_def)

text \<open>A step of the pool that is none of the program.\<close>

lemma sim_pool:
  assumes "simulates d0 s" and "pstep verb fresh (cpool s) (cpool s')" and "todo s' = todo s" and "cdet s' = cdet s" and "told_ok s'"
  shows "simulates d0 s'"
  using assms pool_inv_step unfolding simulates_def by metis

lemma join_op_started:
  "join_op buf w = Inr (b, w') \<Longrightarrow> join_op buf (w\<lparr>started := xs\<rparr>) = Inr (b, w'\<lparr>started := xs\<rparr>)"
  by (auto simp: join_op_def op_free_def split: option.splits prod.splits)

lemma sim_launch:
  assumes sim: "simulates d0 s" and free: "bufs (cdet s) buf = None" and l: "launch_cached verb fresh buf f a s = Inr s'"
  shows "simulates d0 s'"
proof -
  obtain xs where xs: "mset xs = todo s" "dstep\<^sup>*\<^sup>* d0 ((cdet s)\<lparr>started := xs\<rparr>)" "pool_inv (cpool s)" "told_ok s"
    using sim by (rule simulatesE)
  define t where "t = (\<lparr>det_f = f, det_a = a\<rparr>, buf)"
  obtain p launch where put: "pool_put verb fresh (the_pool (cpool s)) t = Inr (p, launch)"
      and pl: "cpool s' = (cpool s)\<lparr>the_pool := p, workers := (if launch then workers (cpool s) @ [Starting t] else wake_all (workers (cpool s))),
            submitted := t # submitted (cpool s)\<rparr>"
      and dl: "(cdet s')\<lparr>started := t # xs\<rparr> = launch_detached buf f a ((cdet s)\<lparr>started := xs\<rparr>)" and "told s' = told s"
    using l by (auto simp: launch_cached_def launch_detached_def t_def Let_def res_simps split: prod.splits)
  have told: "told s \<subseteq> {..<length (workers (cpool s))}" using xs(4) by (auto simp: told_ok_def)
  have "dstep ((cdet s)\<lparr>started := xs\<rparr>) ((cdet s')\<lparr>started := t # xs\<rparr>)"
    unfolding dl by (rule dstep.launch) (simp add: free)
  then have "dstep\<^sup>*\<^sup>* d0 ((cdet s')\<lparr>started := t # xs\<rparr>)" using xs(2) by simp
  moreover have "pstep verb fresh (cpool s) (cpool s')"
    using put pl pstep.put_launch [of verb fresh "cpool s" t p] pstep.put_queue [of verb fresh "cpool s" t p] by (cases launch) simp_all
  then have "pool_inv (cpool s')" using xs(3) by (rule pool_inv_step [rotated])
  moreover have "mset (t # xs) = todo s'"
    using xs(3)
  proof (cases rule: put_cases [where verb = verb and fresh = fresh and d = t])
    case (launch k)
    then show ?thesis using put pl xs(1) pend_append [OF told] \<open>told s' = told s\<close> by (auto simp: todo_def)
  next
    case (queue k tb)
    then show ?thesis using put pl xs(1) \<open>told s' = told s\<close> by (auto simp: todo_def)
  qed
  moreover have "told_ok s'"
    using xs(4) pl \<open>told s' = told s\<close> by (auto simp: told_ok_def nth_append wake_all_def)
  ultimately show ?thesis unfolding simulates_def by blast
qed

lemma sim_set:
  assumes start: "dstart d0" and sim: "simulates d0 s" and i: "i < length (workers (cpool s))" "workers (cpool s) ! i = Running t" "i \<notin> told s"
  shows "\<exists>s'. set_result i t s = Inr s' \<and> simulates d0 s'"
proof -
  obtain xs where xs: "mset xs = todo s" "dstep\<^sup>*\<^sup>* d0 ((cdet s)\<lparr>started := xs\<rparr>)" "pool_inv (cpool s)" "told_ok s"
    using sim by (rule simulatesE)
  have same: "(workers (cpool s))[i := Running t] = workers (cpool s)" using i(2) by (metis list_update_id)
  obtain M where pend: "pend (workers (cpool s)) (told s) = (if i \<in> told s then {#} else mset (busy (workers (cpool s) ! i))) + M"
      "\<And>v. pend ((workers (cpool s))[i := v]) (insert i (told s)) = (if i \<in> insert i (told s) then {#} else mset (busy v)) + M"
    by (rule pend_other [of "insert i (told s)" i "told s" "workers (cpool s)"]) (use i(1) in auto)
  have M: "pend (workers (cpool s)) (told s) = {#t#} + M" "pend (workers (cpool s)) (insert i (told s)) = M"
    using pend(1) pend(2) [of "Running t"] i(2,3) unfolding same by simp_all
  then have "t \<in># mset xs" using xs(1) by (simp add: todo_def)
  then obtain j where j: "j < length xs" "xs ! j = t" by (metis in_set_conv_nth set_mset_mset)
  obtain b buf where t: "t = (b, buf)" by force
  have "det_inv ((cdet s)\<lparr>started := xs\<rparr>)" by (rule inv_dreach [OF start xs(2)])
  then obtain w where w: "run_detached j ((cdet s)\<lparr>started := xs\<rparr>) = Inr w"
    using inv_run j(1) by fastforce
  then obtain c p q where c: "bufs (cdet s) buf = Some (c, p)" "zyva_det b p = Inr q"
      "w = (cdet s)\<lparr>bufs := (bufs (cdet s))(buf \<mapsto> (c, q)), started := take j xs @ drop (Suc j) xs\<rparr>"
    using j t by (auto simp: run_detached_def res_simps split: option.splits)
  let ?s = "s\<lparr>cdet := (cdet s)\<lparr>bufs := (bufs (cdet s))(buf \<mapsto> (c, q))\<rparr>, told := insert i (told s)\<rparr>"
  have "dstep ((cdet s)\<lparr>started := xs\<rparr>) w" using w j(1) by (intro dstep.run [of j]) simp_all
  then have "dstep\<^sup>*\<^sup>* d0 ((cdet ?s)\<lparr>started := take j xs @ drop (Suc j) xs\<rparr>)" using xs(2) c(3) by simp
  moreover have "mset xs = mset (take j xs @ drop (Suc j) xs) + {#t#}"
    using id_take_nth_drop [OF j(1)] j(2) by (metis add_mset_add_single mset.simps(2) mset_append union_mset_add_mset_right)
  then have "mset (take j xs @ drop (Suc j) xs) = todo ?s" using xs(1) M by (simp add: todo_def)
  moreover have "told_ok ?s" using xs(4) i by (simp add: told_ok_def)
  moreover have "pool_inv (cpool ?s)" using xs(3) by simp
  ultimately have "simulates d0 ?s" unfolding simulates_def by blast
  moreover have "set_result i t s = Inr ?s" using c by (simp add: set_result_def t)
  ultimately show ?thesis by blast
qed


lemma sim_finish:
  assumes sim: "simulates d0 s" and i: "i < length (workers (cpool s))" "workers (cpool s) ! i = Running t" "i \<in> told s"
    and get: "pool_get_enter verb (the_pool (cpool s)) = Inr p" "pool_get_take p = Inr r"
  shows "simulates d0 (s\<lparr>cpool := next_task i r p ((cpool s)\<lparr>finished := t # finished (cpool s)\<rparr>), told := told s - {i}\<rparr>)"
    (is "simulates d0 ?s")
proof (rule sim_pool [OF sim])
  let ?w = "(cpool s)\<lparr>finished := t # finished (cpool s)\<rparr>"
  have inv: "pool_inv (cpool s)" "told_ok s" using sim by (simp_all add: simulates_def)
  show "pstep verb fresh (cpool s) (cpool ?s)" using pstep.finish [OF i(1,2) get, of fresh] by simp
  have "table_inv (tasks p)" using inv(1) enter_tasks [OF get(1)] by (simp add: pool_inv_def Let_def)
  then have "mset (stack_of (tasks (the_pool (next_task i r p ?w)))) + pend (workers (next_task i r p ?w)) (told s - {i}) =
      mset (stack_of (tasks p)) + pend (workers ?w) (told s)"
    by (rule next_task_todo [OF _ get(2)]) (use i in simp_all)
  then show "todo ?s = todo s" by (simp add: todo_def enter_tasks [OF get(1)])
  show "told_ok ?s" using inv(2) by (auto simp: told_ok_def next_task_workers)
qed simp

lemma told_other:
  assumes "told_ok s" and "i < length (workers (cpool s))" and "\<And>d. workers (cpool s) ! i \<noteq> Running d"
  shows "i \<notin> told s" and "workers w = (workers (cpool s))[i := v] \<Longrightarrow> told_ok (s\<lparr>cpool := w\<rparr>)"
proof -
  show i: "i \<notin> told s" using assms(1,3) by (auto simp: told_ok_def)
  show "told_ok (s\<lparr>cpool := w\<rparr>)" if "workers w = (workers (cpool s))[i := v]"
    using assms(1,2) i that by (auto simp: told_ok_def nth_list_update)
qed

lemma pend_same:
  assumes "i < length ws" and "i \<notin> T" and "busy w = busy (ws ! i)"
  shows "pend (ws[i := w]) T = pend ws T"
  by (rule pend_other [of T i T ws]) (use assms in simp_all)

text \<open>A step of the program that starts and ends no task.\<close>

lemma sim_program:
  assumes "simulates d0 s" and "\<And>xs. dstep ((cdet s)\<lparr>started := xs\<rparr>) (d\<lparr>started := xs\<rparr>)"
  shows "simulates d0 (s\<lparr>cdet := d\<rparr>)"
proof -
  obtain xs where xs: "mset xs = todo s" "dstep\<^sup>*\<^sup>* d0 ((cdet s)\<lparr>started := xs\<rparr>)" "pool_inv (cpool s)" "told_ok s"
    using assms(1) by (rule simulatesE)
  then have "dstep\<^sup>*\<^sup>* d0 (d\<lparr>started := xs\<rparr>)" using assms(2) by (meson rtranclp.rtrancl_into_rtrancl)
  then show ?thesis using xs unfolding simulates_def by (auto simp: todo_def told_ok_def)
qed

lemma sim_cstep:
  assumes start: "dstart d0" and sim: "simulates d0 s" and "cstep verb fresh s s'"
  shows "simulates d0 s'"
  using assms(3)
proof cases
  case (launch buf f a)
  then show ?thesis using sim_launch [OF sim] by blast
next
  case (run i d)
  have ok: "told_ok s" using sim by (simp add: simulates_def)
  note other = told_other [OF ok run(2)]
  have "todo s' = todo s" using run other(1) by (simp add: todo_def pend_same)
  moreover have "pstep verb fresh (cpool s) (cpool s')" using run pstep.run [of i "cpool s" d verb fresh] by simp
  ultimately show ?thesis using sim_pool [OF sim] run other(2) by simp
next
  case (set i d)
  then show ?thesis using sim_set [OF start sim set(1-3)] by simp
next
  case (finish i d p r)
  then show ?thesis using sim_finish [OF sim] by simp
next
  case (spurious i)
  have ok: "told_ok s" using sim by (simp add: simulates_def)
  note other = told_other [OF ok spurious(2)]
  have "todo s' = todo s" using spurious other(1) by (simp add: todo_def pend_same)
  moreover have "pstep verb fresh (cpool s) (cpool s')" using spurious pstep.spurious [of i "cpool s" verb fresh] by simp
  ultimately show ?thesis using sim_pool [OF sim] spurious other(2) by simp
next
  case (resume i r)
  have ok: "told_ok s" and inv: "pool_inv (cpool s)" using sim by (simp_all add: simulates_def)
  note other = told_other [OF ok resume(2)]
  have "table_inv (tasks (the_pool (cpool s)))" using inv by (simp add: pool_inv_def Let_def)
  then have "todo s' = todo s"
    using next_task_todo [OF _ resume(4,2), of "told s" "told s"] resume other(1) by (simp add: todo_def)
  moreover have "pstep verb fresh (cpool s) (cpool s')" using resume pstep.resume [of i "cpool s" r verb fresh] by simp
  ultimately show ?thesis using sim_pool [OF sim] resume other(2) by (simp add: next_task_workers)
next
  case (join buf c q b d)
  have "dstep ((cdet s)\<lparr>started := xs\<rparr>) (d\<lparr>started := xs\<rparr>)" for xs
    using join(2,3) join_op_started [OF join(4)] by (intro dstep.join) simp_all
  then show ?thesis using sim_program [OF sim] join(1) by blast
next
  case (join_spurious buf c q)
  have "dstep ((cdet s)\<lparr>started := xs\<rparr>)
      ((cdet s)\<lparr>bufs := (bufs (cdet s))(buf \<mapsto> (c, q\<lparr>getter := Woken\<rparr>)), started := xs\<rparr>)" for xs
  proof -
    let ?x = "(cdet s)\<lparr>started := xs\<rparr>"
    have "dstep ?x (?x\<lparr>bufs := (bufs ?x)(buf \<mapsto> (c, q\<lparr>getter := Woken\<rparr>))\<rparr>)"
      by (rule dstep.spurious) (use join_spurious(2,3) in simp_all)
    then show ?thesis by (cases "cdet s") simp
  qed
  then show ?thesis using sim_program [OF sim] join_spurious(1) by simp
qed

lemma sim_start:
  assumes "cstart s"
  shows "simulates (cdet s) s"
proof -
  have "cpool s = world_init" using assms by (simp add: cstart_def set_pool_def world_init_def)
  moreover have "pool_inv (world_init :: ('a, 'b) task world)"
    by (rule pool_inv_reach [of False undefined]) (simp add: preach_def)
  moreover have "todo s = {#}"
    using assms by (simp add: todo_def cstart_def set_pool_def world_init_def pool_create_def table_create_def stack_of_def pend_def)
  moreover have "(cdet s)\<lparr>started := []\<rparr> = cdet s" using assms by (simp add: cstart_def dstart_def)
  ultimately show ?thesis using assms unfolding simulates_def told_ok_def cstart_def
    by (metis empty_iff mset_zero_iff rtranclp.rtrancl_refl)
qed

lemma sim_reach:
  assumes "cstart s0" and "(cstep verb fresh)\<^sup>*\<^sup>* s0 s"
  shows "simulates (cdet s0) s"
  using assms(2)
proof (induction rule: rtranclp_induct)
  case (step s s')
  then show ?case using sim_cstep assms(1) by (auto simp: cstart_def)
qed (rule sim_start [OF assms(1)])


text \<open>A thread that can bring a task forward.\<close>

definition advances :: "('a, 'v) cworld \<Rightarrow> nat \<Rightarrow> bool" where
  "advances s i \<longleftrightarrow> i < length (workers (cpool s)) \<and>
     (case workers (cpool s) ! i of
        Starting d \<Rightarrow> True
      | Running d \<Rightarrow> i \<notin> told s
      | Blocked \<Rightarrow> False
      | Awake \<Rightarrow> nxt (tasks (the_pool (cpool s))) \<noteq> 0)"

lemma some_advances:
  assumes "pool_inv (cpool s)" and "todo s \<noteq> {#}"
  shows "\<exists>i. advances s i"
proof (cases "nxt (tasks (the_pool (cpool s))) = 0")
  case True
  then have "pend (workers (cpool s)) (told s) \<noteq> {#}" using assms(2) by (auto simp: todo_def stack_of_def)
  then obtain i where "i < length (workers (cpool s))" "i \<notin> told s" "busy (workers (cpool s) ! i) \<noteq> []"
    unfolding pend_def by (elim sum.not_neutral_contains_not_neutral) auto
  then show ?thesis by (intro exI [of _ i]) (auto simp: advances_def split: worker.split)
next
  case False
  then have "filter (\<lambda>w. w = Awake) (workers (cpool s)) \<noteq> []" using tasks_awake [OF assms(1)] by auto
  then obtain i where "i < length (workers (cpool s))" "workers (cpool s) ! i = Awake"
    by (auto simp: filter_empty_conv in_set_conv_nth)
  then show ?thesis using False by (intro exI [of _ i]) (simp add: advances_def)
qed

subsection \<open>Properties\<close>

text \<open>
  C21: The cache of threads is transparent: whatever the interleaving, what the program has launched, joined and still has to join
  is what an execution with one new thread for each task would give, with the tasks that are in the table or that a
  thread has not finished as the started ones; setting a buffer never fails, every join has returned the value
  of its own task, and while a task is not finished some thread can bring one forward: no wake-up of the pool is lost.
  Nor is one of a join: one that sleeps waits for a task that is not finished.
\<close>

theorem cached_refines_detached:
  assumes "cstart s0" and "(cstep verb fresh)\<^sup>*\<^sup>* s0 s"
  shows "(\<exists>w. dstep\<^sup>*\<^sup>* (cdet s0) w \<and> conds w = conds (cdet s) \<and> bufs w = bufs (cdet s) \<and> joined w = joined (cdet s) \<and>
      mset (started w) = todo s) \<and>
    (\<forall>i < length (workers (cpool s)). \<forall>d. workers (cpool s) ! i = Running d \<and> i \<notin> told s \<longrightarrow> (\<exists>s'. set_result i d s = Inr s')) \<and>
    (\<forall>(b, r) \<in> set (joined (cdet s)). r = Some (det_f b (det_a b))) \<and>
    (todo s \<noteq> {#} \<longrightarrow> (\<exists>i. advances s i)) \<and>
    (\<forall>buf c p. bufs (cdet s) buf = Some (c, p) \<and> getter p = Asleep \<longrightarrow> (\<exists>b. (b, buf) \<in># todo s))"
proof -
  have start: "dstart (cdet s0)" using assms(1) by (simp add: cstart_def)
  have sim: "simulates (cdet s0) s" by (rule sim_reach [OF assms])
  then obtain xs where xs: "mset xs = todo s" "dstep\<^sup>*\<^sup>* (cdet s0) ((cdet s)\<lparr>started := xs\<rparr>)" by (rule simulatesE)
  let ?w = "(cdet s)\<lparr>started := xs\<rparr>"
  have inv: "det_inv ?w" by (rule inv_dreach [OF start xs(2)])
  have sleeps: "\<forall>buf c p. bufs (cdet s) buf = Some (c, p) \<and> getter p = Asleep \<longrightarrow> (\<exists>b. (b, buf) \<in># todo s)"
  proof (intro allI impI)
    fix buf c p assume "bufs (cdet s) buf = Some (c, p) \<and> getter p = Asleep"
    then have "buf \<in> snd ` set xs" using inv_bufs [OF inv, of buf c p] by auto
    then show "\<exists>b. (b, buf) \<in># todo s" unfolding xs(1) [symmetric] by force
  qed
  from inv have "\<forall>(b, r) \<in> set (joined (cdet s)). r = Some (det_f b (det_a b))" by (simp add: det_inv_def value_of_def)
  moreover have "\<exists>s'. set_result i d s = Inr s'"
    if "i < length (workers (cpool s))" "workers (cpool s) ! i = Running d" "i \<notin> told s" for i d
    using sim_set [OF start sim that] by blast
  moreover have "\<exists>w. dstep\<^sup>*\<^sup>* (cdet s0) w \<and> conds w = conds (cdet s) \<and> bufs w = bufs (cdet s) \<and> joined w = joined (cdet s) \<and>
      mset (started w) = todo s"
    using xs by (intro exI [of _ ?w]) simp
  moreover have "\<exists>i. advances s i" if "todo s \<noteq> {#}"
    using sim that by (intro some_advances) (simp_all add: simulates_def)
  ultimately show ?thesis using sleeps by (intro conjI) blast+
qed

text \<open>A task that a new thread has run, and a second one on the same thread.\<close>

definition ex_cached :: "(nat, nat) cworld" where
  "ex_cached = \<lparr>cpool = world_init, cdet = ex_none, told = {}\<rparr>"

definition ex_t :: "(nat, nat) task" where "ex_t = (\<lparr>det_f = Suc, det_a = 10\<rparr>, 4)"

definition ex_u :: "(nat, nat) task" where "ex_u = (\<lparr>det_f = \<lambda>x. 2 * x, det_a = 21\<rparr>, 5)"

text \<open>The second task is running; its buffer has the condition variable that the first one has freed.\<close>

definition ex_second :: "(nat, nat) cworld" where
  "ex_second = \<lparr>cpool = \<lparr>the_pool = \<lparr>n_pool = 0, n_out = 1, n_thread = 1, tasks = \<lparr>sz = 1, nxt = 0, cells = [ex_u]\<rparr>, nop = 2\<rparr>,
       workers = [Running ex_u], submitted = [ex_u, ex_t], finished = [ex_t]\<rparr>,
     cdet = \<lparr>conds = \<lparr>pc_list = [], pc_made = 1\<rparr>, bufs = [5 \<mapsto> (0, op_create)], started = [],
       task_of = (task_of ex_none)(4 := fst ex_t, 5 := fst ex_u), joined = [(fst ex_t, Some 11)]\<rparr>, told = {}\<rparr>"

lemma ex_second_reach: "(cstep False (\<lambda>_. ex_t))\<^sup>*\<^sup>* ex_cached ex_second"
proof -
  let ?step = "cstep False (\<lambda>_. ex_t)"
  let ?one = "\<lparr>n_pool = 0, n_out = 1, n_thread = 1, tasks = table_create, nop = 0\<rparr> :: (nat, nat) task pool_t"
  let ?idle = "\<lparr>n_pool = 1, n_out = 0, n_thread = 1, tasks = table_create, nop = 1\<rparr> :: (nat, nat) task pool_t"
  let ?queued = "\<lparr>n_pool = 0, n_out = 0, n_thread = 1, tasks = \<lparr>sz = 1, nxt = 1, cells = [ex_u]\<rparr>, nop = 2\<rparr>"
  let ?w1 = "\<lparr>the_pool = ?one, workers = [Starting ex_t], submitted = [ex_t], finished = []\<rparr>"
  let ?d1 = "\<lparr>conds = \<lparr>pc_list = [], pc_made = 1\<rparr>, bufs = [4 \<mapsto> (0, op_create)], started = [],
    task_of = (task_of ex_none)(4 := fst ex_t), joined = []\<rparr> :: (nat, nat) dworld"
  let ?s1 = "\<lparr>cpool = ?w1, cdet = ?d1, told = {}\<rparr>"
  let ?s2 = "\<lparr>cpool = ?w1\<lparr>workers := [Running ex_t]\<rparr>, cdet = ?d1, told = {}\<rparr>"
  let ?d3 = "?d1\<lparr>bufs := [4 \<mapsto> (0, \<lparr>op_val = Some 11, some = True, getter = Absent\<rparr>)]\<rparr>"
  let ?s3 = "\<lparr>cpool = ?w1\<lparr>workers := [Running ex_t]\<rparr>, cdet = ?d3, told = {0}\<rparr>"
  let ?d4 = "?d1\<lparr>conds := \<lparr>pc_list = [0], pc_made = 1\<rparr>, bufs := \<lambda>_. None, joined := [(fst ex_t, Some 11)]\<rparr>"
  let ?s4 = "\<lparr>cpool = ?w1\<lparr>workers := [Running ex_t]\<rparr>, cdet = ?d4, told = {0}\<rparr>"
  let ?w5 = "\<lparr>the_pool = ?idle, workers = [Blocked], submitted = [ex_t], finished = [ex_t]\<rparr>"
  let ?s5 = "\<lparr>cpool = ?w5, cdet = ?d4, told = {}\<rparr>"
  let ?w6 = "\<lparr>the_pool = ?queued, workers = [Awake], submitted = [ex_u, ex_t], finished = [ex_t]\<rparr>"
  let ?s6 = "\<lparr>cpool = ?w6, cdet = cdet ex_second, told = {}\<rparr>"
  note eval = pool_put_def pool_status_def Let_def check_verb_def table_push_def table_pop_def realloc_def aset_def aget_def
    table_create_def pool_get_enter_def pool_get_take_def pool_create_def world_init_def launch_cached_def pc_create_def do_pc_create_def
    ex_none_def set_result_def zyva_det_def op_set_def op_create_def op_signal_def op_sleep_def wake_all_def join_op_def op_get_def op_free_def pc_free_def
    ex_cached_def ex_t_def ex_u_def
  have "?step ex_cached ?s1"
    using cstep.launch [of ex_cached 4 False "\<lambda>_. ex_t" Suc 10 ?s1] by (simp add: eval)
  moreover have "?step ?s1 ?s2" using cstep.run [of 0 ?s1 ex_t False "\<lambda>_. ex_t"] by simp
  moreover have "?step ?s2 ?s3" using cstep.set [of 0 ?s2 ex_t ?s3 False "\<lambda>_. ex_t"] by (simp add: eval)
  moreover have "?step ?s3 ?s4" using cstep.join [of ?s3 4 0 _ True ?d4 False "\<lambda>_. ex_t"] by (simp add: eval)
  moreover have "?step ?s4 ?s5" using cstep.finish [of 0 ?s4 ex_t False ?idle None "\<lambda>_. ex_t"] by (simp add: eval)
  moreover have "?step ?s5 ?s6"
    using cstep.launch [of ?s5 5 False "\<lambda>_. ex_t" "\<lambda>x. 2 * x" 21 ?s6] by (simp add: eval ex_second_def)
  moreover have "?step ?s6 ex_second"
    using cstep.resume [of 0 ?s6 "Some (ex_u, the_pool (cpool ex_second))" False "\<lambda>_. ex_t"] by (simp add: eval ex_second_def)
  ultimately show ?thesis by (meson rtranclp.rtrancl_into_rtrancl rtranclp.rtrancl_refl)
qed

theorem cached_refines_detached_witness:
  "\<exists>w s. dstep\<^sup>*\<^sup>* ex_none w \<and> joined w = [(fst ex_t, Some 11)] \<and> mset (started w) = {#ex_u#} \<and>
    set_result 0 ex_u ex_second = Inr s \<and> (\<exists>i. advances ex_second i)"
proof -
  have "cstart ex_cached"
    by (simp add: cstart_def ex_cached_def set_pool_def world_init_def dstart_def ex_none_def)
  note * = cached_refines_detached [OF this ex_second_reach]
  have todo: "todo ex_second = {#ex_u#}" by (simp add: todo_def ex_second_def stack_of_def pend_def lessThan_Suc)
  obtain w where "dstep\<^sup>*\<^sup>* (cdet ex_cached) w" "joined w = joined (cdet ex_second)" "mset (started w) = todo ex_second"
    using * by blast
  then have "dstep\<^sup>*\<^sup>* ex_none w" "joined w = [(fst ex_t, Some 11)]" "mset (started w) = {#ex_u#}"
    unfolding todo by (simp_all add: ex_cached_def ex_second_def)
  moreover have "\<exists>s. set_result 0 ex_u ex_second = Inr s" using * by (simp add: ex_second_def)
  moreover have "\<exists>i. advances ex_second i" using * todo by simp
  ultimately show ?thesis by blast
qed

end
