(* ===== verification/Harness.thy ===== *)
theory Harness
  imports CmdLine
begin

section \<open>Small functions of the standard harness (\<^verbatim>\<open>_utils.c\<close>)\<close>

text \<open>
  Copying a file to the output, printing the placement of the threads of all the copies of a test, looking a string
  up.  Opening and reading a file is a parameter: its contents, or \<open>None\<close> when it cannot be opened.
\<close>

fun cat_loop :: "string \<Rightarrow> bool \<Rightarrow> string \<times> bool" where
  "cat_loop [] nl = ([], nl)"
| "cat_loop (c # cs) nl = (let nl = (c = CHR 0x0A); (out, nl) = cat_loop cs nl in (c # out, nl))"

definition cat_file :: "string option \<Rightarrow> string \<Rightarrow> string" where
  "cat_file fp msg =
     (case fp of None \<Rightarrow> []
      | Some s \<Rightarrow> (let (out, nl) = cat_loop s True in msg @ [CHR 0x0A] @ out @ (if \<not> nl then [CHR 0x0A] else [])))"

fun agets :: "'a list \<Rightarrow> int list \<Rightarrow> 'a list res" where
  "agets xs [] = Inr []"
| "agets xs (i # is) = bind_res (aget xs i) (\<lambda>x. bind_res (agets xs is) (\<lambda>ys. Inr (x # ys)))"

text \<open>
  \<open>p\<close> is the array of processors, \<open>nprocs\<close> for each copy of the test; \<open>cm\<close> maps processors to cores.  With \<open>nprocs\<close> zero the index
  does not advance.
\<close>

definition dump_line :: "int list \<Rightarrow> cpus_t \<Rightarrow> nat \<Rightarrow> nat \<Rightarrow> string res" where
  "dump_line p cm nprocs k =
     bind_res (agets p (map int [k..<k + nprocs])) (\<lambda>xs.
     bind_res (agets (cpu cm) xs) (\<lambda>cs.
     Inr (''['' @ pp_ints xs @ ''] {'' @ pp_ints cs @ ''}'' @ [CHR 0x0A])))"

function cpus_dump_loop :: "int list \<Rightarrow> nat \<Rightarrow> cpus_t \<Rightarrow> nat \<Rightarrow> nat \<Rightarrow> string res" where
  "cpus_dump_loop p sz cm nprocs k =
     (if k < sz then
        if nprocs = 0 then Inl Diverges
        else bind_res (dump_line p cm nprocs k) (\<lambda>l.
             bind_res (cpus_dump_loop p sz cm nprocs (k + nprocs)) (\<lambda>ls. Inr (l @ ls)))
      else Inr [])"
  by pat_completeness auto
termination by (relation "measure (\<lambda>(p, sz, cm, nprocs, k). sz - k)") auto

declare cpus_dump_loop.simps [simp del]

definition cpus_dump_test :: "int list \<Rightarrow> nat \<Rightarrow> cpus_t \<Rightarrow> nat \<Rightarrow> string res" where
  "cpus_dump_test p sz cm nprocs = cpus_dump_loop p sz cm nprocs 0"

fun string_loop :: "string list \<Rightarrow> string \<Rightarrow> nat \<Rightarrow> int" where
  "string_loop [] s k = -1"
| "string_loop (t # ts) s k = (if t = s then int k else string_loop ts s (k + 1))"

definition find_string :: "string list \<Rightarrow> string \<Rightarrow> int" where
  "find_string t s = string_loop t s 0"

definition max_int :: "int \<Rightarrow> int \<Rightarrow> int" where
  "max_int n m = (if n < m then m else n)"

subsection \<open>Properties\<close>

lemma cat_loop_copies: "cat_loop s nl = (s, if s = [] then nl else last s = CHR 0x0A)"
  by (induction s arbitrary: nl) (simp_all add: Let_def)

text \<open>The file is copied after its title, and the output always ends with the end of a line, the last one completed if need be.\<close>

theorem cat_file_ends_line:
  "cat_file (Some s) msg = msg @ [CHR 0x0A] @ s @ (if s = [] \<or> last s = CHR 0x0A then [] else [CHR 0x0A]) \<and>
   last (cat_file (Some s) msg) = CHR 0x0A"
  by (simp add: cat_file_def cat_loop_copies Let_def)

lemma string_loop_first:
  "(string_loop ts s k = -1 \<and> s \<notin> set ts) \<or>
   (\<exists>i < length ts. string_loop ts s k = int (k + i) \<and> ts ! i = s \<and> s \<notin> set (take i ts))"
proof (induction ts arbitrary: k)
  case (Cons t ts)
  show ?case
  proof (cases "t = s")
    case False
    then show ?thesis
      using Cons.IH [of "k + 1"] by (elim disjE exE conjE) (auto intro!: exI [of _ "Suc _"])
  qed auto
qed simp

text \<open>\<open>find_string\<close> returns the first index of the string, or -1 when it does not occur.\<close>

theorem find_string_first:
  "(find_string ts s = -1 \<longleftrightarrow> s \<notin> set ts) \<and>
   (\<forall>i. find_string ts s = int i \<longrightarrow> i < length ts \<and> ts ! i = s \<and> s \<notin> set (take i ts))"
  using string_loop_first [of ts s 0] nth_mem by (fastforce simp: find_string_def)

theorem find_string_first_witness: "find_string [''a'', ''bc'', ''d'', ''bc''] ''bc'' = 1 \<and> [''a'', ''bc'', ''d'', ''bc''] ! 1 = ''bc''"
proof -
  have "find_string [''a'', ''bc'', ''d'', ''bc''] ''bc'' = int 1" by (simp add: find_string_def)
  then show ?thesis using find_string_first [of "[''a'', ''bc'', ''d'', ''bc'']" "''bc''"] by simp
qed

lemma agets_nth: "\<forall>i \<in> set is. 0 \<le> i \<and> i < int (length xs) \<Longrightarrow> agets xs is = Inr (map (\<lambda>i. xs ! nat i) is)"
  by (induction "is") (simp_all add: aget_def)

text \<open>The processors of copy \<open>j\<close>.\<close>

definition copy_cpus :: "int list \<Rightarrow> nat \<Rightarrow> nat \<Rightarrow> int list" where
  "copy_cpus p n j = map (\<lambda>i. p ! (j * n + i)) [0..<n]"

lemma dump_line_copy:
  assumes "j * n + n \<le> length p" and "\<forall>x \<in> set p. 0 \<le> x \<and> x < int (length (cpu cm))"
  shows "dump_line p cm n (j * n) =
    Inr (''['' @ pp_ints (copy_cpus p n j) @ ''] {'' @ pp_ints (map (\<lambda>x. cpu cm ! nat x) (copy_cpus p n j)) @ ''}'' @ [CHR 0x0A])"
proof -
  have "agets p (map int [j * n..<j * n + n]) = Inr (map (\<lambda>i. p ! nat i) (map int [j * n..<j * n + n]))"
    using assms(1) by (intro agets_nth) auto
  moreover have "map (\<lambda>i. p ! nat i) (map int [j * n..<j * n + n]) = copy_cpus p n j"
    by (intro nth_equalityI) (simp_all add: copy_cpus_def nat_int_add flip: of_nat_mult of_nat_add)
  moreover have "agets (cpu cm) (copy_cpus p n j) = Inr (map (\<lambda>x. cpu cm ! nat x) (copy_cpus p n j))"
    using assms by (intro agets_nth) (auto simp: copy_cpus_def)
  ultimately show ?thesis by (simp add: dump_line_def)
qed

lemma dump_loop_lines:
  assumes "0 < n" and "m * n \<le> length p" and "\<forall>x \<in> set p. 0 \<le> x \<and> x < int (length (cpu cm))" and "j \<le> m"
  shows "cpus_dump_loop p (m * n) cm n (j * n) =
    Inr (concat (map (\<lambda>j. ''['' @ pp_ints (copy_cpus p n j) @ ''] {'' @ pp_ints (map (\<lambda>x. cpu cm ! nat x) (copy_cpus p n j)) @ ''}'' @ [CHR 0x0A])
      [j..<m]))"
  using assms(4)
proof (induction "m - j" arbitrary: j)
  case 0
  then show ?case by (simp add: cpus_dump_loop.simps)
next
  case (Suc d)
  then have j: "j < m" "Suc j \<le> m" "d = m - Suc j" by simp_all
  have "Suc j * n \<le> m * n" using j(2) by (rule mult_le_mono1)
  then have "j * n + n \<le> length p" using assms(2) by simp
  note line = dump_line_copy [OF this assms(3)]
  have "[j..<m] = j # [Suc j..<m]" using j(1) by (rule upt_conv_Cons)
  moreover have "j * n < m * n" using j(1) assms(1) by simp
  moreover have "cpus_dump_loop p (m * n) cm n (j * n + n) = cpus_dump_loop p (m * n) cm n (Suc j * n)" by (simp add: add.commute)
  ultimately show ?case
    using Suc(1) [OF j(3,2)] line assms(1) by (subst cpus_dump_loop.simps) simp
qed

text \<open>
  One line for each copy of the test, with the processors of its threads in order and then their cores; no access is out of
  bounds.  Without threads, though, the loop does not end.
\<close>

theorem cpus_dump_test_lines:
  assumes "0 < n" and "m * n \<le> length p" and "\<forall>x \<in> set p. 0 \<le> x \<and> x < int (length (cpu cm))"
  shows "cpus_dump_test p (m * n) cm n =
      Inr (concat (map (\<lambda>j. ''['' @ pp_ints (copy_cpus p n j) @ ''] {'' @ pp_ints (map (\<lambda>x. cpu cm ! nat x) (copy_cpus p n j)) @ ''}'' @ [CHR 0x0A])
        [0..<m])) \<and>
    (cpus_dump_test p sz cm 0 = Inl Diverges \<longleftrightarrow> 0 < sz)"
  using dump_loop_lines [OF assms, of 0] by (simp add: cpus_dump_test_def cpus_dump_loop.simps [of _ _ _ 0])

theorem cpus_dump_test_lines_witness:
  "cpus_dump_test [2, 0, 1, 3] 4 \<lparr>cpu = [0, 0, 1, 1]\<rparr> 2 = Inr (''[2,0] {1,0}'' @ [CHR 0x0A] @ ''[1,3] {0,1}'' @ [CHR 0x0A])"
proof -
  have "[0..<2] = [0, 1 :: nat]" by (simp add: upt_rec)
  moreover have "digit 0 = CHR ''0''" "digit 1 = CHR ''1''" "digit 2 = CHR ''2''" "digit 3 = CHR ''3''" by code_simp+
  ultimately show ?thesis
    using cpus_dump_test_lines [of 2 2 "[2, 0, 1, 3]" "\<lparr>cpu = [0, 0, 1, 1]\<rparr>"]
    by (simp add: copy_cpus_def show_int_def show_nat.simps)
qed

end
