(* ===== verification/Errors.thy ===== *)
theory Errors
  imports Litmus_Base Monitor Pool
begin

section \<open>Errors, memory and the calls of the system (\<^verbatim>\<open>_utils.c\<close>, \<^verbatim>\<open>_presi.c\<close>)\<close>

text \<open>
  One thread of the harness and the calls it makes of the C library and of pthreads.  What a call answers is a parameter, any
  function of the state of the process.  The calls, what is printed and the files closed are recorded in the order
  they happen, latest first.  A function is an action: it takes the process to a new one with a value, or ends it with an
  exit status.  Misuse is \<open>Undef\<close>: printing on a closed file, an access to memory that is not allocated or of the wrong
  kind, a mutex used before its initialisation or after its destruction, or freed without being destroyed.
\<close>

subsection \<open>The process and its calls\<close>

datatype chan = Stderr | Stdout | File nat

datatype call =
    Malloc nat | Free int | Mmap nat | Munmap int nat
  | MutexInit int | MutexDestroy int | MutexLock int | MutexUnlock int
  | CondInit int | CondDestroy int | CondWait int int | CondBroadcast int | CondSignal int
  | ThreadCreate int int | ThreadCreateDetached int int | ThreadJoin int
  | AttrInit | AttrSetDetached | AttrDestroy

datatype event = Called call int | Printed chan string | Closed chan

record outs_t =
  o_k :: int
  o_c :: u64
  o_show :: bool
  o_next :: int
  o_down :: int

text \<open>
  What a block of memory heap_is.  \<open>Raw\<close> is fresh from \<open>malloc\<close>, or an array of integers; a pointer is an address, 0 for
  \<open>NULL\<close>.
\<close>

datatype cell_t =
    Raw | Mutex | Cond | Code nat
  | Pc int int           \<comment> \<open>\<open>c_mutex\<close> and \<open>c_cond\<close>; \<open>next\<close> is in \<open>nexts\<close>\<close>
  | Pb int pb_t          \<comment> \<open>\<open>cond\<close> and the other fields\<close>
  | Po int po_t
  | Op int "int op_t"
  | Cpus nat int         \<comment> \<open>\<open>sz\<close> and \<open>cpu\<close>\<close>
  | Ptrs "int list"
  | Mapcore nat int      \<comment> \<open>\<open>ncores\<close> and \<open>core\<close>\<close>
  | Outs_t outs_t

datatype ctype = T_pm | T_pc | T_cond | T_pb | T_po | T_op | T_cpus | T_outs | T_int

record proc =
  errlog :: "chan option"
  c_errno :: int
  events :: "event list"
  cells :: "int \<Rightarrow> cell_t option"
  nexts :: "int \<Rightarrow> int option"     \<comment> \<open>\<open>next\<close> of a condition variable, once it is written\<close>
  pc_head :: int                   \<comment> \<open>\<open>pc_list\<close>\<close>

record sys =
  answer :: "proc \<Rightarrow> call \<Rightarrow> int"
  new_errno :: "proc \<Rightarrow> call \<Rightarrow> int"
  thread_value :: "proc \<Rightarrow> int \<Rightarrow> int"
  strerror :: "int \<Rightarrow> string"
  size_of :: "ctype \<Rightarrow> nat"
  list_mutex :: int                \<comment> \<open>\<open>pc_list_mutex\<close>, initialised statically\<close>
  with_cache :: bool               \<comment> \<open>the option \<open>CACHE\<close>\<close>

datatype ending = Exit int | Undef

type_synonym 'a act = "proc \<Rightarrow> (ending + 'a) \<times> proc"

definition ret :: "'a \<Rightarrow> 'a act" where
  "ret x = (\<lambda>p. (Inr x, p))"

definition ends :: "ending \<Rightarrow> 'a act" where
  "ends e = (\<lambda>p. (Inl e, p))"

definition bind_act :: "'a act \<Rightarrow> ('a \<Rightarrow> 'b act) \<Rightarrow> 'b act" where
  "bind_act m f = (\<lambda>p. case m p of (Inl e, p') \<Rightarrow> (Inl e, p') | (Inr x, p') \<Rightarrow> f x p')"

definition seq_act :: "'a act \<Rightarrow> 'b act \<Rightarrow> 'b act" where
  "seq_act m n = bind_act m (\<lambda>_. n)"

definition get :: "(proc \<Rightarrow> 'a) \<Rightarrow> 'a act" where
  "get f = (\<lambda>p. (Inr (f p), p))"

definition update :: "(proc \<Rightarrow> proc) \<Rightarrow> unit act" where
  "update f = (\<lambda>p. (Inr (), f p))"

definition need :: "(proc \<Rightarrow> bool) \<Rightarrow> unit act" where
  "need P = (\<lambda>p. (if P p then Inr () else Inl Undef, p))"

definition call_sys :: "sys \<Rightarrow> call \<Rightarrow> int act" where
  "call_sys S c =
     (\<lambda>p. let r = answer S p c in (Inr r, p\<lparr>c_errno := new_errno S p c, events := Called c r # events p\<rparr>))"

definition fprintf :: "chan \<Rightarrow> string \<Rightarrow> unit act" where
  "fprintf ch s =
     seq_act (need (\<lambda>p. Closed ch \<notin> set (events p))) (update (\<lambda>p. p\<lparr>events := Printed ch s # events p\<rparr>))"

definition fclose :: "chan \<Rightarrow> unit act" where
  "fclose ch =
     seq_act (need (\<lambda>p. Closed ch \<notin> set (events p))) (update (\<lambda>p. p\<lparr>events := Closed ch # events p\<rparr>))"

definition set_cell :: "int \<Rightarrow> cell_t option \<Rightarrow> unit act" where
  "set_cell a c = update (\<lambda>p. p\<lparr>cells := (cells p)(a := c)\<rparr>)"

definition need_block :: "int \<Rightarrow> cell_t \<Rightarrow> unit act" where
  "need_block a c = need (\<lambda>p. cells p a = Some c)"

subsection \<open>The error channel\<close>

definition log_chan :: "proc \<Rightarrow> chan" where
  "log_chan p = (case errlog p of None \<Rightarrow> Stderr | Some ch \<Rightarrow> ch)"

definition checkerrlog :: "unit act" where
  "checkerrlog = update (\<lambda>p. if errlog p = None then p\<lparr>errlog := Some Stderr\<rparr> else p)"

definition seterrlog :: "chan option \<Rightarrow> unit act" where
  "seterrlog ch = update (\<lambda>p. p\<lparr>errlog := ch\<rparr>)"

definition log_error :: "string \<Rightarrow> int act" where
  "log_error s =
     seq_act checkerrlog (bind_act (get log_chan) (\<lambda>ch. seq_act (fprintf ch s) (ret (int (length s)))))"

definition nl :: string where "nl = [CHR 0x0A]"

definition fatal :: "string \<Rightarrow> unit act" where
  "fatal msg =
     seq_act (log_error (''Failure: '' @ msg @ nl))
    (bind_act (get log_chan) (\<lambda>ch.
     seq_act (fclose ch)
    (seq_act (fprintf Stdout (''Failure: '' @ msg @ nl))
    (ends (Exit 1)))))"

definition errexit :: "sys \<Rightarrow> string \<Rightarrow> int \<Rightarrow> unit act" where
  "errexit S msg err =
     seq_act (log_error (msg @ '': '' @ strerror S err @ nl))
    (bind_act (get log_chan) (\<lambda>ch. seq_act (fclose ch) (ends (Exit 2))))"

text \<open>The shape of the code after a call of pthreads: \<open>if (e) errexit(msg,e)\<close>.\<close>

definition check :: "sys \<Rightarrow> string \<Rightarrow> int \<Rightarrow> unit act" where
  "check S msg e = (if e \<noteq> 0 then errexit S msg e else ret ())"

subsection \<open>Memory\<close>

definition ENOMEM :: int where "ENOMEM = 12"

definition malloc :: "sys \<Rightarrow> nat \<Rightarrow> int act" where
  "malloc S n = bind_act (call_sys S (Malloc n)) (\<lambda>a. 
     seq_act (if a = 0 then ret () else update (\<lambda>p. p\<lparr>cells := (cells p)(a \<mapsto> Raw), nexts := (nexts p)(a := None)\<rparr>)) (ret a))"

definition malloc_check :: "sys \<Rightarrow> nat \<Rightarrow> int act" where
  "malloc_check S n =
     (if n = 0 then ret 0
      else bind_act (malloc S n) (\<lambda>a.
           seq_act (if a = 0 then
                      seq_act (update (\<lambda>p. if c_errno p = 0 then p\<lparr>c_errno := ENOMEM\<rparr> else p))
                     (bind_act (get c_errno) (errexit S ''malloc''))
                    else ret ())
          (ret a)))"

text \<open>\<open>free\<close>: of \<open>NULL\<close> it does nothing.\<close>

definition free :: "sys \<Rightarrow> int \<Rightarrow> unit act" where
  "free S a =
     (if a = 0 then ret ()
      else seq_act (need (\<lambda>p. cells p a \<notin> {None, Some Mutex, Some Cond}))
          (seq_act (call_sys S (Free a)) (set_cell a None)))"

definition mmap_exec :: "sys \<Rightarrow> nat \<Rightarrow> int act" where
  "mmap_exec S n =
     bind_act (call_sys S (Mmap n)) (\<lambda>a.
     seq_act (if a = -1 then bind_act (get c_errno) (errexit S ''mmap'') else ret ())
    (seq_act (set_cell a (Some (Code n))) (ret a)))"

definition munmap_exec :: "sys \<Rightarrow> int \<Rightarrow> nat \<Rightarrow> unit act" where
  "munmap_exec S a n =
     seq_act (need_block a (Code n))
    (bind_act (call_sys S (Munmap a n)) (\<lambda>r.
     seq_act (if r \<noteq> 0 then bind_act (get c_errno) (errexit S ''munmap'') else ret ())
    (set_cell a None)))"

definition cpus_create_m :: "sys \<Rightarrow> nat \<Rightarrow> int act" where
  "cpus_create_m S n =
     bind_act (malloc_check S (size_of S T_cpus)) (\<lambda>r.
     bind_act (malloc_check S (size_of S T_int * n)) (\<lambda>c.
     seq_act (set_cell r (Some (Cpus n c))) (ret r)))"

definition get_cpus :: "int \<Rightarrow> (nat \<times> int) act" where
  "get_cpus a = (\<lambda>p. (case cells p a of Some (Cpus n c) \<Rightarrow> Inr (n, c) | _ \<Rightarrow> Inl Undef, p))"

definition cpus_free :: "sys \<Rightarrow> int \<Rightarrow> unit act" where
  "cpus_free S p = bind_act (get_cpus p) (\<lambda>(n, c). seq_act (free S c) (free S p))"

definition get_mapcore :: "int \<Rightarrow> (nat \<times> int) act" where
  "get_mapcore a = (\<lambda>p. (case cells p a of Some (Mapcore n c) \<Rightarrow> Inr (n, c) | _ \<Rightarrow> Inl Undef, p))"

definition get_ptr :: "int \<Rightarrow> nat \<Rightarrow> int act" where
  "get_ptr a i = (\<lambda>p. (case cells p a of Some (Ptrs xs) \<Rightarrow> if i < length xs then Inr (xs ! i) else Inl Undef
                       | _ \<Rightarrow> Inl Undef, p))"

fun free_cores :: "sys \<Rightarrow> int \<Rightarrow> nat list \<Rightarrow> unit act" where
  "free_cores S core [] = ret ()"
| "free_cores S core (c # cs) =
     seq_act (bind_act (get_ptr core c) (cpus_free S)) (free_cores S core cs)"

definition mapcore_free :: "sys \<Rightarrow> int \<Rightarrow> unit act" where
  "mapcore_free S p =
     bind_act (get_mapcore p) (\<lambda>(n, core).
     seq_act (free_cores S core [0..<n]) (seq_act (free S core) (free S p)))"

subsection \<open>Mutexes and condition variables\<close>

text \<open>A call on a block that must hold \<open>old\<close> and heap_is \<open>new\<close> when the call has succeeded.\<close>

definition on_cell :: "sys \<Rightarrow> call \<Rightarrow> int \<Rightarrow> cell_t \<Rightarrow> cell_t \<Rightarrow> int act" where
  "on_cell S c a old new =
     seq_act (need_block a old)
    (bind_act (call_sys S c) (\<lambda>r. seq_act (if r = 0 then set_cell a (Some new) else ret ()) (ret r)))"

definition pm_create :: "sys \<Rightarrow> int act" where
  "pm_create S =
     bind_act (malloc_check S (size_of S T_pm)) (\<lambda>p.
     bind_act (on_cell S (MutexInit p) p Raw Mutex) (\<lambda>e.
     seq_act (check S ''mutex_init'' e) (ret p)))"

definition pm_free :: "sys \<Rightarrow> int \<Rightarrow> unit act" where
  "pm_free S p =
     bind_act (on_cell S (MutexDestroy p) p Mutex Raw) (\<lambda>e.
     seq_act (check S ''mutex_destroy'' e) (free S p))"

definition pm_lock :: "sys \<Rightarrow> int \<Rightarrow> unit act" where
  "pm_lock S m = bind_act (on_cell S (MutexLock m) m Mutex Mutex) (check S ''mutex_lock'')"

definition pm_unlock :: "sys \<Rightarrow> int \<Rightarrow> unit act" where
  "pm_unlock S m = bind_act (on_cell S (MutexUnlock m) m Mutex Mutex) (check S ''mutex_unlock'')"

definition do_pc_create_m :: "sys \<Rightarrow> int act" where
  "do_pc_create_m S =
     bind_act (malloc_check S (size_of S T_pc)) (\<lambda>p.
     bind_act (pm_create S) (\<lambda>m.
     bind_act (malloc_check S (size_of S T_cond)) (\<lambda>c.
     seq_act (set_cell p (Some (Pc m c)))
    (bind_act (on_cell S (CondInit c) c Raw Cond) (\<lambda>e.
     seq_act (check S ''cond_init'' e) (ret p))))))"

definition get_pc :: "int \<Rightarrow> (int \<times> int) act" where
  "get_pc a = (\<lambda>p. (case cells p a of Some (Pc m c) \<Rightarrow> Inr (m, c) | _ \<Rightarrow> Inl Undef, p))"

definition get_next :: "int \<Rightarrow> int act" where
  "get_next a = (\<lambda>p. (case nexts p a of Some x \<Rightarrow> Inr x | None \<Rightarrow> Inl Undef, p))"

definition set_next :: "int \<Rightarrow> int \<Rightarrow> unit act" where
  "set_next a x = update (\<lambda>p. p\<lparr>nexts := (nexts p)(a \<mapsto> x)\<rparr>)"

definition set_pc_list :: "int \<Rightarrow> unit act" where
  "set_pc_list x = update (\<lambda>p. p\<lparr>pc_head := x\<rparr>)"

definition pc_create_cached :: "sys \<Rightarrow> int act" where
  "pc_create_cached S =
     seq_act (pm_lock S (list_mutex S))
    (bind_act (get pc_head) (\<lambda>r.
     if r = 0 then seq_act (pm_unlock S (list_mutex S)) (do_pc_create_m S)
     else seq_act (get_pc r)
         (bind_act (get_next r) (\<lambda>x.
          seq_act (set_pc_list x)
         (seq_act (set_next r 0)
         (seq_act (pm_unlock S (list_mutex S)) (ret r)))))))"

definition pc_create_m :: "sys \<Rightarrow> int act" where
  "pc_create_m S = (if with_cache S then pc_create_cached S else do_pc_create_m S)"

definition pc_free_cached :: "sys \<Rightarrow> int \<Rightarrow> unit act" where
  "pc_free_cached S p =
     seq_act (pm_lock S (list_mutex S))
    (seq_act (get_pc p)
    (bind_act (get pc_head) (\<lambda>x.
     seq_act (set_next p x)
    (seq_act (set_pc_list p)
    (pm_unlock S (list_mutex S))))))"

definition pc_free_plain :: "sys \<Rightarrow> int \<Rightarrow> unit act" where
  "pc_free_plain S p =
     bind_act (get_pc p) (\<lambda>(m, c).
     seq_act (pm_free S m)
    (bind_act (on_cell S (CondDestroy c) c Cond Raw) (\<lambda>e.
     seq_act (check S ''cond_destroy'' e)
    (seq_act (free S c) (free S p)))))"

definition pc_free_m :: "sys \<Rightarrow> int \<Rightarrow> unit act" where
  "pc_free_m S p = (if with_cache S then pc_free_cached S p else pc_free_plain S p)"

definition pc_lock :: "sys \<Rightarrow> int \<Rightarrow> unit act" where
  "pc_lock S p = bind_act (get_pc p) (\<lambda>(m, c). pm_lock S m)"

definition pc_unlock :: "sys \<Rightarrow> int \<Rightarrow> unit act" where
  "pc_unlock S p = bind_act (get_pc p) (\<lambda>(m, c). pm_unlock S m)"

definition pc_wait :: "sys \<Rightarrow> int \<Rightarrow> unit act" where
  "pc_wait S p =
     bind_act (get_pc p) (\<lambda>(m, c).
     seq_act (need_block m Mutex)
    (bind_act (on_cell S (CondWait c m) c Cond Cond) (check S ''cond_wait'')))"

definition pc_broadcast :: "sys \<Rightarrow> int \<Rightarrow> unit act" where
  "pc_broadcast S p =
     bind_act (get_pc p) (\<lambda>(m, c). bind_act (on_cell S (CondBroadcast c) c Cond Cond) (check S ''cond_broadcast''))"

definition pc_signal :: "sys \<Rightarrow> int \<Rightarrow> unit act" where
  "pc_signal S p =
     bind_act (get_pc p) (\<lambda>(m, c). bind_act (on_cell S (CondSignal c) c Cond Cond) (check S ''cond_signal''))"

subsection \<open>Monitors and buffers in memory\<close>

definition pb_create_m :: "sys \<Rightarrow> int \<Rightarrow> int act" where
  "pb_create_m S n =
     bind_act (malloc_check S (size_of S T_pb)) (\<lambda>p.
     bind_act (pc_create_m S) (\<lambda>k.
     seq_act (set_cell p (Some (Pb k (pb_create n)))) (ret p)))"

definition get_cond :: "int \<Rightarrow> int act" where
  "get_cond a =
     (\<lambda>p. (case cells p a of Some (Pb k _) \<Rightarrow> Inr k | Some (Po k _) \<Rightarrow> Inr k | Some (Op k _) \<Rightarrow> Inr k
           | _ \<Rightarrow> Inl Undef, p))"

definition pb_free :: "sys \<Rightarrow> int \<Rightarrow> unit act" where
  "pb_free S p = bind_act (get_cond p) (\<lambda>k. seq_act (pc_free_m S k) (free S p))"

definition po_create_m :: "sys \<Rightarrow> int \<Rightarrow> int act" where
  "po_create_m S n =
     bind_act (malloc_check S (size_of S T_po)) (\<lambda>p.
     bind_act (pc_create_m S) (\<lambda>k.
     seq_act (set_cell p (Some (Po k (po_create n)))) (ret p)))"

definition po_free :: "sys \<Rightarrow> int \<Rightarrow> unit act" where
  "po_free S p = bind_act (get_cond p) (\<lambda>k. seq_act (pc_free_m S k) (free S p))"

definition op_create_m :: "sys \<Rightarrow> int act" where
  "op_create_m S =
     bind_act (malloc_check S (size_of S T_op)) (\<lambda>p.
     bind_act (pc_create_m S) (\<lambda>k.
     seq_act (set_cell p (Some (Op k op_create))) (ret p)))"

definition op_free_m :: "sys \<Rightarrow> int \<Rightarrow> unit act" where
  "op_free_m S p = bind_act (get_cond p) (\<lambda>k. seq_act (pc_free_m S k) (free S p))"

subsection \<open>Threads\<close>

definition launch :: "sys \<Rightarrow> int \<Rightarrow> int \<Rightarrow> unit act" where
  "launch S f a = bind_act (call_sys S (ThreadCreate f a)) (check S ''pthread_create'')"

definition join :: "sys \<Rightarrow> int \<Rightarrow> int act" where
  "join S th =
     bind_act (get (\<lambda>p. thread_value S p th)) (\<lambda>r.
     bind_act (call_sys S (ThreadJoin th)) (\<lambda>e.
     seq_act (check S ''pthread_join'' e) (ret r)))"

definition do_launch_detached :: "sys \<Rightarrow> int \<Rightarrow> int \<Rightarrow> unit act" where
  "do_launch_detached S f a =
     bind_act (call_sys S AttrInit) (\<lambda>e.
     seq_act (check S ''pthread_attr'' e)
    (bind_act (call_sys S AttrSetDetached) (\<lambda>e.
     seq_act (check S ''pthread_attr_setdetachstate'' e)
    (bind_act (call_sys S (ThreadCreateDetached f a)) (\<lambda>e.
     seq_act (check S ''pthread_create'' e)
    (bind_act (call_sys S AttrDestroy) (check S ''pthread_attr_destroy'')))))))"

subsection \<open>The bare-metal versions\<close>

text \<open>\<^verbatim>\<open>_presi.c\<close> has its own: they print on the standard files; on KVM there is one only.\<close>

definition presi_fatal :: "bool \<Rightarrow> string \<Rightarrow> unit act" where
  "presi_fatal kvm msg =
     seq_act (if \<not> kvm then fprintf Stderr (''Failure: '' @ msg @ nl) else ret ())
    (seq_act (fprintf Stdout (''Failure: '' @ msg @ nl)) (ends (Exit 1)))"

definition presi_errexit :: "sys \<Rightarrow> string \<Rightarrow> int \<Rightarrow> unit act" where
  "presi_errexit S msg err =
     seq_act (fprintf Stderr (msg @ '': '' @ strerror S err @ nl)) (ends (Exit 2))"

definition presi_malloc_check :: "sys \<Rightarrow> bool \<Rightarrow> nat \<Rightarrow> int act" where
  "presi_malloc_check S kvm n =
     bind_act (malloc S n) (\<lambda>r. seq_act (if r = 0 then presi_fatal kvm ''malloc'' else ret ()) (ret r))"

definition presi_check :: "sys \<Rightarrow> string \<Rightarrow> int \<Rightarrow> unit act" where
  "presi_check S msg e = (if e \<noteq> 0 then presi_errexit S msg e else ret ())"

definition presi_launch :: "sys \<Rightarrow> int \<Rightarrow> int \<Rightarrow> unit act" where
  "presi_launch S f a = bind_act (call_sys S (ThreadCreate f a)) (presi_check S ''pthread_create'')"

definition presi_join :: "sys \<Rightarrow> int \<Rightarrow> int act" where
  "presi_join S th =
     bind_act (get (\<lambda>p. thread_value S p th)) (\<lambda>r.
     bind_act (call_sys S (ThreadJoin th)) (\<lambda>e.
     seq_act (presi_check S ''pthread_join'' e) (ret r)))"

definition presi_mmap_exec :: "sys \<Rightarrow> nat \<Rightarrow> int act" where
  "presi_mmap_exec S n =
     bind_act (call_sys S (Mmap n)) (\<lambda>a.
     seq_act (if a = -1 then bind_act (get c_errno) (presi_errexit S ''mmap'') else ret ())
    (seq_act (set_cell a (Some (Code n))) (ret a)))"

definition presi_munmap_exec :: "sys \<Rightarrow> int \<Rightarrow> nat \<Rightarrow> unit act" where
  "presi_munmap_exec S a n =
     seq_act (need_block a (Code n))
    (bind_act (call_sys S (Munmap a n)) (\<lambda>r.
     seq_act (if r \<noteq> 0 then bind_act (get c_errno) (presi_errexit S ''munmap'') else ret ())
    (set_cell a None)))"

subsection \<open>What a failing call leads to\<close>

fun failed :: "call \<Rightarrow> int \<Rightarrow> bool" where
  "failed (Malloc _) r \<longleftrightarrow> r = 0"
| "failed (Mmap _) r \<longleftrightarrow> r = -1"
| "failed (Free _) r \<longleftrightarrow> False"
| "failed _ r \<longleftrightarrow> r \<noteq> 0"

fun call_name :: "call \<Rightarrow> string" where
  "call_name (Malloc _) = ''malloc''"
| "call_name (Free _) = ''free''"
| "call_name (Mmap _) = ''mmap''"
| "call_name (Munmap _ _) = ''munmap''"
| "call_name (MutexInit _) = ''mutex_init''"
| "call_name (MutexDestroy _) = ''mutex_destroy''"
| "call_name (MutexLock _) = ''mutex_lock''"
| "call_name (MutexUnlock _) = ''mutex_unlock''"
| "call_name (CondInit _) = ''cond_init''"
| "call_name (CondDestroy _) = ''cond_destroy''"
| "call_name (CondWait _ _) = ''cond_wait''"
| "call_name (CondBroadcast _) = ''cond_broadcast''"
| "call_name (CondSignal _) = ''cond_signal''"
| "call_name (ThreadCreate _ _) = ''pthread_create''"
| "call_name (ThreadCreateDetached _ _) = ''pthread_create''"
| "call_name (ThreadJoin _) = ''pthread_join''"
| "call_name AttrInit = ''pthread_attr''"
| "call_name AttrSetDetached = ''pthread_attr_setdetachstate''"
| "call_name AttrDestroy = ''pthread_attr_destroy''"

text \<open>The error code: pthread calls return it, the others leave it in \<open>errno\<close>, which \<open>malloc_check\<close> makes different from 0.\<close>

fun call_error :: "call \<Rightarrow> int \<Rightarrow> int \<Rightarrow> int" where
  "call_error (Malloc _) r err = (if err = 0 then ENOMEM else err)"
| "call_error (Mmap _) r err = err"
| "call_error (Munmap _ _) r err = err"
| "call_error _ r err = r"

text \<open>The calls of pthreads.\<close>

definition returns_code :: "call \<Rightarrow> bool" where
  "returns_code c \<longleftrightarrow> (\<forall>r e. failed c r = (r \<noteq> 0) \<and> call_error c r e = r)"

lemma returns_codes [simp]:
  "returns_code (MutexInit a)" "returns_code (MutexDestroy a)" "returns_code (MutexLock a)" "returns_code (MutexUnlock a)"
  "returns_code (CondInit a)" "returns_code (CondDestroy a)" "returns_code (CondWait a b)" "returns_code (CondBroadcast a)"
  "returns_code (CondSignal a)" "returns_code (ThreadCreate a b)" "returns_code (ThreadCreateDetached a b)"
  "returns_code (ThreadJoin a)" "returns_code AttrInit" "returns_code AttrSetDetached" "returns_code AttrDestroy"
  by (simp_all add: returns_code_def)

fun event_ok :: "event \<Rightarrow> bool" where
  "event_ok (Called c r) \<longleftrightarrow> \<not> failed c r"
| "event_ok _ \<longleftrightarrow> False"

text \<open>
  \<open>evs\<close> is what an action has added to the events, \<open>err\<close> the last \<open>errno\<close>: only calls that succeed, or then one that fails, and what
  is done to report it.
\<close>

type_synonym report = "chan \<Rightarrow> string \<Rightarrow> event list"

definition stopped :: "sys \<Rightarrow> report \<Rightarrow> chan \<Rightarrow> int \<Rightarrow> event list \<Rightarrow> bool" where
  "stopped S report ch err evs \<longleftrightarrow>
     (\<exists>c r pre. evs = report ch (call_name c @ '': '' @ strerror S (call_error c r err) @ nl) @ Called c r # pre \<and>
        failed c r \<and> list_all event_ok pre)"

fun ended_well :: "sys \<Rightarrow> report \<Rightarrow> chan \<Rightarrow> int \<Rightarrow> event list \<Rightarrow> ending + 'a \<Rightarrow> bool" where
  "ended_well S report ch err evs (Inr x) \<longleftrightarrow> list_all event_ok evs"
| "ended_well S report ch err evs (Inl (Exit n)) \<longleftrightarrow> n = 2 \<and> stopped S report ch err evs"
| "ended_well S report ch err evs (Inl Undef) \<longleftrightarrow> True"

definition loud :: "sys \<Rightarrow> report \<Rightarrow> 'a act \<Rightarrow> bool" where
  "loud S report m \<longleftrightarrow>
     (\<forall>p. log_chan (snd (m p)) = log_chan p \<and>
        (\<exists>evs. events (snd (m p)) = evs @ events p \<and> ended_well S report (log_chan p) (c_errno (snd (m p))) evs (fst (m p))))"

named_theorems loud_intros "actions whose failing calls are reported"

lemma loudI:
  assumes "\<And>p. log_chan (snd (m p)) = log_chan p"
    and "\<And>p. \<exists>evs. events (snd (m p)) = evs @ events p \<and> ended_well S report (log_chan p) (c_errno (snd (m p))) evs (fst (m p))"
  shows "loud S report m"
  using assms by (simp add: loud_def)

lemma loud_silent:
  assumes "\<And>p. events (snd (m p)) = events p" and "\<And>p. log_chan (snd (m p)) = log_chan p"
    and "\<And>p n. fst (m p) \<noteq> Inl (Exit n)"
  shows "loud S report m"
proof (rule loudI)
  fix p
  have "ended_well S report (log_chan p) (c_errno (snd (m p))) [] (fst (m p))"
    using assms(3) [of p] by (cases "fst (m p)" rule: sum.exhaust; cases "projl (fst (m p))") auto
  then show "\<exists>evs. events (snd (m p)) = evs @ events p \<and> ended_well S report (log_chan p) (c_errno (snd (m p))) evs (fst (m p))"
    using assms(1) by (intro exI [of _ "[]"]) simp
qed (rule assms(2))

lemma stopped_append: "stopped S report ch err evs \<Longrightarrow> list_all event_ok pre \<Longrightarrow> stopped S report ch err (evs @ pre)"
  by (fastforce simp: stopped_def)

lemma ended_well_append:
  assumes "list_all event_ok pre" and "ended_well S report ch err evs r"
  shows "ended_well S report ch err (evs @ pre) r"
  using assms by (cases "(S, report, ch, err, evs, r)" rule: ended_well.cases) (auto intro: stopped_append)

lemma loud_bind [loud_intros]:
  assumes "loud S report m" and "\<And>x. loud S report (f x)"
  shows "loud S report (bind_act m f)"
proof (rule loudI)
  fix p
  obtain r q where m: "m p = (r, q)" by (cases "m p")
  with assms(1) obtain evs where evs: "events q = evs @ events p" "ended_well S report (log_chan p) (c_errno q) evs r" "log_chan q = log_chan p"
    unfolding loud_def by (metis fst_conv snd_conv)
  show "log_chan (snd (bind_act m f p)) = log_chan p"
    using evs(3) m assms(2) by (cases r) (simp_all add: bind_act_def loud_def)
  show "\<exists>evs. events (snd (bind_act m f p)) = evs @ events p \<and> ended_well S report (log_chan p) (c_errno (snd (bind_act m f p))) evs (fst (bind_act m f p))"
  proof (cases r)
    case (Inl e)
    then show ?thesis using evs m by (cases e) (auto simp: bind_act_def)
  next
    case (Inr x)
    obtain evs' where "events (snd (f x q)) = evs' @ events q" "ended_well S report (log_chan q) (c_errno (snd (f x q))) evs' (fst (f x q))"
      using assms(2) [of x] unfolding loud_def by blast
    then show ?thesis using evs m Inr ended_well_append [of evs] by (auto simp: bind_act_def)
  qed
qed

lemma loud_seq [loud_intros]: "loud S report m \<Longrightarrow> loud S report n \<Longrightarrow> loud S report (seq_act m n)"
  by (simp add: seq_act_def loud_bind)

lemma loud_if [loud_intros]: "loud S report m \<Longrightarrow> loud S report n \<Longrightarrow> loud S report (if b then m else n)"
  by simp

lemma loud_case_prod [loud_intros]: "(\<And>x y. loud S report (f x y)) \<Longrightarrow> loud S report (case z of (x, y) \<Rightarrow> f x y)"
  by (cases z) simp

lemma loud_basic [loud_intros]:
  "loud S report (ret x)" "loud S report (get g)" "loud S report (need P)" "loud S report (set_cell a c)"
  "loud S report (need_block a d)" "loud S report (get_pc a)" "loud S report (get_next a)" "loud S report (set_next a b)"
  "loud S report (set_pc_list a)" "loud S report (get_cond a)" "loud S report (get_cpus a)" "loud S report (get_mapcore a)"
  "loud S report (get_ptr a i)"
  by (rule loud_silent; simp add: ret_def get_def need_def set_cell_def update_def need_block_def get_pc_def get_next_def
    set_next_def set_pc_list_def get_cond_def get_cpus_def get_mapcore_def get_ptr_def log_chan_def
    split: option.split cell_t.split)+

lemma seq_ret: "seq_act m (ret ()) = m"
  by (auto simp: seq_act_def bind_act_def ret_def fun_eq_iff split: prod.split sum.split)

lemmas act_unfolds = seq_act_def bind_act_def need_block_def need_def call_sys_def set_cell_def update_def ret_def get_def Let_def

text \<open>
  What the functions need of \<open>errexit\<close>: it prints its message with the text of the error, in its own way, and ends the
  process with status 2.
\<close>

locale reporter =
  fixes S :: sys and report :: report and error_exit :: "string \<Rightarrow> int \<Rightarrow> unit act"
  assumes exit_ends: "fst (error_exit msg e p) \<in> {Inl Undef, Inl (Exit 2)}"
    and exit_prints: "fst (error_exit msg e p) = Inl (Exit 2) \<Longrightarrow>
      events (snd (error_exit msg e p)) = report (log_chan p) (msg @ '': '' @ strerror S e @ nl) @ events p"
    and exit_adds: "\<exists>evs. events (snd (error_exit msg e p)) = evs @ events p"
    and exit_keeps: "log_chan (snd (error_exit msg e p)) = log_chan p" "c_errno (snd (error_exit msg e p)) = c_errno p"
begin

text \<open>An action that makes one call, then either goes on or reports that it failed.\<close>

lemma loud_one_call:
  assumes "\<And>p. (fst (M p) = Inl Undef \<and> events (snd (M p)) = events p \<and> log_chan (snd (M p)) = log_chan p) \<or>
    (\<exists>c r q. events q = Called c r # events p \<and> log_chan q = log_chan p \<and>
       (if failed c r then \<exists>e. error_exit (call_name c) (call_error c r (c_errno q)) q = (Inl e, snd (M p)) \<and> fst (M p) = Inl e
        else \<exists>n. loud S report n \<and> M p = n q))"
  shows "loud S report M"
proof -
  have "log_chan (snd (M p)) = log_chan p \<and> (\<exists>evs. events (snd (M p)) = evs @ events p \<and>
      ended_well S report (log_chan p) (c_errno (snd (M p))) evs (fst (M p)))" (is "?good p") for p
    using assms [of p]
  proof (elim disjE exE conjE)
    assume "fst (M p) = Inl Undef" "events (snd (M p)) = events p" "log_chan (snd (M p)) = log_chan p"
    then show "?good p" by simp
  next
    fix c r q
    assume q: "events q = Called c r # events p" "log_chan q = log_chan p"
      and M: "if failed c r then \<exists>e. error_exit (call_name c) (call_error c r (c_errno q)) q = (Inl e, snd (M p)) \<and> fst (M p) = Inl e
        else \<exists>n. loud S report n \<and> M p = n q"
    show "?good p"
    proof (cases "failed c r")
      case True
      let ?msg = "call_name c" and ?err = "call_error c r (c_errno q)"
      obtain e where e: "error_exit ?msg ?err q = (Inl e, snd (M p))" "fst (M p) = Inl e" using M True by auto
      then have eq: "e = Undef \<or> e = Exit 2" "fst (error_exit ?msg ?err q) = Inl e" "snd (error_exit ?msg ?err q) = snd (M p)"
        using exit_ends [of ?msg ?err q] by auto
      obtain evs where evs: "events (snd (M p)) = evs @ events q" using exit_adds [of ?msg ?err q] eq(3) by auto
      have keep: "log_chan (snd (M p)) = log_chan p" "c_errno (snd (M p)) = c_errno q"
        using exit_keeps [of ?msg ?err q] eq(3) q(2) by simp_all
      show ?thesis
      proof (cases "e = Undef")
        case True
        then show ?thesis using evs keep(1) e(2) q(1) by (intro conjI exI [of _ "evs @ [Called c r]"]) simp_all
      next
        case False
        then have "events (snd (M p)) = report (log_chan p) (?msg @ '': '' @ strerror S ?err @ nl) @ events q"
          using exit_prints [of ?msg ?err q] eq q(2) by simp
        then have "events (snd (M p)) = (report (log_chan p) (?msg @ '': '' @ strerror S ?err @ nl) @ [Called c r]) @ events p"
          using q(1) by simp
        moreover have "stopped S report (log_chan p) (c_errno q) (report (log_chan p) (?msg @ '': '' @ strerror S ?err @ nl) @ [Called c r])"
          using \<open>failed c r\<close> unfolding stopped_def by (intro exI [of _ c] exI [of _ r] exI [of _ "[]"]) simp
        ultimately show ?thesis using keep e(2) False eq(1) by auto
      qed
    next
      case False
      then obtain n where n: "loud S report n" "M p = n q" using M by auto
      then obtain evs where "events (snd (n q)) = evs @ events q" "log_chan (snd (n q)) = log_chan q"
        "ended_well S report (log_chan q) (c_errno (snd (n q))) evs (fst (n q))" by (auto simp: loud_def)
      moreover have "ended_well S report (log_chan p) (c_errno (snd (M p))) (evs @ [Called c r]) (fst (M p))"
        using calculation(3) n(2) q(2) False by (intro ended_well_append) simp_all
      ultimately show ?thesis using n(2) q by (intro conjI exI [of _ "evs @ [Called c r]"]) simp_all
    qed
  qed
  then show ?thesis by (auto simp: loud_def)
qed

lemma loud_step:
  assumes M: "\<And>p. M p = (if P p then (let r = answer S p c; q = F p r in
      if failed c r then seq_act (error_exit (call_name c) (call_error c r (c_errno q))) (k r) q else n r q) else (Inl Undef, p))"
    and F: "\<And>p. events (F p (answer S p c)) = Called c (answer S p c) # events p"
      "\<And>p. log_chan (F p (answer S p c)) = log_chan p"
    and n: "\<And>r. \<not> failed c r \<Longrightarrow> loud S report (n r)"
  shows "loud S report M"
proof (rule loud_one_call, goal_cases)
  case (1 p)
  let ?r = "answer S p c" and ?e = "\<lambda>q. error_exit (call_name c) (call_error c (answer S p c) (c_errno q)) q"
  show ?case
  proof (cases "P p")
    case True
    have "\<exists>e. ?e (F p ?r) = (Inl e, snd (M p)) \<and> fst (M p) = Inl e" if "failed c ?r"
    proof -
      obtain e q where e: "?e (F p ?r) = (Inl e, q)"
        using exit_ends [of "call_name c" "call_error c ?r (c_errno (F p ?r))" "F p ?r"] by (cases "?e (F p ?r)") auto
      then show ?thesis using M [of p] True that by (simp add: Let_def seq_act_def bind_act_def)
    qed
    moreover have "\<exists>n'. loud S report n' \<and> M p = n' (F p ?r)" if "\<not> failed c ?r"
      using M [of p] True that n [OF that] by (auto simp: Let_def)
    ultimately show ?thesis using F [of p] by (intro disjI2 exI [of _ c] exI [of _ ?r] exI [of _ "F p ?r"]) simp
  next
    case False
    then show ?thesis using M [of p] by simp
  qed
qed

text \<open>The calls that return their error code.\<close>

lemma loud_on_cell_then:
  assumes "returns_code c" and "nm = call_name c" and "loud S report k"
  shows "loud S report (bind_act (on_cell S c a old new) (\<lambda>e. seq_act (if e \<noteq> 0 then error_exit nm e else ret ()) k))"
proof (rule loud_step)
  show "bind_act (on_cell S c a old new) (\<lambda>e. seq_act (if e \<noteq> 0 then error_exit nm e else ret ()) k) p =
    (if cells p a = Some old then (let r = answer S p c;
        q = p\<lparr>c_errno := new_errno S p c, events := Called c r # events p, cells := if r = 0 then (cells p)(a \<mapsto> new) else cells p\<rparr>
      in if failed c r then seq_act (error_exit (call_name c) (call_error c r (c_errno q))) k q else k q)
     else (Inl Undef, p))" for p
    using assms(1,2) by (simp add: on_cell_def act_unfolds returns_code_def Let_def)
qed (simp_all add: assms log_chan_def)

lemma loud_on_cell:
  assumes "returns_code c" and "nm = call_name c"
  shows "loud S report (bind_act (on_cell S c a old new) (\<lambda>e. if e \<noteq> 0 then error_exit nm e else ret ()))"
  using loud_on_cell_then [OF assms, of "ret ()", OF loud_basic(1)] by (simp add: seq_ret)

lemma loud_call_then:
  assumes "returns_code c" and "nm = call_name c" and "loud S report k"
  shows "loud S report (bind_act (call_sys S c) (\<lambda>e. seq_act (if e \<noteq> 0 then error_exit nm e else ret ()) k))"
proof (rule loud_step)
  show "bind_act (call_sys S c) (\<lambda>e. seq_act (if e \<noteq> 0 then error_exit nm e else ret ()) k) p =
    (if True then (let r = answer S p c; q = p\<lparr>c_errno := new_errno S p c, events := Called c r # events p\<rparr>
      in if failed c r then seq_act (error_exit (call_name c) (call_error c r (c_errno q))) k q else k q)
     else (Inl Undef, p))" for p
    using assms(1,2) by (simp add: act_unfolds returns_code_def Let_def)
qed (simp_all add: assms log_chan_def)

lemma loud_call:
  assumes "returns_code c" and "nm = call_name c"
  shows "loud S report (bind_act (call_sys S c) (\<lambda>e. if e \<noteq> 0 then error_exit nm e else ret ()))"
  using loud_call_then [OF assms, of "ret ()", OF loud_basic(1)] by (simp add: seq_ret)

lemma loud_mmap:
  assumes "\<And>a. loud S report (k a)"
  shows "loud S report (bind_act (call_sys S (Mmap n)) (\<lambda>a.
    seq_act (if a = -1 then bind_act (get c_errno) (error_exit ''mmap'') else ret ()) (k a)))"
proof (rule loud_step)
  show "bind_act (call_sys S (Mmap n)) (\<lambda>a.
      seq_act (if a = -1 then bind_act (get c_errno) (error_exit ''mmap'') else ret ()) (k a)) p =
    (if True then (let r = answer S p (Mmap n); q = p\<lparr>c_errno := new_errno S p (Mmap n), events := Called (Mmap n) r # events p\<rparr>
      in if failed (Mmap n) r then seq_act (error_exit (call_name (Mmap n)) (call_error (Mmap n) r (c_errno q))) (k r) q else k r q)
     else (Inl Undef, p))" for p
    by (auto simp: act_unfolds Let_def split: prod.split sum.split)
qed (simp_all add: assms log_chan_def)

lemma loud_munmap:
  assumes "loud S report k"
  shows "loud S report (bind_act (call_sys S (Munmap a n)) (\<lambda>r.
    seq_act (if r \<noteq> 0 then bind_act (get c_errno) (error_exit ''munmap'') else ret ()) k))"
proof (rule loud_step)
  show "bind_act (call_sys S (Munmap a n)) (\<lambda>r.
      seq_act (if r \<noteq> 0 then bind_act (get c_errno) (error_exit ''munmap'') else ret ()) k) p =
    (if True then (let r = answer S p (Munmap a n); q = p\<lparr>c_errno := new_errno S p (Munmap a n), events := Called (Munmap a n) r # events p\<rparr>
      in if failed (Munmap a n) r then seq_act (error_exit (call_name (Munmap a n)) (call_error (Munmap a n) r (c_errno q))) k q else k q)
     else (Inl Undef, p))" for p
    by (simp add: act_unfolds Let_def)
qed (simp_all add: assms log_chan_def)

text \<open>\<open>malloc_check\<close> makes \<open>errno\<close> different from 0 before it reports.\<close>

lemma loud_malloc:
  "loud S report (bind_act (malloc S n) (\<lambda>a.
     seq_act (if a = 0 then
                seq_act (update (\<lambda>p. if c_errno p = 0 then p\<lparr>c_errno := ENOMEM\<rparr> else p)) (bind_act (get c_errno) (error_exit ''malloc''))
              else ret ())
    (ret a)))" (is "loud S report ?M")
proof (rule loud_step)
  show "?M p = (if True then (let r = answer S p (Malloc n);
        q = (let q = p\<lparr>c_errno := new_errno S p (Malloc n), events := Called (Malloc n) r # events p\<rparr>
             in if r \<noteq> 0 then q\<lparr>cells := (cells q)(r \<mapsto> Raw), nexts := (nexts q)(r := None)\<rparr>
                else if c_errno q = 0 then q\<lparr>c_errno := ENOMEM\<rparr> else q)
      in if failed (Malloc n) r then seq_act (error_exit (call_name (Malloc n)) (call_error (Malloc n) r (c_errno q))) (ret 0) q else ret r q)
     else (Inl Undef, p))" for p
    by (cases "answer S p (Malloc n) = 0") (simp_all add: malloc_def act_unfolds Let_def ENOMEM_def)
qed (simp_all add: loud_basic log_chan_def Let_def)

end

text \<open>The two versions of \<open>errexit\<close>.\<close>

definition log_report :: report where
  "log_report ch s = [Closed ch, Printed ch s]"

definition presi_report :: report where
  "presi_report ch s = [Printed Stderr s]"

lemmas error_unfolds = act_unfolds log_error_def checkerrlog_def fprintf_def fclose_def ends_def log_chan_def

interpretation std: reporter S log_report "errexit S" for S
  by unfold_locales (auto simp: errexit_def error_unfolds log_report_def split: option.splits)

interpretation presi: reporter S presi_report "presi_errexit S" for S
  by unfold_locales (auto simp: presi_errexit_def error_unfolds presi_report_def)

subsection \<open>Every function of the harness reports its failing calls\<close>

lemma loud_malloc_check [loud_intros]: "loud S log_report (malloc_check S n)"
  unfolding malloc_check_def by (rule loud_if, rule loud_basic, rule std.loud_malloc)

lemma loud_free [loud_intros]: "loud S log_report (free S a)"
proof -
  have "loud S log_report (call_sys S (Free a))"
    by (rule loudI) (auto simp: call_sys_def log_chan_def Let_def intro!: exI [of _ "[Called (Free a) r]" for r])
  then show ?thesis unfolding free_def by (intro loud_intros)
qed

lemmas loud_checked = std.loud_on_cell_then std.loud_on_cell std.loud_call_then std.loud_call std.loud_mmap std.loud_munmap
lemmas presi_loud_checked = presi.loud_call_then presi.loud_call presi.loud_mmap presi.loud_munmap

lemma loud_pm [loud_intros]:
  "loud S log_report (pm_create S)" "loud S log_report (pm_free S a)" "loud S log_report (pm_lock S a)" "loud S log_report (pm_unlock S a)"
  unfolding pm_create_def pm_free_def pm_lock_def pm_unlock_def check_def
  by ((rule loud_checked loud_intros | simp)+)[4]

lemma loud_pc_basic [loud_intros]:
  "loud S log_report (do_pc_create_m S)" "loud S log_report (pc_free_plain S a)" "loud S log_report (pc_wait S a)"
  "loud S log_report (pc_broadcast S a)" "loud S log_report (pc_signal S a)" "loud S log_report (pc_lock S a)"
  "loud S log_report (pc_unlock S a)" "loud S log_report (pc_create_cached S)" "loud S log_report (pc_free_cached S a)"
  unfolding do_pc_create_m_def pc_free_plain_def pc_wait_def pc_broadcast_def pc_signal_def pc_lock_def pc_unlock_def
    pc_create_cached_def pc_free_cached_def check_def
  by ((rule loud_checked loud_intros | simp)+)[9]

lemma loud_pc [loud_intros]: "loud S log_report (pc_create_m S)" "loud S log_report (pc_free_m S a)"
  unfolding pc_create_m_def pc_free_m_def by (intro loud_intros)+

lemma loud_monitors [loud_intros]:
  "loud S log_report (pb_create_m S n)" "loud S log_report (po_create_m S n)" "loud S log_report (op_create_m S)"
  "loud S log_report (pb_free S a)" "loud S log_report (po_free S a)" "loud S log_report (op_free_m S a)"
  "loud S log_report (cpus_create_m S m)" "loud S log_report (cpus_free S a)"
  unfolding pb_create_m_def po_create_m_def op_create_m_def pb_free_def po_free_def op_free_m_def cpus_create_m_def cpus_free_def
  by (intro loud_intros)+

lemma loud_mapcore_free [loud_intros]: "loud S log_report (mapcore_free S a)"
proof -
  have "loud S log_report (free_cores S core cs)" for core cs
    by (induction cs) (simp_all add: loud_intros)
  then show ?thesis unfolding mapcore_free_def by (intro loud_intros)
qed

lemma loud_threads [loud_intros]:
  "loud S log_report (launch S f a)" "loud S log_report (join S th)" "loud S log_report (do_launch_detached S f a)"
  "loud S log_report (mmap_exec S n)" "loud S log_report (munmap_exec S b n)"
  unfolding launch_def join_def do_launch_detached_def mmap_exec_def munmap_exec_def check_def
  by ((rule loud_checked loud_intros | simp)+)[5]

lemma loud_presi:
  "loud S presi_report (presi_launch S f a)" "loud S presi_report (presi_join S th)"
  "loud S presi_report (presi_mmap_exec S n)" "loud S presi_report (presi_munmap_exec S b n)"
  unfolding presi_launch_def presi_join_def presi_mmap_exec_def presi_munmap_exec_def presi_check_def
  by ((rule presi_loud_checked loud_intros | simp)+)[4]

end
