(* ===== verification/Resources.thy ===== *)
theory Resources
  imports Errors
begin

section \<open>Memory of the monitors (\<^verbatim>\<open>_utils.c\<close>)\<close>

text \<open>
  The monitors, buffers, condition variables and mutexes as their user creates and frees them: whatever calls fail, nothing is
  misused, nothing is lost and nothing is freed twice.  Memory is described by the multiset of its blocks, so that the
  specification of a function names the blocks it changes and leaves the others alone.
\<close>

subsection \<open>Programs that use monitors\<close>

text \<open>What a program heap_is: the pointers it got from the functions that create, and the sizes of its blocks of code.\<close>

datatype hdl = Hpm int | Hpc int | Hpb int | Hpo int | Hop int | Hcpus int | Hcode int nat

datatype cmd =
    New_pm | New_pc | New_pb int | New_po int | New_op | New_cpus nat | Map_code nat
  | Delete nat | Lock nat | Unlock nat | Wait nat | Broadcast nat | Signal nat
  | Launch int int | Join int | Launch_detached int int

fun delete_handle :: "sys \<Rightarrow> hdl \<Rightarrow> unit act" where
  "delete_handle S (Hpm a) = pm_free S a"
| "delete_handle S (Hpc a) = pc_free_m S a"
| "delete_handle S (Hpb a) = pb_free S a"
| "delete_handle S (Hpo a) = po_free S a"
| "delete_handle S (Hop a) = op_free_m S a"
| "delete_handle S (Hcpus a) = cpus_free S a"
| "delete_handle S (Hcode a n) = munmap_exec S a n"

fun lock_handle :: "sys \<Rightarrow> hdl \<Rightarrow> unit act" where
  "lock_handle S (Hpm a) = pm_lock S a"
| "lock_handle S (Hpc a) = pc_lock S a"
| "lock_handle S _ = ret ()"

fun unlock_handle :: "sys \<Rightarrow> hdl \<Rightarrow> unit act" where
  "unlock_handle S (Hpm a) = pm_unlock S a"
| "unlock_handle S (Hpc a) = pc_unlock S a"
| "unlock_handle S _ = ret ()"

fun on_pc :: "(int \<Rightarrow> unit act) \<Rightarrow> hdl \<Rightarrow> unit act" where
  "on_pc f (Hpc a) = f a"
| "on_pc f _ = ret ()"

definition remove_nth :: "nat \<Rightarrow> 'a list \<Rightarrow> 'a list" where
  "remove_nth i xs = take i xs @ drop (Suc i) xs"

definition make :: "('a \<Rightarrow> hdl) \<Rightarrow> 'a act \<Rightarrow> hdl list \<Rightarrow> hdl list act" where
  "make h m hs = bind_act m (\<lambda>a. ret (h a # hs))"

text \<open>A command on a handle the program does not have does nothing.\<close>

definition with_nth :: "(hdl \<Rightarrow> unit act) \<Rightarrow> nat \<Rightarrow> hdl list \<Rightarrow> hdl list \<Rightarrow> hdl list act" where
  "with_nth f i hs hs' = (if i < length hs then seq_act (f (hs ! i)) (ret hs') else ret hs)"

fun run_cmd :: "sys \<Rightarrow> cmd \<Rightarrow> hdl list \<Rightarrow> hdl list act" where
  "run_cmd S New_pm hs = make Hpm (pm_create S) hs"
| "run_cmd S New_pc hs = make Hpc (pc_create_m S) hs"
| "run_cmd S (New_pb n) hs = make Hpb (pb_create_m S n) hs"
| "run_cmd S (New_po n) hs = make Hpo (po_create_m S n) hs"
| "run_cmd S New_op hs = make Hop (op_create_m S) hs"
| "run_cmd S (New_cpus n) hs = make Hcpus (cpus_create_m S n) hs"
| "run_cmd S (Map_code n) hs = make (\<lambda>a. Hcode a n) (mmap_exec S n) hs"
| "run_cmd S (Delete i) hs = with_nth (delete_handle S) i hs (remove_nth i hs)"
| "run_cmd S (Lock i) hs = with_nth (lock_handle S) i hs hs"
| "run_cmd S (Unlock i) hs = with_nth (unlock_handle S) i hs hs"
| "run_cmd S (Wait i) hs = with_nth (on_pc (pc_wait S)) i hs hs"
| "run_cmd S (Broadcast i) hs = with_nth (on_pc (pc_broadcast S)) i hs hs"
| "run_cmd S (Signal i) hs = with_nth (on_pc (pc_signal S)) i hs hs"
| "run_cmd S (Launch f a) hs = seq_act (launch S f a) (ret hs)"
| "run_cmd S (Join th) hs = seq_act (join S th) (ret hs)"
| "run_cmd S (Launch_detached f a) hs = seq_act (do_launch_detached S f a) (ret hs)"

fun run_cmds :: "sys \<Rightarrow> cmd list \<Rightarrow> hdl list \<Rightarrow> hdl list act" where
  "run_cmds S [] hs = ret hs"
| "run_cmds S (c # cs) hs = bind_act (run_cmd S c hs) (run_cmds S cs)"

lemma loud_make [loud_intros]: "loud S report m \<Longrightarrow> loud S report (make h m hs)"
  unfolding make_def by (intro loud_intros)

lemma loud_with_nth [loud_intros]: "(\<And>h. loud S report (f h)) \<Longrightarrow> loud S report (with_nth f i hs hs')"
  unfolding with_nth_def by (intro loud_intros)

lemma loud_handles [loud_intros]:
  "loud S log_report (delete_handle S h)" "loud S log_report (lock_handle S h)" "loud S log_report (unlock_handle S h)"
  "(\<And>a. loud S log_report (f a)) \<Longrightarrow> loud S log_report (on_pc f h)"
  by (cases h; simp add: loud_intros)+

lemma loud_run_cmd [loud_intros]: "loud S log_report (run_cmd S c hs)"
  by (cases c) (simp_all add: loud_intros)

lemma loud_run_cmds: "loud S log_report (run_cmds S cs hs)"
  by (induction cs arbitrary: hs) (simp_all add: loud_intros)

subsection \<open>Blocks of memory\<close>

type_synonym blocks = "(int \<times> cell_t) multiset"

definition heap_is :: "(int \<Rightarrow> cell_t option) \<Rightarrow> blocks \<Rightarrow> bool" where
  "heap_is m M \<longleftrightarrow> (\<exists>cs. M = mset cs \<and> distinct (map fst cs) \<and> m = map_of cs)"

lemma heap_is_mset: "heap_is m (mset cs) \<longleftrightarrow> distinct (map fst cs) \<and> m = map_of cs"
proof
  assume "heap_is m (mset cs)"
  then obtain ds where ds: "mset cs = mset ds" "distinct (map fst ds)" "m = map_of ds" by (auto simp: heap_is_def)
  have "mset (map fst cs) = mset (map fst ds)" using ds(1) by (simp only: mset_map)
  then have dist: "distinct (map fst cs)" using ds(2) mset_eq_imp_distinct_iff by blast
  moreover have "set cs = set ds" using ds(1) by (rule mset_eq_setD)
  ultimately show "distinct (map fst cs) \<and> m = map_of cs"
    using ds(2,3) map_of_inject_set [of cs ds] by simp
qed (auto simp: heap_is_def)

lemma heap_is_add: "heap_is m (add_mset (a, c) M) \<longleftrightarrow> m a = Some c \<and> heap_is (m(a := None)) M"
proof -
  obtain cs where M: "M = mset cs" by (metis ex_mset)
  have "heap_is m (mset ((a, c) # cs)) \<longleftrightarrow> m a = Some c \<and> heap_is (m(a := None)) (mset cs)"
  proof
    assume "heap_is m (mset ((a, c) # cs))"
    then have "a \<notin> fst ` set cs" "distinct (map fst cs)" "m = map_of ((a, c) # cs)" unfolding heap_is_mset by simp_all
    moreover from this(1) have "map_of cs a = None" by (simp add: map_of_eq_None_iff)
    ultimately show "m a = Some c \<and> heap_is (m(a := None)) (mset cs)" by (simp add: heap_is_mset fun_upd_idem)
  next
    assume "m a = Some c \<and> heap_is (m(a := None)) (mset cs)"
    then have m: "m a = Some c" "distinct (map fst cs)" "m(a := None) = map_of cs" by (simp_all add: heap_is_mset)
    then have "map_of cs a = None" by (metis fun_upd_same)
    moreover have "m = (map_of cs)(a \<mapsto> c)" using m(1) by (simp flip: m(3) add: fun_upd_idem)
    ultimately show "heap_is m (mset ((a, c) # cs))" using m(2) unfolding heap_is_mset by (simp add: map_of_eq_None_iff)
  qed
  then show ?thesis by (simp add: M)
qed

lemma heap_is_empty: "heap_is m {#} \<longleftrightarrow> m = Map.empty"
  by (auto simp: heap_is_def)

lemma heap_is_alloc: "heap_is m M \<Longrightarrow> m a = None \<Longrightarrow> heap_is (m(a \<mapsto> c)) (add_mset (a, c) M)"
  by (simp add: heap_is_add fun_upd_idem)

lemma heap_is_write: "heap_is m (add_mset (a, c) M) \<Longrightarrow> heap_is (m(a \<mapsto> d)) (add_mset (a, d) M)"
  by (simp add: heap_is_add)

lemma heap_is_member: "heap_is m M \<Longrightarrow> (a, c) \<in># M \<Longrightarrow> m a = Some c"
  by (metis heap_is_add insert_DiffM)

subsection \<open>The list of free condition variables\<close>

text \<open>A condition variable is its address and those of its mutex and of its pthread condition.\<close>

type_synonym pc3 = "int \<times> int \<times> int"

fun pc_blocks :: "pc3 \<Rightarrow> blocks" where
  "pc_blocks (a, m, c) = {#(a, Pc m c), (m, Mutex), (c, Cond)#}"

fun chain :: "(int \<Rightarrow> int option) \<Rightarrow> int \<Rightarrow> pc3 list \<Rightarrow> bool" where
  "chain nx h [] \<longleftrightarrow> h = 0"
| "chain nx h (k # ks) \<longleftrightarrow> h = fst k \<and> (case nx h of None \<Rightarrow> False | Some y \<Rightarrow> chain nx y ks)"

lemma chain_write: "a \<notin> fst ` set ks \<Longrightarrow> chain (nx(a := v)) h ks \<longleftrightarrow> chain nx h ks"
  by (induction ks arbitrary: h) (auto split: option.split)

text \<open>The blocks that belong to nobody: the static mutex and the condition variables of the list.\<close>

definition cache_blocks :: "sys \<Rightarrow> pc3 list \<Rightarrow> blocks" where
  "cache_blocks S ks = (if with_cache S then {#(list_mutex S, Mutex)#} else {#}) + sum_list (map pc_blocks ks)"

text \<open>The state of the process when its user owns \<open>M\<close> and the condition variables \<open>ks\<close> are free.\<close>

definition st :: "sys \<Rightarrow> pc3 list \<Rightarrow> blocks \<Rightarrow> proc \<Rightarrow> bool" where
  "st S ks M p \<longleftrightarrow>
     heap_is (cells p) (M + cache_blocks S ks) \<and> cells p 0 = None \<and> chain (nexts p) (pc_head p) ks \<and>
     (\<not> with_cache S \<longrightarrow> ks = []) \<and> Closed (log_chan p) \<notin> set (events p)"

text \<open>The documented behaviour of the allocators: a new block is not in use.\<close>

definition sys_ok :: "sys \<Rightarrow> bool" where
  "sys_ok S \<longleftrightarrow>
     (\<forall>p n. answer S p (Malloc n) = 0 \<or> cells p (answer S p (Malloc n)) = None) \<and>
     (\<forall>p n. answer S p (Mmap n) = -1 \<or> answer S p (Mmap n) \<noteq> 0 \<and> cells p (answer S p (Mmap n)) = None) \<and>
     (\<forall>t. 0 < size_of S t)"

subsection \<open>Specifications\<close>

text \<open>From a state in \<open>P\<close> an action does nothing undefined, and if it returns it does in \<open>Q\<close>.\<close>

definition spec :: "(proc \<Rightarrow> bool) \<Rightarrow> 'a act \<Rightarrow> ('a \<Rightarrow> proc \<Rightarrow> bool) \<Rightarrow> bool" where
  "spec P m Q \<longleftrightarrow> (\<forall>p. P p \<longrightarrow> (case m p of (Inl e, q) \<Rightarrow> e \<noteq> Undef | (Inr x, q) \<Rightarrow> Q x q))"

lemma spec_bind: "spec P m Q \<Longrightarrow> (\<And>x. spec (Q x) (f x) R) \<Longrightarrow> spec P (bind_act m f) R"
  unfolding spec_def bind_act_def by (fastforce split: prod.splits sum.splits)

lemma spec_seq: "spec P m (\<lambda>_. Q) \<Longrightarrow> spec Q n R \<Longrightarrow> spec P (seq_act m n) R"
  unfolding seq_act_def by (rule spec_bind)

lemma spec_conseq: "spec P m Q \<Longrightarrow> (\<And>p. P' p \<Longrightarrow> P p) \<Longrightarrow> (\<And>x p. Q x p \<Longrightarrow> Q' x p) \<Longrightarrow> spec P' m Q'"
  unfolding spec_def by (fastforce split: prod.splits sum.splits)

lemma spec_post: "spec P m Q \<Longrightarrow> (\<And>x p. Q x p \<Longrightarrow> Q' x p) \<Longrightarrow> spec P m Q'"
  by (rule spec_conseq)

lemma spec_ret: "(\<And>p. P p \<Longrightarrow> Q x p) \<Longrightarrow> spec P (ret x) Q"
  by (simp add: spec_def ret_def)

lemma spec_pure: "(\<phi> \<Longrightarrow> spec P m Q) \<Longrightarrow> spec (\<lambda>p. \<phi> \<and> P p) m Q"
  by (auto simp: spec_def)

lemma spec_ex: "(\<And>x. spec (P x) m Q) \<Longrightarrow> spec (\<lambda>p. \<exists>x. P x p) m Q"
  by (fastforce simp: spec_def)

lemma st_member: "st S ks M p \<Longrightarrow> (a, c) \<in># M + cache_blocks S ks \<Longrightarrow> cells p a = Some c"
  unfolding st_def by (blast intro: heap_is_member)

lemma st_chain_member: "st S ks M p \<Longrightarrow> a \<in> fst ` set ks \<Longrightarrow> cells p a \<noteq> None"
proof -
  assume st: "st S ks M p" and "a \<in> fst ` set ks"
  then obtain m c where k: "(a, m, c) \<in> set ks" by force
  have "(a, Pc m c) \<in># sum_list (map pc_blocks ks)" using k by (induction ks) auto
  then show "cells p a \<noteq> None" using st_member [OF st, of a "Pc m c"] by (simp add: cache_blocks_def)
qed

lemma spec_errexit: "spec (st S ks M) (errexit S nm e) Q"
  by (auto simp: spec_def st_def errexit_def error_unfolds split: option.splits)

lemma spec_check: "spec (st S ks M) (check S nm e) (\<lambda>_ p. e = 0 \<and> st S ks M p)"
proof (cases "e = 0")
  case True
  then show ?thesis by (simp add: check_def spec_ret)
qed (simp add: check_def spec_errexit)

lemma spec_check_then: "spec (st S ks M) k Q \<Longrightarrow> spec (st S ks M) (seq_act (check S nm e) k) Q"
  by (rule spec_seq [OF spec_post [OF spec_check]]) auto

lemma st_event: "st S ks M p \<Longrightarrow> st S ks M (p\<lparr>c_errno := e, events := Called c r # events p\<rparr>)"
  by (simp add: st_def log_chan_def)

lemma st_alloc:
  "st S ks M p \<Longrightarrow> cells p a = None \<Longrightarrow> a \<noteq> 0 \<Longrightarrow>
   st S ks (add_mset (a, c) M) (p\<lparr>cells := (cells p)(a \<mapsto> c), nexts := (nexts p)(a := None)\<rparr>)"
  using st_chain_member [of S ks M p a] chain_write [of a ks "nexts p" None "pc_head p"]
  by (auto simp: st_def heap_is_alloc log_chan_def)

lemma st_set: "st S ks (add_mset (a, c) M) p \<Longrightarrow> st S ks (add_mset (a, d) M) (p\<lparr>cells := (cells p)(a \<mapsto> d)\<rparr>)"
  by (auto simp: st_def heap_is_add log_chan_def)

lemma st_drop: "st S ks (add_mset (a, c) M) p \<Longrightarrow> st S ks M (p\<lparr>cells := (cells p)(a := None)\<rparr>)"
  by (auto simp: st_def heap_is_add log_chan_def)

lemma st_read: "st S ks (add_mset (a, c) M) p \<Longrightarrow> cells p a = Some c"
  by (erule st_member) simp

lemma st_nonzero: "st S ks (add_mset (a, c) M) p \<Longrightarrow> a \<noteq> 0"
  using st_read [of S ks a c M p] by (auto simp: st_def)

subsection \<open>Memory and calls\<close>

lemma spec_malloc:
  assumes "sys_ok S"
  shows "spec (st S ks M) (malloc S n) (\<lambda>a p. if a = 0 then st S ks M p else st S ks (add_mset (a, Raw) M) p)"
proof -
  have "case malloc S n p of (Inl e, q) \<Rightarrow> e \<noteq> Undef | (Inr a, q) \<Rightarrow> if a = 0 then st S ks M q else st S ks (add_mset (a, Raw) M) q"
    if st: "st S ks M p" for p
  proof -
    let ?a = "answer S p (Malloc n)" and ?e = "new_errno S p (Malloc n)"
    have fresh: "?a \<noteq> 0 \<Longrightarrow> cells p ?a = None" using assms by (auto simp: sys_ok_def)
    note st' = st_event [OF st, of "Malloc n" ?a ?e]
    show ?thesis using st' st_alloc [OF st', of ?a Raw] fresh
      by (cases "?a = 0") (simp_all add: malloc_def act_unfolds)
  qed
  then show ?thesis by (simp add: spec_def)
qed

lemma spec_malloc_check:
  assumes "sys_ok S" and "0 < n"
  shows "spec (st S ks M) (malloc_check S n) (\<lambda>a. st S ks (add_mset (a, Raw) M))"
proof -
  let ?Q = "\<lambda>a p. if a = 0 then st S ks M p else st S ks (add_mset (a, Raw) M) p"
  let ?h = "\<lambda>a. if a = 0 then seq_act (update (\<lambda>p. if c_errno p = 0 then p\<lparr>c_errno := ENOMEM\<rparr> else p))
      (bind_act (get c_errno) (errexit S ''malloc'')) else ret ()"
  have "spec (st S ks M) (update (\<lambda>p. if c_errno p = 0 then p\<lparr>c_errno := ENOMEM\<rparr> else p)) (\<lambda>_. st S ks M)"
    by (simp add: spec_def update_def st_def log_chan_def)
  moreover have "spec (st S ks M) (bind_act (get c_errno) (errexit S ''malloc'')) R" for R
    by (rule spec_bind [where Q = "\<lambda>_. st S ks M"], simp add: spec_def get_def, rule spec_errexit)
  ultimately have "spec (?Q a) (?h a) (\<lambda>_. st S ks (add_mset (a, Raw) M))" for a
    by (auto intro: spec_seq spec_ret)
  then show ?thesis
    unfolding malloc_check_def using assms(2)
    by (auto intro!: spec_bind [OF spec_malloc [OF assms(1)]] intro: spec_seq spec_ret)
qed

lemma spec_free:
  assumes "c \<notin> {Mutex, Cond}"
  shows "spec (st S ks (add_mset (a, c) M)) (free S a) (\<lambda>_. st S ks M)"
proof -
  have "case free S a p of (Inl e, q) \<Rightarrow> e \<noteq> Undef | (Inr _, q) \<Rightarrow> st S ks M q" if "st S ks (add_mset (a, c) M) p" for p
    using st_drop [OF st_event [OF that, of "Free a" "answer S p (Free a)" "new_errno S p (Free a)"]]
      st_read [OF that] st_nonzero [OF that] assms by (simp add: free_def act_unfolds)
  then show ?thesis by (simp add: spec_def)
qed

lemma spec_on_cell:
  "spec (st S ks (add_mset (a, old) M)) (on_cell S c a old new) (\<lambda>r. st S ks (add_mset (a, if r = 0 then new else old) M))"
proof -
  have "case on_cell S c a old new p of (Inl e, q) \<Rightarrow> e \<noteq> Undef
      | (Inr r, q) \<Rightarrow> st S ks (add_mset (a, if r = 0 then new else old) M) q" if st: "st S ks (add_mset (a, old) M) p" for p
  proof -
    note st' = st_event [OF st, of c "answer S p c" "new_errno S p c"]
    show ?thesis using st' st_set [OF st', of new] st_read [OF st]
      by (cases "answer S p c = 0") (simp_all add: on_cell_def act_unfolds)
  qed
  then show ?thesis by (simp add: spec_def)
qed

lemma spec_on_cell_then:
  assumes "spec (st S ks (add_mset (a, new) M)) k Q"
  shows "spec (st S ks (add_mset (a, old) M)) (bind_act (on_cell S c a old new) (\<lambda>e. seq_act (check S nm e) k)) Q"
proof (rule spec_bind [OF spec_on_cell])
  fix e
  show "spec (st S ks (add_mset (a, if e = 0 then new else old) M)) (seq_act (check S nm e) k) Q"
    using assms by (cases "e = 0") (simp_all add: spec_check_then, simp add: check_def spec_seq [OF spec_errexit])
qed

text \<open>A call on a mutex or a condition variable that it leaves as it is.\<close>

lemma spec_use:
  assumes "(a, d) \<in># M + cache_blocks S ks"
  shows "spec (st S ks M) (bind_act (on_cell S c a d d) (check S nm)) (\<lambda>_. st S ks M)"
proof (rule spec_bind [where Q = "\<lambda>_. st S ks M"])
  have "case on_cell S c a d d p of (Inl e, q) \<Rightarrow> e \<noteq> Undef | (Inr r, q) \<Rightarrow> st S ks M q" if st: "st S ks M p" for p
  proof -
    have "(cells p)(a \<mapsto> d) = cells p" using st_member [OF st assms] by (simp add: fun_upd_idem)
    then show ?thesis using st_event [OF st, of c "answer S p c" "new_errno S p c"] st_member [OF st assms]
      by (cases "answer S p c = 0") (simp_all add: on_cell_def act_unfolds)
  qed
  then show "spec (st S ks M) (on_cell S c a d d) (\<lambda>_. st S ks M)" by (simp add: spec_def)
qed (rule spec_post [OF spec_check], simp)

lemma spec_call: "spec (st S ks M) (call_sys S c) (\<lambda>_. st S ks M)"
  by (simp add: spec_def call_sys_def Let_def st_event)

lemma spec_set_cell: "spec (st S ks (add_mset (a, c) M)) (set_cell a (Some d)) (\<lambda>_. st S ks (add_mset (a, d) M))"
  by (simp add: spec_def set_cell_def update_def st_set)

lemma spec_get_pc:
  assumes "(a, Pc m c) \<in># M + cache_blocks S ks" and "spec (st S ks M) (f (m, c)) Q"
  shows "spec (st S ks M) (bind_act (get_pc a) f) Q"
  using assms st_member [of S ks M _ a "Pc m c"] by (auto simp: spec_def get_pc_def bind_act_def)

subsection \<open>Mutexes and condition variables\<close>

lemma spec_mset: "spec (st S ks M) m Q \<Longrightarrow> M = N \<Longrightarrow> spec (st S ks N) m Q"
  by simp

lemma size_pos: "sys_ok S \<Longrightarrow> 0 < size_of S t"
  by (simp add: sys_ok_def)

lemma spec_pm_create: "sys_ok S \<Longrightarrow> spec (st S ks M) (pm_create S) (\<lambda>a. st S ks (add_mset (a, Mutex) M))"
  unfolding pm_create_def
  by (rule spec_bind [OF spec_malloc_check], assumption, erule size_pos, rule spec_on_cell_then, rule spec_ret)

lemma spec_pm_free: "spec (st S ks (add_mset (a, Mutex) M)) (pm_free S a) (\<lambda>_. st S ks M)"
  unfolding pm_free_def by (rule spec_on_cell_then, rule spec_free) simp

lemma spec_do_pc_create:
  assumes "sys_ok S"
  shows "spec (st S ks M) (do_pc_create_m S) (\<lambda>a p. \<exists>m c. st S ks (pc_blocks (a, m, c) + M) p)"
  unfolding do_pc_create_m_def
proof (rule spec_bind [OF spec_malloc_check [OF assms size_pos [OF assms]]],
    rule spec_bind [OF spec_pm_create [OF assms]], rule spec_bind [OF spec_malloc_check [OF assms size_pos [OF assms]]])
  fix a m c
  let ?N = "add_mset (c, Raw) (add_mset (m, Mutex) M)"
  have "spec (st S ks (add_mset (c, Raw) (add_mset (m, Mutex) (add_mset (a, Pc m c) M))))
      (bind_act (on_cell S (CondInit c) c Raw Cond) (\<lambda>e. seq_act (check S ''cond_init'' e) (ret a)))
      (\<lambda>a p. \<exists>m c. st S ks (pc_blocks (a, m, c) + M) p)"
    by (rule spec_on_cell_then, rule spec_ret, rule exI [of _ m], rule exI [of _ c]) (simp add: add_mset_commute)
  then have rest: "spec (st S ks (add_mset (a, Pc m c) ?N))
      (bind_act (on_cell S (CondInit c) c Raw Cond) (\<lambda>e. seq_act (check S ''cond_init'' e) (ret a)))
      (\<lambda>a p. \<exists>m c. st S ks (pc_blocks (a, m, c) + M) p)"
    by (rule spec_mset) (simp add: add_mset_commute)
  show "spec (st S ks (add_mset (c, Raw) (add_mset (m, Mutex) (add_mset (a, Raw) M))))
      (seq_act (set_cell a (Some (Pc m c)))
        (bind_act (on_cell S (CondInit c) c Raw Cond) (\<lambda>e. seq_act (check S ''cond_init'' e) (ret a))))
      (\<lambda>a p. \<exists>m c. st S ks (pc_blocks (a, m, c) + M) p)"
    by (rule spec_mset [OF spec_seq [OF spec_set_cell rest]]) (simp add: add_mset_commute)
qed

lemma spec_pc_free_plain: "spec (st S ks (pc_blocks (a, m, c) + M)) (pc_free_plain S a) (\<lambda>_. st S ks M)"
  unfolding pc_free_plain_def
proof (rule spec_get_pc [of _ m c])
  have "spec (st S ks (add_mset (m, Mutex) (add_mset (c, Cond) (add_mset (a, Pc m c) M))))
      (seq_act (pm_free S m) (bind_act (on_cell S (CondDestroy c) c Cond Raw) (\<lambda>e.
        seq_act (check S ''cond_destroy'' e) (seq_act (free S c) (free S a))))) (\<lambda>_. st S ks M)"
    by (rule spec_seq [OF spec_pm_free], rule spec_on_cell_then, rule spec_seq [OF spec_free spec_free]) simp_all
  then show "spec (st S ks (pc_blocks (a, m, c) + M))
      (case (m, c) of (m, c) \<Rightarrow> seq_act (pm_free S m) (bind_act (on_cell S (CondDestroy c) c Cond Raw) (\<lambda>e.
        seq_act (check S ''cond_destroy'' e) (seq_act (free S c) (free S a))))) (\<lambda>_. st S ks M)"
    by (simp add: add_mset_commute)
qed simp

text \<open>Taking a condition variable from the list and putting one back.\<close>

definition head_of :: "pc3 list \<Rightarrow> int" where
  "head_of ks = (case ks of [] \<Rightarrow> 0 | k # _ \<Rightarrow> fst k)"

lemma chain_head: "chain nx h ks \<Longrightarrow> h = head_of ks"
  by (cases ks) (simp_all add: head_of_def)

lemma cache_blocks_Cons: "cache_blocks S (k # ks) = pc_blocks k + cache_blocks S ks"
  by (simp add: cache_blocks_def)

lemma fresh_in_chain:
  assumes "heap_is m (add_mset (a, d) (M + cache_blocks S ks))"
  shows "a \<notin> fst ` set ks"
proof
  assume "a \<in> fst ` set ks"
  then obtain b c where k: "(a, b, c) \<in> set ks" by force
  have "(a, Pc b c) \<in># sum_list (map pc_blocks ks)" using k by (induction ks) auto
  then have "(m(a := None)) a = Some (Pc b c)"
    using assms heap_is_member [of "m(a := None)" "M + cache_blocks S ks" a "Pc b c"] by (simp add: heap_is_add cache_blocks_def)
  then show False by simp
qed

lemma st_pop:
  assumes "st S ((a, m, c) # ks) M p"
  shows "\<exists>x. nexts p a = Some x \<and> pc_head p = a \<and> a \<noteq> 0 \<and>
    st S ks (pc_blocks (a, m, c) + M) (p\<lparr>pc_head := x, nexts := (nexts p)(a \<mapsto> 0)\<rparr>)"
proof -
  have heap: "heap_is (cells p) (add_mset (a, Pc m c) (add_mset (m, Mutex) (add_mset (c, Cond) M) + cache_blocks S ks))"
    using assms by (simp add: st_def cache_blocks_Cons add_mset_commute ac_simps)
  obtain x where x: "nexts p a = Some x" "pc_head p = a" "chain (nexts p) x ks"
    using assms by (auto simp: st_def split: option.splits)
  have "a \<noteq> 0" using heap assms by (auto simp: heap_is_add st_def)
  then show ?thesis
    using assms heap x chain_write [OF fresh_in_chain [OF heap], of "nexts p" "Some 0" x]
    by (simp add: st_def log_chan_def add_mset_commute)
qed

lemma st_push:
  assumes "st S ks (pc_blocks (a, m, c) + M) p" and "with_cache S"
  shows "st S ((a, m, c) # ks) M (p\<lparr>nexts := (nexts p)(a \<mapsto> pc_head p), pc_head := a\<rparr>)"
proof -
  have heap: "heap_is (cells p) (add_mset (a, Pc m c) (add_mset (m, Mutex) (add_mset (c, Cond) M) + cache_blocks S ks))"
    using assms by (simp add: st_def add_mset_commute ac_simps)
  then show ?thesis
    using assms chain_write [OF fresh_in_chain [OF heap], of "nexts p" "Some (pc_head p)" "pc_head p"]
    by (simp add: st_def log_chan_def cache_blocks_Cons add_mset_commute ac_simps)
qed

lemma spec_list_lock:
  "with_cache S \<Longrightarrow> spec (st S ks M) (pm_lock S (list_mutex S)) (\<lambda>_. st S ks M)"
  "with_cache S \<Longrightarrow> spec (st S ks M) (pm_unlock S (list_mutex S)) (\<lambda>_. st S ks M)"
  unfolding pm_lock_def pm_unlock_def by (rule spec_use; simp add: cache_blocks_def)+

lemma spec_get_head:
  assumes "spec (st S ks M) (f (head_of ks)) Q"
  shows "spec (st S ks M) (bind_act (get pc_head) f) Q"
  using assms chain_head by (fastforce simp: spec_def get_def bind_act_def st_def)

lemma spec_pop:
  assumes "spec (st S ks (pc_blocks (a, m, c) + M)) n Q"
  shows "spec (st S ((a, m, c) # ks) M)
    (seq_act (get_pc a) (bind_act (get_next a) (\<lambda>x. seq_act (set_pc_list x) (seq_act (set_next a 0) n)))) Q"
proof -
  have "cells p a = Some (Pc m c)" if "st S ((a, m, c) # ks) M p" for p
    using st_member [OF that, of a "Pc m c"] by (simp add: cache_blocks_Cons)
  then show ?thesis
    using assms st_pop [of S a m c ks M]
    by (fastforce simp: spec_def act_unfolds get_pc_def get_next_def set_pc_list_def set_next_def)
qed

lemma spec_pc_create_cached:
  assumes S: "sys_ok S" and cache: "with_cache S"
  shows "spec (st S ks M) (pc_create_cached S) (\<lambda>a p. (ks \<noteq> [] \<longrightarrow> a = head_of ks) \<and> (\<exists>m c. st S (tl ks) (pc_blocks (a, m, c) + M) p))"
  unfolding pc_create_cached_def
proof (rule spec_seq [OF spec_list_lock(1) [OF cache]], rule spec_get_head)
  let ?Q = "\<lambda>a p. (ks \<noteq> [] \<longrightarrow> a = head_of ks) \<and> (\<exists>m c. st S (tl ks) (pc_blocks (a, m, c) + M) p)"
  show "spec (st S ks M) (if head_of ks = 0 then seq_act (pm_unlock S (list_mutex S)) (do_pc_create_m S)
      else seq_act (get_pc (head_of ks)) (bind_act (get_next (head_of ks)) (\<lambda>x. seq_act (set_pc_list x)
        (seq_act (set_next (head_of ks) 0) (seq_act (pm_unlock S (list_mutex S)) (ret (head_of ks))))))) ?Q"
  proof (cases ks)
    case Nil
    then show ?thesis
      using spec_seq [OF spec_list_lock(2) [OF cache] spec_do_pc_create [OF S]] by (simp add: head_of_def)
  next
    case (Cons k ks')
    obtain a m c where k: "k = (a, m, c)" by (cases k)
    have "spec (st S ks M) (seq_act (get_pc a) (bind_act (get_next a) (\<lambda>x. seq_act (set_pc_list x)
        (seq_act (set_next a 0) (seq_act (pm_unlock S (list_mutex S)) (ret a)))))) ?Q"
      unfolding Cons k
      by (rule spec_pop, rule spec_seq [OF spec_list_lock(2) [OF cache]], rule spec_ret) (auto simp: head_of_def)
    moreover have "\<not> st S ks M p" if "a = 0" for p
      using st_pop [of S a m c ks' M p] that Cons k by auto
    ultimately show ?thesis by (cases "a = 0") (simp_all add: Cons k head_of_def spec_def)
  qed
qed

lemma spec_pc_create:
  assumes "sys_ok S"
  shows "spec (st S ks M) (pc_create_m S) (\<lambda>a p. (ks \<noteq> [] \<longrightarrow> a = head_of ks) \<and> (\<exists>m c. st S (tl ks) (pc_blocks (a, m, c) + M) p))"
proof (cases "with_cache S")
  case False
  show ?thesis
  proof (cases ks)
    case Nil
    then show ?thesis using False spec_do_pc_create [OF assms] by (simp add: pc_create_m_def)
  qed (simp add: spec_def st_def False)
qed (simp add: pc_create_m_def spec_pc_create_cached assms del: pc_blocks.simps)

lemma spec_pc_free:
  "spec (st S ks (pc_blocks (a, m, c) + M)) (pc_free_m S a) (\<lambda>_. st S (if with_cache S then (a, m, c) # ks else ks) M)"
proof (cases "with_cache S")
  case True
  have push: "spec (st S ks (pc_blocks (a, m, c) + M)) (seq_act (get_pc a) (bind_act (get pc_head) (\<lambda>x.
      seq_act (set_next a x) (seq_act (set_pc_list a) n)))) Q"
    if "spec (st S ((a, m, c) # ks) M) n Q" for n Q
  proof -
    have "cells p a = Some (Pc m c)" if "st S ks (pc_blocks (a, m, c) + M) p" for p
      using st_member [OF that, of a "Pc m c"] by simp
    then show ?thesis
      using that st_push [OF _ True, of ks a m c M]
      by (fastforce simp: spec_def act_unfolds get_pc_def set_pc_list_def set_next_def)
  qed
  show ?thesis using True
    by (simp add: pc_free_m_def pc_free_cached_def spec_seq [OF spec_list_lock(1)] push spec_list_lock(2) del: pc_blocks.simps)
next
  case False
  then show ?thesis using spec_pc_free_plain by (simp add: pc_free_m_def del: pc_blocks.simps)
qed

subsection \<open>Monitors, buffers and lists of processors\<close>

text \<open>What \<open>pb_create\<close>, \<open>po_create\<close> and \<open>op_create\<close> have in common.\<close>

lemma spec_with_pc:
  assumes "sys_ok S"
  shows "spec (st S ks M) (bind_act (malloc_check S (size_of S t)) (\<lambda>p. bind_act (pc_create_m S) (\<lambda>k.
      seq_act (set_cell p (Some (C k))) (ret p))))
    (\<lambda>a p. \<exists>k m c. st S (tl ks) (add_mset (a, C k) (pc_blocks (k, m, c) + M)) p)"
proof (rule spec_bind [OF spec_malloc_check [OF assms size_pos [OF assms]]], rule spec_bind [OF spec_pc_create [OF assms]],
    rule spec_pure [OF spec_ex, OF spec_ex])
  fix a k m c
  show "spec (st S (tl ks) (pc_blocks (k, m, c) + add_mset (a, Raw) M)) (seq_act (set_cell a (Some (C k))) (ret a))
      (\<lambda>a p. \<exists>k m c. st S (tl ks) (add_mset (a, C k) (pc_blocks (k, m, c) + M)) p)"
    by (rule spec_mset [OF spec_seq [OF spec_set_cell spec_ret]]) auto
qed

lemma spec_get_cond:
  assumes "d \<in> {Pb k b, Po k o', Op k v}" and "spec (st S ks (add_mset (a, d) M)) (f k) Q"
  shows "spec (st S ks (add_mset (a, d) M)) (bind_act (get_cond a) f) Q"
  using assms st_read [of S ks a d M] by (auto simp: spec_def get_cond_def bind_act_def)

lemma spec_without_pc:
  assumes "d \<in> {Pb k b, Po k o', Op k v}"
  shows "spec (st S ks (add_mset (a, d) (pc_blocks (k, m, c) + M))) (bind_act (get_cond a) (\<lambda>k. seq_act (pc_free_m S k) (free S a)))
    (\<lambda>_. st S (if with_cache S then (k, m, c) # ks else ks) M)"
proof (rule spec_get_cond [OF assms])
  have "spec (st S ks (pc_blocks (k, m, c) + add_mset (a, d) M)) (seq_act (pc_free_m S k) (free S a))
      (\<lambda>_. st S (if with_cache S then (k, m, c) # ks else ks) M)"
    using assms by (intro spec_seq [OF spec_pc_free] spec_free) auto
  then show "spec (st S ks (add_mset (a, d) (pc_blocks (k, m, c) + M))) (seq_act (pc_free_m S k) (free S a))
      (\<lambda>_. st S (if with_cache S then (k, m, c) # ks else ks) M)" by simp
qed

lemma spec_cpus_create:
  assumes "sys_ok S"
  shows "spec (st S ks M) (cpus_create_m S n)
    (\<lambda>a p. \<exists>c. st S ks (add_mset (a, Cpus n c) ((if n = 0 then {#} else {#(c, Raw)#}) + M)) p \<and> (n = 0 \<longrightarrow> c = 0))"
  unfolding cpus_create_m_def
proof (rule spec_bind [OF spec_malloc_check [OF assms size_pos [OF assms]]])
  fix a
  let ?B = "\<lambda>c :: int. if n = 0 then {#} else {#(c, Raw)#}"
  have "spec (st S ks (add_mset (a, Raw) M)) (malloc_check S (size_of S T_int * n))
      (\<lambda>c p. (n = 0 \<longrightarrow> c = 0) \<and> st S ks (?B c + add_mset (a, Raw) M) p)"
    using spec_malloc_check [OF assms, of "size_of S T_int * n" ks "add_mset (a, Raw) M"] size_pos [OF assms, of T_int]
    by (cases "n = 0") (simp add: malloc_check_def spec_ret, simp add: add_mset_commute)
  then show "spec (st S ks (add_mset (a, Raw) M)) (bind_act (malloc_check S (size_of S T_int * n)) (\<lambda>c.
      seq_act (set_cell a (Some (Cpus n c))) (ret a))) (\<lambda>a p. \<exists>c. st S ks (add_mset (a, Cpus n c) (?B c + M)) p \<and> (n = 0 \<longrightarrow> c = 0))"
  proof (rule spec_bind, intro spec_pure)
    fix c :: int assume c: "n = 0 \<longrightarrow> c = 0"
    show "spec (st S ks (?B c + add_mset (a, Raw) M)) (seq_act (set_cell a (Some (Cpus n c))) (ret a))
        (\<lambda>a p. \<exists>c. st S ks (add_mset (a, Cpus n c) (?B c + M)) p \<and> (n = 0 \<longrightarrow> c = 0))"
      using c by (intro spec_mset [OF spec_seq [OF spec_set_cell spec_ret]]) auto
  qed
qed

lemma spec_cpus_free:
  assumes "n = 0 \<longrightarrow> c = 0"
  shows "spec (st S ks (add_mset (a, Cpus n c) ((if n = 0 then {#} else {#(c, Raw)#}) + M))) (cpus_free S a) (\<lambda>_. st S ks M)"
proof -
  let ?N = "add_mset (a, Cpus n c) ((if n = 0 then {#} else {#(c, Raw)#}) + M)"
  have "spec (st S ks ?N) (get_cpus a) (\<lambda>r p. r = (n, c) \<and> st S ks ?N p)"
    using st_read [of S ks a "Cpus n c"] by (simp add: spec_def get_cpus_def)
  moreover have "spec (st S ks ?N) (free S c) (\<lambda>_. st S ks (add_mset (a, Cpus n c) M))"
    using assms spec_free [of Raw S ks c "add_mset (a, Cpus n c) M"]
    by (cases "n = 0") (simp_all add: free_def spec_ret add_mset_commute)
  ultimately show ?thesis
    unfolding cpus_free_def by (auto intro!: spec_bind spec_pure spec_seq [OF _ spec_free] simp del: add_mset_commute)
qed

subsection \<open>What a program owns\<close>

text \<open>An object with the addresses of all its blocks.\<close>

datatype obj =
    Opm int | Opc pc3 | Opb int int pc3 | Opo int int pc3 | Oop int pc3 | Ocpus int nat int | Ocode int nat

fun blocks_of :: "obj \<Rightarrow> blocks" where
  "blocks_of (Opm a) = {#(a, Mutex)#}"
| "blocks_of (Opc k) = pc_blocks k"
| "blocks_of (Opb a n k) = add_mset (a, Pb (fst k) (pb_create n)) (pc_blocks k)"
| "blocks_of (Opo a n k) = add_mset (a, Po (fst k) (po_create n)) (pc_blocks k)"
| "blocks_of (Oop a k) = add_mset (a, Op (fst k) op_create) (pc_blocks k)"
| "blocks_of (Ocpus a n c) = add_mset (a, Cpus n c) (if n = 0 then {#} else {#(c, Raw)#})"
| "blocks_of (Ocode a n) = {#(a, Code n)#}"

fun handle_of :: "obj \<Rightarrow> hdl" where
  "handle_of (Opm a) = Hpm a"
| "handle_of (Opc k) = Hpc (fst k)"
| "handle_of (Opb a n k) = Hpb a"
| "handle_of (Opo a n k) = Hpo a"
| "handle_of (Oop a k) = Hop a"
| "handle_of (Ocpus a n c) = Hcpus a"
| "handle_of (Ocode a n) = Hcode a n"

fun obj_ok :: "obj \<Rightarrow> bool" where
  "obj_ok (Ocpus a n c) \<longleftrightarrow> (n = 0 \<longrightarrow> c = 0)"
| "obj_ok _ \<longleftrightarrow> True"

definition all_blocks :: "obj list \<Rightarrow> blocks" where
  "all_blocks os = sum_list (map blocks_of os)"

text \<open>The handles are those of objects with exactly these blocks.\<close>

definition owns :: "sys \<Rightarrow> hdl list \<Rightarrow> proc \<Rightarrow> bool" where
  "owns S hs p \<longleftrightarrow> (\<exists>os ks. hs = map handle_of os \<and> list_all obj_ok os \<and> st S ks (all_blocks os) p)"

lemma all_blocks_Cons: "all_blocks (b # os) = blocks_of b + all_blocks os"
  by (simp add: all_blocks_def)

lemma all_blocks_remove: "i < length os \<Longrightarrow> all_blocks os = blocks_of (os ! i) + all_blocks (remove_nth i os)"
  by (subst id_take_nth_drop, assumption) (simp add: all_blocks_def remove_nth_def)

lemma remove_nth_map: "remove_nth i (map f xs) = map f (remove_nth i xs)"
  by (simp add: remove_nth_def take_map drop_map)

lemma list_all_remove: "list_all P xs \<Longrightarrow> list_all P (remove_nth i xs)"
  by (auto simp: list_all_iff remove_nth_def dest: in_set_takeD in_set_dropD)

lemma spec_owns:
  assumes "\<And>os ks. hs = map handle_of os \<Longrightarrow> list_all obj_ok os \<Longrightarrow> spec (st S ks (all_blocks os)) m Q"
  shows "spec (owns S hs) m Q"
proof -
  have "case m p of (Inl e, q) \<Rightarrow> e \<noteq> Undef | (Inr x, q) \<Rightarrow> Q x q" if own: "owns S hs p" for p
  proof -
    obtain os ks where "hs = map handle_of os" "list_all obj_ok os" "st S ks (all_blocks os) p"
      using own by (auto simp: owns_def)
    then show ?thesis using assms [of os ks] by (simp add: spec_def)
  qed
  then show ?thesis by (simp add: spec_def)
qed

lemma ownsI: "list_all obj_ok os \<Longrightarrow> st S ks (all_blocks os) p \<Longrightarrow> owns S (map handle_of os) p"
  by (auto simp: owns_def)

lemma owns_cons:
  "st S ks (blocks_of b + all_blocks os) p \<Longrightarrow> obj_ok b \<Longrightarrow> list_all obj_ok os \<Longrightarrow> owns S (handle_of b # map handle_of os) p"
  unfolding owns_def by (intro exI [of _ "b # os"] exI [of _ ks]) (simp add: all_blocks_Cons)

text \<open>Creating an object.\<close>

lemma spec_make:
  assumes "\<And>ks M. spec (st S ks M) m (\<lambda>a p. \<exists>b ks. h a = handle_of b \<and> obj_ok b \<and> st S ks (blocks_of b + M) p)"
  shows "spec (owns S hs) (make h m hs) (owns S)"
proof (rule spec_owns)
  fix os ks assume os: "hs = map handle_of os" "list_all obj_ok os"
  show "spec (st S ks (all_blocks os)) (make h m hs) (owns S)"
    unfolding make_def
    by (rule spec_bind [OF assms], rule spec_ret) (auto simp: os(1) intro: owns_cons [OF _ _ os(2)])
qed

lemma creates_pm: "sys_ok S \<Longrightarrow> spec (st S ks M) (pm_create S) (\<lambda>a p. \<exists>b ks. Hpm a = handle_of b \<and> obj_ok b \<and> st S ks (blocks_of b + M) p)"
  by (rule spec_post [OF spec_pm_create], assumption, rule exI [of _ "Opm a" for a]) auto

lemma creates_pc: "sys_ok S \<Longrightarrow> spec (st S ks M) (pc_create_m S) (\<lambda>a p. \<exists>b ks. Hpc a = handle_of b \<and> obj_ok b \<and> st S ks (blocks_of b + M) p)"
proof (rule spec_post [OF spec_pc_create], assumption, elim conjE exE)
  fix a p m c assume "st S (tl ks) (pc_blocks (a, m, c) + M) p"
  then show "\<exists>b ks. Hpc a = handle_of b \<and> obj_ok b \<and> st S ks (blocks_of b + M) p"
    by (intro exI [of _ "Opc (a, m, c)"] exI [of _ "tl ks"]) simp
qed

lemma creates_with_pc:
  assumes "sys_ok S" and "\<And>a k. h a = handle_of (b a k)" "\<And>a k. obj_ok (b a k)" "\<And>a k. blocks_of (b a k) = add_mset (a, C (fst k)) (pc_blocks k)"
  shows "spec (st S ks M) (bind_act (malloc_check S (size_of S t)) (\<lambda>p. bind_act (pc_create_m S) (\<lambda>k.
      seq_act (set_cell p (Some (C k))) (ret p)))) (\<lambda>a p. \<exists>b ks. h a = handle_of b \<and> obj_ok b \<and> st S ks (blocks_of b + M) p)"
proof (rule spec_post [OF spec_with_pc [OF assms(1)]], elim exE)
  fix a p k m c assume "st S (tl ks) (add_mset (a, C k) (pc_blocks (k, m, c) + M)) p"
  then show "\<exists>b ks. h a = handle_of b \<and> obj_ok b \<and> st S ks (blocks_of b + M) p"
    by (intro exI [of _ "b a (k, m, c)"] exI [of _ "tl ks"]) (simp add: assms del: pc_blocks.simps)
qed

lemma creates_monitors:
  assumes "sys_ok S"
  shows "spec (st S ks M) (pb_create_m S n) (\<lambda>a p. \<exists>b ks. Hpb a = handle_of b \<and> obj_ok b \<and> st S ks (blocks_of b + M) p)"
    and "spec (st S ks M) (po_create_m S n) (\<lambda>a p. \<exists>b ks. Hpo a = handle_of b \<and> obj_ok b \<and> st S ks (blocks_of b + M) p)"
    and "spec (st S ks M) (op_create_m S) (\<lambda>a p. \<exists>b ks. Hop a = handle_of b \<and> obj_ok b \<and> st S ks (blocks_of b + M) p)"
  unfolding pb_create_m_def po_create_m_def op_create_m_def
  by (rule creates_with_pc [OF assms, where b = "\<lambda>a k. Opb a n k"]
      creates_with_pc [OF assms, where b = "\<lambda>a k. Opo a n k"]
      creates_with_pc [OF assms, where b = "\<lambda>a k. Oop a k"]; simp; fail)+

lemma creates_cpus:
  "sys_ok S \<Longrightarrow> spec (st S ks M) (cpus_create_m S n) (\<lambda>a p. \<exists>b ks. Hcpus a = handle_of b \<and> obj_ok b \<and> st S ks (blocks_of b + M) p)"
proof (rule spec_post [OF spec_cpus_create], assumption, elim exE conjE)
  fix a p c assume "st S ks (add_mset (a, Cpus n c) ((if n = 0 then {#} else {#(c, Raw)#}) + M)) p" "n = 0 \<longrightarrow> c = 0"
  then show "\<exists>b ks. Hcpus a = handle_of b \<and> obj_ok b \<and> st S ks (blocks_of b + M) p"
    by (intro exI [of _ "Ocpus a n c"] exI [of _ ks]) simp
qed

lemma st_new: "st S ks M p \<Longrightarrow> cells p a = None \<Longrightarrow> a \<noteq> 0 \<Longrightarrow> st S ks (add_mset (a, c) M) (p\<lparr>cells := (cells p)(a \<mapsto> c)\<rparr>)"
  by (auto simp: st_def heap_is_alloc log_chan_def)

lemma spec_errno_exit: "spec (st S ks M) (bind_act (get c_errno) (errexit S nm)) Q"
  by (rule spec_bind [where Q = "\<lambda>_. st S ks M"], simp add: spec_def get_def, rule spec_errexit)

lemma spec_mmap:
  assumes "sys_ok S"
  shows "spec (st S ks M) (mmap_exec S n) (\<lambda>a. st S ks (add_mset (a, Code n) M))"
  unfolding mmap_exec_def
proof (rule spec_bind)
  show "spec (st S ks M) (call_sys S (Mmap n)) (\<lambda>a p. st S ks M p \<and> (a = -1 \<or> a \<noteq> 0 \<and> cells p a = None))"
    using assms by (auto simp: spec_def call_sys_def Let_def st_event sys_ok_def)
  fix a
  show "spec (\<lambda>p. st S ks M p \<and> (a = -1 \<or> a \<noteq> 0 \<and> cells p a = None))
    (seq_act (if a = -1 then bind_act (get c_errno) (errexit S ''mmap'') else ret ()) (seq_act (set_cell a (Some (Code n))) (ret a)))
    (\<lambda>a. st S ks (add_mset (a, Code n) M))"
  proof (cases "a = -1")
    case True
    have "spec (st S ks M) (seq_act (bind_act (get c_errno) (errexit S ''mmap'')) k) Q" for k :: "int act" and Q
      by (rule spec_seq [OF spec_errno_exit [where Q = "\<lambda>_ _. False"]]) (simp add: spec_def)
    then show ?thesis using True by (auto intro: spec_conseq)
  next
    case False
    then show ?thesis by (auto simp: spec_def act_unfolds st_new)
  qed
qed

lemma spec_munmap: "spec (st S ks (add_mset (a, Code n) M)) (munmap_exec S a n) (\<lambda>_. st S ks M)"
proof -
  let ?N = "add_mset (a, Code n) M"
  have "spec (st S ks ?N) (need_block a (Code n)) (\<lambda>_. st S ks ?N)"
    using st_read [of S ks a "Code n" M] by (simp add: spec_def need_block_def need_def)
  moreover have "spec (st S ks ?N) (set_cell a None) (\<lambda>_. st S ks M)"
    by (simp add: spec_def set_cell_def update_def st_drop)
  moreover have "spec (st S ks ?N) (if r \<noteq> 0 then bind_act (get c_errno) (errexit S ''munmap'') else ret ()) (\<lambda>_. st S ks ?N)" for r :: int
    by (simp add: spec_errno_exit spec_ret)
  ultimately show ?thesis
    unfolding munmap_exec_def by (blast intro: spec_seq spec_bind [OF spec_call])
qed

lemma creates_code: "sys_ok S \<Longrightarrow> spec (st S ks M) (mmap_exec S n) (\<lambda>a p. \<exists>b ks. Hcode a n = handle_of b \<and> obj_ok b \<and> st S ks (blocks_of b + M) p)"
  by (rule spec_post [OF spec_mmap], assumption, rule exI [of _ "Ocode a n" for a]) auto

subsection \<open>Using and deleting objects\<close>

lemma spec_some: "spec P m (\<lambda>_. st S ks' M) \<Longrightarrow> spec P m (\<lambda>_ p. \<exists>ks. st S ks M p)"
  by (erule spec_post) blast

lemma deletes_monitor:
  assumes "d \<in> {Pb (fst k) b, Po (fst k) o', Op (fst k) v}"
  shows "spec (st S ks (add_mset (a, d) (pc_blocks k + M))) (bind_act (get_cond a) (\<lambda>k. seq_act (pc_free_m S k) (free S a)))
    (\<lambda>_ p. \<exists>ks. st S ks M p)"
  using assms by (cases k) (auto intro: spec_some [OF spec_without_pc] simp del: pc_blocks.simps)

lemma deletes: "obj_ok b \<Longrightarrow> spec (st S ks (blocks_of b + M)) (delete_handle S (handle_of b)) (\<lambda>_ p. \<exists>ks. st S ks M p)"
proof (cases b)
  case (Opc k)
  then show ?thesis by (cases k) (simp add: spec_some [OF spec_pc_free] del: pc_blocks.simps)
next
  case (Ocpus a n c)
  assume "obj_ok b"
  then show ?thesis using spec_some [OF spec_cpus_free [of n c S ks a M]] by (simp add: Ocpus)
qed (simp_all add: pb_free_def po_free_def op_free_m_def deletes_monitor spec_some [OF spec_pm_free] spec_some [OF spec_munmap]
    del: pc_blocks.simps)

lemma in_all_blocks: "b \<in> set os \<Longrightarrow> x \<in># blocks_of b \<Longrightarrow> x \<in># all_blocks os"
  by (induction os) (auto simp: all_blocks_def)

lemma spec_pm_use:
  assumes "(a, Mutex) \<in># M"
  shows "spec (st S ks M) (pm_lock S a) (\<lambda>_. st S ks M)" and "spec (st S ks M) (pm_unlock S a) (\<lambda>_. st S ks M)"
  unfolding pm_lock_def pm_unlock_def using assms by (simp_all add: spec_use)

lemma spec_pc_use:
  assumes "\<And>x. x \<in># pc_blocks (a, m, c) \<Longrightarrow> x \<in># M"
  shows "spec (st S ks M) (pc_lock S a) (\<lambda>_. st S ks M)" and "spec (st S ks M) (pc_unlock S a) (\<lambda>_. st S ks M)"
    and "spec (st S ks M) (pc_wait S a) (\<lambda>_. st S ks M)" and "spec (st S ks M) (pc_broadcast S a) (\<lambda>_. st S ks M)"
    and "spec (st S ks M) (pc_signal S a) (\<lambda>_. st S ks M)"
proof -
  have mem: "(a, Pc m c) \<in># M" "(m, Mutex) \<in># M" "(c, Cond) \<in># M" using assms by simp_all
  have "spec (st S ks M) (need_block m Mutex) (\<lambda>_. st S ks M)"
    using st_member [of S ks M _ m Mutex] mem(2) by (simp add: spec_def need_block_def need_def)
  then show "spec (st S ks M) (pc_lock S a) (\<lambda>_. st S ks M)" "spec (st S ks M) (pc_unlock S a) (\<lambda>_. st S ks M)"
    "spec (st S ks M) (pc_wait S a) (\<lambda>_. st S ks M)" "spec (st S ks M) (pc_broadcast S a) (\<lambda>_. st S ks M)"
    "spec (st S ks M) (pc_signal S a) (\<lambda>_. st S ks M)"
    unfolding pc_lock_def pc_unlock_def pc_wait_def pc_broadcast_def pc_signal_def
    by (auto intro!: spec_get_pc [of a m c] intro: spec_seq simp: mem spec_pm_use spec_use)
qed

lemma uses:
  assumes "b \<in> set os"
  shows "spec (st S ks (all_blocks os)) (lock_handle S (handle_of b)) (\<lambda>_. st S ks (all_blocks os))"
    and "spec (st S ks (all_blocks os)) (unlock_handle S (handle_of b)) (\<lambda>_. st S ks (all_blocks os))"
    and "spec (st S ks (all_blocks os)) (on_pc (pc_wait S) (handle_of b)) (\<lambda>_. st S ks (all_blocks os))"
    and "spec (st S ks (all_blocks os)) (on_pc (pc_broadcast S) (handle_of b)) (\<lambda>_. st S ks (all_blocks os))"
    and "spec (st S ks (all_blocks os)) (on_pc (pc_signal S) (handle_of b)) (\<lambda>_. st S ks (all_blocks os))"
  using in_all_blocks [OF assms]
  by (cases b; auto simp: spec_ret spec_pm_use intro!: spec_pc_use simp del: pc_blocks.simps)+

lemma spec_use_nth:
  assumes "\<And>b os ks. b \<in> set os \<Longrightarrow> spec (st S ks (all_blocks os)) (f (handle_of b)) (\<lambda>_. st S ks (all_blocks os))"
  shows "spec (owns S hs) (with_nth f i hs hs) (owns S)"
proof (cases "i < length hs")
  case True
  show ?thesis
  proof (rule spec_owns)
    fix os ks assume os: "hs = map handle_of os" "list_all obj_ok os"
    have "f (hs ! i) = f (handle_of (os ! i))" "os ! i \<in> set os" using True os by simp_all
    then show "spec (st S ks (all_blocks os)) (with_nth f i hs hs) (owns S)"
      using spec_seq [OF assms [of "os ! i" os ks] spec_ret [of _ "owns S" hs]] True os by (auto simp: with_nth_def owns_def)
  qed
qed (simp add: with_nth_def spec_ret)

lemma spec_delete_nth: "spec (owns S hs) (with_nth (delete_handle S) i hs (remove_nth i hs)) (owns S)"
proof (cases "i < length hs")
  case True
  show ?thesis
  proof (rule spec_owns)
    fix os ks assume os: "hs = map handle_of os" "list_all obj_ok os"
    have i: "i < length os" using True os by simp
    have "spec (st S ks (all_blocks os)) (delete_handle S (hs ! i)) (\<lambda>_ p. \<exists>ks. st S ks (all_blocks (remove_nth i os)) p)"
      using deletes [of "os ! i" S ks "all_blocks (remove_nth i os)"] os i by (simp add: all_blocks_remove list_all_length)
    then show "spec (st S ks (all_blocks os)) (with_nth (delete_handle S) i hs (remove_nth i hs)) (owns S)"
      unfolding with_nth_def using True os
      by (auto intro!: spec_seq spec_ret simp: remove_nth_map intro: ownsI list_all_remove)
  qed
qed (simp add: with_nth_def spec_ret)

lemma spec_check_owns: "spec (owns S hs) (check S nm e) (\<lambda>_. owns S hs)"
  by (rule spec_owns, rule spec_post [OF spec_check]) (auto simp: owns_def)

lemma spec_call_owns: "spec (owns S hs) (call_sys S c) (\<lambda>_. owns S hs)"
  by (rule spec_owns, rule spec_post [OF spec_call]) (auto simp: owns_def)

lemma spec_get_owns: "spec (owns S hs) (get f) (\<lambda>_. owns S hs)"
  by (simp add: spec_def get_def)

lemma spec_threads:
  "spec (owns S hs) (launch S f a) (\<lambda>_. owns S hs)" "spec (owns S hs) (join S th) (\<lambda>_. owns S hs)"
  "spec (owns S hs) (do_launch_detached S f a) (\<lambda>_. owns S hs)"
  unfolding launch_def join_def do_launch_detached_def
  by (intro spec_bind [OF spec_call_owns] spec_bind [OF spec_get_owns] spec_seq [OF spec_check_owns] spec_check_owns spec_ret, assumption?)+

lemma spec_run_cmd: "sys_ok S \<Longrightarrow> spec (owns S hs) (run_cmd S c hs) (owns S)"
  by (cases c) (auto intro: spec_make spec_use_nth spec_delete_nth spec_seq [OF _ spec_ret] spec_threads
    creates_pm creates_pc creates_monitors creates_cpus creates_code uses)

lemma spec_run_cmds: "sys_ok S \<Longrightarrow> spec (owns S hs) (run_cmds S cs hs) (owns S)"
  by (induction cs arbitrary: hs) (auto intro: spec_ret spec_bind spec_run_cmd)

subsection \<open>Maps of cores\<close>

text \<open>\<open>mapcore_free\<close> frees the lists of processors of all the cores, their array and the map.\<close>

definition cores_blocks :: "(int \<times> nat \<times> int) list \<Rightarrow> blocks" where
  "cores_blocks xs = sum_list (map (\<lambda>(a, n, c). blocks_of (Ocpus a n c)) xs)"

definition mapcore_blocks :: "int \<Rightarrow> int \<Rightarrow> (int \<times> nat \<times> int) list \<Rightarrow> blocks" where
  "mapcore_blocks a r xs = {#(a, Mapcore (length xs) r), (r, Ptrs (map fst xs))#} + cores_blocks xs"

lemma spec_get_ptr:
  assumes "i < length ps" and "spec (st S ks (add_mset (r, Ptrs ps) M)) (f (ps ! i)) Q"
  shows "spec (st S ks (add_mset (r, Ptrs ps) M)) (bind_act (get_ptr r i) f) Q"
  using assms st_read [of S ks r "Ptrs ps" M] by (auto simp: spec_def get_ptr_def bind_act_def)

lemma spec_free_cores:
  assumes "\<forall>(a, n, c) \<in> set xs. n = 0 \<longrightarrow> c = 0" and "drop j ps = map fst xs"
  shows "spec (st S ks (add_mset (r, Ptrs ps) (cores_blocks xs + M))) (free_cores S r [j..<length ps])
    (\<lambda>_. st S ks (add_mset (r, Ptrs ps) M))"
  using assms
proof (induction xs arbitrary: j)
  case Nil
  then show ?case by (simp add: spec_ret cores_blocks_def)
next
  case (Cons x xs)
  obtain a n c where x: "x = (a, n, c)" by (cases x)
  have j: "j < length ps" using Cons.prems(2) by (cases "j < length ps") simp_all
  then have ps: "ps ! j = a" "drop (Suc j) ps = map fst xs"
    using Cons.prems(2) Cons_nth_drop_Suc [OF j] x by simp_all
  have upt: "[j..<length ps] = j # [Suc j..<length ps]" using j by (rule upt_conv_Cons)
  let ?M = "add_mset (r, Ptrs ps) (cores_blocks xs + M)"
  have "spec (st S ks (blocks_of (Ocpus a n c) + ?M)) (cpus_free S a) (\<lambda>_. st S ks ?M)"
    using Cons.prems(1) x by (intro spec_mset [OF spec_cpus_free [of n c S ks a ?M]]) (auto simp: add_mset_commute)
  then have "spec (st S ks (add_mset (r, Ptrs ps) (cores_blocks (x # xs) + M))) (bind_act (get_ptr r j) (cpus_free S)) (\<lambda>_. st S ks ?M)"
    using j by (intro spec_get_ptr) (simp_all add: ps x cores_blocks_def ac_simps)
  then show ?case
    using Cons.IH [OF _ ps(2)] Cons.prems(1) unfolding upt by (auto intro: spec_seq)
qed

theorem spec_mapcore_free:
  assumes "\<forall>(a, n, c) \<in> set xs. n = 0 \<longrightarrow> c = 0"
  shows "spec (st S ks (mapcore_blocks a r xs + M)) (mapcore_free S a) (\<lambda>_. st S ks M)"
proof -
  let ?N = "add_mset (r, Ptrs (map fst xs)) (cores_blocks xs + add_mset (a, Mapcore (length xs) r) M)"
  have "cells p a = Some (Mapcore (length xs) r)" if "st S ks ?N p" for p
    using that by (rule st_member) simp
  then have "spec (st S ks ?N) (get_mapcore a) (\<lambda>x p. x = (length xs, r) \<and> st S ks ?N p)"
    by (simp add: spec_def get_mapcore_def)
  moreover have "spec (st S ks ?N) (seq_act (free_cores S r [0..<length xs]) (seq_act (free S r) (free S a))) (\<lambda>_. st S ks M)"
    using spec_free_cores [OF assms, of 0 "map fst xs" S ks r "add_mset (a, Mapcore (length xs) r) M"]
    by (auto intro!: spec_seq spec_free)
  ultimately have "spec (st S ks ?N) (mapcore_free S a) (\<lambda>_. st S ks M)"
    unfolding mapcore_free_def by (auto intro!: spec_bind spec_pure)
  then show ?thesis by (rule spec_mset) (simp add: mapcore_blocks_def)
qed

subsection \<open>Ending with a message\<close>

text \<open>
  \<open>fatal\<close> prints its message on the error channel and on the standard output, and ends with status 1.  When the error channel
  is the standard output, though, it has closed it before it prints on it.
\<close>

theorem fatal_prints:
  assumes "Closed (log_chan p) \<notin> set (events p)" and "Closed Stdout \<notin> set (events p)"
  shows "log_chan p \<noteq> Stdout \<Longrightarrow> fst (fatal msg p) = Inl (Exit 1) \<and> events (snd (fatal msg p)) =
      [Printed Stdout (''Failure: '' @ msg @ nl), Closed (log_chan p), Printed (log_chan p) (''Failure: '' @ msg @ nl)] @ events p"
    and "log_chan p = Stdout \<Longrightarrow> fst (fatal msg p) = Inl Undef"
  using assms by (auto simp: fatal_def error_unfolds split: option.splits)

text \<open>\<open>malloc_check\<close> returns \<open>NULL\<close> for the size 0 only; the version of \<^verbatim>\<open>_presi.c\<close> never does.\<close>

theorem malloc_check_not_null:
  "fst (malloc_check S n p) = Inr a \<Longrightarrow> a = 0 \<longleftrightarrow> n = 0"
  "fst (presi_malloc_check S kvm n p) = Inr a \<Longrightarrow> a \<noteq> 0"
  by (auto simp: malloc_check_def malloc_def presi_malloc_check_def presi_fatal_def errexit_def error_unfolds split: if_splits option.splits)

subsection \<open>The properties\<close>

text \<open>A process at its start; \<open>pc_list\<close> is empty and its mutex is initialised.\<close>

definition at_start :: "sys \<Rightarrow> proc \<Rightarrow> bool" where
  "at_start S p \<longleftrightarrow>
     cells p = (if with_cache S then [list_mutex S \<mapsto> Mutex] else Map.empty) \<and> list_mutex S \<noteq> 0 \<and> pc_head p = 0 \<and>
     Closed (log_chan p) \<notin> set (events p)"

lemma owns_at_start: "at_start S p \<Longrightarrow> owns S [] p"
  unfolding owns_def at_start_def
  by (rule exI [of _ "[]"], rule exI [of _ "[]"]) (simp add: st_def all_blocks_def cache_blocks_def heap_is_add heap_is_empty)

text \<open>
  C19: A program that creates, uses and frees mutexes, condition variables, barriers, or-flags, buffers, lists of processors and blocks
  of code in any order, whatever the calls of the system answer: if it is not stopped by a call that fails, memory
  consists exactly of the blocks of the objects the program still heap_is and of the condition variables kept for later
  use, each once; when it has freed all and nothing is kept, memory is empty.  Nothing undefined happens on the way: no access to freed
  memory, no mutex destroyed twice, none freed before it is destroyed.
\<close>

theorem monitors_keep_memory:
  assumes "sys_ok S" and "at_start S p"
  shows "case run_cmds S cs [] p of
      (Inl e, q) \<Rightarrow> e \<noteq> Undef
    | (Inr hs, q) \<Rightarrow>
        (\<exists>os ks. hs = map handle_of os \<and> list_all obj_ok os \<and> heap_is (cells q) (all_blocks os + cache_blocks S ks) \<and>
           chain (nexts q) (pc_head q) ks \<and> (\<not> with_cache S \<longrightarrow> ks = [])) \<and>
        (hs = [] \<and> \<not> with_cache S \<longrightarrow> cells q = Map.empty)"
proof -
  have "spec (owns S []) (run_cmds S cs []) (owns S)" using assms(1) by (rule spec_run_cmds)
  then have *: "case run_cmds S cs [] p of (Inl e, q) \<Rightarrow> e \<noteq> Undef | (Inr hs, q) \<Rightarrow> owns S hs q"
    using owns_at_start [OF assms(2)] by (simp add: spec_def)
  have "(\<exists>os ks. hs = map handle_of os \<and> list_all obj_ok os \<and> heap_is (cells q) (all_blocks os + cache_blocks S ks) \<and>
      chain (nexts q) (pc_head q) ks \<and> (\<not> with_cache S \<longrightarrow> ks = [])) \<and> (hs = [] \<and> \<not> with_cache S \<longrightarrow> cells q = Map.empty)"
    if owned: "owns S hs q" for hs q
  proof -
    obtain os ks where own: "hs = map handle_of os" "list_all obj_ok os" "st S ks (all_blocks os) q"
      using owned by (auto simp: owns_def)
    then have "cells q = Map.empty" if "hs = []" "\<not> with_cache S"
      using that by (auto simp: st_def all_blocks_def cache_blocks_def heap_is_empty)
    then show ?thesis using own by (auto simp: st_def)
  qed
  then show ?thesis using * by (auto split: prod.splits sum.splits)
qed

text \<open>
  C20: A program ends normally exactly when all its calls succeed.  Otherwise it stops at the first that fails, with status 2,
  and the last thing it does is to print on the error channel the name of the call with the text of its error, and to close the channel.
\<close>

theorem failing_calls_reported:
  assumes "sys_ok S" and "at_start S p" and "run_cmds S cs [] p = (r, q)"
  shows "\<exists>evs. events q = evs @ events p \<and>
    (case r of
       Inr hs \<Rightarrow> list_all event_ok evs
     | Inl e \<Rightarrow> e = Exit 2 \<and> (\<exists>c a pre. \<not> event_ok (Called c a) \<and> list_all event_ok pre \<and>
         evs = [Closed (log_chan p), Printed (log_chan p) (call_name c @ '': '' @ strerror S (call_error c a (c_errno q)) @ nl), Called c a] @ pre))"
proof -
  have "r \<noteq> Inl Undef"
    using spec_run_cmds [OF assms(1), of "[]" cs] owns_at_start [OF assms(2)] assms(3) by (auto simp: spec_def)
  moreover obtain evs where "events q = evs @ events p" "ended_well S log_report (log_chan p) (c_errno q) evs r"
    using loud_run_cmds [of S cs "[]"] assms(3) by (auto simp: loud_def dest!: spec [of _ p])
  ultimately show ?thesis
  proof (intro exI [of _ evs] conjI, simp, cases r)
    fix e assume "r = Inl e" "r \<noteq> Inl Undef" "ended_well S log_report (log_chan p) (c_errno q) evs r"
    then show "case r of Inr hs \<Rightarrow> list_all event_ok evs
     | Inl e \<Rightarrow> e = Exit 2 \<and> (\<exists>c a pre. \<not> event_ok (Called c a) \<and> list_all event_ok pre \<and>
         evs = [Closed (log_chan p), Printed (log_chan p) (call_name c @ '': '' @ strerror S (call_error c a (c_errno q)) @ nl), Called c a] @ pre)"
      by (cases e) (auto simp: stopped_def log_report_def)
  qed simp
qed

text \<open>A system whose allocator gives the addresses 101, 102, ... and where the call number \<open>k\<close> fails, with error 11.\<close>

definition ex_system :: "bool \<Rightarrow> nat \<Rightarrow> sys" where
  "ex_system cached k = \<lparr>
     answer = (\<lambda>p c. case c of
         Malloc n \<Rightarrow> (let a = 101 + int (length (events p)) in if length (events p) = k \<or> cells p a \<noteq> None then 0 else a)
       | Mmap n \<Rightarrow> (let a = 101 + int (length (events p)) in if length (events p) = k \<or> cells p a \<noteq> None then -1 else a)
       | _ \<Rightarrow> if length (events p) = k then 11 else 0),
     new_errno = (\<lambda>p c. 0), thread_value = (\<lambda>p th. 0),
     strerror = (\<lambda>e. if e = 12 then ''no memory'' else ''busy''), size_of = (\<lambda>t. 8), list_mutex = 7, with_cache = cached\<rparr>"

definition ex_proc :: "bool \<Rightarrow> proc" where
  "ex_proc cached = \<lparr>errlog = None, c_errno = 0, events = [], cells = (\<lambda>a. if cached \<and> a = 7 then Some Mutex else None),
     nexts = (\<lambda>a. None), pc_head = 0\<rparr>"

lemma ex_system_ok: "sys_ok (ex_system b k)"
  by (auto simp: sys_ok_def ex_system_def Let_def)

lemma ex_at_start: "at_start (ex_system b k) (ex_proc b)"
  by (auto simp: at_start_def ex_system_def ex_proc_def log_chan_def)

definition ex_cmds :: "cmd list" where
  "ex_cmds = [New_pb 2, Delete 0]"

theorem monitors_keep_memory_witness:
  "fst (run_cmds (ex_system False 100) ex_cmds [] (ex_proc False)) = Inr [] \<and>
   cells (snd (run_cmds (ex_system False 100) ex_cmds [] (ex_proc False))) = Map.empty"
proof -
  have run: "fst (run_cmds (ex_system False 100) ex_cmds [] (ex_proc False)) = Inr []" by code_simp
  have "\<not> with_cache (ex_system False 100)" by (simp add: ex_system_def)
  then show ?thesis
    using monitors_keep_memory [OF ex_system_ok ex_at_start, of False 100 ex_cmds] run
    by (cases "run_cmds (ex_system False 100) ex_cmds [] (ex_proc False)") simp
qed

text \<open>The fourth call, the \<open>malloc\<close> of a condition variable, fails and leaves \<open>errno\<close> at 0.\<close>

theorem failing_calls_reported_witness:
  "fst (run_cmds (ex_system True 3) ex_cmds [] (ex_proc True)) = Inl (Exit 2) \<and>
   take 2 (events (snd (run_cmds (ex_system True 3) ex_cmds [] (ex_proc True)))) =
     [Closed Stderr, Printed Stderr (''malloc: no memory'' @ nl)]"
proof -
  let ?r = "run_cmds (ex_system True 3) ex_cmds [] (ex_proc True)"
  have run: "fst ?r = Inl (Exit 2)" by code_simp
  have third: "events (snd ?r) ! 2 = Called (Malloc 8) 0" by code_simp
  have err: "c_errno (snd ?r) = 12" by code_simp
  obtain c a pre where "events (snd ?r) =
      [Closed Stderr, Printed Stderr (call_name c @ '': '' @ strerror (ex_system True 3) (call_error c a 12) @ nl), Called c a] @ pre"
    using failing_calls_reported [OF ex_system_ok ex_at_start, of True 3 ex_cmds "fst ?r" "snd ?r"] run err
    by (auto simp: log_chan_def ex_proc_def)
  then show ?thesis using run third by (simp add: ex_system_def)
qed

end
