(* ===== verification/OutsHeap.thy ===== *)
theory OutsHeap
  imports Outs Resources
begin

section \<open>The tree of outcomes in memory (\<^verbatim>\<open>_outs.c\<close>)\<close>

text \<open>
  The functions of \<^verbatim>\<open>_outs.c\<close> on the memory of the process, with pointers, in-place updates and allocations that may fail.
  They refine the functions on trees of \<^theory_text>\<open>Outs\<close>: no cell is shared, none is lost, and \<open>free_outs\<close> frees each once.
  Loops and recursions over pointers may not end on a cyclic memory: they are partial functions, and that they return on
  trees is part of the theorems.
\<close>

subsection \<open>Actions that may not return\<close>

type_synonym 'a pact = "proc \<Rightarrow> ((ending + 'a) \<times> proc) option"

definition once :: "'a act \<Rightarrow> 'a pact" where
  "once m = (\<lambda>p. Some (m p))"

definition obind :: "'a pact \<Rightarrow> ('a \<Rightarrow> 'b pact) \<Rightarrow> 'b pact" where
  "obind m f = (\<lambda>p. Option.bind (m p) (\<lambda>(r, q). case r of Inl e \<Rightarrow> Some (Inl e, q) | Inr x \<Rightarrow> f x q))"

lemma obind_mono [partial_function_mono]:
  assumes "\<And>p. mono_option (\<lambda>f. B f p)" and "\<And>x p. mono_option (\<lambda>f. C f x p)"
  shows "mono_option (\<lambda>f. obind (B f) (C f) p)"
  unfolding obind_def
proof (rule bind_mono [OF assms(1)], goal_cases)
  case (1 y)
  then show ?case by (cases y; cases "fst y") (auto intro: assms(2) option.const_mono)
qed

subsection \<open>The operations\<close>

definition alloc_outs_m :: "sys \<Rightarrow> int \<Rightarrow> int act" where
  "alloc_outs_m S k =
     bind_act (malloc_check S (size_of S T_outs)) (\<lambda>r.
     seq_act (set_cell r (Some (Outs_t \<lparr>o_k = k, o_c = 0, o_show = False, o_next = 0, o_down = 0\<rparr>))) (ret r))"

definition get_outs :: "int \<Rightarrow> outs_t act" where
  "get_outs a = (\<lambda>p. (case cells p a of Some (Outs_t u) \<Rightarrow> Inr u | _ \<Rightarrow> Inl Undef, p))"

definition upd_outs :: "int \<Rightarrow> (outs_t \<Rightarrow> outs_t) \<Rightarrow> unit act" where
  "upd_outs a f = bind_act (get_outs a) (\<lambda>u. set_cell a (Some (Outs_t (f u))))"

text \<open>
  The test that is made wherever a cell may be needed: a fresh cell for \<open>x\<close> before \<open>p\<close> if \<open>p\<close> is null or starts above \<open>x\<close>.
  It returns the cell to go on with, and whether it is new.
\<close>

definition new_before :: "sys \<Rightarrow> int \<Rightarrow> int \<Rightarrow> (int \<times> bool) act" where
  "new_before S p x =
     bind_act (alloc_outs_m S x) (\<lambda>a. seq_act (upd_outs a (\<lambda>u. u\<lparr>o_next := p\<rparr>)) (ret (a, True)))"

definition put_outs :: "sys \<Rightarrow> int \<Rightarrow> int \<Rightarrow> (int \<times> bool) act" where
  "put_outs S p x =
     (if p = 0 then new_before S p x
      else bind_act (get_outs p) (\<lambda>u. if x < o_k u then new_before S p x else ret (p, False)))"

text \<open>A read of \<open>k[i]\<close>: outside the array it is undefined behaviour.\<close>

definition get_k :: "int list \<Rightarrow> int \<Rightarrow> int act" where
  "get_k k i = (\<lambda>p. (if 0 \<le> i \<and> i < int (length k) then Inr (k ! nat i) else Inl Undef, p))"

text \<open>One turn of the loop of \<open>loop_add_outcome_outs\<close>: \<open>None\<close> when it returns, or the next \<open>p\<close> and \<open>i\<close>.\<close>

definition add_step :: "sys \<Rightarrow> int list \<Rightarrow> u64 \<Rightarrow> bool \<Rightarrow> int \<Rightarrow> int \<Rightarrow> (int \<times> int) option act" where
  "add_step S k c s p i =
     bind_act (get_outs p) (\<lambda>u.
     bind_act (get_k k i) (\<lambda>x.
       if x > o_k u then
         bind_act (put_outs S (o_next u) x) (\<lambda>(a, new).
         seq_act (if new then upd_outs p (\<lambda>u. u\<lparr>o_next := a\<rparr>) else ret ()) (ret (Some (a, i))))
       else if i \<le> 0 then
         seq_act (upd_outs p (\<lambda>u. u\<lparr>o_c := o_c u + c, o_show := s \<or> o_show u\<rparr>)) (ret None)
       else
         bind_act (get_k k (i - 1)) (\<lambda>x.
         bind_act (put_outs S (o_down u) x) (\<lambda>(a, new).
         seq_act (if new then upd_outs p (\<lambda>u. u\<lparr>o_down := a\<rparr>) else ret ()) (ret (Some (a, i - 1)))))))"

partial_function (option) add_loop ::
  "sys \<Rightarrow> int list \<Rightarrow> u64 \<Rightarrow> bool \<Rightarrow> int \<Rightarrow> int \<Rightarrow> proc \<Rightarrow> ((ending + unit) \<times> proc) option" where
  [code]: "add_loop S k c s p i z =
     obind (once (add_step S k c s p i))
       (\<lambda>r z. case r of None \<Rightarrow> Some (Inr (), z) | Some pi \<Rightarrow> add_loop S k c s (fst pi) (snd pi) z) z"

definition add_outcome_m :: "sys \<Rightarrow> int \<Rightarrow> int list \<Rightarrow> int \<Rightarrow> u64 \<Rightarrow> bool \<Rightarrow> int pact" where
  "add_outcome_m S p k n c s =
     (let i = n - 1 in
      obind (once (get_k k i)) (\<lambda>x.
      obind (once (put_outs S p x)) (\<lambda>r.
      obind (add_loop S k c s (fst r) i) (\<lambda>_. once (ret (fst r))))))"

partial_function (option) free_outs :: "sys \<Rightarrow> int \<Rightarrow> proc \<Rightarrow> ((ending + unit) \<times> proc) option" where
  [code]: "free_outs S p z =
     (if p = 0 then Some (Inr (), z)
      else obind (once (get_outs p)) (\<lambda>u.
           obind (\<lambda>z. free_outs S (o_next u) z) (\<lambda>_.
           obind (once (get_outs p)) (\<lambda>u.
           obind (\<lambda>z. free_outs S (o_down u) z) (\<lambda>_.
           once (free S p))))) z)"

text \<open>\<open>q\<close> is only read; its cells are never linked into \<open>p\<close>.\<close>

partial_function (option) merge_m :: "sys \<Rightarrow> int \<Rightarrow> int \<Rightarrow> proc \<Rightarrow> ((ending + int) \<times> proc) option" where
  [code]: "merge_m S p q z =
     (if q = 0 then Some (Inr p, z)
      else obind (once (get_outs q)) (\<lambda>v.
           obind (once (put_outs S p (o_k v))) (\<lambda>r.
           obind (once (get_outs (fst r))) (\<lambda>u z.
             if o_k u = o_k v then
               obind (once (upd_outs (fst r) (\<lambda>u. u\<lparr>o_c := o_c u + o_c v, o_show := o_show u \<or> o_show v\<rparr>))) (\<lambda>_.
               obind (\<lambda>z. merge_m S (o_down u) (o_down v) z) (\<lambda>d.
               obind (once (upd_outs (fst r) (\<lambda>u. u\<lparr>o_down := d\<rparr>))) (\<lambda>_.
               obind (once (get_outs (fst r))) (\<lambda>u.
               obind (once (get_outs q)) (\<lambda>v.
               obind (\<lambda>z. merge_m S (o_next u) (o_next v) z) (\<lambda>n.
               obind (once (upd_outs (fst r) (\<lambda>u. u\<lparr>o_next := n\<rparr>))) (\<lambda>_. once (ret (fst r)))))))))  z
             else
               obind (\<lambda>z. merge_m S (o_next u) q z) (\<lambda>n.
               obind (once (upd_outs (fst r) (\<lambda>u. u\<lparr>o_next := n\<rparr>))) (\<lambda>_. once (ret (fst r)))) z))) z)"

subsection \<open>Trees in memory\<close>

text \<open>A tree with the addresses of its cells.\<close>

datatype atree = ANull | ANode int int u64 bool atree atree

fun root :: "atree \<Rightarrow> int" where
  "root ANull = 0"
| "root (ANode a k c s n d) = a"

fun erase :: "atree \<Rightarrow> outs" where
  "erase ANull = Null"
| "erase (ANode a k c s n d) = Outs k c s (erase n) (erase d)"

definition outs_block :: "int \<Rightarrow> int \<Rightarrow> u64 \<Rightarrow> bool \<Rightarrow> int \<Rightarrow> int \<Rightarrow> int \<times> cell_t" where
  "outs_block a k c s n d = (a, Outs_t \<lparr>o_k = k, o_c = c, o_show = s, o_next = n, o_down = d\<rparr>)"

fun tree_blocks :: "atree \<Rightarrow> blocks" where
  "tree_blocks ANull = {#}"
| "tree_blocks (ANode a k c s n d) = add_mset (outs_block a k c s (root n) (root d)) (tree_blocks n + tree_blocks d)"

text \<open>Specifications of actions that may not return: they return.\<close>

definition spec_opt :: "(proc \<Rightarrow> bool) \<Rightarrow> 'a pact \<Rightarrow> ('a \<Rightarrow> proc \<Rightarrow> bool) \<Rightarrow> bool" where
  "spec_opt P m Q \<longleftrightarrow>
     (\<forall>p. P p \<longrightarrow> (\<exists>r q. m p = Some (r, q) \<and> (case r of Inl e \<Rightarrow> e \<noteq> Undef | Inr x \<Rightarrow> Q x q)))"

lemma opt_once: "spec P m Q \<Longrightarrow> spec_opt P (once m) Q"
proof -
  assume m: "spec P m Q"
  have "\<exists>r q. once m p = Some (r, q) \<and> (case r of Inl e \<Rightarrow> e \<noteq> Undef | Inr x \<Rightarrow> Q x q)" if "P p" for p
  proof -
    obtain r q where mp: "m p = (r, q)" by (cases "m p")
    have "case m p of (Inl e, q) \<Rightarrow> e \<noteq> Undef | (Inr x, q) \<Rightarrow> Q x q" by (rule m [unfolded spec_def, rule_format, OF that])
    then have "case r of Inl e \<Rightarrow> e \<noteq> Undef | Inr x \<Rightarrow> Q x q" using mp by simp
    then show ?thesis using mp by (simp add: once_def)
  qed
  then show ?thesis by (simp add: spec_opt_def)
qed

lemma opt_bind: "spec_opt P m Q \<Longrightarrow> (\<And>x. spec_opt (Q x) (f x) R) \<Longrightarrow> spec_opt P (obind m f) R"
proof -
  assume m: "spec_opt P m Q" and f: "\<And>x. spec_opt (Q x) (f x) R"
  have "\<exists>r q. obind m f p = Some (r, q) \<and> (case r of Inl e \<Rightarrow> e \<noteq> Undef | Inr x \<Rightarrow> R x q)" if P: "P p" for p
  proof -
    obtain r q where mp: "m p = Some (r, q)" "case r of Inl e \<Rightarrow> e \<noteq> Undef | Inr x \<Rightarrow> Q x q"
      using m P unfolding spec_opt_def by blast
    then show ?thesis using f unfolding spec_opt_def by (cases r) (auto simp: obind_def)
  qed
  then show ?thesis by (simp add: spec_opt_def)
qed

lemma opt_conseq:
  assumes m: "spec_opt P m Q" and pre: "\<And>p. P' p \<Longrightarrow> P p" and post: "\<And>x p. Q x p \<Longrightarrow> Q' x p"
  shows "spec_opt P' m Q'"
proof -
  have "\<exists>r q. m p = Some (r, q) \<and> (case r of Inl e \<Rightarrow> e \<noteq> Undef | Inr x \<Rightarrow> Q' x q)" if p: "P' p" for p
  proof -
    obtain r q where "m p = Some (r, q)" "case r of Inl e \<Rightarrow> e \<noteq> Undef | Inr x \<Rightarrow> Q x q"
      using m pre [OF p] unfolding spec_opt_def by blast
    then show ?thesis using post by (cases r) auto
  qed
  then show ?thesis by (simp add: spec_opt_def)
qed

lemma opt_pure: "(\<phi> \<Longrightarrow> spec_opt P m Q) \<Longrightarrow> spec_opt (\<lambda>p. \<phi> \<and> P p) m Q"
  by (auto simp: spec_opt_def)

lemma opt_ex: "(\<And>x. spec_opt (P x) m Q) \<Longrightarrow> spec_opt (\<lambda>p. \<exists>x. P x p) m Q"
  unfolding spec_opt_def by blast

lemma opt_mset: "spec_opt (st S ks M) m Q \<Longrightarrow> M = N \<Longrightarrow> spec_opt (st S ks N) m Q"
  by simp

lemmas opt_act = opt_once [THEN opt_bind]

text \<open>Reading and writing a cell.\<close>

lemma spec_get_outs:
  "spec (st S ks (add_mset (a, Outs_t u) M)) (get_outs a) (\<lambda>v p. v = u \<and> st S ks (add_mset (a, Outs_t u) M) p)"
  using st_read [of S ks a "Outs_t u" M] by (simp add: spec_def get_outs_def)

lemma spec_upd_outs:
  "spec (st S ks (add_mset (a, Outs_t u) M)) (upd_outs a f) (\<lambda>_. st S ks (add_mset (a, Outs_t (f u)) M))"
  unfolding upd_outs_def by (rule spec_bind [OF spec_get_outs]) (auto intro: spec_pure spec_set_cell)

lemma spec_new_before:
  assumes "sys_ok S"
  shows "spec (st S ks M) (new_before S n x) (\<lambda>r p. snd r \<and> st S ks (add_mset (outs_block (fst r) x 0 False n 0) M) p)"
proof -
  have "spec (st S ks M) (alloc_outs_m S x)
      (\<lambda>a. st S ks (add_mset (a, Outs_t \<lparr>o_k = x, o_c = 0, o_show = False, o_next = 0, o_down = 0\<rparr>) M))"
    unfolding alloc_outs_m_def
    by (rule spec_bind [OF spec_malloc_check [OF assms size_pos [OF assms]]], rule spec_seq [OF spec_set_cell], rule spec_ret)
  then show ?thesis
    unfolding new_before_def outs_block_def by (rule spec_bind) (rule spec_seq [OF spec_upd_outs], rule spec_ret, simp)
qed

lemma root_zero: "st S ks (tree_blocks t + M) p \<Longrightarrow> root t = 0 \<longleftrightarrow> t = ANull"
  using st_nonzero by (cases t) (fastforce simp: outs_block_def)+

lemma spec_put_new:
  assumes "sys_ok S" and "Outs.need_cell (erase t) x"
  shows "spec (st S ks (tree_blocks t + M)) (new_before S (root t) x)
    (\<lambda>r p. \<exists>t'. root t' = fst r \<and> erase t' = put_cell (erase t) x \<and> (\<not> snd r \<longrightarrow> t' = t) \<and> st S ks (tree_blocks t' + M) p)"
proof (rule spec_post [OF spec_new_before [OF assms(1)]], elim conjE)
  fix r p
  assume "snd r" "st S ks (add_mset (outs_block (fst r) x 0 False (root t) 0) (tree_blocks t + M)) p"
  then show "\<exists>t'. root t' = fst r \<and> erase t' = put_cell (erase t) x \<and> (\<not> snd r \<longrightarrow> t' = t) \<and> st S ks (tree_blocks t' + M) p"
    using assms(2) by (intro exI [of _ "ANode (fst r) x 0 False t ANull"]) (simp add: put_cell_def alloc_outs_def)
qed

lemma spec_put_outs:
  assumes "sys_ok S"
  shows "spec (st S ks (tree_blocks t + M)) (put_outs S (root t) x)
    (\<lambda>r p. \<exists>t'. root t' = fst r \<and> erase t' = put_cell (erase t) x \<and> (\<not> snd r \<longrightarrow> t' = t) \<and> st S ks (tree_blocks t' + M) p)"
    (is "spec ?P _ ?Q")
proof (cases t)
  case ANull
  then show ?thesis using spec_put_new [OF assms, of t x ks M] by (simp add: put_outs_def need_cell_def)
next
  case (ANode a k c s n d)
  let ?u = "\<lparr>o_k = k, o_c = c, o_show = s, o_next = root n, o_down = root d\<rparr>"
  have P: "?P = st S ks (add_mset (a, Outs_t ?u) (tree_blocks n + tree_blocks d + M))"
    by (simp add: ANode outs_block_def)
  show ?thesis
  proof (cases "a = 0")
    case True
    then show ?thesis using st_nonzero unfolding P spec_def by blast
  next
    case False
    have "spec ?P (if x < o_k ?u then new_before S a x else ret (a, False)) ?Q"
    proof (cases "x < k")
      case True
      then show ?thesis using spec_put_new [OF assms, of t x ks M] by (simp add: ANode need_cell_def)
    next
      case False
      then show ?thesis
        by (auto intro!: spec_ret exI [of _ t] simp: ANode put_cell_simps)
    qed
    then have "spec ?P (bind_act (get_outs a) (\<lambda>u. if x < o_k u then new_before S a x else ret (a, False))) ?Q"
      unfolding P by (intro spec_bind [OF spec_get_outs] spec_pure) simp
    then show ?thesis using False by (simp add: ANode put_outs_def)
  qed
qed

subsection \<open>Adding an outcome\<close>

text \<open>A subtree whose first cell may be new, and the pointer to it in its parent.\<close>

lemma spec_link:
  assumes "sys_ok S" and same: "f (root t) u = u"
  shows "spec (st S ks (tree_blocks t + add_mset (a, Outs_t u) M))
    (bind_act (put_outs S (root t) x) (\<lambda>(b, new). seq_act (if new then upd_outs a (f b) else ret ()) (ret (Some (b, j)))))
    (\<lambda>r p. \<exists>t'. r = Some (root t', j) \<and> erase t' = put_cell (erase t) x \<and>
       st S ks (tree_blocks t' + add_mset (a, Outs_t (f (root t') u)) M) p)" (is "spec _ _ ?Q")
proof (rule spec_bind [OF spec_put_outs [OF assms(1)]], rule spec_ex, intro spec_pure)
  fix r t' assume t': "root t' = fst r" "erase t' = put_cell (erase t) x" "\<not> snd r \<longrightarrow> t' = t"
  let ?P = "st S ks (tree_blocks t' + add_mset (a, Outs_t u) M)" and ?P' = "st S ks (tree_blocks t' + add_mset (a, Outs_t (f (root t') u)) M)"
  have "spec (st S ks (add_mset (a, Outs_t u) (tree_blocks t' + M))) (upd_outs a (f (fst r)))
      (\<lambda>_. st S ks (add_mset (a, Outs_t (f (fst r) u)) (tree_blocks t' + M)))" by (rule spec_upd_outs)
  then have "spec ?P (if snd r then upd_outs a (f (fst r)) else ret ()) (\<lambda>_. ?P')"
    using t' same by (auto simp: spec_ret)
  then have "spec ?P (seq_act (if snd r then upd_outs a (f (fst r)) else ret ()) (ret (Some (fst r, j)))) ?Q"
    by (rule spec_seq) (rule spec_ret, rule exI [of _ t'], use t' in simp)
  then show "spec ?P (case r of (b, new) \<Rightarrow> seq_act (if new then upd_outs a (f b) else ret ()) (ret (Some (b, j)))) ?Q"
    by (simp add: split_beta)
qed

lemma get_k_in: "i < length k \<Longrightarrow> bind_act (get_k k (int i)) f = f (k ! i)"
    "i < length k \<Longrightarrow> i \<noteq> 0 \<Longrightarrow> bind_act (get_k k (int i - 1)) f = f (k ! (i - 1))"
    "k \<noteq> [] \<Longrightarrow> bind_act (get_k k 0) f = f (k ! 0)"
    "i < length k \<Longrightarrow> obind (once (get_k k (int i))) g = g (k ! i)"
  by (auto simp: bind_act_def obind_def once_def get_k_def fun_eq_iff nat_diff_distrib)

lemma spec_add_step:
  fixes t :: atree
  assumes S: "sys_ok S" and t: "t = ANode a pk pv ps n d"
  shows "i < length k \<Longrightarrow> k ! i > pk \<Longrightarrow> spec (st S ks (tree_blocks t + M)) (add_step S k c s a (int i))
      (\<lambda>r p. \<exists>n'. r = Some (root n', int i) \<and> erase n' = put_cell (erase n) (k ! i) \<and>
         st S ks (tree_blocks n' + add_mset (outs_block a pk pv ps (root n') (root d)) (tree_blocks d + M)) p)"
    and "i < length k \<Longrightarrow> \<not> k ! i > pk \<Longrightarrow> i \<noteq> 0 \<Longrightarrow> spec (st S ks (tree_blocks t + M)) (add_step S k c s a (int i))
      (\<lambda>r p. \<exists>d'. r = Some (root d', int (i - 1)) \<and> erase d' = put_cell (erase d) (k ! (i - 1)) \<and>
         st S ks (tree_blocks d' + add_mset (outs_block a pk pv ps (root n) (root d')) (tree_blocks n + M)) p)"
    and "i < length k \<Longrightarrow> \<not> k ! i > pk \<Longrightarrow> i = 0 \<Longrightarrow> spec (st S ks (tree_blocks t + M)) (add_step S k c s a (int i))
      (\<lambda>r p. r = None \<and> st S ks (tree_blocks (ANode a pk (pv + c) (s \<or> ps) n d) + M) p)"
proof -
  let ?u = "\<lparr>o_k = pk, o_c = pv, o_show = ps, o_next = root n, o_down = root d\<rparr>"
  have P: "tree_blocks t + M = add_mset (a, Outs_t ?u) (tree_blocks n + tree_blocks d + M)" by (simp add: t outs_block_def)
  {
    assume "i < length k" "k ! i > pk"
    then show "spec (st S ks (tree_blocks t + M)) (add_step S k c s a (int i))
      (\<lambda>r p. \<exists>n'. r = Some (root n', int i) \<and> erase n' = put_cell (erase n) (k ! i) \<and>
         st S ks (tree_blocks n' + add_mset (outs_block a pk pv ps (root n') (root d)) (tree_blocks d + M)) p)"
      using spec_link [OF S, of "\<lambda>b u. u\<lparr>o_next := b\<rparr>" n ?u ks a "tree_blocks d + M" "k ! i" "int i"]
      unfolding P add_step_def outs_block_def by (intro spec_bind [OF spec_get_outs] spec_pure) (simp add: get_k_in ac_simps of_nat_diff nat_diff_distrib)
  }
  {
    assume "i < length k" "\<not> k ! i > pk" "i \<noteq> 0"
    then show "spec (st S ks (tree_blocks t + M)) (add_step S k c s a (int i))
      (\<lambda>r p. \<exists>d'. r = Some (root d', int (i - 1)) \<and> erase d' = put_cell (erase d) (k ! (i - 1)) \<and>
         st S ks (tree_blocks d' + add_mset (outs_block a pk pv ps (root n) (root d')) (tree_blocks n + M)) p)"
      using spec_link [OF S, of "\<lambda>b u. u\<lparr>o_down := b\<rparr>" d ?u ks a "tree_blocks n + M" "k ! (i - 1)" "int (i - 1)"]
      unfolding P add_step_def outs_block_def by (intro spec_bind [OF spec_get_outs] spec_pure) (simp add: get_k_in ac_simps of_nat_diff nat_diff_distrib)
  }
  {
    assume "i < length k" "\<not> k ! i > pk" "i = 0"
    then show "spec (st S ks (tree_blocks t + M)) (add_step S k c s a (int i))
      (\<lambda>r p. r = None \<and> st S ks (tree_blocks (ANode a pk (pv + c) (s \<or> ps) n d) + M) p)"
      using spec_seq [OF spec_upd_outs [of S ks a ?u "tree_blocks n + tree_blocks d + M" "\<lambda>u. u\<lparr>o_c := o_c u + c, o_show := s \<or> o_show u\<rparr>"]
        spec_ret [of _ _ "None :: (int \<times> int) option"]]
      unfolding P add_step_def by (intro spec_bind [OF spec_get_outs] spec_pure) (simp add: outs_block_def get_k_in)
  }
qed

text \<open>The tree of which the tree of a recursive call is a part.\<close>

lemma opt_whole:
  assumes "spec_opt P m (\<lambda>_ q. \<exists>t'. A t' \<and> st S ks (tree_blocks t' + N) q)"
    and "\<And>t'. A t' \<Longrightarrow> \<exists>t''. B t'' \<and> tree_blocks t'' + M = tree_blocks t' + N"
  shows "spec_opt P m (\<lambda>_ q. \<exists>t''. B t'' \<and> st S ks (tree_blocks t'' + M) q)"
proof (rule opt_conseq [OF assms(1)])
  fix q assume "\<exists>t'. A t' \<and> st S ks (tree_blocks t' + N) q"
  then obtain t' where "A t'" "st S ks (tree_blocks t' + N) q" by blast
  then show "\<exists>t''. B t'' \<and> st S ks (tree_blocks t'' + M) q" using assms(2) by metis
qed

lemma opt_add_loop:
  assumes S: "sys_ok S"
  shows "i < length k \<Longrightarrow> erase t = put_cell p (k ! i) \<Longrightarrow> spec_opt (st S ks (tree_blocks t + M)) (add_loop S k c s (root t) (int i))
    (\<lambda>_ q. \<exists>t'. (root t' = root t \<and> erase t' = loop_add_outcome_outs p k i c s) \<and> st S ks (tree_blocks t' + M) q)"
proof (induction p k i c s arbitrary: t M rule: loop_add_outcome_outs.induct)
  case (1 p k i c s)
  have "put_cell p (k ! i) \<noteq> Null" by (cases p) (simp_all add: put_cell_simps)
  then obtain a pk pv ps n d where t: "t = ANode a pk pv ps n d" using 1(4) by (cases t) auto
  note put = 1(4) [symmetric, unfolded t erase.simps]
  let ?next = "\<lambda>r z. case r of None \<Rightarrow> Some (Inr (), z) | Some pi \<Rightarrow> add_loop S k c s (fst pi) (snd pi) z"
  let ?Q = "\<lambda>_ q. \<exists>t'. (root t' = root t \<and> erase t' = loop_add_outcome_outs p k i c s) \<and> st S ks (tree_blocks t' + M) q"
  have loop: "add_loop S k c s (root t) (int i) = obind (once (add_step S k c s a (int i))) ?next"
    by (rule ext) (simp add: t add_loop.simps [of S k c s a "int i"])
  note spec_loop = loop_add_outcome_outs.simps [of p k i c s, unfolded put]
  consider (right) "k ! i > pk" | (leaf) "\<not> k ! i > pk" "i = 0" | (down) "\<not> k ! i > pk" "i \<noteq> 0" by blast
  then show ?case
  proof cases
    case right
    show ?thesis unfolding loop
    proof (rule opt_act [OF spec_add_step(1) [OF S t 1(3) right]], rule opt_ex, intro opt_pure)
      fix r n' assume r: "r = Some (root n', int i)" "erase n' = put_cell (erase n) (k ! i)"
      let ?M = "\<lambda>n'. add_mset (outs_block a pk pv ps (root n') (root d)) (tree_blocks d + M)"
      have "spec_opt (st S ks (tree_blocks n' + ?M n')) (add_loop S k c s (root n') (int i))
          (\<lambda>_ q. \<exists>t'. (root t' = root n' \<and> erase t' = loop_add_outcome_outs (erase n) k i c s) \<and> st S ks (tree_blocks t' + ?M n') q)"
        using right r 1(3) by (intro 1(1) [OF put]) simp_all
      then have "spec_opt (st S ks (tree_blocks n' + ?M n')) (add_loop S k c s (root n') (int i)) ?Q"
      proof (rule opt_whole)
        fix t' assume "root t' = root n' \<and> erase t' = loop_add_outcome_outs (erase n) k i c s"
        then show "\<exists>t''. (root t'' = root t \<and> erase t'' = loop_add_outcome_outs p k i c s) \<and> tree_blocks t'' + M = tree_blocks t' + ?M n'"
          using right by (intro exI [of _ "ANode a pk pv ps t' d"]) (simp add: t spec_loop ac_simps)
      qed
      then show "spec_opt (st S ks (tree_blocks n' + ?M n')) (?next r) ?Q" by (simp add: r)
    qed
  next
    case leaf
    have res: "loop_add_outcome_outs p k i c s = Outs pk (pv + c) (s \<or> ps) (erase n) (erase d)" unfolding spec_loop using leaf by simp
    show ?thesis unfolding loop
    proof (rule opt_act [OF spec_add_step(3) [OF S t 1(3) leaf]], rule opt_pure)
      fix r :: "(int \<times> int) option" assume "r = None"
      then show "spec_opt (st S ks (tree_blocks (ANode a pk (pv + c) (s \<or> ps) n d) + M)) (?next r) ?Q"
        by (auto simp: spec_opt_def t res intro!: exI [of _ "ANode a pk (pv + c) (s \<or> ps) n d"])
    qed
  next
    case down
    show ?thesis unfolding loop
    proof (rule opt_act [OF spec_add_step(2) [OF S t 1(3) down]], rule opt_ex, intro opt_pure)
      fix r d' assume r: "r = Some (root d', int (i - 1))" "erase d' = put_cell (erase d) (k ! (i - 1))"
      let ?M = "\<lambda>d'. add_mset (outs_block a pk pv ps (root n) (root d')) (tree_blocks n + M)"
      have "spec_opt (st S ks (tree_blocks d' + ?M d')) (add_loop S k c s (root d') (int (i - 1)))
          (\<lambda>_ q. \<exists>t'. (root t' = root d' \<and> erase t' = loop_add_outcome_outs (erase d) k (i - 1) c s) \<and> st S ks (tree_blocks t' + ?M d') q)"
        using down r 1(3) by (intro 1(2) [OF put]) simp_all
      then have "spec_opt (st S ks (tree_blocks d' + ?M d')) (add_loop S k c s (root d') (int (i - 1))) ?Q"
      proof (rule opt_whole)
        fix t' assume "root t' = root d' \<and> erase t' = loop_add_outcome_outs (erase d) k (i - 1) c s"
        then show "\<exists>t''. (root t'' = root t \<and> erase t'' = loop_add_outcome_outs p k i c s) \<and> tree_blocks t'' + M = tree_blocks t' + ?M d'"
          using down by (intro exI [of _ "ANode a pk pv ps n t'"]) (simp add: t spec_loop ac_simps)
      qed
      then show "spec_opt (st S ks (tree_blocks d' + ?M d')) (?next r) ?Q" by (simp add: r)
    qed
  qed
qed

lemma opt_add_outcome:
  assumes "sys_ok S" and "0 < n" and "n \<le> length k"
  shows "spec_opt (st S ks (tree_blocks t + M)) (add_outcome_m S (root t) k (int n) c s)
    (\<lambda>a q. \<exists>t'. (root t' = a \<and> erase t' = add_outcome_outs (erase t) k n c s) \<and> st S ks (tree_blocks t' + M) q)" (is "spec_opt _ _ ?Q")
proof -
  have n: "int n - 1 = int (n - 1)" "n - 1 < length k" using assms(2,3) by (auto simp: of_nat_diff)
  show ?thesis unfolding add_outcome_m_def Let_def n(1) get_k_in(4) [OF n(2)]
  proof (rule opt_act [OF spec_put_outs [OF assms(1)]], rule opt_ex, intro opt_pure)
    fix r t' assume r: "root t' = fst r" "erase t' = put_cell (erase t) (k ! (n - 1))" "\<not> snd r \<longrightarrow> t' = t"
    show "spec_opt (st S ks (tree_blocks t' + M)) (obind (add_loop S k c s (fst r) (int (n - 1))) (\<lambda>_. once (ret (fst r)))) ?Q"
      unfolding r(1) [symmetric] add_outcome_outs_def
      by (rule opt_bind [OF opt_add_loop [OF assms(1) n(2) r(2)]], rule opt_once, rule spec_ret) blast
  qed
qed

subsection \<open>Freeing\<close>

lemma opt_read:
  assumes "(a, Outs_t u) \<in># N" and "spec_opt (st S ks N) (f u) Q"
  shows "spec_opt (st S ks N) (obind (once (get_outs a)) f) Q"
proof (rule opt_act)
  show "spec (st S ks N) (get_outs a) (\<lambda>v p. v = u \<and> st S ks N p)"
    using assms(1) st_member [of S ks N _ a "Outs_t u"] by (simp add: spec_def get_outs_def)
  fix v
  show "spec_opt (\<lambda>p. v = u \<and> st S ks N p) (f v) Q" by (rule opt_pure) (use assms(2) in simp)
qed

lemma opt_write:
  assumes "spec_opt (st S ks (add_mset (a, Outs_t (g u)) M)) m Q"
  shows "spec_opt (st S ks (add_mset (a, Outs_t u) M)) (obind (once (upd_outs a g)) (\<lambda>_. m)) Q"
  by (rule opt_act [OF spec_upd_outs]) (rule assms)

lemma opt_free_outs: "spec_opt (st S ks (tree_blocks t + M)) (free_outs S (root t)) (\<lambda>_. st S ks M)"
proof (induction t arbitrary: M)
  case ANull
  then show ?case by (simp add: spec_opt_def free_outs.simps)
next
  case (ANode a k c s n d)
  let ?u = "\<lparr>o_k = k, o_c = c, o_show = s, o_next = root n, o_down = root d\<rparr>"
  let ?N = "add_mset (a, Outs_t ?u) (tree_blocks n + tree_blocks d + M)"
  show ?case
  proof (cases "a = 0")
    case True
    then show ?thesis using st_nonzero [of S ks a "Outs_t ?u"] unfolding spec_opt_def by (auto simp: outs_block_def)
  next
    case False
    have down: "spec_opt (st S ks (tree_blocks d + add_mset (a, Outs_t ?u) M)) (obind (once (get_outs a)) (\<lambda>u.
        obind (\<lambda>z. free_outs S (o_down u) z) (\<lambda>_. once (free S a)))) (\<lambda>_. st S ks M)"
      using opt_bind [OF ANode.IH(2) opt_once [OF spec_free]] by (intro opt_read [of a ?u]) simp_all
    have "spec_opt (st S ks (tree_blocks n + (tree_blocks d + add_mset (a, Outs_t ?u) M))) (obind (once (get_outs a)) (\<lambda>u.
        obind (\<lambda>z. free_outs S (o_next u) z) (\<lambda>_. obind (once (get_outs a)) (\<lambda>u.
        obind (\<lambda>z. free_outs S (o_down u) z) (\<lambda>_. once (free S a)))))) (\<lambda>_. st S ks M)"
      using opt_bind [OF ANode.IH(1) down] by (intro opt_read [of a ?u]) simp_all
    then have "spec_opt (st S ks ?N) (\<lambda>z. free_outs S a z) (\<lambda>_. st S ks M)"
      using False by (simp add: free_outs.simps [of S a] ac_simps)
    then show ?thesis by (simp add: outs_block_def)
  qed
qed

subsection \<open>Merging\<close>

text \<open>The last write of both branches: \<open>p->next = n; return p\<close>.\<close>

lemma opt_last_link:
  assumes "Q a = (\<lambda>z. \<exists>t'. A t' \<and> st S ks (tree_blocks t' + N) z)"
    and "A (ANode a pk pv ps n' d)" and "M = tree_blocks n' + tree_blocks d + N"
    and "u = \<lparr>o_k = pk, o_c = pv, o_show = ps, o_next = x, o_down = root d\<rparr>"
  shows "spec_opt (st S ks (add_mset (a, Outs_t u) M))
    (obind (once (upd_outs a (\<lambda>u. u\<lparr>o_next := root n'\<rparr>))) (\<lambda>_. once (ret a))) Q"
proof (rule opt_write, rule opt_once, rule spec_ret)
  fix z assume "st S ks (add_mset (a, Outs_t (u\<lparr>o_next := root n'\<rparr>)) M) z"
  then show "Q a z" using assms by (auto intro!: exI [of _ "ANode a pk pv ps n' d"] simp: outs_block_def)
qed

lemma opt_bind_tree:
  assumes "spec_opt P m (\<lambda>r z. \<exists>t'. (root t' = r \<and> E t') \<and> st S ks (tree_blocks t' + N) z)"
    and f: "\<And>t'. E t' \<Longrightarrow> spec_opt (st S ks (tree_blocks t' + N)) (f (root t')) Q"
  shows "spec_opt P (obind m f) Q"
proof (rule opt_bind [OF assms(1)], rule opt_ex, rule opt_pure)
  fix r t' assume "root t' = r \<and> E t'"
  then show "spec_opt (st S ks (tree_blocks t' + N)) (f r) Q" using f [of t'] by simp
qed

lemma opt_merge:
  assumes S: "sys_ok S"
  shows "erase t = p \<Longrightarrow> erase u = q \<Longrightarrow> spec_opt (st S ks (tree_blocks t + (tree_blocks u + M))) (merge_m S (root t) (root u))
    (\<lambda>r z. \<exists>t'. (root t' = r \<and> erase t' = do_merge_outs p q) \<and> st S ks (tree_blocks t' + (tree_blocks u + M)) z)"
proof (induction p q arbitrary: t u M rule: do_merge_outs.induct)
  case (1 p q)
  let ?Q = "\<lambda>r z. \<exists>t'. (root t' = r \<and> erase t' = do_merge_outs p q) \<and> st S ks (tree_blocks t' + (tree_blocks u + M)) z"
  show ?case
  proof (cases u)
    case ANull
    then show ?thesis using 1(4,5) by (auto simp: spec_opt_def merge_m.simps do_merge_outs.simps)
  next
    case u: (ANode b qk qc qs un ud)
    let ?v = "\<lparr>o_k = qk, o_c = qc, o_show = qs, o_next = root un, o_down = root ud\<rparr>"
    have q: "q = Outs qk qc qs (erase un) (erase ud)" using 1(5) u by simp
    have U: "tree_blocks u = add_mset (b, Outs_t ?v) (tree_blocks un + tree_blocks ud)" by (simp add: u outs_block_def)
    let ?tail = "\<lambda>a u z. if o_k u = o_k ?v then
               obind (once (upd_outs a (\<lambda>u. u\<lparr>o_c := o_c u + o_c ?v, o_show := o_show u \<or> o_show ?v\<rparr>))) (\<lambda>_.
               obind (\<lambda>z. merge_m S (o_down u) (o_down ?v) z) (\<lambda>d.
               obind (once (upd_outs a (\<lambda>u. u\<lparr>o_down := d\<rparr>))) (\<lambda>_.
               obind (once (get_outs a)) (\<lambda>u.
               obind (once (get_outs b)) (\<lambda>v.
               obind (\<lambda>z. merge_m S (o_next u) (o_next v) z) (\<lambda>n.
               obind (once (upd_outs a (\<lambda>u. u\<lparr>o_next := n\<rparr>))) (\<lambda>_. once (ret a)))))))) z
             else obind (\<lambda>z. merge_m S (o_next u) b z) (\<lambda>n.
               obind (once (upd_outs a (\<lambda>u. u\<lparr>o_next := n\<rparr>))) (\<lambda>_. once (ret a))) z"
    have tail: "spec_opt (st S ks (tree_blocks t1 + (tree_blocks u + M))) (obind (once (get_outs (root t1))) (?tail (root t1))) ?Q"
      if t1: "erase t1 = put_cell p qk" for t1
    proof -
      have "put_cell p qk \<noteq> Null" by (cases p) (simp_all add: put_cell_simps)
      then obtain a pk pv ps n d where t: "t1 = ANode a pk pv ps n d" using t1 by (cases t1) auto
      note put = t1 [symmetric, unfolded t erase.simps]
      note merge = do_merge_outs.simps [of p q, unfolded q outs.case put, folded q]
      let ?u = "\<lparr>o_k = pk, o_c = pv, o_show = ps, o_next = root n, o_down = root d\<rparr>"
      have branches: "spec_opt (st S ks (tree_blocks t1 + (tree_blocks u + M))) (?tail a ?u) ?Q"
      proof (cases "pk = qk")
        case True
        let ?u1 = "\<lparr>o_k = pk, o_c = pv + qc, o_show = ps \<or> qs, o_next = root n, o_down = root d\<rparr>"
        let ?u2 = "\<lambda>d'. ?u1\<lparr>o_down := root d'\<rparr>"
        let ?M2 = "add_mset (a, Outs_t ?u1) (add_mset (b, Outs_t ?v) (tree_blocks n + tree_blocks un + M))"
        let ?M3 = "\<lambda>d'. add_mset (a, Outs_t (?u2 d')) (add_mset (b, Outs_t ?v) (tree_blocks d' + tree_blocks ud + M))"
        let ?f5 = "\<lambda>n. obind (once (upd_outs a (\<lambda>u. u\<lparr>o_next := n\<rparr>))) (\<lambda>_. once (ret a))"
        let ?f4 = "obind (once (get_outs a)) (\<lambda>u. obind (once (get_outs b)) (\<lambda>v.
            obind (\<lambda>z. merge_m S (o_next u) (o_next v) z) ?f5))"
        let ?f3 = "\<lambda>d. obind (once (upd_outs a (\<lambda>u. u\<lparr>o_down := d\<rparr>))) (\<lambda>_. ?f4)"
        have f5: "spec_opt (st S ks (tree_blocks n' + (tree_blocks un + ?M3 d'))) (?f5 (root n')) ?Q"
          if "erase d' = do_merge_outs (erase d) (erase ud)" "erase n' = do_merge_outs (erase n) (erase un)" for n' d'
          by (rule opt_mset [OF opt_last_link [of ?Q a "\<lambda>t'. root t' = a \<and> erase t' = do_merge_outs p q" S ks "tree_blocks u + M" pk "pv + qc" "ps \<or> qs" n' d' _ "?u2 d'" "root n"]])
            (rule refl, use that True merge in \<open>simp_all add: U\<close>)
        have f4: "spec_opt (st S ks (tree_blocks n + (tree_blocks un + ?M3 d'))) ?f4 ?Q"
          if d': "erase d' = do_merge_outs (erase d) (erase ud)" for d'
        proof (rule opt_read [of a "?u2 d'"], simp, rule opt_read [of b ?v], simp)
          have "spec_opt (st S ks (tree_blocks n + (tree_blocks un + ?M3 d'))) (obind (\<lambda>z. merge_m S (root n) (root un) z) ?f5) ?Q"
            by (rule opt_bind_tree [OF 1(1) [OF q put True refl refl]]) (rule f5 [OF d'])
          then show "spec_opt (st S ks (tree_blocks n + (tree_blocks un + ?M3 d')))
              (obind (\<lambda>z. merge_m S (o_next (?u2 d')) (o_next ?v) z) ?f5) ?Q"
            by simp
        qed
        have f3: "spec_opt (st S ks (tree_blocks d' + (tree_blocks ud + ?M2))) (?f3 (root d')) ?Q"
          if d': "erase d' = do_merge_outs (erase d) (erase ud)" for d'
          by (rule opt_mset [OF opt_write [OF opt_mset [OF f4 [OF d']]]]) (simp_all add: ac_simps)
        have "spec_opt (st S ks (tree_blocks d + (tree_blocks ud + ?M2))) (obind (\<lambda>z. merge_m S (root d) (root ud) z) ?f3) ?Q"
          by (rule opt_bind_tree [OF 1(2) [OF q put True refl refl]]) (rule f3)
        then have "spec_opt (st S ks (add_mset (a, Outs_t ?u1) (tree_blocks n + tree_blocks d + (tree_blocks u + M))))
            (obind (\<lambda>z. merge_m S (root d) (root ud) z) ?f3) ?Q"
          by (rule opt_mset) (simp add: U ac_simps)
        then have "spec_opt (st S ks (add_mset (a, Outs_t ?u) (tree_blocks n + tree_blocks d + (tree_blocks u + M))))
            (obind (once (upd_outs a (\<lambda>u. u\<lparr>o_c := o_c u + qc, o_show := o_show u \<or> qs\<rparr>)))
              (\<lambda>_. obind (\<lambda>z. merge_m S (root d) (root ud) z) ?f3)) ?Q"
          by (intro opt_write) simp
        moreover have "tree_blocks t1 + (tree_blocks u + M) = add_mset (a, Outs_t ?u) (tree_blocks n + tree_blocks d + (tree_blocks u + M))"
          by (simp add: t outs_block_def)
        ultimately show ?thesis using True by simp
      next
        case False
        let ?M2 = "add_mset (a, Outs_t ?u) (tree_blocks d + M)"
        let ?f = "\<lambda>n. obind (once (upd_outs a (\<lambda>u. u\<lparr>o_next := n\<rparr>))) (\<lambda>_. once (ret a))"
        have f: "spec_opt (st S ks (tree_blocks n' + (tree_blocks u + ?M2))) (?f (root n')) ?Q"
          if "erase n' = do_merge_outs (erase n) q" for n'
          by (rule opt_mset [OF opt_last_link [of ?Q a "\<lambda>t'. root t' = a \<and> erase t' = do_merge_outs p q" S ks "tree_blocks u + M" pk pv ps n' d _ ?u "root n"]])
            (rule refl, use that False merge in \<open>simp_all\<close>)
        have "spec_opt (st S ks (tree_blocks n + (tree_blocks u + ?M2))) (obind (\<lambda>z. merge_m S (root n) (root u) z) ?f) ?Q"
          by (rule opt_bind_tree [OF 1(3) [OF q put False refl 1(5)]]) (rule f)
        then show ?thesis using False by (simp add: t u outs_block_def ac_simps)
      qed
      have r: "root t1 = a" by (simp add: t)
      show ?thesis unfolding r by (rule opt_read [of a ?u]) (simp add: t outs_block_def, rule branches)
    qed
    have put: "spec_opt (st S ks (tree_blocks t + (tree_blocks u + M)))
        (obind (once (put_outs S (root t) qk)) (\<lambda>r. obind (once (get_outs (fst r))) (?tail (fst r)))) ?Q"
    proof (rule opt_act [OF spec_put_outs [OF S]], rule opt_ex, intro opt_pure)
      fix r t1 assume r: "root t1 = fst r" and t1: "erase t1 = put_cell (erase t) qk"
      show "spec_opt (st S ks (tree_blocks t1 + (tree_blocks u + M))) (obind (once (get_outs (fst r))) (?tail (fst r))) ?Q"
        unfolding r [symmetric] by (rule tail) (use t1 1(4) in simp)
    qed
    show ?thesis
    proof (cases "b = 0")
      case True
      have "\<not> st S ks (add_mset (0, Outs_t ?v) N) z" for N z using st_nonzero by blast
      then show ?thesis using True by (simp add: spec_opt_def U)
    next
      case False
      have "spec_opt (st S ks (tree_blocks t + (tree_blocks u + M))) (\<lambda>z. merge_m S (root t) b z) ?Q"
        unfolding merge_m.simps [of S "root t" b] using False put by (simp add: opt_read [of b ?v] U)
      then show ?thesis by (simp add: u)
    qed
  qed
qed

subsection \<open>The properties\<close>

text \<open>
  C4: Adding an outcome, an array that has at least \<open>n\<close> values with \<open>0 < n\<close>, to a tree in memory returns, whatever the
  allocator answers, and makes no access outside the array or to a cell that is not there; if it is not stopped by an allocation that fails, the pointer it
  returns is that of a tree with the value of the function on trees, in place of the one before, and the rest of
  memory is as it was.
\<close>

theorem add_outcome_refines:
  assumes "sys_ok S" and "0 < n" and "n \<le> length k" and "st S ks (tree_blocks t + M) p"
  shows "\<exists>r q. add_outcome_m S (root t) k (int n) c s p = Some (r, q) \<and>
    (case r of
       Inl e \<Rightarrow> e \<noteq> Undef
     | Inr a \<Rightarrow> \<exists>t'. (root t' = a \<and> erase t' = add_outcome_outs (erase t) k n c s) \<and> st S ks (tree_blocks t' + M) q)"
  using opt_add_outcome [OF assms(1-3), of ks t M c s] assms(4) unfolding spec_opt_def by blast

text \<open>The program that sums two histograms: merge the second into the first, then free the second.\<close>

definition merge_free :: "sys \<Rightarrow> int \<Rightarrow> int \<Rightarrow> int pact" where
  "merge_free S p q = obind (\<lambda>z. merge_m S p q z) (\<lambda>r. obind (\<lambda>z. free_outs S q z) (\<lambda>_. once (ret r)))"

text \<open>
  C3: Merging two trees in memory and freeing the second returns, and leaves exactly the cells of a tree with the value of the
  merge: no cell is shared between the two, lost, freed twice or used after it is freed.
\<close>

theorem merge_free_refines:
  assumes "sys_ok S" and "st S ks (tree_blocks t + (tree_blocks u + M)) p"
  shows "\<exists>r q. merge_free S (root t) (root u) p = Some (r, q) \<and>
    (case r of
       Inl e \<Rightarrow> e \<noteq> Undef
     | Inr a \<Rightarrow> \<exists>t'. (root t' = a \<and> erase t' = do_merge_outs (erase t) (erase u)) \<and> st S ks (tree_blocks t' + M) q)"
proof -
  let ?Q = "\<lambda>r z. \<exists>t'. (root t' = r \<and> erase t' = do_merge_outs (erase t) (erase u)) \<and> st S ks (tree_blocks t' + M) z"
  have "spec_opt (st S ks (tree_blocks t' + (tree_blocks u + M))) (obind (\<lambda>z. free_outs S (root u) z) (\<lambda>_. once (ret (root t')))) ?Q"
    if "erase t' = do_merge_outs (erase t) (erase u)" for t'
  proof (rule opt_bind)
    show "spec_opt (st S ks (tree_blocks t' + (tree_blocks u + M))) (\<lambda>z. free_outs S (root u) z) (\<lambda>_. st S ks (tree_blocks t' + M))"
      by (rule opt_mset [OF opt_free_outs]) (simp add: ac_simps)
  qed (rule opt_once, rule spec_ret, use that in blast)
  then have "spec_opt (st S ks (tree_blocks t + (tree_blocks u + M))) (merge_free S (root t) (root u)) ?Q"
    unfolding merge_free_def by (rule opt_bind_tree [OF opt_merge [OF assms(1) refl refl]])
  then show ?thesis using assms(2) unfolding spec_opt_def by blast
qed

text \<open>Concrete trees: the outcomes (5, 7) and (6, 7), index 1 at the top.\<close>

definition ex_tree :: atree where
  "ex_tree = ANode 1 7 0 False ANull (ANode 2 5 3 True ANull ANull)"

definition ex_tree2 :: atree where
  "ex_tree2 = ANode 3 7 0 False ANull (ANode 4 6 1 False ANull ANull)"

definition ex_heap :: "(int \<times> cell_t) list" where
  "ex_heap = [outs_block 1 7 0 False 0 2, outs_block 2 5 3 True 0 0, outs_block 3 7 0 False 0 4, outs_block 4 6 1 False 0 0]"

lemma ex_heap_st:
  "st (ex_system False 100) [] (tree_blocks ex_tree + (tree_blocks ex_tree2 + {#})) (ex_proc False\<lparr>cells := map_of ex_heap\<rparr>)"
proof -
  have "tree_blocks ex_tree + (tree_blocks ex_tree2 + {#}) = mset ex_heap"
    by (simp add: ex_tree_def ex_tree2_def ex_heap_def)
  moreover have "heap_is (map_of ex_heap) (mset ex_heap)" unfolding heap_is_mset by (simp add: ex_heap_def outs_block_def)
  ultimately show ?thesis
    by (simp add: st_def cache_blocks_def ex_system_def ex_proc_def log_chan_def) (simp add: ex_heap_def outs_block_def)
qed

theorem add_outcome_refines_witness:
  "\<exists>q t'. add_outcome_m (ex_system False 100) 1 [6, 7] 2 1 True (ex_proc False\<lparr>cells := map_of ex_heap\<rparr>) = Some (Inr 1, q) \<and>
     erase t' = add_outcome_outs (Outs 7 0 False Null (Outs 5 3 True Null Null)) [6, 7] 2 1 True \<and>
     st (ex_system False 100) [] (tree_blocks t' + tree_blocks ex_tree2) q"
proof -
  let ?r = "add_outcome_m (ex_system False 100) 1 [6, 7] 2 1 True (ex_proc False\<lparr>cells := map_of ex_heap\<rparr>)"
  have "fst (the ?r) = Inr 1" by code_simp
  moreover have "root ex_tree = 1" "erase ex_tree = Outs 7 0 False Null (Outs 5 3 True Null Null)" by (simp_all add: ex_tree_def)
  ultimately show ?thesis
    using add_outcome_refines [OF ex_system_ok, of 2 "[6, 7]" False 100 "[]" ex_tree "tree_blocks ex_tree2" "ex_proc False\<lparr>cells := map_of ex_heap\<rparr>"
      1 True] ex_heap_st by auto
qed

theorem merge_free_refines_witness:
  "\<exists>q t'. merge_free (ex_system False 100) 1 3 (ex_proc False\<lparr>cells := map_of ex_heap\<rparr>) = Some (Inr 1, q) \<and>
     erase t' = do_merge_outs (Outs 7 0 False Null (Outs 5 3 True Null Null)) (Outs 7 0 False Null (Outs 6 1 False Null Null)) \<and>
     st (ex_system False 100) [] (tree_blocks t') q"
proof -
  let ?r = "merge_free (ex_system False 100) 1 3 (ex_proc False\<lparr>cells := map_of ex_heap\<rparr>)"
  have "fst (the ?r) = Inr 1" by code_simp
  moreover have "root ex_tree = 1" "root ex_tree2 = 3" "erase ex_tree = Outs 7 0 False Null (Outs 5 3 True Null Null)"
    "erase ex_tree2 = Outs 7 0 False Null (Outs 6 1 False Null Null)" by (simp_all add: ex_tree_def ex_tree2_def)
  ultimately show ?thesis
    using merge_free_refines [OF ex_system_ok ex_heap_st] by auto
qed

end
