(* ===== verification/Spec2Isabelle.thy ===== *)
theory Spec2Isabelle
  imports Litmus_Base Rand Perm Outs Hash Affinity Sense Barriers BarrierLive Monitor Pool CStr LitmusIO CmdLine CmdLine_Facts PreSi Pte Faults OsAffinity Instance Roles SelfMod Timebase Klitmus Detached BarrierLab KvmRoles Run Cached Harness Errors Resources OutsHeap
begin

text \<open>
  The run-time library of the litmus tests, the C code under \<^verbatim>\<open>src/litmus/libdir\<close> that \<^verbatim>\<open>litmus\<close>
  copies beside every test it generates.  A test runs \<open>N\<close> threads of a small program a great number of
  times and counts the final states it observes.  The library gives the test its command line, the placement of
  its threads on processors, the random choices, the barriers between the rounds, the pool of threads,
  the tables that count outcomes, and, without an operating system, printing, page tables and fault handlers.

  \<^bold>\<open>How the parts interact.\<close>  The standard harness (\<^verbatim>\<open>_utils.c\<close>, \<^verbatim>\<open>_outs.c\<close>) parses its
  options, reads the processors it may use, gives one to every thread of every copy of the test (\<open>custom_affinity\<close>),
  starts the threads through the cache of threads, and each round permutes data with the generator, crosses
  barriers and adds the outcome to a tree, merged at the end.  The bare-metal harness (\<^verbatim>\<open>_presi.c\<close>,
  \<^verbatim>\<open>_instance.c\<close>, \<^verbatim>\<open>_main.c\<close>, \<^verbatim>\<open>_hash.c\<close>, \<^verbatim>\<open>_aarch64/kvm-*\<close>) has fixed instances of the test in one
  block of memory, gives its threads a new instance and role for each topology, and counts in hash tables.

  \<^bold>\<open>Theories.\<close>

  \<^item> \<^theory_text>\<open>Litmus_Base\<close>: word types (\<open>int\<close> is an \<open>int\<close> within 32 bits; \<open>count_t\<close> is a word of 64 bits in the standard harness and of 32 in
    the bare-metal one),
    errors as values of a sum type (\<open>Fatal\<close> for \<open>fatal\<close>, \<open>Errexit\<close> for \<open>errexit\<close>, \<open>Undefined\<close> for an access out of bounds or
    a signed overflow), checked array accesses.  The functions on trees of \<^theory_text>\<open>Outs\<close> read the array of an outcome with \<open>!\<close>,
    in range under the hypotheses of their theorems; \<^theory_text>\<open>OutsHeap\<close> has the same code with checked reads.
  \<^item> \<^theory_text>\<open>Rand\<close> (\<^verbatim>\<open>_litmus_rand.c\<close>): the generator.  \<open>rand_k\<close> draws until a draw is accepted: a partial function,
    proved total because the generator has full period.
  \<^item> \<^theory_text>\<open>Perm\<close> (\<^verbatim>\<open>_utils.c\<close>, \<^verbatim>\<open>_presi.c\<close>): random permutations, indirection arrays, the check of a shuffle.
  \<^item> \<^theory_text>\<open>Counter\<close>, \<^theory_text>\<open>Outs\<close> (\<^verbatim>\<open>_outs.c\<close>), \<^theory_text>\<open>Hash\<close> (\<^verbatim>\<open>_hash.c\<close>): the locale \<open>outcome_counter\<close> says what a table of outcomes
    promises; the tree and the hash table interpret it.  Insertion, merge, dump and comparison, the hash table
    full or not.  Counts wrap around at \<open>2 ^ 64\<close> in the tree and at \<open>2 ^ 32\<close> in the hash table, which is the bound of each theorem.
    The comparison of logs is a parameter, an equivalence on the logs that occur.
  \<^item> \<^theory_text>\<open>Affinity\<close> (\<^verbatim>\<open>_utils.c\<close>): core maps and the colouring of threads on cores; the random search for a core
    is a partial function, proved to return.
  \<^item> \<^theory_text>\<open>Sense\<close>, \<^theory_text>\<open>Barriers\<close> (\<^verbatim>\<open>_*/barrier.c\<close>): an abstract sense-reversing barrier with safety and liveness, in a
    locale, and the assembly of six architectures as programs run step by step by any number of threads, each of which
    refines it.  Memory is sequentially consistent: the fences, which make it so for these accesses, do nothing.
  \<^item> \<^theory_text>\<open>BarrierLive\<close>: on every fair schedule of the instructions of these programs, spinning and failed store-conditionals
    included, the calls return.
  \<^item> \<^theory_text>\<open>BarrierLab\<close> (\<^verbatim>\<open>_ppc/barrier_lab.c\<close>): the variant in which every thread keeps its own sense, proved to do the same as one
    that reads the shared sense, which the method of \<^theory_text>\<open>Barriers\<close> shows to be a barrier.
  \<^item> \<^theory_text>\<open>Monitor\<close> (\<^verbatim>\<open>_utils.c\<close>): the barrier and the or-flag with a mutex and a condition variable, both
    instances of the locale \<open>turn_barrier\<close>, under any interleaving with spurious wake-ups.
  \<^item> \<^theory_text>\<open>Pool\<close> (\<^verbatim>\<open>_utils.c\<close>): one-place buffers with the thread that sleeps on them, the table of tasks, the cache of threads as a
    step relation.
  \<^item> \<^theory_text>\<open>CStr\<close>: C strings as lists of characters without the final NUL, \<open>strtol\<close> and the decimal printing of \<open>printf\<close>,
    that is, what is used of the standard library.
  \<^item> \<^theory_text>\<open>LitmusIO\<close> (\<^verbatim>\<open>_litmus_io.c\<close>): printing without \<open>printf\<close>, in buffers with unspecified content.
  \<^item> \<^theory_text>\<open>CmdLine\<close>, \<^theory_text>\<open>CmdLine_Facts\<close> (\<^verbatim>\<open>_utils.c\<close>): options, numbers, lists of processors, delays and
    prefetch directives; reading is the inverse of printing.  \<open>errno\<close> is threaded through as the code has it.
  \<^item> \<^theory_text>\<open>PreSi\<close> (\<^verbatim>\<open>_presi.c\<close>): options and parameters of the bare-metal harness.
  \<^item> \<^theory_text>\<open>Pte\<close> (\<^verbatim>\<open>_aarch64/kvm-headers.h\<close>): page table entries as words of 64 bits, and the update of
    an entry, instruction by instruction, against hardware that walks the table and manages its flags at any time; the flush of the
    TLB, a function of the hypervisor's library, is a parameter with the hypothesis \<open>flush_ok\<close>.
  \<^item> \<^theory_text>\<open>Faults\<close> (\<^verbatim>\<open>_aarch64/kvm_fault_type.c\<close>, \<^verbatim>\<open>_aarch64/kvm_fault_handler.c\<close>): the faults of a thread,
    counted in 32 bits.
  \<^item> \<^theory_text>\<open>OsAffinity\<close> (\<^verbatim>\<open>_linux_affinity.c\<close>, \<^verbatim>\<open>_android8_affinity.c\<close>, \<^verbatim>\<open>_freebsd_affinity.c\<close>, \<^verbatim>\<open>_aix_affinity.c\<close>): the system calls
    are a parameter; what they promise is the hypothesis \<open>calls_ok\<close>, with a witness on a concrete system.
  \<^item> \<^theory_text>\<open>Instance\<close> (\<^verbatim>\<open>_instance.c\<close>, \<^verbatim>\<open>_main.c\<close>, \<^verbatim>\<open>_utils.c\<close>): the layout of the block of memory of the bare-metal harness and its
    initialisation, alignment of arrays by hand, the number of instances that run, and the sum of their tables.
  \<^item> \<^theory_text>\<open>Roles\<close> (\<^verbatim>\<open>_instance.c\<close>): \<open>set_role\<close>, the choice of an instance and a role by all the threads, as a step relation; of
    the barriers it calls it uses what \<^theory_text>\<open>Barriers\<close> proves.
  \<^item> \<^theory_text>\<open>KvmRoles\<close> (\<^verbatim>\<open>_instance.c\<close>, \<^verbatim>\<open>_aarch64/kvm_fault_handler.c\<close>): what \<open>set_role\<close> also writes under the hypervisor, and the
    handler of \<^theory_text>\<open>Faults\<close> on it: the steps project to those of \<^theory_text>\<open>Roles\<close>, whose results identify each thread, so that
    faults in any order reach the record of their own thread.
  \<^item> \<^theory_text>\<open>Run\<close> (\<^verbatim>\<open>_main.c\<close>): the main function, which composes \<^theory_text>\<open>PreSi\<close>, \<^theory_text>\<open>Instance\<close> and \<^theory_text>\<open>Roles\<close>: options that are accepted
    establish what \<open>set_role\<close> needs, and the totals are those of all the instances.  What the threads do is a parameter.
  \<^item> \<^theory_text>\<open>SelfMod\<close> (\<^verbatim>\<open>_find_ins.c\<close>, \<^verbatim>\<open>_prelude_size.c\<close>, \<^verbatim>\<open>_aarch64/self.c\<close>, \<^verbatim>\<open>_aarch64/presi-self.c\<close>, \<^verbatim>\<open>_aarch64/kvm-self.c\<close>):
    the search for an instruction in code, copies of code, and the lines of caches a copy has to synchronise.
  \<^item> \<^theory_text>\<open>Timebase\<close> (\<^verbatim>\<open>_ppc/timebase32.c\<close>, \<^verbatim>\<open>_utils.c\<close>, \<^verbatim>\<open>_*/kvm_timeofday.c\<close>): a counter of 64 bits read in halves while it advances, the clocks,
    and the wait for a deadline.
  \<^item> \<^theory_text>\<open>Klitmus\<close> (\<^verbatim>\<open>_x86_64/klitmus_memory_type.c\<close>): pages whose memory type is set in the kernel module; the functions
    of the kernel are parameters, and \<open>kernel_ok\<close> says what they do to the blocks of pages, the types of pages and the other objects.
  \<^item> \<^theory_text>\<open>Detached\<close> (\<^verbatim>\<open>_utils.c\<close>): detached threads and their join through a one-place buffer, on top of \<^theory_text>\<open>Pool\<close>;
    a join sleeps until it is signalled or wakes up for no reason.
  \<^item> \<^theory_text>\<open>Cached\<close> (\<^verbatim>\<open>_utils.c\<close>): tasks on cached threads, which refine detached threads: the composition of \<^theory_text>\<open>Pool\<close> and \<^theory_text>\<open>Detached\<close>.
  \<^item> \<^theory_text>\<open>Errors\<close> (\<^verbatim>\<open>_utils.c\<close>, \<^verbatim>\<open>_presi.c\<close>): the process with its memory, its error channel and the calls it makes; \<open>fatal\<close>, \<open>errexit\<close>,
    \<open>malloc_check\<close> and the wrappers of pthreads.  What a call answers is an arbitrary function of the state.  The locale
    \<open>reporter\<close> is what they need of \<open>errexit\<close>, interpreted on that of each harness: every failing call is reported.
  \<^item> \<^theory_text>\<open>Resources\<close> (\<^verbatim>\<open>_utils.c\<close>): creating and freeing monitors in any order; memory is a multiset of blocks and a specification
    names the blocks it changes.  Nothing is lost, freed twice or used after it is freed.
  \<^item> \<^theory_text>\<open>OutsHeap\<close> (\<^verbatim>\<open>_outs.c\<close>): the tree of outcomes with pointers and in-place updates refines the functions of \<^theory_text>\<open>Outs\<close>, so that
    what is proved there of trees holds of memory.
  \<^item> \<^theory_text>\<open>Harness\<close> (\<^verbatim>\<open>_utils.c\<close>): copying a file, printing the placement of threads, looking up a string.

  \<^bold>\<open>Bounds and fuel.\<close>  No definition runs on fuel.  Loops over arrays are structural or have a measure; those that
  may not end (\<open>rand_k\<close>, the searches for a core, the loops that wait for a processor or a deadline, the loops over pointers) are partial
  functions, and that they return is a theorem.  The threads of the step relations are unbounded in number, up to \<open>2 ^ 31\<close> where the
  code counts them in an \<open>int\<close>.

  \<^bold>\<open>Not modelled.\<close>  Functions that are one instruction and have no value (fences, cache maintenance), and prototypes; floating point (\<open>strtod\<close> and the arithmetic of \<open>emit_double\<close> up to its
  hundredths are parameters or left out); the functions that are generated with a test; the walk of the page tables
  and the stacks of user threads, which are the hypervisor's (\<^verbatim>\<open>_x86_64/kvm-headers.h\<close>, \<^verbatim>\<open>_aarch64/kvm_user_stacks.c\<close>); the
  tools in OCaml.
\<close>

end
